(* ===== verification/Prelude.thy ===== *)
theory Prelude
  imports
    "HOL-Library.Word"
    "HOL-Library.Multiset"
    "HOL-Library.Sublist"
    "HOL-Library.While_Combinator"
begin

text \<open>
  Shared vocabulary of the development: the machine integers of the C++ code as words, the
  byte strings that stand for its 32-byte plain-data types, the outcome type in which an
  exception, an undefined access or a loop that never ends is a value, and the lemmas on
  words and lists that more than one component uses.
\<close>

unbundle bit_operations_syntax

section \<open>Collections of facts\<close>

named_theorems outcome_simps \<open>evaluation of sequenced outcomes\<close>
named_theorems word_nat \<open>reading word operations as natural numbers\<close>

section \<open>Machine integers and plain data\<close>

type_synonym u8 = "8 word"
type_synonym u16 = "16 word"
type_synonym u32 = "32 word"
type_synonym u64 = "64 word"

text \<open>
  \<open>int64_t\<close> values are kept as 64-bit words as well and read through \<^const>\<open>sint\<close>; sizes
  (\<open>size_t\<close>) are 64-bit words where they take part in arithmetic that can wrap and natural
  numbers where they only count the elements of a container.
\<close>

type_synonym i64 = "64 word"

type_synonym bytes = "u8 list"

text \<open>
  \<open>crypto::public_key\<close>, \<open>crypto::hash\<close>, \<open>crypto::key_image\<close>, \<open>crypto::signature\<close> and the
  other plain-data types of the crypto layer are byte strings; the all-zero values
  \<open>null_pkey\<close> and \<open>null_hash\<close> have 32 bytes.
\<close>

type_synonym public_key = bytes
type_synonym secret_key = bytes
type_synonym hash = bytes
type_synonym key_image = bytes
type_synonym signature = bytes

definition null_bytes :: "nat \<Rightarrow> bytes" where
  "null_bytes n = replicate n 0"

abbreviation null_pkey :: public_key where
  "null_pkey \<equiv> null_bytes 32"

abbreviation null_hash :: hash where
  "null_hash \<equiv> null_bytes 32"

abbreviation UINT64_MAX :: u64 where
  "UINT64_MAX \<equiv> - 1"

abbreviation UINT32_MAX :: u32 where
  "UINT32_MAX \<equiv> - 1"

section \<open>Outcomes\<close>

text \<open>
  What a call does besides returning a value: it can throw \<open>std::out_of_range\<close> (the \<open>at\<close>
  accessors) or another exception, step outside a container or divide by zero (undefined
  behaviour), or never return.
\<close>

datatype fault = Out_of_range | Exception | Undefined | Diverges

type_synonym 'a outcome = "fault + 'a"

definition bindE :: "'a outcome \<Rightarrow> ('a \<Rightarrow> 'b outcome) \<Rightarrow> 'b outcome" where
  "bindE m f = (case m of Inl e \<Rightarrow> Inl e | Inr x \<Rightarrow> f x)"

lemma bindE_Inr [simp, outcome_simps]: "bindE (Inr x) f = f x"
  by (simp add: bindE_def)

lemma bindE_Inl [simp, outcome_simps]: "bindE (Inl e) f = Inl e"
  by (simp add: bindE_def)

lemma bindE_eq_Inr: "bindE m f = Inr y \<longleftrightarrow> (\<exists>x. m = Inr x \<and> f x = Inr y)"
  by (auto simp: bindE_def split: sum.splits)

lemma bindE_InrE:
  assumes "bindE m f = Inr y"
  obtains x where "m = Inr x" "f x = Inr y"
  using assms by (auto simp: bindE_eq_Inr)

lemma bindE_cong [fundef_cong]:
  "m = m' \<Longrightarrow> (\<And>x. m' = Inr x \<Longrightarrow> f x = g x) \<Longrightarrow> bindE m f = bindE m' g"
  by (auto simp: bindE_def split: sum.splits)

text \<open>\<open>xs.at(i)\<close> throws where \<open>xs[i]\<close> is undefined.\<close>

definition at_throw :: "'a list \<Rightarrow> nat \<Rightarrow> 'a outcome" where
  "at_throw xs i = (if i < length xs then Inr (xs ! i) else Inl Out_of_range)"

definition at_ub :: "'a list \<Rightarrow> nat \<Rightarrow> 'a outcome" where
  "at_ub xs i = (if i < length xs then Inr (xs ! i) else Inl Undefined)"

lemma at_throw_eq_Inr: "at_throw xs i = Inr x \<longleftrightarrow> i < length xs \<and> x = xs ! i"
  by (auto simp: at_throw_def)

lemma at_ub_eq_Inr: "at_ub xs i = Inr x \<longleftrightarrow> i < length xs \<and> x = xs ! i"
  by (auto simp: at_ub_def)

text \<open>A range-based \<open>for\<close> whose body may leave with a fault.\<close>

fun foldE :: "('a \<Rightarrow> 's \<Rightarrow> 's outcome) \<Rightarrow> 'a list \<Rightarrow> 's \<Rightarrow> 's outcome" where
  "foldE f [] s = Inr s"
| "foldE f (x # xs) s = bindE (f x s) (foldE f xs)"

lemma foldE_append: "foldE f (xs @ ys) s = bindE (foldE f xs s) (foldE f ys)"
  by (induction xs arbitrary: s) (simp_all add: bindE_def split: sum.splits)

lemma foldE_invariant:
  assumes "foldE f xs s = Inr t" and "P s"
    and "\<And>x s s'. x \<in> set xs \<Longrightarrow> P s \<Longrightarrow> f x s = Inr s' \<Longrightarrow> P s'"
  shows "P t"
  using assms
proof (induction xs arbitrary: s)
  case Nil
  then show ?case by simp
next
  case (Cons x xs)
  from Cons.prems(1) obtain s' where s': "f x s = Inr s'" "foldE f xs s' = Inr t"
    by (auto elim: bindE_InrE)
  have "P s'" using Cons.prems(2,3) s'(1) by auto
  then show ?case using Cons.IH [OF s'(2)] Cons.prems(3) by auto
qed

lemma foldE_total:
  assumes "P s"
    and "\<And>x s. x \<in> set xs \<Longrightarrow> P s \<Longrightarrow> \<exists>s'. f x s = Inr s' \<and> P s'"
  shows "\<exists>t. foldE f xs s = Inr t \<and> P t"
  using assms
proof (induction xs arbitrary: s)
  case Nil
  then show ?case by simp
next
  case (Cons x xs)
  then obtain s' where s': "f x s = Inr s'" "P s'" by (meson list.set_intros(1))
  then show ?case using Cons.IH [OF s'(2)] Cons.prems(2) by auto
qed

text \<open>
  A \<open>while\<close> loop whose body may leave with a fault; a loop that never ends is the fault
  \<^const>\<open>Diverges\<close>.
\<close>

definition whileE :: "('s \<Rightarrow> bool) \<Rightarrow> ('s \<Rightarrow> 's outcome) \<Rightarrow> 's \<Rightarrow> 's outcome" where
  "whileE b c s =
    (case while_option (\<lambda>r. case r of Inl _ \<Rightarrow> False | Inr s \<Rightarrow> b s) (\<lambda>r. bindE r c) (Inr s) of
       None \<Rightarrow> Inl Diverges
     | Some r \<Rightarrow> r)"

lemma whileE_unfold: "whileE b c s = (if b s then bindE (c s) (whileE b c) else Inr s)"
proof (cases "b s")
  case True
  show ?thesis
  proof (cases "c s")
    case (Inl e)
    with True show ?thesis
      by (simp add: whileE_def while_option_unfold [of _ _ "Inr s"] while_option_unfold [of _ _ "Inl e"])
  next
    case (Inr s')
    with True show ?thesis by (simp add: whileE_def while_option_unfold [of _ _ "Inr s"])
  qed
qed (simp add: whileE_def while_option_unfold)

lemmas whileE_code [code] = whileE_unfold

lemma whileE_invariant:
  assumes "whileE b c s = Inr t" and "P s"
    and "\<And>s s'. P s \<Longrightarrow> b s \<Longrightarrow> c s = Inr s' \<Longrightarrow> P s'"
  shows "P t \<and> \<not> b t"
proof -
  let ?b = "\<lambda>r. case r of Inl _ \<Rightarrow> False | Inr s \<Rightarrow> b s" and ?c = "\<lambda>r. bindE r c"
  from assms(1) have run: "while_option ?b ?c (Inr s) = Some (Inr t)"
    by (auto simp: whileE_def split: option.splits)
  have "case (Inr t :: 'a outcome) of Inl _ \<Rightarrow> True | Inr s \<Rightarrow> P s"
    by (rule while_option_rule [OF _ run])
      (use assms(2,3) in \<open>auto simp: bindE_def split: sum.splits\<close>)
  with while_option_stop [OF run] show ?thesis by simp
qed

lemma whileE_total:
  assumes "P s"
    and "\<And>s. P s \<Longrightarrow> b s \<Longrightarrow> \<exists>s'. c s = Inr s' \<and> P s' \<and> (f s' :: nat) < f s"
  shows "\<exists>t. whileE b c s = Inr t \<and> P t \<and> \<not> b t"
  using assms(1)
proof (induction "f s" arbitrary: s rule: less_induct)
  case less
  show ?case
  proof (cases "b s")
    case True
    with assms(2) less.prems obtain s' where "c s = Inr s'" "P s'" "f s' < f s" by blast
    with less.hyps [of s'] True show ?thesis by (simp add: whileE_unfold [of b c s])
  next
    case False
    with less.prems show ?thesis by (simp add: whileE_unfold)
  qed
qed

text \<open>Counting loops: \<open>P i\<close> holds of the state when the counter has the value \<open>i\<close>.\<close>

lemma foldE_upt:
  assumes "a \<le> b" and "P a s"
    and "\<And>i s. a \<le> i \<Longrightarrow> i < b \<Longrightarrow> P i s \<Longrightarrow> \<exists>s'. f i s = Inr s' \<and> P (Suc i) s'"
  shows "\<exists>t. foldE f [a..<b] s = Inr t \<and> P b t"
  using assms
proof (induction "b - a" arbitrary: a s)
  case 0
  then show ?case by simp
next
  case (Suc n)
  then have less: "a < b" by simp
  with Suc.prems obtain s' where s': "f a s = Inr s'" "P (Suc a) s'" by blast
  have "\<exists>t. foldE f [Suc a..<b] s' = Inr t \<and> P b t"
    by (rule Suc.hyps(1)) (use Suc.hyps(2) Suc.prems(3) less s'(2) in auto)
  with s'(1) less show ?case by (simp add: upt_conv_Cons)
qed

lemma fold_upt:
  assumes "a \<le> b" and "P a s" and "\<And>i s. a \<le> i \<Longrightarrow> i < b \<Longrightarrow> P i s \<Longrightarrow> P (Suc i) (f i s)"
  shows "P b (fold f [a..<b] s)"
  using assms
proof (induction "b - a" arbitrary: a s)
  case 0
  then show ?case by simp
next
  case (Suc n)
  then have less: "a < b" by simp
  have "P b (fold f [Suc a..<b] (f a s))"
    by (rule Suc.hyps(1)) (use Suc less in auto)
  with less show ?case by (simp add: upt_conv_Cons)
qed

section \<open>Words\<close>

lemma unat_lt_exp: "unat (x :: 'a::len word) < 2 ^ LENGTH('a)"
  by (rule unsigned_less)

lemma unat_add_less [word_nat]:
  "unat a + unat b < 2 ^ LENGTH('a) \<Longrightarrow> unat (a + b :: 'a::len word) = unat a + unat b"
  by (simp add: unat_word_ariths)

lemma unat_mult_less [word_nat]:
  "unat a * unat b < 2 ^ LENGTH('a) \<Longrightarrow> unat (a * b :: 'a::len word) = unat a * unat b"
  by (simp add: unat_word_ariths)

lemma unat_sub_le [word_nat]: "b \<le> a \<Longrightarrow> unat (a - b :: 'a::len word) = unat a - unat b"
  by (rule unat_sub)

lemma unat64_bound: "unat (x :: u64) < 18446744073709551616"
  using unsigned_less [of x] by simp

lemma unat32_bound: "unat (x :: u32) < 4294967296"
  using unsigned_less [of x] by simp

lemma unat16_bound: "unat (x :: u16) < 65536"
  using unsigned_less [of x] by simp

lemma unat8_bound: "unat (x :: u8) < 256"
  using unsigned_less [of x] by simp

lemma unat_of_nat_small: "n < 2 ^ 64 \<Longrightarrow> unat (of_nat n :: u64) = n"
  by (simp add: unat_of_nat)

lemma unat_UINT64_MAX [simp]: "unat UINT64_MAX = 18446744073709551615"
  by (simp add: unsigned_minus_1_eq_mask mask_eq_exp_minus_1)

lemma uint64_bounds: "0 \<le> uint (x :: u64)" "uint x < 18446744073709551616"
  using unsigned_less [of x] by simp_all

end
