(* ===== verification/Containers.thy ===== *)
theory Containers
  imports Prelude
begin

text \<open>
  The associative containers of the C++ library. \<open>std::map\<close> is an association list sorted by
  key, iterated in that order; \<open>std::unordered_map\<close> is an association list with distinct keys
  whose order stands for the unspecified iteration order. The locale \<open>assoc_container\<close> states
  what the clients rely on; both containers are interpretations of it.
\<close>

section \<open>The interface\<close>

locale assoc_container =
  fixes inv :: "('k \<times> 'v) list \<Rightarrow> bool"
    and upd :: "'k \<Rightarrow> 'v \<Rightarrow> ('k \<times> 'v) list \<Rightarrow> ('k \<times> 'v) list"
    and del :: "'k \<Rightarrow> ('k \<times> 'v) list \<Rightarrow> ('k \<times> 'v) list"
  assumes inv_empty: "inv []"
    and inv_upd: "inv m \<Longrightarrow> inv (upd k v m)"
    and inv_del: "inv m \<Longrightarrow> inv (del k m)"
    and inv_distinct: "inv m \<Longrightarrow> distinct (map fst m)"
    and lookup_upd: "inv m \<Longrightarrow> map_of (upd k v m) = (map_of m)(k \<mapsto> v)"
    and lookup_del: "inv m \<Longrightarrow> map_of (del k m) = (map_of m)(k := None)"
begin

lemma keys_upd:
  assumes "inv m"
  shows "fst ` set (upd k v m) = insert k (fst ` set m)"
  using lookup_upd [OF assms, of k v] dom_map_of_conv_image_fst [of "upd k v m"]
    dom_map_of_conv_image_fst [of m] by auto

lemma keys_del:
  assumes "inv m"
  shows "fst ` set (del k m) = fst ` set m - {k}"
  using lookup_del [OF assms, of k] dom_map_of_conv_image_fst [of "del k m"]
    dom_map_of_conv_image_fst [of m] by auto

lemma entries_upd:
  assumes "inv m"
  shows "set (upd k v m) = insert (k, v) {e \<in> set m. fst e \<noteq> k}"
proof -
  have "(k', v') \<in> set (upd k v m) \<longleftrightarrow> (k', v') \<in> insert (k, v) {e \<in> set m. fst e \<noteq> k}" for k' v'
    unfolding map_of_eq_Some_iff [OF inv_distinct [OF inv_upd [OF assms]], symmetric] lookup_upd [OF assms]
    by (auto simp: map_of_eq_Some_iff [OF inv_distinct [OF assms]])
  then show ?thesis by (intro set_eqI) auto
qed

lemma entries_del:
  assumes "inv m"
  shows "set (del k m) = {e \<in> set m. fst e \<noteq> k}"
proof -
  have "(k', v') \<in> set (del k m) \<longleftrightarrow> (k', v') \<in> {e \<in> set m. fst e \<noteq> k}" for k' v'
    unfolding map_of_eq_Some_iff [OF inv_distinct [OF inv_del [OF assms]], symmetric] lookup_del [OF assms]
    by (auto simp: map_of_eq_Some_iff [OF inv_distinct [OF assms]])
  then show ?thesis by (intro set_eqI) auto
qed

lemma length_upd:
  assumes "inv m"
  shows "length (upd k v m) = (if k \<in> fst ` set m then length m else Suc (length m))"
  using keys_upd [OF assms, of k v] distinct_card [OF inv_distinct [OF inv_upd [OF assms]], of k v]
    distinct_card [OF inv_distinct [OF assms]]
  by (auto simp: card_insert_if insert_absorb split: if_splits)

lemma mset_upd_fresh:
  assumes "inv m" and "k \<notin> fst ` set m"
  shows "mset (upd k v m) = add_mset (k, v) (mset m)"
proof -
  have d: "distinct m" "distinct (upd k v m)"
    using inv_distinct [OF assms(1)] inv_distinct [OF inv_upd [OF assms(1)], of k v]
    by (simp_all add: distinct_map)
  have notin: "(k, v) \<notin> set m" using assms(2) by force
  have "set (upd k v m) = insert (k, v) (set m)"
    using entries_upd [OF assms(1), of k v] assms(2) by auto
  then have "mset_set (set (upd k v m)) = add_mset (k, v) (mset_set (set m))" using notin by simp
  then show ?thesis by (simp add: mset_set_set d)
qed

lemma mset_upd:
  assumes "inv m"
  shows "mset (upd k v m) = add_mset (k, v) (mset (del k m))"
proof -
  have d: "distinct (del k m)" "distinct (upd k v m)"
    using inv_distinct [OF inv_del [OF assms], of k] inv_distinct [OF inv_upd [OF assms], of k v]
    by (simp_all add: distinct_map)
  have "set (upd k v m) = insert (k, v) (set (del k m))" "(k, v) \<notin> set (del k m)"
    using entries_upd [OF assms, of k v] entries_del [OF assms, of k] by auto
  then have "mset_set (set (upd k v m)) = add_mset (k, v) (mset_set (set (del k m)))" by simp
  then show ?thesis by (simp add: mset_set_set d)
qed

lemma mset_split:
  assumes "inv m" and "map_of m k = Some v"
  shows "mset m = add_mset (k, v) (mset (del k m))"
proof -
  have d: "distinct (del k m)" "distinct m"
    using inv_distinct [OF inv_del [OF assms(1)], of k] inv_distinct [OF assms(1)]
    by (simp_all add: distinct_map)
  have uniq: "e = (k, v)" if "e \<in> set m" "fst e = k" for e
  proof -
    have "map_of m (fst e) = Some (snd e)"
      by (rule map_of_is_SomeI [OF inv_distinct [OF assms(1)]]) (use that(1) in simp)
    with that(2) assms(2) show ?thesis by (metis option.inject prod.collapse)
  qed
  have "set m = insert (k, v) (set (del k m))"
    unfolding entries_del [OF assms(1)] using map_of_SomeD [OF assms(2)] uniq by blast
  moreover have "(k, v) \<notin> set (del k m)" unfolding entries_del [OF assms(1)] by simp
  ultimately have "mset_set (set m) = add_mset (k, v) (mset_set (set (del k m)))" by simp
  then show ?thesis by (simp add: mset_set_set d)
qed

lemma del_fresh:
  assumes "inv m" and "map_of m k = None"
  shows "mset (del k m) = mset m"
proof -
  have d: "distinct (del k m)" "distinct m"
    using inv_distinct [OF inv_del [OF assms(1)], of k] inv_distinct [OF assms(1)]
    by (simp_all add: distinct_map)
  have "set (del k m) = set m"
    using assms(2) entries_del [OF assms(1), of k] by (auto simp: map_of_eq_None_iff)
  then show ?thesis using d by (metis mset_set_set)
qed

end

section \<open>Ordered maps\<close>

abbreviation omap_inv :: "('k::linorder \<times> 'v) list \<Rightarrow> bool" where
  "omap_inv m \<equiv> sorted_wrt (<) (map fst m)"

fun omap_set :: "'k::linorder \<Rightarrow> 'v \<Rightarrow> ('k \<times> 'v) list \<Rightarrow> ('k \<times> 'v) list" where
  "omap_set k v [] = [(k, v)]"
| "omap_set k v ((k', v') # m) =
    (if k < k' then (k, v) # (k', v') # m
     else if k = k' then (k, v) # m
     else (k', v') # omap_set k v m)"

text \<open>\<open>std::map::insert\<close> leaves an existing entry alone.\<close>

definition omap_insert :: "'k::linorder \<Rightarrow> 'v \<Rightarrow> ('k \<times> 'v) list \<Rightarrow> ('k \<times> 'v) list" where
  "omap_insert k v m = (case map_of m k of None \<Rightarrow> omap_set k v m | Some _ \<Rightarrow> m)"

definition map_erase :: "'k \<Rightarrow> ('k \<times> 'v) list \<Rightarrow> ('k \<times> 'v) list" where
  "map_erase k m = filter (\<lambda>e. fst e \<noteq> k) m"

definition map_at :: "('k \<times> 'v) list \<Rightarrow> 'k \<Rightarrow> 'v outcome" where
  "map_at m k = (case map_of m k of Some v \<Rightarrow> Inr v | None \<Rightarrow> Inl Out_of_range)"

lemma keys_omap_set: "fst ` set (omap_set k v m) = insert k (fst ` set m)"
  by (induction m rule: omap_set.induct) auto

lemma omap_inv_set: "omap_inv m \<Longrightarrow> omap_inv (omap_set k v m)"
proof (induction k v m rule: omap_set.induct)
  case (2 k v k' v' m)
  then have "omap_inv m" "\<forall>x \<in> fst ` set m. k' < x" by auto
  with 2 keys_omap_set [of k v m] show ?case by (auto intro: less_trans)
qed simp

lemma omap_inv_distinct: "omap_inv m \<Longrightarrow> distinct (map fst m)"
  by (simp add: strict_sorted_iff)

lemma map_of_omap_set: "omap_inv m \<Longrightarrow> map_of (omap_set k v m) = (map_of m)(k \<mapsto> v)"
  by (induction k v m rule: omap_set.induct) (auto simp: fun_upd_twist)

lemma omap_inv_erase: "omap_inv m \<Longrightarrow> omap_inv (map_erase k m)"
  by (induction m) (auto simp: map_erase_def)

lemma map_of_erase: "map_of (map_erase k m) = (map_of m)(k := None)"
  by (induction m) (auto simp: map_erase_def fun_eq_iff)

interpretation omap: assoc_container omap_inv omap_set map_erase
  by unfold_locales
    (simp_all add: omap_inv_set omap_inv_erase omap_inv_distinct map_of_omap_set map_of_erase)

section \<open>Unordered maps\<close>

abbreviation umap_inv :: "('k \<times> 'v) list \<Rightarrow> bool" where
  "umap_inv m \<equiv> distinct (map fst m)"

fun umap_set :: "'k \<Rightarrow> 'v \<Rightarrow> ('k \<times> 'v) list \<Rightarrow> ('k \<times> 'v) list" where
  "umap_set k v [] = [(k, v)]"
| "umap_set k v ((k', v') # m) = (if k = k' then (k, v) # m else (k', v') # umap_set k v m)"

lemma keys_umap_set: "fst ` set (umap_set k v m) = insert k (fst ` set m)"
  by (induction m rule: umap_set.induct) auto

lemma umap_inv_set: "umap_inv m \<Longrightarrow> umap_inv (umap_set k v m)"
proof (induction k v m rule: umap_set.induct)
  case (2 k v k' v' m)
  with keys_umap_set [of k v m] show ?case by auto
qed simp

lemma map_of_umap_set: "map_of (umap_set k v m) = (map_of m)(k \<mapsto> v)"
  by (induction k v m rule: umap_set.induct) (auto simp: fun_upd_twist)

lemma umap_inv_erase: "umap_inv m \<Longrightarrow> umap_inv (map_erase k m)"
  by (induction m) (auto simp: map_erase_def)

interpretation umap: assoc_container umap_inv umap_set map_erase
  by unfold_locales (simp_all add: umap_inv_set umap_inv_erase map_of_umap_set map_of_erase)

end
