(* ===== verification/Mt_Random.thy ===== *)
theory Mt_Random
  imports Prelude
begin

text \<open>
  The portable random choices of \<open>common/random.cpp\<close> and \<open>common/random.h\<close>. The definitions take
  the generator as a record of its seeding and stepping functions; \<open>mt19937_64\<close> is the generator
  the code uses, as the C++ standard defines it. The lemmas hold for every generator; those that
  say that a choice is made at all need it to be fair, i.e.\ to produce a value below $2^{63}$
  again and again.
\<close>

section \<open>Generators\<close>

record 'g rng =
  rng_init :: "u64 \<Rightarrow> 'g"
  rng_next :: "'g \<Rightarrow> u64 \<times> 'g"

text \<open>
  The 64-bit Mersenne twister: the state is the vector of 312 words and the number of words
  already handed out.
\<close>

type_synonym mt_state = "u64 list \<times> nat"

fun mt_seed_words :: "nat \<Rightarrow> u64 \<Rightarrow> nat \<Rightarrow> u64 list" where
  "mt_seed_words 0 x i = []"
| "mt_seed_words (Suc n) x i =
    x # mt_seed_words n (6364136223846793005 * (x XOR drop_bit 62 x) + of_nat (Suc i)) (Suc i)"

definition mt_seed :: "u64 \<Rightarrow> mt_state" where
  "mt_seed seed = (mt_seed_words 312 seed 0, 312)"

definition mt_twist_step :: "nat \<Rightarrow> u64 list \<Rightarrow> u64 list" where
  "mt_twist_step i mt =
    (let x = (mt ! i AND 0xFFFFFFFF80000000) OR (mt ! ((i + 1) mod 312) AND 0x7FFFFFFF);
         xA = (if x AND 1 = 0 then drop_bit 1 x else drop_bit 1 x XOR 0xB5026F5AA96619E9)
     in mt[i := mt ! ((i + 156) mod 312) XOR xA])"

definition mt_temper :: "u64 \<Rightarrow> u64" where
  "mt_temper x =
    (let x = x XOR (drop_bit 29 x AND 0x5555555555555555);
         x = x XOR (push_bit 17 x AND 0x71D67FFFEDA60000);
         x = x XOR (push_bit 37 x AND 0xFFF7EEE000000000)
     in x XOR drop_bit 43 x)"

definition mt_next :: "mt_state \<Rightarrow> u64 \<times> mt_state" where
  "mt_next = (\<lambda>(mt, index).
    let (mt, index) = (if 312 \<le> index then (fold mt_twist_step [0..<312] mt, 0) else (mt, index))
    in (mt_temper (mt ! index), (mt, Suc index)))"

definition mt19937_64 :: "mt_state rng" where
  "mt19937_64 = \<lparr>rng_init = mt_seed, rng_next = mt_next\<rparr>"

section \<open>Portable choices\<close>

text \<open>
  \<open>rng.max()\<close> is $2^{64} - 1$. The loop that discards values at or above \<open>secureMax\<close> ends only
  if the generator produces a smaller one.
\<close>

definition secure_max :: "u64 \<Rightarrow> u64" where
  "secure_max n = UINT64_MAX - UINT64_MAX mod n"

definition uniform_distribution_portable :: "'g rng \<Rightarrow> 'g \<Rightarrow> u64 \<Rightarrow> (u64 \<times> 'g) outcome" where
  "uniform_distribution_portable R g n =
    (if n = 0 then Inl Undefined
     else
       let secureMax = secure_max n
       in bindE (whileE (\<lambda>(x, g). secureMax \<le> x) (\<lambda>(x, g). Inr (rng_next R g)) (rng_next R g))
            (\<lambda>(x, g). Inr (x div (secureMax div n), g)))"

definition swap_list :: "nat \<Rightarrow> nat \<Rightarrow> 'a list \<Rightarrow> 'a list" where
  "swap_list i j xs = xs[i := xs ! j, j := xs ! i]"

definition shuffle_portable :: "'g rng \<Rightarrow> 'a list \<Rightarrow> u64 \<Rightarrow> 'a list outcome" where
  "shuffle_portable R xs seed =
    (if length xs \<le> 1 then Inr xs
     else
       bindE (foldE (\<lambda>i (xs, g).
           bindE (uniform_distribution_portable R g (of_nat (i + 1))) (\<lambda>(j, g).
           Inr (swap_list i (unat j) xs, g)))
         [1..<length xs] (xs, rng_init R seed))
       (\<lambda>(xs, g). Inr xs))"

section \<open>Fair generators\<close>

definition nth_state :: "'g rng \<Rightarrow> nat \<Rightarrow> 'g \<Rightarrow> 'g" where
  "nth_state R k g = ((\<lambda>g. snd (rng_next R g)) ^^ k) g"

definition fair :: "'g rng \<Rightarrow> bool" where
  "fair R \<longleftrightarrow> (\<forall>g. \<exists>k. fst (rng_next R (nth_state R k g)) < 0x8000000000000000)"

lemma secure_max_nat:
  assumes "0 < n"
  shows "unat (secure_max n) = unat n * (18446744073709551615 div unat n)"
    and "0x8000000000000000 \<le> secure_max n"
proof -
  let ?M = "18446744073709551615 :: nat"
  have n: "0 < unat n" "unat n \<le> ?M"
    using assms unat64_bound [of n] by (simp_all add: unat_gt_0 word_greater_zero_iff)
  have "UINT64_MAX mod n \<le> UINT64_MAX" by simp
  then have "unat (secure_max n) = ?M - ?M mod unat n"
    unfolding secure_max_def by (subst unat_sub) (simp_all only: unat_mod unat_UINT64_MAX)
  then show eq: "unat (secure_max n) = unat n * (?M div unat n)"
    by (simp only: minus_mod_eq_mult_div)
  have "9223372036854775808 \<le> unat n * (?M div unat n)"
  proof (cases "unat n \<le> 9223372036854775808")
    case True
    have "?M mod unat n < unat n" using n by simp
    moreover have "unat n * (?M div unat n) + ?M mod unat n = ?M" by simp
    ultimately show ?thesis using True by linarith
  next
    case False
    then have "?M div unat n = 1" using n by (simp add: div_nat_eqI)
    with False show ?thesis by simp
  qed
  then show "0x8000000000000000 \<le> secure_max n" by (simp add: word_le_nat_alt eq)
qed

lemma scaled_choice_less:
  assumes "0 < n" and "x < secure_max n"
  shows "x div (secure_max n div n) < n"
proof -
  let ?q = "18446744073709551615 div unat n"
  have n: "0 < unat n" using assms(1) by (simp add: unat_gt_0 word_greater_zero_iff)
  have "unat (secure_max n div n) = ?q" using n by (simp add: unat_div secure_max_nat [OF assms(1)])
  moreover have "unat x < unat n * ?q"
    using assms(2) by (simp add: word_less_nat_alt secure_max_nat [OF assms(1)])
  ultimately show ?thesis
    by (simp add: word_less_nat_alt unat_div less_mult_imp_div_less)
qed

lemma uniform_less:
  assumes "uniform_distribution_portable R g n = Inr (x, g')"
  shows "x < n"
proof -
  from assms obtain y where n: "n \<noteq> 0"
    and run: "whileE (\<lambda>(x, g). secure_max n \<le> x) (\<lambda>(x, g). Inr (rng_next R g)) (rng_next R g) = Inr (y, g')"
    and x: "x = y div (secure_max n div n)"
    by (auto simp: uniform_distribution_portable_def Let_def elim!: bindE_InrE split: if_splits)
  from whileE_invariant [OF run, of "\<lambda>_. True"] have "y < secure_max n" by simp
  with n show ?thesis unfolding x by (intro scaled_choice_less) (simp_all add: word_greater_zero_iff)
qed

lemma discard_loop_ends:
  assumes "fst (rng_next R (nth_state R k g)) < s"
  shows "\<exists>y g'. whileE (\<lambda>(x, g). s \<le> x) (\<lambda>(x, g). Inr (rng_next R g)) (rng_next R g) = Inr (y, g')"
  using assms
proof (induction k arbitrary: g)
  case 0
  obtain x g1 where "rng_next R g = (x, g1)" by fastforce
  with 0 show ?case by (auto simp: nth_state_def whileE_unfold [of _ _ "(x, g1)"])
next
  case (Suc k)
  obtain x g1 where g1: "rng_next R g = (x, g1)" by fastforce
  have "fst (rng_next R (nth_state R k g1)) < s"
    using Suc.prems by (simp add: nth_state_def funpow_Suc_right g1 del: funpow.simps)
  from Suc.IH [OF this] show ?case
    by (simp add: g1 whileE_unfold [of _ _ "(x, g1)"])
qed

lemma uniform_returns:
  assumes "fair R" and "0 < n"
  obtains x g' where "uniform_distribution_portable R g n = Inr (x, g')" "x < n"
proof -
  from assms(1) obtain k where "fst (rng_next R (nth_state R k g)) < 0x8000000000000000"
    by (auto simp: fair_def)
  then have "fst (rng_next R (nth_state R k g)) < secure_max n"
    using secure_max_nat(2) [OF assms(2)] by (rule less_le_trans)
  from discard_loop_ends [OF this] obtain x g' where
    "uniform_distribution_portable R g n = Inr (x, g')"
    using assms(2) by (auto simp: uniform_distribution_portable_def Let_def word_greater_zero_iff)
  with uniform_less [OF this] that show thesis by blast
qed

lemma mset_swap_list: "i < length xs \<Longrightarrow> j < length xs \<Longrightarrow> mset (swap_list i j xs) = mset xs"
  by (simp add: swap_list_def mset_swap)

lemma length_swap_list [simp]: "length (swap_list i j xs) = length xs"
  by (simp add: swap_list_def)

lemma swap_list_append:
  "i < length xs \<Longrightarrow> j < length xs \<Longrightarrow> swap_list i j (xs @ [x]) = swap_list i j xs @ [x]"
  by (simp add: swap_list_def list_update_append nth_append)

lemma shuffle_mset:
  fixes R :: "'g rng" and xs :: "'a list"
  assumes "shuffle_portable R xs seed = Inr ys" and "length xs < 2 ^ 64"
  shows "mset ys = mset xs"
proof (cases "length xs \<le> 1")
  case True
  with assms(1) show ?thesis by (simp add: shuffle_portable_def)
next
  case False
  let ?f = "\<lambda>i (xs, g). bindE (uniform_distribution_portable R g (of_nat (i + 1))) (\<lambda>(j, g).
           Inr (swap_list i (unat j) xs, g))"
  from assms(1) False obtain g where run: "foldE ?f [1..<length xs] (xs, rng_init R seed) = Inr (ys, g)"
    by (auto simp: shuffle_portable_def elim!: bindE_InrE)
  have "case (ys, g) of (zs, _) \<Rightarrow> mset zs = mset xs"
  proof (rule foldE_invariant [OF run])
    fix i and s s' :: "'a list \<times> 'g"
    assume i: "i \<in> set [1..<length xs]" and P: "case s of (zs, _) \<Rightarrow> mset zs = mset xs"
      and step: "?f i s = Inr s'"
    obtain zs g0 where s: "s = (zs, g0)" by (cases s)
    then have len: "length zs = length xs" using P by (auto dest: mset_eq_length)
    from step s obtain j g1 where j: "uniform_distribution_portable R g0 (of_nat (i + 1)) = Inr (j, g1)"
      and s': "s' = (swap_list i (unat j) zs, g1)" by (auto elim!: bindE_InrE)
    have "unat j < unat (of_nat (i + 1) :: u64)" using uniform_less [OF j] by (simp add: word_less_nat_alt)
    also have "unat (of_nat (i + 1) :: u64) = i + 1"
      by (rule unat_of_nat_small) (use i assms(2) in auto)
    also have "\<dots> \<le> length xs" using i by auto
    finally have "unat j < length zs" using len by simp
    with i len P s show "case s' of (zs, _) \<Rightarrow> mset zs = mset xs"
      by (simp add: s' mset_swap_list)
  qed simp
  then show ?thesis by simp
qed

lemma shuffle_returns:
  fixes R :: "'g rng" and xs :: "'a list"
  assumes "fair R" and "length xs < 2 ^ 64"
  obtains ys where "shuffle_portable R xs seed = Inr ys" "mset ys = mset xs"
proof -
  let ?f = "\<lambda>i (xs, g). bindE (uniform_distribution_portable R g (of_nat (i + 1))) (\<lambda>(j, g).
           Inr (swap_list i (unat j) xs, g))"
  have "\<exists>r. foldE ?f [1..<length xs] (xs, rng_init R seed) = Inr r \<and> True"
  proof (rule foldE_total)
    fix i and s :: "'a list \<times> 'g"
    assume i: "i \<in> set [1..<length xs]"
    obtain zs g where s: "s = (zs, g)" by (cases s)
    have "unat (of_nat (i + 1) :: u64) = i + 1"
      by (rule unat_of_nat_small) (use i assms(2) in auto)
    then have "0 < (of_nat (i + 1) :: u64)" by (simp only: word_less_nat_alt) simp
    then obtain x g' where "uniform_distribution_portable R g (of_nat (i + 1)) = Inr (x, g')"
      by (rule uniform_returns [OF assms(1)])
    then show "\<exists>s'. ?f i s = Inr s' \<and> True" unfolding s prod.case by simp
  qed simp
  then obtain zs g where "foldE ?f [1..<length xs] (xs, rng_init R seed) = Inr (zs, g)" by fastforce
  then have "\<exists>ys. shuffle_portable R xs seed = Inr ys"
    unfolding shuffle_portable_def by (cases "length xs \<le> 1") simp_all
  then obtain ys where "shuffle_portable R xs seed = Inr ys" by blast
  with shuffle_mset [OF this assms(2)] that show thesis by blast
qed

section \<open>Scripted generators\<close>

text \<open>A generator that hands out the values of a list, and then zeros.\<close>

definition script_rng :: "u64 list \<Rightarrow> u64 list rng" where
  "script_rng script =
    \<lparr>rng_init = (\<lambda>_. script), rng_next = (\<lambda>xs. case xs of [] \<Rightarrow> (0, []) | x # xs \<Rightarrow> (x, xs))\<rparr>"

lemma script_rng_simps [simp]:
  "rng_init (script_rng script) seed = script"
  "rng_next (script_rng script) (x # xs) = (x, xs)" "rng_next (script_rng script) [] = (0, [])"
  by (simp_all add: script_rng_def)

text \<open>The first values that a generator hands out.\<close>

definition outputs :: "'g rng \<Rightarrow> 'g \<Rightarrow> nat \<Rightarrow> u64 list" where
  "outputs R g m = map (\<lambda>i. fst (rng_next R (nth_state R i g))) [0..<m]"

lemma nth_state_simps: "nth_state R 0 g = g" "nth_state R (Suc k) g = nth_state R k (snd (rng_next R g))"
  by (simp_all add: nth_state_def funpow_Suc_right del: funpow.simps(2))

lemma outputs_Suc: "outputs R g (Suc m) = fst (rng_next R g) # outputs R (snd (rng_next R g)) m"
  unfolding outputs_def map_upt_Suc by (simp add: nth_state_simps)

text \<open>One value of the generator: accepted, it decides the choice; otherwise the next one does.\<close>

lemma secure_max_pos: "n \<noteq> 0 \<Longrightarrow> 0 < secure_max n"
  using secure_max_nat(2) [of n] less_le_trans [of 0 "0x8000000000000000" "secure_max n"] by (simp add: word_greater_zero_iff)

lemma uniform_unfold:
  assumes "n \<noteq> 0"
  shows "uniform_distribution_portable R g n =
    (let (x, g1) = rng_next R g
     in if x < secure_max n then Inr (x div (secure_max n div n), g1) else uniform_distribution_portable R g1 n)"
proof -
  obtain x g1 where g1: "rng_next R g = (x, g1)" by fastforce
  show ?thesis
    using assms
    by (cases "x < secure_max n") (simp_all add: uniform_distribution_portable_def Let_def g1 not_less [symmetric] whileE_unfold [of _ _ "(x, g1)"])
qed

lemma uniform_accepted:
  assumes "n \<noteq> 0" and "rng_next R g = (x, g1)" and "x < secure_max n"
  shows "uniform_distribution_portable R g n = Inr (x div (secure_max n div n), nth_state R (Suc 0) g)"
    and "uniform_distribution_portable (script_rng s) (outputs R g (Suc 0) @ ys) n = Inr (x div (secure_max n div n), ys)"
  using assms(2,3)
  by (subst uniform_unfold [OF assms(1)], simp add: nth_state_simps outputs_Suc outputs_def [of _ _ 0])+

text \<open>The choice of any fair generator is the one made on the values that it handed out.\<close>

lemma uniform_outputs:
  assumes "n \<noteq> 0" and "fst (rng_next R (nth_state R k g)) < secure_max n"
  shows "\<exists>x m. uniform_distribution_portable R g n = Inr (x, nth_state R (Suc m) g) \<and>
    uniform_distribution_portable (script_rng s) (outputs R g (Suc m) @ ys) n = Inr (x, ys)"
  using assms(2)
proof (induction k arbitrary: g)
  case 0
  obtain x g1 where g1: "rng_next R g = (x, g1)" by fastforce
  then have "x < secure_max n" using 0 by (simp add: nth_state_simps)
  then show ?case using uniform_accepted [OF assms(1) g1] by blast
next
  case (Suc k)
  obtain x g1 where g1: "rng_next R g = (x, g1)" by fastforce
  show ?case
  proof (cases "x < secure_max n")
    case True
    then show ?thesis using uniform_accepted [OF assms(1) g1] by blast
  next
    case False
    have "fst (rng_next R (nth_state R k g1)) < secure_max n" using Suc.prems by (simp add: nth_state_simps g1)
    from Suc.IH [OF this] obtain y m where m: "uniform_distribution_portable R g1 n = Inr (y, nth_state R (Suc m) g1)"
      "uniform_distribution_portable (script_rng s) (outputs R g1 (Suc m) @ ys) n = Inr (y, ys)" by blast
    have "uniform_distribution_portable R g n = Inr (y, nth_state R (Suc (Suc m)) g)"
      using False m(1) by (subst uniform_unfold [OF assms(1)]) (simp add: g1 nth_state_simps)
    moreover have "uniform_distribution_portable (script_rng s) (outputs R g (Suc (Suc m)) @ ys) n = Inr (y, ys)"
      using False m(2) by (subst uniform_unfold [OF assms(1)]) (simp add: g1 outputs_Suc [of _ _ "Suc m"])
    ultimately show ?thesis by blast
  qed
qed

text \<open>Which scripts lead to the choice \<open>k\<close> with their last value.\<close>

lemma script_choice:
  assumes "n \<noteq> 0"
  shows "uniform_distribution_portable (script_rng s) (xs @ y # ys) n = Inr (k, y # ys) \<longleftrightarrow>
    (\<exists>us x. xs = us @ [x] \<and> (\<forall>u \<in> set us. secure_max n \<le> u) \<and> x < secure_max n \<and> x div (secure_max n div n) = k)"
proof (induction xs)
  case Nil
  have len: "length g' < length g \<or> g' = []" if "uniform_distribution_portable (script_rng s) g n = Inr (j, g')" for g g' j
    using that
  proof (induction g)
    case Nil
    then show ?case using secure_max_pos [OF assms] by (subst (asm) uniform_unfold [OF assms]) simp
  next
    case (Cons x g)
    then show ?case by (subst (asm) uniform_unfold [OF assms]) (auto split: if_splits)
  qed
  show ?case using len [of "y # ys" k "y # ys"] by auto
next
  case (Cons x xs)
  have eq: "uniform_distribution_portable (script_rng s) ((x # xs) @ y # ys) n =
    (if x < secure_max n then Inr (x div (secure_max n div n), xs @ y # ys)
     else uniform_distribution_portable (script_rng s) (xs @ y # ys) n)"
    by (subst uniform_unfold [OF assms]) simp
  show ?case
  proof (cases "x < secure_max n")
    case True
    then show ?thesis unfolding eq by (auto simp: Cons_eq_append_conv)
  next
    case False
    then show ?thesis unfolding eq using Cons.IH by (auto simp: Cons_eq_append_conv not_less)
  qed
qed


section \<open>Quality of the choices\<close>

lemma card_quotient_class:
  assumes "k < n" and "0 < (q :: nat)"
  shows "card {x. x < n * q \<and> x div q = k} = q"
proof -
  have "{x. x < n * q \<and> x div q = k} = {k * q..<k * q + q}"
  proof (intro set_eqI iffI)
    fix x assume "x \<in> {x. x < n * q \<and> x div q = k}"
    then show "x \<in> {k * q..<k * q + q}"
      using assms(2) dividend_less_div_times [of q x] by (auto simp: mult.commute)
  next
    fix x assume x: "x \<in> {k * q..<k * q + q}"
    then have "x div q = k" using assms(2) by (intro div_nat_eqI) (auto simp: algebra_simps)
    moreover have "k * q + q \<le> n * q" using assms(1) mult_le_mono1 [of "Suc k" n q] by simp
    ultimately show "x \<in> {x. x < n * q \<and> x div q = k}" using x by auto
  qed
  then show ?thesis by simp
qed

text \<open>Every result of a choice has the same number of accepted values.\<close>

lemma card_accepted:
  fixes n k :: u64
  assumes "k < n"
  shows "card {x. x < secure_max n \<and> x div (secure_max n div n) = k} = 18446744073709551615 div unat n"
proof -
  define q where "q = unat (secure_max n div n)"
  have pos: "0 < n" using assms by (simp add: word_greater_zero_iff) (metis assms word_not_simps(1))
  have n: "0 < unat n" "unat n < 18446744073709551616"
    using pos unat64_bound [of n] by (simp_all add: unat_gt_0 word_greater_zero_iff)
  have q: "q = 18446744073709551615 div unat n"
    using n by (simp add: q_def unat_div secure_max_nat [OF pos])
  then have sm: "unat (secure_max n) = unat n * q" by (simp add: secure_max_nat [OF pos])
  have "0 < q" using n by (simp add: q div_greater_zero_iff)
  have img: "unat ` {x. x < secure_max n \<and> x div (secure_max n div n) = k} =
      {y. y < unat n * q \<and> y div q = unat k}"
  proof (intro set_eqI iffI)
    fix y assume "y \<in> unat ` {x. x < secure_max n \<and> x div (secure_max n div n) = k}"
    then obtain x where x: "y = unat x" "x < secure_max n" "k = x div (secure_max n div n)" by blast
    have "unat k = y div q" by (simp only: x unat_div [of x] q_def)
    with x show "y \<in> {y. y < unat n * q \<and> y div q = unat k}"
      by (simp add: word_less_nat_alt sm)
  next
    fix y assume y: "y \<in> {y. y < unat n * q \<and> y div q = unat k}"
    then have y64: "y < 2 ^ 64" using unat64_bound [of "secure_max n"] by (simp add: sm)
    then have u: "unat (of_nat y :: u64) = y" by (rule unat_of_nat_small)
    have "(of_nat y :: u64) < secure_max n" using y by (simp add: word_less_nat_alt sm u)
    moreover have "unat (of_nat y div (secure_max n div n)) = y div q"
      by (simp only: unat_div [of "of_nat y"] u q_def)
    then have "of_nat y div (secure_max n div n) = k"
      using y by (simp add: word_eq_iff_unsigned [where 'a = nat])
    ultimately show "y \<in> unat ` {x. x < secure_max n \<and> x div (secure_max n div n) = k}"
      by (intro image_eqI [of _ _ "of_nat y"]) (simp_all add: u)
  qed
  have "inj_on unat {x :: u64. x < secure_max n \<and> x div (secure_max n div n) = k}"
    by (simp add: inj_on_def word_eq_iff_unsigned [where 'a = nat])
  then have "card {x. x < secure_max n \<and> x div (secure_max n div n) = k} =
      card {y. y < unat n * q \<and> y div q = unat k}"
    unfolding img [symmetric] by (rule card_image [symmetric])
  also have "\<dots> = q" using assms \<open>0 < q\<close> by (intro card_quotient_class) (simp_all add: word_less_nat_alt)
  finally show ?thesis by (simp add: q)
qed

lemma card_rejected:
  assumes "n \<noteq> 0"
  shows "card {x. secure_max n \<le> x} = 18446744073709551616 - unat n * (18446744073709551615 div unat n)"
proof -
  have "{x. secure_max n \<le> x} = word_of_nat ` {unat (secure_max n)..<2 ^ 64}"
  proof (intro set_eqI iffI)
    fix x assume "x \<in> {x. secure_max n \<le> x}"
    then show "x \<in> word_of_nat ` {unat (secure_max n)..<2 ^ 64}"
      using unat64_bound [of x] by (intro image_eqI [of _ _ "unat x"]) (simp_all add: word_le_nat_alt)
  next
    fix x :: u64 assume "x \<in> word_of_nat ` {unat (secure_max n)..<2 ^ 64}"
    then show "x \<in> {x. secure_max n \<le> x}" using unat_of_nat_small by (auto simp: word_le_nat_alt)
  qed
  moreover have "inj_on (word_of_nat :: nat \<Rightarrow> u64) {unat (secure_max n)..<2 ^ 64}"
    by (rule inj_on_inverseI [where g = unat]) (auto intro: unat_of_nat_small)
  ultimately show ?thesis using assms by (simp add: card_image secure_max_nat word_greater_zero_iff)
qed

text \<open>Lists with one element of each of a row of sets.\<close>

lemma card_pattern:
  assumes "\<And>i. i < m \<Longrightarrow> finite (A i)"
  shows "finite {zs. length zs = m \<and> (\<forall>i < m. zs ! i \<in> A i)} \<and>
    card {zs. length zs = m \<and> (\<forall>i < m. zs ! i \<in> A i)} = (\<Prod>i < m. card (A i))"
  using assms
proof (induction m)
  case 0
  then show ?case by (simp add: Collect_conv_if)
next
  case (Suc m)
  let ?Z = "{zs. length zs = m \<and> (\<forall>i < m. zs ! i \<in> A i)}"
  have "{zs. length zs = Suc m \<and> (\<forall>i < Suc m. zs ! i \<in> A i)} = (\<lambda>(zs, z). zs @ [z]) ` (?Z \<times> A m)"
  proof (intro set_eqI iffI)
    fix zs assume zs: "zs \<in> {zs. length zs = Suc m \<and> (\<forall>i < Suc m. zs ! i \<in> A i)}"
    then have "zs = butlast zs @ [zs ! m]" by (metis (mono_tags) append_butlast_last_id diff_Suc_1 last_conv_nth list.size(3) mem_Collect_eq nat.simps(3))
    moreover have "butlast zs \<in> ?Z" using zs by (auto simp: nth_butlast)
    ultimately show "zs \<in> (\<lambda>(zs, z). zs @ [z]) ` (?Z \<times> A m)" using zs by (intro image_eqI [of _ _ "(butlast zs, zs ! m)"]) auto
  qed (auto simp: nth_append less_Suc_eq)
  moreover have "inj_on (\<lambda>(zs, z). zs @ [z]) (?Z \<times> A m)" by (auto simp: inj_on_def)
  ultimately show ?case using Suc by (simp add: card_image card_cartesian_product)
qed

text \<open>
  The swaps of \<open>shuffle_portable\<close> with given draws: position \<open>i\<close> is exchanged with the draw
  \<open>js i \<le> i\<close>. \<open>shuffle_script\<close> below shows that the function performs them.
\<close>

definition shuffle_with :: "(nat \<Rightarrow> nat) \<Rightarrow> 'a list \<Rightarrow> 'a list" where
  "shuffle_with js xs = fold (\<lambda>i. swap_list i (js i)) [1..<length xs] xs"

lemma fold_swap_append:
  assumes "\<forall>i \<in> {1..<n}. js i \<le> i" and "n \<le> length xs"
  shows "fold (\<lambda>i. swap_list i (js i)) [1..<n] (xs @ [x]) = fold (\<lambda>i. swap_list i (js i)) [1..<n] xs @ [x]
    \<and> length (fold (\<lambda>i. swap_list i (js i)) [1..<n] xs) = length xs"
  using assms
proof (induction n)
  case 0
  then show ?case by simp
next
  case (Suc n)
  then have IH: "fold (\<lambda>i. swap_list i (js i)) [1..<n] (xs @ [x]) = fold (\<lambda>i. swap_list i (js i)) [1..<n] xs @ [x]"
    "length (fold (\<lambda>i. swap_list i (js i)) [1..<n] xs) = length xs" by auto
  show ?case
  proof (cases "n = 0")
    case False
    then have "js n \<le> n" using Suc.prems(1) by auto
    with IH Suc.prems(2) False show ?thesis by (simp add: swap_list_append)
  qed simp
qed

text \<open>Every arrangement is reached by some draws.\<close>

lemma shuffle_with_surj:
  assumes "mset ys = mset xs"
  shows "\<exists>js. (\<forall>i \<in> {1..<length xs}. js i \<le> i) \<and> shuffle_with js xs = ys"
  using assms
proof (induction xs arbitrary: ys rule: rev_induct)
  case Nil
  then show ?case by (simp add: shuffle_with_def)
next
  case (snoc x xs)
  let ?n = "length xs"
  have len: "length ys = Suc ?n" using snoc.prems by (metis length_append_singleton size_mset)
  then obtain j where j: "j \<le> ?n" "ys ! j = x"
    using snoc.prems by (metis in_set_conv_nth less_Suc_eq_le mset_eq_setD in_set_conv_decomp)
  define zs where "zs = swap_list ?n j ys"
  have zs: "length zs = Suc ?n" "mset zs = mset ys" "zs ! ?n = x"
    using len j by (auto simp: zs_def mset_swap_list, auto simp: swap_list_def nth_list_update)
  then have split: "zs = butlast zs @ [x]"
    by (metis append_butlast_last_id diff_Suc_1 last_conv_nth length_0_conv nat.simps(3))
  then have "mset (butlast zs) = mset xs"
    using zs(2) snoc.prems by (metis add_mset_add_single add_right_cancel mset.simps(1) mset.simps(2) mset_append)
  from snoc.IH [OF this] obtain js where js: "\<forall>i \<in> {1..<?n}. js i \<le> i" "shuffle_with js xs = butlast zs"
    by blast
  let ?js = "js(?n := j)"
  have same: "fold (\<lambda>i. swap_list i (?js i)) [1..<?n] ws = fold (\<lambda>i. swap_list i (js i)) [1..<?n] ws" for ws
    by (rule fold_cong) auto
  have "swap_list ?n j zs = ys"
    using len j by (auto simp: zs_def swap_list_def intro!: nth_equalityI simp: nth_list_update)
  then have "shuffle_with ?js (xs @ [x]) = ys"
  proof (cases "?n = 0")
    case True
    with len j zs split show ?thesis
      by (simp add: shuffle_with_def) (metis Suc_length_conv append_Nil butlast_snoc le_zero_eq length_0_conv nth_Cons_0)
  next
    case False
    have "fold (\<lambda>i. swap_list i (js i)) [1..<?n] (xs @ [x]) = zs"
      using fold_swap_append [OF js(1) order_refl, of x] js(2) split by (simp add: shuffle_with_def)
    moreover have "[1..<length (xs @ [x])] = [1..<?n] @ [?n]" using False by (cases xs) auto
    ultimately show ?thesis
      using \<open>swap_list ?n j zs = ys\<close> unfolding shuffle_with_def
      by (simp only: fold_append comp_apply same fold.simps id_apply fun_upd_same)
  qed
  moreover have "\<forall>i \<in> {1..<length (xs @ [x])}. ?js i \<le> i" using js(1) j(1) by auto
  ultimately show ?case by blast
qed

text \<open>And by no others, when the elements are distinct.\<close>

lemma shuffle_with_inj:
  assumes "distinct xs" and "\<forall>i \<in> {1..<length xs}. js i \<le> i \<and> js' i \<le> i" and "shuffle_with js xs = shuffle_with js' xs"
    and "i \<in> {1..<length xs}"
  shows "js i = js' i"
  using assms
proof (induction xs arbitrary: i rule: rev_induct)
  case (snoc x xs)
  let ?n = "length xs" and ?f = "\<lambda>js. fold (\<lambda>i. swap_list i (js i)) [1..<length xs] xs"
  have n: "0 < ?n" using snoc.prems(4) by auto
  have "?n \<in> {1..<length (xs @ [x])}" using n by (simp add: Suc_le_eq)
  then have le: "js ?n \<le> ?n" "js' ?n \<le> ?n" "\<forall>i \<in> {1..<?n}. js i \<le> i" "\<forall>i \<in> {1..<?n}. js' i \<le> i"
    using bspec [OF snoc.prems(2), of ?n] snoc.prems(2) by auto
  have step: "shuffle_with js (xs @ [x]) = swap_list ?n (js ?n) (?f js @ [x])" "length (?f js) = ?n"
    if "\<forall>i \<in> {1..<?n}. js i \<le> i" for js
  proof -
    have "[1..<length (xs @ [x])] = [1..<?n] @ [?n]" using n by (cases xs) auto
    then show "shuffle_with js (xs @ [x]) = swap_list ?n (js ?n) (?f js @ [x])" "length (?f js) = ?n"
      using fold_swap_append [OF that order_refl, of x] by (simp_all add: shuffle_with_def del: upt_Suc)
  qed
  have mem: "set (?f js) = set xs" if "\<forall>i \<in> {1..<?n}. js i \<le> i" for js
  proof -
    have "mset (fold (\<lambda>i. swap_list i (js i)) is ws) = mset ws" if "\<forall>i \<in> set is. i < length ws \<and> js i \<le> i" for "is" and ws :: "'a list"
      using that by (induction "is" arbitrary: ws) (auto simp: mset_swap_list)
    from this [of "[1..<?n]" xs] that show ?thesis by (metis atLeastLessThan_iff mset_eq_setD set_upt)
  qed
  have at: "swap_list ?n j (ws @ [x]) ! k = x \<longleftrightarrow> k = j" if "j \<le> ?n" "k \<le> ?n" "length ws = ?n" "x \<notin> set ws" for j k ws
  proof -
    have "ws ! i \<noteq> x" if "i < ?n" for i using that \<open>length ws = ?n\<close> \<open>x \<notin> set ws\<close> nth_mem by metis
    then show ?thesis using that by (auto simp: swap_list_def nth_list_update nth_append)
  qed
  have x: "x \<notin> set xs" using snoc.prems(1) by simp
  have same: "swap_list ?n (js ?n) (?f js @ [x]) = swap_list ?n (js' ?n) (?f js' @ [x])"
    using snoc.prems(3) step(1) [OF le(3)] step(1) [OF le(4)] by simp
  have last: "js ?n = js' ?n"
    using at [OF le(1) le(1) step(2) [OF le(3)]] at [OF le(2) le(1) step(2) [OF le(4)]] mem [OF le(3)] mem [OF le(4)] x
    unfolding same by simp
  have undo: "swap_list ?n j (swap_list ?n j ws) = ws" if "j \<le> ?n" "length ws = Suc ?n" for j and ws :: "'a list"
    using that by (auto simp: swap_list_def intro!: nth_equalityI simp: nth_list_update)
  have "?f js @ [x] = ?f js' @ [x]"
    using arg_cong [OF same, of "swap_list ?n (js ?n)"] undo [of "js ?n"] le(1) step(2) [OF le(3)] step(2) [OF le(4)] last by simp
  then have "shuffle_with js xs = shuffle_with js' xs" by (simp add: shuffle_with_def)
  then show ?case using snoc.IH [of i] snoc.prems(1,2,4) last by (cases "i = ?n") auto
qed simp

text \<open>What \<open>shuffle_portable\<close> does with accepted values: the draws are their quotients.\<close>

lemma shuffle_script:
  assumes "length xs < 2 ^ 64" and "length zs = length xs - 1" and "\<forall>i < length zs. zs ! i < secure_max (word_of_nat (i + 2))"
  shows "shuffle_portable (script_rng zs) xs seed =
    Inr (shuffle_with (\<lambda>i. unat (zs ! (i - 1) div (secure_max (word_of_nat (i + 1)) div word_of_nat (i + 1)))) xs)"
proof (cases "length xs \<le> 1")
  case True
  then show ?thesis by (simp add: shuffle_portable_def shuffle_with_def)
next
  case False
  let ?f = "\<lambda>i (xs, g). bindE (uniform_distribution_portable (script_rng zs) g (of_nat (i + 1))) (\<lambda>(j, g).
           Inr (swap_list i (unat j) xs, g))"
  let ?js = "\<lambda>i. unat (zs ! (i - 1) div (secure_max (word_of_nat (i + 1)) div word_of_nat (i + 1)))"
  have "foldE ?f [1..<k] (xs, zs) = Inr (fold (\<lambda>i. swap_list i (?js i)) [1..<k] xs, drop (k - 1) zs)" if "1 \<le> k" "k \<le> length xs" for k
    using that
  proof (induction k)
    case (Suc k)
    show ?case
    proof (cases "k = 0")
      case False
      then have k: "k - 1 < length zs" using Suc.prems(2) assms(2) by simp
      have "unat (of_nat (k + 1) :: u64) = k + 1" by (rule unat_of_nat_small) (use Suc.prems assms(1) in simp)
      then have nz: "(of_nat (k + 1) :: u64) \<noteq> 0" by (metis add_is_0 one_neq_zero unat_0)
      have d: "drop (k - 1) zs = zs ! (k - 1) # drop k zs" using k Cons_nth_drop_Suc [OF k] False by simp
      have "zs ! (k - 1) < secure_max (of_nat (k + 1))" using assms(3) k False by (metis Suc_diff_1 add_2_eq_Suc' add_Suc_right add.right_neutral One_nat_def neq0_conv)
      then have "uniform_distribution_portable (script_rng zs) (drop (k - 1) zs) (of_nat (k + 1)) =
          Inr (zs ! (k - 1) div (secure_max (of_nat (k + 1)) div of_nat (k + 1)), drop k zs)"
        unfolding d by (subst uniform_unfold [OF nz]) (simp only: script_rng_simps Let_def prod.case if_True)
      moreover have "[1..<Suc k] = [1..<k] @ [k]" using False by simp
      ultimately show ?thesis using Suc False by (simp add: foldE_append del: upt_Suc of_nat_Suc of_nat_add)
    qed simp
  qed simp
  from this [of "length xs"] False show ?thesis
    by (simp add: shuffle_portable_def shuffle_with_def)
qed


text \<open>The scripts that lead to an arrangement.\<close>

lemma shuffle_scripts:
  fixes xs ys :: "'a list"
  assumes "length xs < 2 ^ 64" and "distinct xs" and "mset ys = mset xs"
  shows "card {zs. length zs = length xs - 1 \<and> (\<forall>i < length zs. zs ! i < secure_max (word_of_nat (i + 2))) \<and>
      shuffle_portable (script_rng zs) xs seed = Inr ys} = (\<Prod>i < length xs - 1. 18446744073709551615 div (i + 2))"
proof -
  let ?N = "length xs - 1" and ?n = "\<lambda>i. word_of_nat (i + 2) :: u64"
  let ?draw = "\<lambda>zs i. unat (zs ! (i - 1) div (secure_max (word_of_nat (i + 1)) div word_of_nat (i + 1)))"
  obtain js where js: "\<forall>i \<in> {1..<length xs}. js i \<le> i" "shuffle_with js xs = ys"
    using shuffle_with_surj [OF assms(3)] by blast
  let ?A = "\<lambda>i. {z. z < secure_max (?n i) \<and> z div (secure_max (?n i) div ?n i) = word_of_nat (js (i + 1))}"
  have un: "unat (?n i) = i + 2" if "i < ?N" for i by (rule unat_of_nat_small) (use that assms(1) in linarith)
  have uj: "unat (word_of_nat (js (i + 1)) :: u64) = js (i + 1)" "js (i + 1) \<le> i + 1" if "i < ?N" for i
  proof -
    show le: "js (i + 1) \<le> i + 1" using that by (intro bspec [OF js(1)]) auto
    show "unat (word_of_nat (js (i + 1)) :: u64) = js (i + 1)" by (rule unat_of_nat_small) (use le that assms(1) in linarith)
  qed
  have pos: "0 < ?n i" if "i < ?N" for i by (simp only: word_less_nat_alt un [OF that] unat_0)
  have "shuffle_portable (script_rng zs) xs seed = Inr ys \<longleftrightarrow> (\<forall>i < ?N. zs ! i \<in> ?A i)"
    if len: "length zs = ?N" and acc: "\<forall>i < length zs. zs ! i < secure_max (?n i)" for zs
  proof -
    have draw: "?draw zs (i + 1) = unat (zs ! i div (secure_max (?n i) div ?n i))" for i by (simp add: algebra_simps)
    have le: "?draw zs i \<le> i" if "i \<in> {1..<length xs}" for i
    proof -
      have i: "i - 1 < ?N" "i - 1 + 1 = i" using that by auto
      have "zs ! (i - 1) div (secure_max (?n (i - 1)) div ?n (i - 1)) < ?n (i - 1)"
        using scaled_choice_less [OF pos [OF i(1)]] acc i(1) len by simp
      then show ?thesis using draw [of "i - 1"] un [OF i(1)] i(2) by (simp add: word_less_nat_alt)
    qed
    have "shuffle_portable (script_rng zs) xs seed = Inr (shuffle_with (?draw zs) xs)"
      by (rule shuffle_script [OF assms(1) len acc])
    also have "\<dots> = Inr ys \<longleftrightarrow> (\<forall>i \<in> {1..<length xs}. ?draw zs i = js i)"
    proof
      assume "Inr (shuffle_with (?draw zs) xs) = Inr ys"
      then have eq: "shuffle_with (?draw zs) xs = shuffle_with js xs" using js(2) by simp
      have "\<forall>i \<in> {1..<length xs}. ?draw zs i \<le> i \<and> js i \<le> i" using js(1) le by blast
      from shuffle_with_inj [OF assms(2) this eq] show "\<forall>i \<in> {1..<length xs}. ?draw zs i = js i" by (rule ballI)
    next
      assume eq: "\<forall>i \<in> {1..<length xs}. ?draw zs i = js i"
      have "shuffle_with (?draw zs) xs = shuffle_with js xs"
        unfolding shuffle_with_def by (rule fold_cong) (use eq in auto)
      then show "Inr (shuffle_with (?draw zs) xs) = Inr ys" using js(2) by simp
    qed
    also have "\<dots> \<longleftrightarrow> (\<forall>i < ?N. ?draw zs (i + 1) = js (i + 1))"
    proof -
      have "{1..<length xs} = (\<lambda>i. i + 1) ` {..<?N}" by (cases xs) (auto simp: image_iff Suc_le_eq gr0_conv_Suc lessThan_def)
      then show ?thesis by auto
    qed
    also have "\<dots> \<longleftrightarrow> (\<forall>i < ?N. zs ! i \<in> ?A i)"
      unfolding draw using uj(1) acc len by (auto simp: word_unat_eq_iff [where 'a = 64])
    finally show ?thesis .
  qed
  then have "{zs. length zs = ?N \<and> (\<forall>i < length zs. zs ! i < secure_max (?n i)) \<and> shuffle_portable (script_rng zs) xs seed = Inr ys} =
    {zs. length zs = ?N \<and> (\<forall>i < ?N. zs ! i \<in> ?A i)}" by (intro Collect_cong) auto
  moreover have "card (?A i) = 18446744073709551615 div (i + 2)" if "i < ?N" for i
    using card_accepted [of "word_of_nat (js (i + 1))" "?n i"] un [OF that] uj [OF that] by (simp add: word_less_nat_alt)
  ultimately show ?thesis using card_pattern [of ?N ?A] by simp
qed

section \<open>Properties\<close>

text \<open>
  (C32) With a fair generator \<open>uniform_distribution_portable\<close> returns a number below \<open>n\<close>, the one it
  would return for the values that the generator has handed out, and leaves the generator right behind
  them. The choice is unbiased: however many values it uses up, every result below \<open>n\<close> comes from the
  same number of sequences of values.
\<close>

theorem uniform_distribution_correct:
  assumes "fair R" and "0 < n"
  shows "(\<exists>x m. uniform_distribution_portable R g n = Inr (x, nth_state R (Suc m) g) \<and> x < n \<and>
      uniform_distribution_portable (script_rng s) (outputs R g (Suc m) @ [y]) n = Inr (x, [y])) \<and>
    (\<forall>k < n. card {xs. length xs = Suc m \<and> uniform_distribution_portable (script_rng s) (xs @ [y]) n = Inr (k, [y])} =
      (18446744073709551616 - unat n * (18446744073709551615 div unat n)) ^ m * (18446744073709551615 div unat n))"
proof
  have n: "n \<noteq> 0" using assms(2) by auto
  from assms(1) obtain k where "fst (rng_next R (nth_state R k g)) < 0x8000000000000000" by (auto simp: fair_def)
  then have "fst (rng_next R (nth_state R k g)) < secure_max n"
    using secure_max_nat(2) [OF assms(2)] by (rule less_le_trans)
  from uniform_outputs [OF n this, of s "[y]"] obtain x j where
    "uniform_distribution_portable R g n = Inr (x, nth_state R (Suc j) g)"
    "uniform_distribution_portable (script_rng s) (outputs R g (Suc j) @ [y]) n = Inr (x, [y])" by blast
  then show "\<exists>x m. uniform_distribution_portable R g n = Inr (x, nth_state R (Suc m) g) \<and> x < n \<and>
      uniform_distribution_portable (script_rng s) (outputs R g (Suc m) @ [y]) n = Inr (x, [y])"
    using uniform_less by (intro exI [of _ x] exI [of _ j] conjI) assumption+
  show "\<forall>k < n. card {xs. length xs = Suc m \<and> uniform_distribution_portable (script_rng s) (xs @ [y]) n = Inr (k, [y])} =
      (18446744073709551616 - unat n * (18446744073709551615 div unat n)) ^ m * (18446744073709551615 div unat n)"
  proof (intro allI impI)
    fix k assume k: "k < n"
    let ?A = "\<lambda>i. if i < m then {x. secure_max n \<le> x} else {x. x < secure_max n \<and> x div (secure_max n div n) = k}"
    have "(\<exists>us x. xs = us @ [x] \<and> (\<forall>u \<in> set us. secure_max n \<le> u) \<and> x < secure_max n \<and> x div (secure_max n div n) = k) \<longleftrightarrow>
        (\<forall>i < Suc m. xs ! i \<in> ?A i)" if len: "length xs = Suc m" for xs
    proof -
      obtain us x where xs: "xs = us @ [x]" "length us = m" using len by (cases xs rule: rev_cases) auto
      show ?thesis by (simp add: xs nth_append All_less_Suc all_set_conv_all_nth conj_ac)
    qed
    then have "{xs. length xs = Suc m \<and> uniform_distribution_portable (script_rng s) (xs @ [y]) n = Inr (k, [y])} =
      {xs. length xs = Suc m \<and> (\<forall>i < Suc m. xs ! i \<in> ?A i)}"
      unfolding script_choice [OF n] by (intro Collect_cong conj_cong) simp_all
    then show "card {xs. length xs = Suc m \<and> uniform_distribution_portable (script_rng s) (xs @ [y]) n = Inr (k, [y])} =
      (18446744073709551616 - unat n * (18446744073709551615 div unat n)) ^ m * (18446744073709551615 div unat n)"
      using card_pattern [of "Suc m" ?A] card_accepted [OF k] card_rejected [OF n] by (simp del: not_less)
  qed
qed


text \<open>
  (C31) With a fair generator \<open>shuffle_portable\<close> returns, and its result is a rearrangement of the
  input. The shuffle is unbiased: every rearrangement of distinct elements is the result for the same
  number of sequences of accepted values, one for each position after the first; in particular every
  rearrangement is reached.
\<close>

theorem shuffle_portable_correct:
  assumes "fair R" and "length xs < 2 ^ 64"
  shows "(\<exists>ys. shuffle_portable R xs seed = Inr ys \<and> mset ys = mset xs) \<and>
    (distinct xs \<longrightarrow> (\<forall>ys. mset ys = mset xs \<longrightarrow>
      card {zs. length zs = length xs - 1 \<and> (\<forall>i < length zs. zs ! i < secure_max (word_of_nat (i + 2))) \<and>
        shuffle_portable (script_rng zs) xs seed = Inr ys} = (\<Prod>i < length xs - 1. 18446744073709551615 div (i + 2))))"
proof (intro conjI impI allI)
  show "\<exists>ys. shuffle_portable R xs seed = Inr ys \<and> mset ys = mset xs" using shuffle_returns [OF assms, of seed] by blast
qed (rule shuffle_scripts [OF assms(2)])

section \<open>A small generator\<close>

definition counter_rng :: "u64 rng" where
  "counter_rng = \<lparr>rng_init = (\<lambda>seed. seed), rng_next = (\<lambda>g. (g, g + 1))\<rparr>"

lemma fair_counter_rng: "fair counter_rng"
proof -
  have step: "nth_state counter_rng k g = g + of_nat k" for k g
    by (induction k) (simp_all add: nth_state_def counter_rng_def algebra_simps)
  have "fst (rng_next counter_rng (nth_state counter_rng (unat (- g)) g)) = 0" for g
    by (simp add: step) (simp add: counter_rng_def)
  moreover have "(0 :: u64) < 0x8000000000000000" by simp
  ultimately show ?thesis unfolding fair_def by metis
qed

theorem uniform_distribution_correct_witness:
  "(\<exists>x m. uniform_distribution_portable counter_rng 7 10 = Inr (x, nth_state counter_rng (Suc m) 7) \<and> x < 10) \<and>
    card {xs. length xs = 2 \<and> uniform_distribution_portable (script_rng []) (xs @ [0]) 10 = Inr (3, [0])} = 6 * 1844674407370955161"
proof -
  have pos: "(0 :: u64) < 10" and k: "(3 :: u64) < 10" and two: "Suc 1 = 2" by simp_all
  have num: "(18446744073709551616 - unat (10 :: u64) * (18446744073709551615 div unat (10 :: u64))) ^ 1 *
      (18446744073709551615 div unat (10 :: u64)) = 6 * 1844674407370955161" by simp
  note u = uniform_distribution_correct [OF fair_counter_rng pos, of 7 "[]" 0 1]
  show ?thesis
    using conjunct1 [OF u] conjunct2 [OF u, unfolded num two, THEN spec, THEN mp, OF k] by blast
qed

theorem shuffle_portable_correct_witness:
  "(\<exists>ys. shuffle_portable counter_rng ''abc'' 5 = Inr ys \<and> mset ys = mset ''abc'') \<and>
    card {zs. length zs = 2 \<and> (\<forall>i < length zs. zs ! i < secure_max (word_of_nat (i + 2))) \<and>
      shuffle_portable (script_rng zs) ''abc'' 5 = Inr ''cab''} = 9223372036854775807 * 6148914691236517205"
proof -
  have len: "length ''abc'' < 2 ^ 64" "length ''abc'' - 1 = 2" and d: "distinct ''abc''" and p: "mset ''cab'' = mset ''abc''" by simp_all
  have num: "(\<Prod>i < 2. 18446744073709551615 div (i + 2)) = (9223372036854775807 * 6148914691236517205 :: nat)"
  proof -
    have "{..<2 :: nat} = {0, 1}" by auto
    then show ?thesis by (simp del: add_2_eq_Suc add_2_eq_Suc')
  qed
  note s = shuffle_portable_correct [OF fair_counter_rng len(1), of 5, unfolded len(2)]
  from conjunct1 [OF s] conjunct2 [OF s, THEN mp, OF d, THEN spec, THEN mp, OF p, unfolded num] show ?thesis by (rule conjI)
qed

end
