(* ===== verification/Swarm.thy ===== *)
theory Swarm
  imports Containers Mt_Random
begin

text \<open>
  The assignment of service nodes to storage swarms, \<open>cryptonote_core/service_node_swarm.cpp\<close>:
  the choice of a new swarm id, the pool of excess nodes, the creation of swarms and the whole
  round \<open>calc_swarm_changes\<close>. The swarm map is a \<open>std::map\<close>. The random generator is a
  parameter, and so is the order in which \<open>std::sort\<close> leaves swarms of equal size, which the
  standard does not determine.
\<close>

section \<open>Definitions\<close>

type_synonym swarm_map = "(u64 \<times> public_key list) list"

record swarm_size =
  sw_id :: u64
  sw_size :: nat

record excess_pool_snode =
  ep_key :: public_key
  ep_swarm :: u64

definition MIN_SWARM_SIZE :: nat where "MIN_SWARM_SIZE = 5"
definition IDEAL_SWARM_MARGIN :: nat where "IDEAL_SWARM_MARGIN = 2"
definition IDEAL_SWARM_SIZE :: nat where "IDEAL_SWARM_SIZE = MIN_SWARM_SIZE + IDEAL_SWARM_MARGIN"
definition EXCESS_BASE :: nat where "EXCESS_BASE = MIN_SWARM_SIZE"
definition NEW_SWARM_SIZE :: nat where "NEW_SWARM_SIZE = IDEAL_SWARM_SIZE"
definition FILL_SWARM_LOWER_PERCENTILE :: u64 where "FILL_SWARM_LOWER_PERCENTILE = 25"
definition DECOMMISSIONED_REDISTRIBUTION_LOWER_PERCENTILE :: u64 where
  "DECOMMISSIONED_REDISTRIBUTION_LOWER_PERCENTILE = 0"
definition STEALING_SWARM_UPPER_PERCENTILE :: u64 where "STEALING_SWARM_UPPER_PERCENTILE = 75"
definition UNASSIGNED_SWARM_ID :: u64 where "UNASSIGNED_SWARM_ID = UINT64_MAX"

definition MAX_ID :: u64 where "MAX_ID = UINT64_MAX - 1"

text \<open>The loop over neighbouring ids, with the largest distance and its index so far.\<close>

definition farthest_gap :: "u64 list \<Rightarrow> u64 \<times> nat" where
  "farthest_gap all_ids =
    fold (\<lambda>idx (max_dist, best_idx).
        let dist = all_ids ! (idx + 1) - all_ids ! idx
        in if max_dist < dist then (dist, idx) else (max_dist, best_idx))
      [0..<length all_ids - 1] (0, 0)"

definition get_new_swarm_id :: "swarm_map \<Rightarrow> u64" where
  "get_new_swarm_id swarm_to_snodes =
    (if swarm_to_snodes = [] then 0
     else if length swarm_to_snodes = 1 then MAX_ID div 2
     else
       let all_ids = sort (map fst swarm_to_snodes);
           (max_dist, best_idx) = farthest_gap all_ids;
           dist = MAX_ID - last all_ids + hd all_ids + 1;
           (max_dist, best_idx) = (if max_dist < dist then (dist, length all_ids - 1)
                                   else (max_dist, best_idx));
           diff = max_dist div 2;
           to_max = MAX_ID - all_ids ! best_idx
       in if to_max < diff then diff - to_max - 1 else all_ids ! best_idx + diff)"

definition calc_excess :: "swarm_map \<Rightarrow> nat" where
  "calc_excess swarm_to_snodes =
    fold (\<lambda>(_, snodes) result. result + (length snodes - EXCESS_BASE)) swarm_to_snodes 0"

definition calc_threshold :: "swarm_map \<Rightarrow> nat" where
  "calc_threshold swarm_to_snodes = NEW_SWARM_SIZE + length swarm_to_snodes * IDEAL_SWARM_MARGIN"

definition pick_from_excess_pool ::
  "'g rng \<Rightarrow> excess_pool_snode list \<Rightarrow> 'g \<Rightarrow> (excess_pool_snode \<times> 'g) outcome" where
  "pick_from_excess_pool R excess_pool mt =
    bindE (uniform_distribution_portable R mt (of_nat (length excess_pool))) (\<lambda>(idx, mt).
    bindE (at_throw excess_pool (unat idx)) (\<lambda>sn. Inr (sn, mt)))"

definition remove_excess_snode_from_swarm :: "excess_pool_snode \<Rightarrow> swarm_map \<Rightarrow> swarm_map outcome" where
  "remove_excess_snode_from_swarm excess_snode swarm_to_snodes =
    bindE (map_at swarm_to_snodes (ep_swarm excess_snode)) (\<lambda>snodes.
      Inr (omap_set (ep_swarm excess_snode) (removeAll (ep_key excess_snode) snodes) swarm_to_snodes))"

text \<open>The pool and the excess; below the minimum the variable \<open>excess\<close> keeps its value.\<close>

definition get_excess_pool :: "nat \<Rightarrow> swarm_map \<Rightarrow> nat \<Rightarrow> excess_pool_snode list \<times> nat" where
  "get_excess_pool threshold swarm_to_snodes excess =
    (if threshold < MIN_SWARM_SIZE then ([], excess)
     else
       fold (\<lambda>(id, snodes) (pool, excess).
           if threshold < length snodes
           then (pool @ map (\<lambda>pk. \<lparr>ep_key = pk, ep_swarm = id\<rparr>) snodes,
                 excess + (length snodes - MIN_SWARM_SIZE))
           else (pool, excess))
         swarm_to_snodes ([], 0))"

definition has_starving_swarms :: "swarm_map \<Rightarrow> bool" where
  "has_starving_swarms swarm_to_snodes = list_ex (\<lambda>(_, snodes). length snodes < MIN_SWARM_SIZE) swarm_to_snodes"

text \<open>
  The inner loop of \<open>create_new_swarm_from_excess\<close>, on (nodes taken, swarms, generator, the
  early return was taken).
\<close>

definition collect_new_swarm ::
  "'g rng \<Rightarrow> swarm_map \<times> 'g \<Rightarrow> (public_key list \<times> swarm_map \<times> 'g \<times> bool) outcome" where
  "collect_new_swarm R = (\<lambda>(swarm_to_snodes, mt).
    whileE (\<lambda>(new_snodes, _, _, returned). \<not> returned \<and> length new_snodes < NEW_SWARM_SIZE)
      (\<lambda>(new_snodes, m, mt, _).
        let (pool, _) = get_excess_pool EXCESS_BASE m 0
        in if pool = [] then Inr (new_snodes, m, mt, True)
           else
             bindE (pick_from_excess_pool R pool mt) (\<lambda>(sn, mt).
             bindE (remove_excess_snode_from_swarm sn m) (\<lambda>m.
             Inr (new_snodes @ [ep_key sn], m, mt, False))))
      ([], swarm_to_snodes, mt, False))"

definition create_new_swarm_from_excess :: "'g rng \<Rightarrow> swarm_map \<Rightarrow> 'g \<Rightarrow> (swarm_map \<times> 'g) outcome" where
  "create_new_swarm_from_excess R swarm_to_snodes mt =
    (if has_starving_swarms swarm_to_snodes then Inr (swarm_to_snodes, mt)
     else
       bindE (whileE (\<lambda>(m, _, returned). \<not> returned \<and> calc_threshold m \<le> calc_excess m)
           (\<lambda>(m, mt, _).
             bindE (collect_new_swarm R (m, mt)) (\<lambda>(new_snodes, m, mt, returned).
             if returned then Inr (m, mt, True)
             else Inr (omap_insert (get_new_swarm_id m) new_snodes m, mt, False)))
           (swarm_to_snodes, mt, False))
         (\<lambda>(m, mt, _). Inr (m, mt)))"

definition calc_swarm_sizes :: "(swarm_size list \<Rightarrow> swarm_size list) \<Rightarrow> swarm_map \<Rightarrow> swarm_size list" where
  "calc_swarm_sizes srt swarm_to_snodes =
    srt (map (\<lambda>(id, snodes). \<lparr>sw_id = id, sw_size = length snodes\<rparr>) swarm_to_snodes)"

definition percentile_index :: "u64 \<Rightarrow> nat \<Rightarrow> nat" where
  "percentile_index percentile n = unat (percentile * (of_nat n - 1) div 100)"

text \<open>The last index whose swarm is no larger than \<open>value\<close>, searching from \<open>i\<close>.\<close>

definition upper_index :: "swarm_size list \<Rightarrow> nat \<Rightarrow> nat \<Rightarrow> nat" where
  "upper_index sizes i0 value =
    (case find (\<lambda>i. value < sw_size (sizes ! i)) [i0..<length sizes] of
       Some i \<Rightarrow> i - 1
     | None \<Rightarrow> length sizes - 1)"

definition assign_snode ::
  "'g rng \<Rightarrow> (swarm_size list \<Rightarrow> swarm_size list) \<Rightarrow> u64 \<Rightarrow> public_key \<Rightarrow> swarm_map \<times> 'g \<Rightarrow>
    (swarm_map \<times> 'g) outcome" where
  "assign_snode R srt percentile sn_pk = (\<lambda>(m, mt).
    let sizes = calc_swarm_sizes srt m;
        idx = percentile_index percentile (length sizes)
    in bindE (at_throw sizes idx) (\<lambda>p.
       let upper = upper_index sizes idx (sw_size p)
       in bindE (uniform_distribution_portable R mt (of_nat upper + 1)) (\<lambda>(random_idx, mt).
          bindE (at_ub sizes (unat random_idx)) (\<lambda>sw.
          bindE (map_at m (sw_id sw)) (\<lambda>snodes.
          create_new_swarm_from_excess R (omap_set (sw_id sw) (snodes @ [sn_pk]) m) mt)))))"

definition assign_snodes ::
  "'g rng \<Rightarrow> (swarm_size list \<Rightarrow> swarm_size list) \<Rightarrow> public_key list \<Rightarrow> swarm_map \<Rightarrow> 'g \<Rightarrow> u64 \<Rightarrow>
    (swarm_map \<times> 'g) outcome" where
  "assign_snodes R srt snode_pubkeys swarm_to_snodes mt percentile =
    foldE (assign_snode R srt percentile) snode_pubkeys (swarm_to_snodes, mt)"

text \<open>
  One donation to the swarm \<open>sid\<close>: (swarms, generator, excess was insufficient). The sizes are
  those before the round.
\<close>

definition steal_one ::
  "'g rng \<Rightarrow> swarm_size list \<Rightarrow> u64 \<Rightarrow> swarm_map \<times> 'g \<times> bool \<Rightarrow> (swarm_map \<times> 'g \<times> bool) outcome" where
  "steal_one R sizes sid = (\<lambda>(m, mt, _).
    bindE (at_throw sizes (percentile_index STEALING_SWARM_UPPER_PERCENTILE (length sizes))) (\<lambda>p.
    let percentile_value = (if sw_size p = 0 then 18446744073709551615 else sw_size p - 1);
        percentile_value = max MIN_SWARM_SIZE percentile_value;
        (pool, excess) = get_excess_pool percentile_value m 0
    in bindE (map_at m sid) (\<lambda>poor.
       let deficit = (if length poor \<le> MIN_SWARM_SIZE then MIN_SWARM_SIZE - length poor
                      else 18446744073709551616 + MIN_SWARM_SIZE - length poor)
       in if excess < deficit then Inr (m, mt, True)
          else
            bindE (pick_from_excess_pool R pool mt) (\<lambda>(sn, mt).
            bindE (remove_excess_snode_from_swarm sn m) (\<lambda>m.
            bindE (map_at m sid) (\<lambda>poor.
            Inr (omap_set sid (poor @ [ep_key sn]) m, mt, False)))))))"

text \<open>The \<open>do\<close> \<dots> \<open>while\<close> loop that fills one starving swarm.\<close>

definition rescue_swarm ::
  "'g rng \<Rightarrow> swarm_size list \<Rightarrow> u64 \<Rightarrow> swarm_map \<times> 'g \<Rightarrow> (swarm_map \<times> 'g \<times> bool) outcome" where
  "rescue_swarm R sizes sid = (\<lambda>(m, mt).
    bindE (map_at m sid) (\<lambda>_.
    bindE (steal_one R sizes sid (m, mt, False))
      (whileE (\<lambda>(m, _, insufficient). \<not> insufficient \<and>
           (case map_of m sid of Some poor \<Rightarrow> length poor < MIN_SWARM_SIZE | None \<Rightarrow> False))
         (steal_one R sizes sid))))"

fun robin_hood :: "'g rng \<Rightarrow> swarm_size list \<Rightarrow> swarm_size list \<Rightarrow> swarm_map \<times> 'g \<Rightarrow> (swarm_map \<times> 'g) outcome" where
  "robin_hood R sizes [] st = Inr st"
| "robin_hood R sizes (sw # rest) st =
    (if MIN_SWARM_SIZE \<le> sw_size sw then Inr st
     else
       bindE (rescue_swarm R sizes (sw_id sw) st) (\<lambda>(m, mt, insufficient).
       if insufficient then Inr (m, mt) else robin_hood R sizes rest (m, mt)))"

definition decommission_one ::
  "'g rng \<Rightarrow> (swarm_size list \<Rightarrow> swarm_size list) \<Rightarrow> swarm_map \<times> 'g \<Rightarrow> (swarm_map \<times> 'g) outcome" where
  "decommission_one R srt = (\<lambda>(m, mt).
    case find (\<lambda>(_, snodes). length snodes < MIN_SWARM_SIZE) m of
      None \<Rightarrow> Inr (m, mt)
    | Some (sid, snodes) \<Rightarrow>
        assign_snodes R srt snodes (map_erase sid m) mt DECOMMISSIONED_REDISTRIBUTION_LOWER_PERCENTILE)"

definition calc_swarm_changes ::
  "'g rng \<Rightarrow> (swarm_size list \<Rightarrow> swarm_size list) \<Rightarrow> swarm_map \<Rightarrow> u64 \<Rightarrow> swarm_map outcome" where
  "calc_swarm_changes R srt swarm_to_snodes seed =
    (if swarm_to_snodes = [] then Inr []
     else
       let mt = rng_init R seed;
           unassigned = (case map_of swarm_to_snodes UNASSIGNED_SWARM_ID of Some s \<Rightarrow> s | None \<Rightarrow> []);
           m = map_erase UNASSIGNED_SWARM_ID swarm_to_snodes;
           m = (if m = [] then omap_insert (get_new_swarm_id []) [] m else m)
       in bindE (assign_snodes R srt unassigned m mt FILL_SWARM_LOWER_PERCENTILE) (\<lambda>(m, mt).
          let sizes = calc_swarm_sizes srt m
          in bindE (robin_hood R sizes sizes (m, mt)) (\<lambda>(m, mt).
             bindE (create_new_swarm_from_excess R m mt) (\<lambda>(m, mt).
             bindE (if 1 < length m
                    then whileE (\<lambda>(m, _). has_starving_swarms m) (decommission_one R srt) (m, mt)
                    else Inr (m, mt))
               (\<lambda>(m, mt). Inr m)))))"

section \<open>Fresh swarm ids\<close>

lemma unat_MAX_ID: "unat MAX_ID = 18446744073709551614"
  by (simp add: MAX_ID_def)

lemma farthest_gap_spec:
  assumes "sorted_wrt (<) ids" and "2 \<le> length ids" and "farthest_gap ids = (d, i)"
  shows "i + 1 < length ids" and "d = ids ! (i + 1) - ids ! i"
    and "\<forall>j. j + 1 < length ids \<longrightarrow> ids ! (j + 1) - ids ! j \<le> d"
proof -
  let ?g = "\<lambda>j. ids ! (j + 1) - ids ! j"
  define P where "P k = (\<lambda>(d, i). (\<forall>j < k. ?g j \<le> d) \<and> (0 < k \<longrightarrow> i < k \<and> d = ?g i) \<and> (k = 0 \<longrightarrow> d = 0))"
    for k :: nat
  have "P (length ids - 1) (farthest_gap ids)"
    unfolding farthest_gap_def
  proof (rule fold_upt)
    fix k and s :: "u64 \<times> nat"
    assume k: "k < length ids - 1" and P: "P k s"
    obtain d i where s: "s = (d, i)" by (cases s)
    have "ids ! k < ids ! (k + 1)" using k assms(1) by (simp add: sorted_wrt_nth_less)
    then have pos: "0 < ?g k" by (simp add: word_greater_zero_iff)
    show "P (Suc k) (case s of (max_dist, best_idx) \<Rightarrow> let dist = ?g k in
        if max_dist < dist then (dist, k) else (max_dist, best_idx))"
      using P pos by (cases "k = 0") (auto simp: P_def s Let_def less_Suc_eq)
  qed (simp_all add: P_def)
  with assms(2,3) show "i + 1 < length ids" "d = ids ! (i + 1) - ids ! i"
    "\<forall>j. j + 1 < length ids \<longrightarrow> ids ! (j + 1) - ids ! j \<le> d"
    by (auto simp: P_def)
qed

text \<open>Some gap between neighbours on the circle of ids is at least two.\<close>

lemma dense_gaps_fill:
  fixes a :: "nat \<Rightarrow> nat"
  assumes "\<forall>j. j + 1 < n \<longrightarrow> a (j + 1) \<le> a j + 1" and "k < n"
  shows "a k \<le> a 0 + k"
  using assms(2)
proof (induction k)
  case (Suc k)
  with assms(1) have "a (k + 1) \<le> a k + 1" by simp
  with Suc show ?case by simp
qed simp

lemma word_gap_nat: "(a :: u64) \<le> b \<Longrightarrow> unat (b - a) = unat b - unat a"
  by (rule unat_sub)

lemma get_new_swarm_id_fresh:
  assumes inv: "omap_inv m" and big: "2 \<le> length m" "length m < 18446744073709551615"
    and ids: "\<forall>i \<in> fst ` set m. i \<le> MAX_ID"
  shows "get_new_swarm_id m \<notin> fst ` set m" and "get_new_swarm_id m \<le> MAX_ID"
proof -
  define ids where "ids = map fst m"
  have srt: "sorted_wrt (<) ids" "sort ids = ids"
    using inv by (simp_all add: ids_def sorted_sort_id strict_sorted_imp_sorted)
  have len: "length ids = length m" "ids \<noteq> []" using big by (auto simp: ids_def)
  define a where "a j = unat (ids ! j)" for j
  let ?n = "length m" and ?M = "18446744073709551614 :: nat"
  have maxid: "unat MAX_ID = ?M" by (rule unat_MAX_ID)
  have a_mono: "a i < a j" if "i < j" "j < ?n" for i j
    using sorted_wrt_nth_less [OF srt(1)] that len by (simp add: a_def word_less_nat_alt)
  have a_le: "a j \<le> ?M" if "j < ?n" for j
    using ids that len maxid by (simp add: a_def ids_def word_le_nat_alt)
  obtain d i where gap: "farthest_gap ids = (d, i)" by fastforce
  note fg = farthest_gap_spec [OF srt(1) _ gap, unfolded len(1), OF big(1)]
  have gapn: "unat (ids ! (j + 1) - ids ! j) = a (j + 1) - a j" if "j + 1 < ?n" for j
    unfolding a_def by (rule word_gap_nat)
      (use sorted_wrt_nth_less [OF srt(1), of j "j + 1"] that len in simp)
  have d: "unat d = a (i + 1) - a i" "\<And>j. j + 1 < ?n \<Longrightarrow> a (j + 1) - a j \<le> unat d"
    using fg gapn by (auto simp: word_le_nat_alt)
  define w where "w = MAX_ID - last ids + hd ids + 1"
  have ends: "unat (last ids) = a (?n - 1)" "unat (hd ids) = a 0"
    using len by (simp_all add: a_def last_conv_nth hd_conv_nth)
  have lastle: "last ids \<le> MAX_ID" using a_le [of "?n - 1"] big by (simp add: word_le_nat_alt ends maxid)
  have first: "a 0 < a (?n - 1)" using a_mono [of 0 "?n - 1"] big by simp
  have w: "unat w = ?M - a (?n - 1) + a 0 + 1"
  proof -
    have "unat (MAX_ID - last ids) = ?M - a (?n - 1)" using lastle by (simp add: unat_sub maxid ends)
    then show ?thesis
      unfolding w_def using first a_le [of "?n - 1"] big ends by (simp add: unat_add_less)
  qed
  have id_in: "(\<exists>j < ?n. x = ids ! j) \<longleftrightarrow> x \<in> fst ` set m" for x
    unfolding len [symmetric] using in_set_conv_nth [of x ids] by (auto simp: ids_def)
  have main: "get_new_swarm_id m = (let (g, b) = (if d < w then (w, ?n - 1) else (d, i));
      diff = g div 2; to_max = MAX_ID - ids ! b
      in if to_max < diff then diff - to_max - 1 else ids ! b + diff)"
  proof -
    have "m \<noteq> []" "length m \<noteq> 1" using big by auto
    then show ?thesis using len by (simp add: get_new_swarm_id_def ids_def [symmetric] srt gap w_def Let_def)
  qed
  have n0: "0 < ?n" and n1: "?n - 1 < ?n" using big by auto
  have above: "a i < a (i + 1)" using a_mono [of i "i + 1"] fg(1) by simp
  have outside: "x \<notin> fst ` set m" if "\<And>j. j < ?n \<Longrightarrow> unat x \<noteq> a j" for x
  proof
    assume "x \<in> fst ` set m"
    then obtain j where "j < ?n" "x = ids ! j" using id_in [of x] by blast
    with that [of j] show False by (simp add: a_def)
  qed
  have top: "a j \<le> a (?n - 1)" and bot: "a 0 \<le> a j" if "j < ?n" for j
    using a_mono [of j "?n - 1"] a_mono [of 0 j] that by (cases "j = ?n - 1"; cases "j = 0"; force)+
  have "get_new_swarm_id m \<notin> fst ` set m \<and> get_new_swarm_id m \<le> MAX_ID"
  proof (cases "d < w")
    case True
    define diff to_max where "diff = w div 2" and "to_max = MAX_ID - ids ! (?n - 1)"
    have w2: "2 \<le> unat w" using True d(1) above by (simp add: word_less_nat_alt)
    have diff: "unat diff = unat w div 2" by (simp add: diff_def unat_div)
    have tm: "unat to_max = ?M - a (?n - 1)"
      using lastle len by (simp add: to_max_def unat_sub maxid a_def last_conv_nth)
    show ?thesis
    proof (cases "to_max < diff")
      case wrap: True
      define x where "x = diff - to_max - 1"
      have lt: "unat to_max < unat diff" using wrap by (simp add: word_less_nat_alt)
      then have "unat x = unat diff - unat to_max - 1"
        unfolding x_def by (simp add: unat_sub word_le_nat_alt)
      then have "unat x < a 0" using diff w w2 tm lt by linarith
      then have "x \<notin> fst ` set m" using bot by (intro outside) (metis not_le)
      moreover have "x \<le> MAX_ID"
        using \<open>unat x < a 0\<close> a_le [of 0, OF n0] by (simp add: word_le_nat_alt maxid)
      moreover have "get_new_swarm_id m = x"
        unfolding main x_def using True wrap by (simp add: Let_def diff_def to_max_def)
      ultimately show ?thesis by simp
    next
      case False
      define x where "x = ids ! (?n - 1) + diff"
      have le: "unat diff \<le> ?M - a (?n - 1)" using False tm by (simp add: word_less_nat_alt not_less)
      then have ux: "unat x = a (?n - 1) + unat diff"
        unfolding x_def using a_le [OF n1] by (subst unat_add_less) (simp_all add: a_def)
      have "0 < unat diff" using diff w2 by simp
      then have "unat x \<noteq> a j" if "j < ?n" for j using top [OF that] ux by simp
      then have "x \<notin> fst ` set m" by (rule outside)
      moreover have "x \<le> MAX_ID" using ux le a_le [OF n1] by (simp add: word_le_nat_alt maxid)
      moreover have "get_new_swarm_id m = x"
        unfolding main x_def using True False by (simp add: Let_def diff_def to_max_def)
      ultimately show ?thesis by simp
    qed
  next
    case False
    define diff to_max where "diff = d div 2" and "to_max = MAX_ID - ids ! i"
    have d2: "2 \<le> unat d"
    proof (rule ccontr)
      assume "\<not> 2 \<le> unat d"
      then have "\<forall>j. j + 1 < ?n \<longrightarrow> a (j + 1) \<le> a j + 1" using d(2) by fastforce
      from dense_gaps_fill [OF this, of "?n - 1"] big have "a (?n - 1) \<le> a 0 + (?n - 1)" by simp
      with w big a_le [of "?n - 1"] have "2 \<le> unat w" by simp
      with False \<open>\<not> 2 \<le> unat d\<close> show False by (simp add: word_less_nat_alt)
    qed
    have diff: "unat diff = unat d div 2" by (simp add: diff_def unat_div)
    have tm: "unat to_max = ?M - a i"
      unfolding to_max_def using a_le [of i] fg(1) by (subst unat_sub) (simp_all add: maxid a_def word_le_nat_alt)
    have no_wrap: "\<not> to_max < diff"
      using tm diff d(1) a_le [of "i + 1"] fg(1) by (simp add: word_less_nat_alt)
    define x where "x = ids ! i + diff"
    have "a i + unat diff \<le> a (i + 1)" using diff d(1) above by linarith
    with a_le [of "i + 1"] fg(1) have "a i + unat diff < 18446744073709551616" by simp
    then have ux: "unat x = a i + unat diff" unfolding x_def by (subst unat_add_less) (simp_all add: a_def)
    have between: "a i < unat x" "unat x < a (i + 1)" using ux diff d(1) d2 by linarith+
    have "unat x \<noteq> a j" if "j < ?n" for j
    proof (cases "j \<le> i")
      case True
      then have "a j \<le> a i" using a_mono [of j i] fg(1) by (cases "j = i") auto
      with between show ?thesis by simp
    next
      case False
      then have "a (i + 1) \<le> a j" using a_mono [of "i + 1" j] that by (cases "j = i + 1") auto
      with between show ?thesis by simp
    qed
    then have "x \<notin> fst ` set m" by (rule outside)
    moreover have "x \<le> MAX_ID" using between a_le [of "i + 1"] fg(1) by (simp add: word_le_nat_alt maxid)
    moreover have "get_new_swarm_id m = x"
      unfolding main x_def using False no_wrap by (simp add: Let_def diff_def to_max_def)
    ultimately show ?thesis by simp
  qed
  then show "get_new_swarm_id m \<notin> fst ` set m" "get_new_swarm_id m \<le> MAX_ID" by simp_all
qed

section \<open>Nodes and sizes\<close>

definition nodes :: "swarm_map \<Rightarrow> public_key multiset" where
  "nodes m = (\<Sum>e \<in># mset m. mset (snd e))"

definition starving :: "u64 \<times> public_key list \<Rightarrow> bool" where
  "starving e \<longleftrightarrow> length (snd e) < 5"

lemmas swarm_constants = MIN_SWARM_SIZE_def IDEAL_SWARM_MARGIN_def IDEAL_SWARM_SIZE_def
  EXCESS_BASE_def NEW_SWARM_SIZE_def

lemma nodes_concat: "nodes m = mset (concat (map snd m))"
  by (induction m) (simp_all add: nodes_def)

lemma calc_excess_sum: "calc_excess m = (\<Sum>e \<in># mset m. length (snd e) - 5)"
proof -
  have "fold (\<lambda>(_, snodes) result. result + (length snodes - EXCESS_BASE)) m r =
      r + (\<Sum>e \<in># mset m. length (snd e) - 5)" for r
    by (induction m arbitrary: r) (auto simp: swarm_constants)
  then show ?thesis by (simp add: calc_excess_def)
qed

lemma has_starving_iff: "has_starving_swarms m \<longleftrightarrow> (\<exists>e \<in> set m. starving e)"
  by (induction m) (auto simp: has_starving_swarms_def starving_def swarm_constants)

lemma nodes_in: "(i, vs) \<in> set m \<Longrightarrow> x \<in> set vs \<Longrightarrow> x \<in># nodes m"
  by (force simp: nodes_concat)

lemma size_nodes: "size (nodes m) = (\<Sum>e \<in># mset m. length (snd e))"
  by (induction m) (simp_all add: nodes_def)

lemma length_le_size_nodes: "e \<in> set m \<Longrightarrow> length (snd e) \<le> size (nodes m)"
  by (induction m) (auto simp: nodes_def)

text \<open>Replacing the nodes of one swarm.\<close>

lemma replace_swarm:
  assumes "omap_inv m" and "map_of m i = Some vs"
  shows "omap_inv (omap_set i ws m)"
    and "fst ` set (omap_set i ws m) = fst ` set m"
    and "length (omap_set i ws m) = length m"
    and "nodes (omap_set i ws m) + mset vs = nodes m + mset ws"
    and "calc_excess (omap_set i ws m) + (length vs - 5) = calc_excess m + (length ws - 5)"
    and "set (omap_set i ws m) = insert (i, ws) {e \<in> set m. fst e \<noteq> i}"
proof -
  have in_m: "(i, vs) \<in> set m" using assms(2) by (rule map_of_SomeD)
  note split = omap.mset_split [OF assms] omap.mset_upd [OF assms(1), of i ws]
  show "omap_inv (omap_set i ws m)" by (rule omap_inv_set [OF assms(1)])
  show "fst ` set (omap_set i ws m) = fst ` set m"
    using omap.keys_upd [OF assms(1), of i ws] in_m by force
  show "length (omap_set i ws m) = length m"
    using omap.length_upd [OF assms(1), of i ws] in_m by force
  show "nodes (omap_set i ws m) + mset vs = nodes m + mset ws"
    by (simp add: nodes_def split)
  show "calc_excess (omap_set i ws m) + (length vs - 5) = calc_excess m + (length ws - 5)"
    by (simp add: calc_excess_sum split)
  show "set (omap_set i ws m) = insert (i, ws) {e \<in> set m. fst e \<noteq> i}"
    by (rule omap.entries_upd [OF assms(1)])
qed

lemma erase_swarm:
  assumes "omap_inv m" and "map_of m i = Some vs"
  shows "omap_inv (map_erase i m)" and "nodes m = mset vs + nodes (map_erase i m)"
    and "length m = Suc (length (map_erase i m))"
    and "set (map_erase i m) = {e \<in> set m. fst e \<noteq> i}"
proof -
  note split = omap.mset_split [OF assms]
  show "omap_inv (map_erase i m)" by (rule omap_inv_erase [OF assms(1)])
  show "nodes m = mset vs + nodes (map_erase i m)" by (simp add: nodes_def split)
  show "length m = Suc (length (map_erase i m))"
    using arg_cong [OF split, of size] by simp
  show "set (map_erase i m) = {e \<in> set m. fst e \<noteq> i}" by (auto simp: map_erase_def)
qed

lemma insert_swarm:
  assumes "omap_inv m" and "i \<notin> fst ` set m"
  shows "omap_inv (omap_insert i ws m)" and "nodes (omap_insert i ws m) = nodes m + mset ws"
    and "length (omap_insert i ws m) = Suc (length m)"
    and "set (omap_insert i ws m) = insert (i, ws) (set m)"
    and "calc_excess (omap_insert i ws m) = calc_excess m + (length ws - 5)"
proof -
  have none: "map_of m i = None" using assms(2) by (simp add: map_of_eq_None_iff)
  then have ins: "omap_insert i ws m = omap_set i ws m" by (simp add: omap_insert_def)
  note ms = omap.mset_upd_fresh [OF assms, of ws]
  show "omap_inv (omap_insert i ws m)" by (simp add: ins omap_inv_set assms(1))
  show "nodes (omap_insert i ws m) = nodes m + mset ws" by (simp add: ins nodes_def ms)
  show "calc_excess (omap_insert i ws m) = calc_excess m + (length ws - 5)"
    by (simp add: ins calc_excess_sum ms)
  show "length (omap_insert i ws m) = Suc (length m)" using arg_cong [OF ms, of size] by (simp add: ins)
  show "set (omap_insert i ws m) = insert (i, ws) (set m)"
    using arg_cong [OF ms, of set_mset] by (simp add: ins)
qed

section \<open>The excess pool\<close>

lemma get_excess_pool_eq:
  assumes "5 \<le> t"
  shows "get_excess_pool t m x =
    (concat (map (\<lambda>(i, vs). if t < length vs then map (\<lambda>pk. \<lparr>ep_key = pk, ep_swarm = i\<rparr>) vs else []) m),
     \<Sum>e \<in># mset m. if t < length (snd e) then length (snd e) - 5 else 0)"
proof -
  let ?f = "\<lambda>(id, snodes) (pool, excess).
      if t < length snodes then (pool @ map (\<lambda>pk. \<lparr>ep_key = pk, ep_swarm = id\<rparr>) snodes,
         excess + (length snodes - MIN_SWARM_SIZE)) else (pool, excess)"
  have "fold ?f m (p, y) =
    (p @ concat (map (\<lambda>(i, vs). if t < length vs then map (\<lambda>pk. \<lparr>ep_key = pk, ep_swarm = i\<rparr>) vs else []) m),
     y + (\<Sum>e \<in># mset m. if t < length (snd e) then length (snd e) - 5 else 0))" for p y
    by (induction m arbitrary: p y) (auto simp: swarm_constants)
  then show ?thesis using assms by (simp add: get_excess_pool_def swarm_constants)
qed

lemma excess_pool_mem:
  assumes "5 \<le> t" and "sn \<in> set (fst (get_excess_pool t m x))"
  shows "\<exists>vs. (ep_swarm sn, vs) \<in> set m \<and> ep_key sn \<in> set vs \<and> t < length vs"
  using assms by (force simp: get_excess_pool_eq split: if_splits)

lemma excess_pool_length:
  assumes "5 \<le> t"
  shows "length (fst (get_excess_pool t m x)) \<le> size (nodes m)"
  using assms unfolding get_excess_pool_eq [OF assms] by (induction m) (auto simp: nodes_def)

lemma excess_pool_nonempty:
  assumes "5 \<le> t" and "0 < snd (get_excess_pool t m x)"
  shows "fst (get_excess_pool t m x) \<noteq> []"
  using assms unfolding get_excess_pool_eq [OF assms(1)] by (induction m) (auto split: if_splits)

lemma excess_pool_base: "snd (get_excess_pool 5 m x) = calc_excess m"
proof -
  have "(if 5 < length (snd e) then length (snd e) - 5 else 0) = length (snd e) - 5"
    for e :: "u64 \<times> public_key list" by simp
  then show ?thesis by (simp add: get_excess_pool_eq calc_excess_sum)
qed

lemma pick_returns:
  assumes "fair R" and "pool \<noteq> []" and "length pool < 2 ^ 64"
  obtains sn g' where "pick_from_excess_pool R pool g = Inr (sn, g')" "sn \<in> set pool"
proof -
  have len: "unat (of_nat (length pool) :: u64) = length pool" by (rule unat_of_nat_small [OF assms(3)])
  have "0 < (of_nat (length pool) :: u64)" using assms(2) by (simp add: word_less_nat_alt len)
  then obtain x g' where "uniform_distribution_portable R g (of_nat (length pool)) = Inr (x, g')"
    "x < of_nat (length pool)" by (rule uniform_returns [OF assms(1)])
  moreover from this have "unat x < length pool" by (simp add: word_less_nat_alt len)
  ultimately show thesis using that by (simp add: pick_from_excess_pool_def at_throw_def)
qed

section \<open>Taking a node out of a rich swarm\<close>

text \<open>
  What the round relies on: keys in order, no node in two places, ids in range, and sizes that
  leave the arithmetic exact.
\<close>

definition swarm_ok :: "swarm_map \<Rightarrow> bool" where
  "swarm_ok m \<longleftrightarrow> omap_inv m \<and> distinct (concat (map snd m)) \<and> (\<forall>i \<in> fst ` set m. i \<le> MAX_ID) \<and>
    length m < 2 ^ 56 \<and> size (nodes m) < 2 ^ 56"

lemma swarm_ok_distinct:
  assumes "swarm_ok m" and "(i, vs) \<in> set m"
  shows "distinct vs" and "map_of m i = Some vs"
  using assms by (auto simp: swarm_ok_def distinct_concat_iff omap_inv_distinct)

lemma swarm_ok_transfer:
  assumes "swarm_ok m" and "omap_inv m'" and "nodes m' = nodes m"
    and "\<forall>i \<in> fst ` set m'. i \<le> MAX_ID" and "length m' < 2 ^ 56"
  shows "swarm_ok m'"
proof -
  have "distinct (concat (map snd m'))"
    using assms(1,3) mset_eq_imp_distinct_iff [of "concat (map snd m')" "concat (map snd m)"]
    by (simp add: swarm_ok_def nodes_concat)
  with assms show ?thesis by (simp add: swarm_ok_def)
qed

lemma mset_removeAll_distinct: "distinct vs \<Longrightarrow> x \<in> set vs \<Longrightarrow> mset vs = add_mset x (mset (removeAll x vs))"
  by (metis distinct_remove1_removeAll insert_DiffM mset_remove1 set_mset_mset)

text \<open>A node of the pool leaves its swarm, which keeps at least as many as the threshold.\<close>

lemma take_from_pool:
  assumes "omap_inv m" and "distinct (concat (map snd m))" and "5 \<le> t"
    and "sn \<in> set (fst (get_excess_pool t m x))"
  obtains m' where "remove_excess_snode_from_swarm sn m = Inr m'" "omap_inv m'"
    "fst ` set m' = fst ` set m" "length m' = length m" "nodes m = add_mset (ep_key sn) (nodes m')"
    "calc_excess m = Suc (calc_excess m')" "map_of m' = (map_of m)(ep_swarm sn := map_of m' (ep_swarm sn))"
    "\<exists>ws. map_of m' (ep_swarm sn) = Some ws \<and> t \<le> length ws"
    "\<exists>vs. map_of m (ep_swarm sn) = Some vs \<and> t < length vs"
proof -
  obtain vs where vs: "(ep_swarm sn, vs) \<in> set m" "ep_key sn \<in> set vs" "t < length vs"
    using excess_pool_mem [OF assms(3,4)] by blast
  have look: "map_of m (ep_swarm sn) = Some vs" using vs(1) assms(1) by (simp add: omap_inv_distinct)
  have dv: "distinct vs" using assms(2) vs(1) by (force simp: distinct_concat_iff)
  define ws where "ws = removeAll (ep_key sn) vs"
  have mv: "mset vs = add_mset (ep_key sn) (mset ws)"
    unfolding ws_def by (rule mset_removeAll_distinct [OF dv vs(2)])
  have lw: "length vs = Suc (length ws)" using arg_cong [OF mv, of size] by simp
  let ?m' = "omap_set (ep_swarm sn) ws m"
  note rep = replace_swarm [OF assms(1) look, of ws]
  show thesis
  proof (rule that [of ?m'])
    show "remove_excess_snode_from_swarm sn m = Inr ?m'"
      by (simp add: remove_excess_snode_from_swarm_def map_at_def look ws_def)
    show "nodes m = add_mset (ep_key sn) (nodes ?m')" using rep(4) mv by simp
    show "calc_excess m = Suc (calc_excess ?m')" using rep(5) lw vs(3) assms(3) by simp
    show "map_of ?m' = (map_of m)(ep_swarm sn := map_of ?m' (ep_swarm sn))"
      by (simp add: map_of_omap_set [OF assms(1)])
    show "\<exists>ws. map_of ?m' (ep_swarm sn) = Some ws \<and> t \<le> length ws"
      using lw vs(3) by (simp add: map_of_omap_set [OF assms(1)])
    show "\<exists>vs. map_of m (ep_swarm sn) = Some vs \<and> t < length vs" using look vs(3) by simp
  qed (use rep in simp_all)
qed

lemma entries_changed_at:
  assumes "omap_inv m" and "omap_inv m'" and "map_of m' = (map_of m)(i := map_of m' i)"
    and "(j, ws) \<in> set m'" and "j \<noteq> i"
  shows "(j, ws) \<in> set m"
proof -
  have "map_of m' j = Some ws" using assms(2,4) by (simp add: omap_inv_distinct)
  moreover have "map_of m' j = map_of m j" by (subst assms(3)) (simp add: assms(5))
  ultimately show ?thesis by (simp add: map_of_SomeD)
qed

lemma full_after_change:
  assumes "omap_inv m" and "\<forall>e \<in> set m. \<not> starving e" and "omap_inv m'"
    and "map_of m' = (map_of m)(i := map_of m' i)" and "\<exists>ws. map_of m' i = Some ws \<and> 5 \<le> length ws"
    and "e \<in> set m'"
  shows "\<not> starving e"
proof -
  obtain j ws where e: "e = (j, ws)" by (cases e)
  have look: "map_of m' j = Some ws" using assms(3,6) by (simp add: e omap_inv_distinct)
  show ?thesis
  proof (cases "j = i")
    case True
    then show ?thesis using look assms(5) by (simp add: e starving_def)
  next
    case False
    then show ?thesis using entries_changed_at [OF assms(1,3,4)] assms(2,6) by (auto simp: e)
  qed
qed

section \<open>New swarms\<close>

lemma collect_new_swarm_returns:
  fixes R :: "'g rng"
  assumes "fair R" and ok: "swarm_ok m0" and full: "\<forall>e \<in> set m0. \<not> starving e"
    and enough: "7 \<le> calc_excess m0"
  obtains new m g' where "collect_new_swarm R (m0, g) = Inr (new, m, g', False)" "length new = 7"
    "omap_inv m" "fst ` set m = fst ` set m0" "length m = length m0" "nodes m0 = nodes m + mset new"
    "calc_excess m0 = calc_excess m + 7" "\<forall>e \<in> set m. \<not> starving e"
proof -
  define I where "I = (\<lambda>(new, m, g :: 'g, ret). \<not> ret \<and> length new \<le> 7 \<and> omap_inv m \<and>
    fst ` set m = fst ` set m0 \<and> length m = length m0 \<and> nodes m0 = nodes m + mset new \<and>
    calc_excess m0 = calc_excess m + length new \<and> (\<forall>e \<in> set m. \<not> starving e))"
  let ?b = "\<lambda>(new_snodes, _, _, returned). \<not> returned \<and> length new_snodes < NEW_SWARM_SIZE"
  let ?c = "\<lambda>(new_snodes, m, mt, _).
        let (pool, _) = get_excess_pool EXCESS_BASE m 0
        in if pool = [] then Inr (new_snodes, m, mt, True)
           else bindE (pick_from_excess_pool R pool mt) (\<lambda>(sn, mt).
             bindE (remove_excess_snode_from_swarm sn m) (\<lambda>m.
             Inr (new_snodes @ [ep_key sn], m, mt, False)))"
  have "\<exists>t. whileE ?b ?c ([], m0, g, False) = Inr t \<and> I t \<and> \<not> ?b t"
  proof (rule whileE_total [where f = "\<lambda>(new, _). 7 - length new"])
    show "I ([], m0, g, False)" using ok full by (simp add: I_def swarm_ok_def)
    fix s assume "I s" and "?b s"
    obtain new m g1 ret where s: "s = (new, m, g1, ret)" by (cases s)
    have I: "length new < 7" "omap_inv m" "fst ` set m = fst ` set m0" "length m = length m0"
      "nodes m0 = nodes m + mset new" "calc_excess m0 = calc_excess m + length new"
      "\<forall>e \<in> set m. \<not> starving e"
      using \<open>I s\<close> \<open>?b s\<close> by (auto simp: I_def s swarm_constants)
    have dist: "distinct (concat (map snd m))"
    proof -
      have "mset (concat (map snd m0)) = mset (concat (map snd m) @ new)"
        using I(5) by (simp add: nodes_concat)
      then show ?thesis using ok mset_eq_imp_distinct_iff by (fastforce simp: swarm_ok_def)
    qed
    define pool where "pool = fst (get_excess_pool 5 m 0)"
    have ne: "pool \<noteq> []"
      unfolding pool_def by (rule excess_pool_nonempty) (use I enough in \<open>simp_all add: excess_pool_base\<close>)
    have "length pool < 2 ^ 64"
      using excess_pool_length [of 5 m 0] I(5) ok by (simp add: pool_def swarm_ok_def)
    then obtain sn g2 where pick: "pick_from_excess_pool R pool g1 = Inr (sn, g2)" "sn \<in> set pool"
      by (rule pick_returns [OF assms(1) ne])
    obtain m2 where m2: "remove_excess_snode_from_swarm sn m = Inr m2" "omap_inv m2"
      "fst ` set m2 = fst ` set m" "length m2 = length m" "nodes m = add_mset (ep_key sn) (nodes m2)"
      "calc_excess m = Suc (calc_excess m2)" "map_of m2 = (map_of m)(ep_swarm sn := map_of m2 (ep_swarm sn))"
      "\<exists>ws. map_of m2 (ep_swarm sn) = Some ws \<and> 5 \<le> length ws"
      "\<exists>vs. map_of m (ep_swarm sn) = Some vs \<and> 5 < length vs"
      by (rule take_from_pool [OF I(2) dist order_refl pick(2) [unfolded pool_def]])
    have "\<not> starving e" if "e \<in> set m2" for e
      by (rule full_after_change [OF I(2,7) m2(2,7,8) that])
    then have "I (new @ [ep_key sn], m2, g2, False)"
      using I m2 by (simp add: I_def)
    moreover have "?c s = Inr (new @ [ep_key sn], m2, g2, False)"
      using ne pick(1) m2(1) by (simp add: s swarm_constants pool_def case_prod_beta)
    ultimately show "\<exists>s'. ?c s = Inr s' \<and> I s' \<and> (case s' of (new, _) \<Rightarrow> 7 - length new) < (case s of (new, _) \<Rightarrow> 7 - length new)"
      using I(1) by (auto simp: s)
  qed
  then obtain new m g' where "collect_new_swarm R (m0, g) = Inr (new, m, g', False)" "I (new, m, g', False)"
    "\<not> length new < 7"
    by (auto simp: collect_new_swarm_def I_def swarm_constants)
  with that show thesis by (simp add: I_def)
qed

text \<open>
  The ids of the swarms below and at the minimum. No id can be given out twice while either the
  middle id is free or two swarms are full.
\<close>

definition poor :: "swarm_map \<Rightarrow> u64 set" where
  "poor m = {i. \<exists>vs. map_of m i = Some vs \<and> length vs < 5}"

definition rich :: "swarm_map \<Rightarrow> u64 set" where
  "rich m = {i. \<exists>vs. map_of m i = Some vs \<and> 5 \<le> length vs}"

definition safe_ids :: "swarm_map \<Rightarrow> bool" where
  "safe_ids m \<longleftrightarrow> MAX_ID div 2 \<notin> fst ` set m \<or> 2 \<le> card (rich m)"

lemma poor_rich_keys: "poor m \<union> rich m = fst ` set m"
  by (auto simp: poor_def rich_def not_less dom_map_of_conv_image_fst [symmetric] split: option.splits)

lemma poor_rich_finite [simp]: "finite (poor m)" "finite (rich m)"
  using poor_rich_keys [of m] by (metis finite_Un finite_imageI finite_set)+

lemma starving_iff_poor: "omap_inv m \<Longrightarrow> has_starving_swarms m \<longleftrightarrow> poor m \<noteq> {}"
  by (force simp: has_starving_iff poor_def starving_def omap_inv_distinct)

lemma not_starving_iff: "omap_inv m \<Longrightarrow> (\<forall>e \<in> set m. \<not> starving e) \<longleftrightarrow> poor m = {}"
  using starving_iff_poor [of m] by (auto simp: has_starving_iff)

lemma card_keys: "omap_inv m \<Longrightarrow> card (fst ` set m) = length m"
  by (simp add: omap_inv_distinct distinct_card flip: set_map)

lemma full_length: "omap_inv m \<Longrightarrow> poor m = {} \<Longrightarrow> 5 * length m \<le> size (nodes m)"
proof -
  assume "omap_inv m" and "poor m = {}"
  then have "\<forall>e \<in> set m. 5 \<le> length (snd e)" by (simp add: starving_def not_less flip: not_starving_iff)
  then show ?thesis by (induction m) (auto simp: nodes_def)
qed

lemma new_id_fresh:
  assumes "swarm_ok m" and "safe_ids m" and "poor m = {}" and "m \<noteq> []"
  shows "get_new_swarm_id m \<notin> fst ` set m" and "get_new_swarm_id m \<le> MAX_ID"
proof -
  have inv: "omap_inv m" using assms(1) by (simp add: swarm_ok_def)
  have "get_new_swarm_id m \<notin> fst ` set m \<and> get_new_swarm_id m \<le> MAX_ID"
  proof (cases "length m = 1")
    case True
    have "rich m = fst ` set m" using poor_rich_keys [of m] assms(3) by simp
    then have "MAX_ID div 2 \<notin> fst ` set m" using assms(2) card_keys [OF inv] True by (simp add: safe_ids_def)
    with True show ?thesis by (auto simp: get_new_swarm_id_def MAX_ID_def)
  next
    case False
    then have "2 \<le> length m" using assms(4) by (cases m) (auto simp: Suc_le_eq)
    moreover have "length m < 18446744073709551615" "\<forall>i \<in> fst ` set m. i \<le> MAX_ID"
      using assms(1) by (simp_all add: swarm_ok_def)
    ultimately show ?thesis using get_new_swarm_id_fresh [OF inv] by simp
  qed
  then show "get_new_swarm_id m \<notin> fst ` set m" "get_new_swarm_id m \<le> MAX_ID" by simp_all
qed

text \<open>What a call of \<open>create_new_swarm_from_excess\<close> and of the assignment leave of the swarms.\<close>

definition grown :: "swarm_map \<Rightarrow> swarm_map \<Rightarrow> bool" where
  "grown m m' \<longleftrightarrow> swarm_ok m' \<and> safe_ids m' \<and> m' \<noteq> [] \<and> poor m' \<subseteq> poor m \<and> rich m \<subseteq> rich m' \<and>
    (length m' = length m \<or> 5 \<le> size (nodes m'))"

lemma grown_refl: "swarm_ok m \<Longrightarrow> safe_ids m \<Longrightarrow> m \<noteq> [] \<Longrightarrow> grown m m"
  by (simp add: grown_def)

lemma grown_trans: "grown m1 m2 \<Longrightarrow> grown m2 m3 \<Longrightarrow> nodes m2 \<subseteq># nodes m3 \<Longrightarrow> grown m1 m3"
  using size_mset_mono [of "nodes m2" "nodes m3"] by (auto simp: grown_def)

lemma create_one:
  assumes "fair R" and "swarm_ok m" and "safe_ids m" and "m \<noteq> []" and "poor m = {}"
    and "calc_threshold m \<le> calc_excess m"
  obtains new m1 g1 m2 where "collect_new_swarm R (m, g) = Inr (new, m1, g1, False)"
    "m2 = omap_insert (get_new_swarm_id m1) new m1" "grown m m2" "nodes m2 = nodes m"
    "calc_excess m2 < calc_excess m"
proof -
  have inv: "omap_inv m" and keys: "\<forall>i \<in> fst ` set m. i \<le> MAX_ID" using assms(2) by (simp_all add: swarm_ok_def)
  have "7 \<le> calc_excess m" using assms(6) by (simp add: calc_threshold_def swarm_constants)
  with assms(5) obtain new m1 g1 where c: "collect_new_swarm R (m, g) = Inr (new, m1, g1, False)"
    "length new = 7" "omap_inv m1" "fst ` set m1 = fst ` set m" "length m1 = length m"
    "nodes m = nodes m1 + mset new" "calc_excess m = calc_excess m1 + 7" "\<forall>e \<in> set m1. \<not> starving e"
    by (rule collect_new_swarm_returns [OF assms(1,2), unfolded not_starving_iff [OF inv]])
  have p1: "poor m1 = {}" using c(8) by (simp add: not_starving_iff [OF c(3)])
  have r1: "rich m1 = fst ` set m" "rich m = fst ` set m"
    using poor_rich_keys [of m1] poor_rich_keys [of m] p1 assms(5) c(4) by simp_all
  define i where "i = get_new_swarm_id m1"
  have "distinct (concat (map snd m1))"
    using c(6) assms(2) distinct_append [of "concat (map snd m1)" new]
      mset_eq_imp_distinct_iff [of "concat (map snd m1) @ new" "concat (map snd m)"]
    by (simp add: swarm_ok_def nodes_concat)
  then have ok1: "swarm_ok m1" using assms(2) c by (simp add: swarm_ok_def)
  have safe1: "safe_ids m1" using assms(3) r1 c(4) by (simp add: safe_ids_def)
  have "m1 \<noteq> []" using c(5) assms(4) by auto
  note fresh = new_id_fresh [OF ok1 safe1 p1 this, folded i_def]
  let ?m2 = "omap_insert i new m1"
  note ins = insert_swarm [OF c(3) fresh(1), of new]
  have nodes: "nodes ?m2 = nodes m" using ins(2) c(6) by simp
  have p2: "poor ?m2 = {}"
    using c(2,8) by (simp add: ins(4) starving_def flip: not_starving_iff [OF ins(1)])
  have len: "5 * length ?m2 \<le> size (nodes m)" using full_length [OF ins(1) p2] nodes by simp
  have r2: "rich ?m2 = insert i (fst ` set m)" using poor_rich_keys [of ?m2] p2 ins(4) c(4) by simp
  have "card (rich ?m2) = length ?m2" using card_keys [OF ins(1)] poor_rich_keys [of ?m2] p2 by simp
  then have "safe_ids ?m2" using ins(3) c(5) assms(4) by (simp add: safe_ids_def Suc_le_eq)
  moreover have "swarm_ok ?m2"
    by (rule swarm_ok_transfer [OF assms(2) ins(1) nodes])
      (use len keys fresh(2) assms(2) c(4) in \<open>auto simp: ins(4) swarm_ok_def\<close>)
  ultimately have "grown m ?m2"
    using p2 r1 r2 len ins(3) nodes by (auto simp: grown_def)
  then show thesis using that [OF c(1), of ?m2] nodes ins(5) c(2,7) by (simp add: i_def)
qed

lemma create_new_swarm_returns:
  fixes R :: "'g rng"
  assumes "fair R" and "swarm_ok m" and "safe_ids m" and "m \<noteq> []"
  obtains m' g' where "create_new_swarm_from_excess R m g = Inr (m', g')" "grown m m'" "nodes m' = nodes m"
proof (cases "poor m = {}")
  case False
  then show thesis
    using that [of m g] starving_iff_poor [of m] assms grown_refl [of m]
    by (simp add: create_new_swarm_from_excess_def swarm_ok_def)
next
  case True
  let ?b = "\<lambda>(m, _, returned). \<not> returned \<and> calc_threshold m \<le> calc_excess m"
  let ?c = "\<lambda>(m, mt, _). bindE (collect_new_swarm R (m, mt)) (\<lambda>(new_snodes, m, mt, returned).
             if returned then Inr (m, mt, True)
             else Inr (omap_insert (get_new_swarm_id m) new_snodes m, mt, False))"
  let ?I = "\<lambda>(m', g' :: 'g, ret). \<not> ret \<and> grown m m' \<and> nodes m' = nodes m"
  have "\<exists>t. whileE ?b ?c (m, g, False) = Inr t \<and> ?I t \<and> \<not> ?b t"
  proof (rule whileE_total [where f = "\<lambda>(m, _). calc_excess m"])
    show "?I (m, g, False)" using assms grown_refl by simp
    fix s assume I: "?I s" and b: "?b s"
    obtain m1 g1 ret where s: "s = (m1, g1, ret)" by (cases s)
    have m1: "swarm_ok m1" "safe_ids m1" "m1 \<noteq> []" "poor m1 = {}" "calc_threshold m1 \<le> calc_excess m1"
      using I b True by (auto simp: s grown_def)
    obtain new m2 g2 m3 where "collect_new_swarm R (m1, g1) = Inr (new, m2, g2, False)"
      "m3 = omap_insert (get_new_swarm_id m2) new m2" "grown m1 m3" "nodes m3 = nodes m1"
      "calc_excess m3 < calc_excess m1" by (rule create_one [OF assms(1) m1])
    then show "\<exists>s'. ?c s = Inr s' \<and> ?I s' \<and> (case s' of (m, _) \<Rightarrow> calc_excess m) < (case s of (m, _) \<Rightarrow> calc_excess m)"
      using I grown_trans [of m m1 m3] by (simp add: s)
  qed
  then obtain m' g' where "whileE ?b ?c (m, g, False) = Inr (m', g', False)" "grown m m'" "nodes m' = nodes m"
    by auto
  then show thesis
    using that [of m' g'] starving_iff_poor [of m] True assms(2)
    by (simp add: create_new_swarm_from_excess_def swarm_ok_def)
qed

section \<open>Assigning nodes\<close>

definition sorts_by_size :: "(swarm_size list \<Rightarrow> swarm_size list) \<Rightarrow> bool" where
  "sorts_by_size srt \<longleftrightarrow> (\<forall>xs. mset (srt xs) = mset xs \<and> sorted (map sw_size (srt xs)))"

lemma percentile_index_less:
  assumes "p \<le> 100" and "0 < n" and "n < 2 ^ 56"
  shows "percentile_index p n < n"
proof -
  have n64: "unat (of_nat n - 1 :: u64) = n - 1"
  proof -
    have "(of_nat n - 1 :: u64) = of_nat (n - 1)" using assms(2) by simp
    moreover have "n - 1 < 2 ^ 64" using assms(3) by simp
    ultimately show ?thesis by (simp only: unat_of_nat_small)
  qed
  have up: "unat p \<le> 100" using assms(1) by (simp add: word_le_nat_alt)
  then have le: "unat p * (n - 1) \<le> 100 * (n - 1)" by simp
  have "100 * (n - 1) < 2 ^ 64" using assms(3) by simp
  with le have "unat p * (n - 1) < 2 ^ 64" by (rule le_less_trans)
  then have "unat (p * (of_nat n - 1)) = unat p * (n - 1)"
    by (subst unat_mult_less) (simp_all add: n64)
  then have "percentile_index p n = unat p * (n - 1) div 100" by (simp add: percentile_index_def unat_div)
  also have "\<dots> \<le> n - 1" using div_le_mono [OF le, of 100] by simp
  finally show ?thesis using assms(2) by simp
qed

lemma upper_index_less: "sizes \<noteq> [] \<Longrightarrow> upper_index sizes i v < length sizes"
  by (auto simp: upper_index_def find_Some_iff split: option.splits)

lemma calc_swarm_sizes_mem:
  assumes "sorts_by_size srt" and "sw \<in> set (calc_swarm_sizes srt m)"
  shows "\<exists>vs. (sw_id sw, vs) \<in> set m \<and> sw_size sw = length vs"
proof -
  have "set (calc_swarm_sizes srt m) = set (map (\<lambda>(i, vs). \<lparr>sw_id = i, sw_size = length vs\<rparr>) m)"
    using assms(1) mset_eq_setD unfolding sorts_by_size_def calc_swarm_sizes_def by blast
  with assms(2) show ?thesis by auto
qed

lemma length_calc_swarm_sizes: "sorts_by_size srt \<Longrightarrow> length (calc_swarm_sizes srt m) = length m"
  unfolding sorts_by_size_def calc_swarm_sizes_def by (metis length_map size_mset)

lemma sizes_distinct:
  assumes "sorts_by_size srt" and "swarm_ok m"
  shows "distinct (map sw_id (calc_swarm_sizes srt m))"
proof -
  have "mset (map sw_id (calc_swarm_sizes srt m)) = mset (map fst m)"
    using assms(1) by (simp add: sorts_by_size_def calc_swarm_sizes_def multiset.map_comp comp_def case_prod_beta)
  with assms(2) show ?thesis
    using mset_eq_imp_distinct_iff by (fastforce simp: swarm_ok_def dest: omap_inv_distinct)
qed

text \<open>Replacing the nodes of one swarm by more nodes.\<close>

lemma add_to_swarm:
  assumes "swarm_ok m" and "safe_ids m" and "map_of m i = Some vs" and "pk \<notin># nodes m"
    and "size (nodes m) + 1 < 2 ^ 56"
  shows "grown m (omap_set i (vs @ [pk]) m)" and "nodes (omap_set i (vs @ [pk]) m) = add_mset pk (nodes m)"
proof -
  have inv: "omap_inv m" using assms(1) by (simp add: swarm_ok_def)
  let ?m = "omap_set i (vs @ [pk]) m"
  note rep = replace_swarm [OF inv assms(3), of "vs @ [pk]"]
  show nodes: "nodes ?m = add_mset pk (nodes m)" using rep(4) by simp
  have "distinct (concat (map snd ?m))"
    using nodes assms(1,4) mset_eq_imp_distinct_iff [of "concat (map snd ?m)" "pk # concat (map snd m)"]
    by (simp add: swarm_ok_def nodes_concat)
  then have "swarm_ok ?m" using rep(1,2,3) nodes assms(1,5) by (simp add: swarm_ok_def)
  moreover have "poor ?m \<subseteq> poor m" and r: "rich m \<subseteq> rich ?m"
    using assms(3) by (auto simp: poor_def rich_def map_of_omap_set [OF inv] split: if_splits)
  moreover have "safe_ids ?m"
    using assms(2) rep(2) card_mono [OF _ r] by (auto simp: safe_ids_def)
  moreover have "?m \<noteq> []" using rep(3) assms(3) by auto
  ultimately show "grown m ?m" using rep(3) by (simp add: grown_def)
qed

text \<open>Which swarm a node is added to.\<close>

lemma assign_snode_choice:
  assumes "fair R" and "sorts_by_size srt" and "p \<le> 100" and "omap_inv m" and "m \<noteq> []" and "length m < 2 ^ 56"
  obtains i vs g' where "map_of m i = Some vs"
    "assign_snode R srt p pk (m, g) = create_new_swarm_from_excess R (omap_set i (vs @ [pk]) m) g'"
proof -
  define sizes where "sizes = calc_swarm_sizes srt m"
  have len: "length sizes = length m" using length_calc_swarm_sizes [OF assms(2)] by (simp add: sizes_def)
  have pos: "0 < length m" "length m < 2 ^ 56" using assms(5,6) by simp_all
  define k where "k = percentile_index p (length sizes)"
  have k: "k < length sizes" unfolding k_def len by (rule percentile_index_less [OF assms(3) pos])
  define u where "u = upper_index sizes k (sw_size (sizes ! k))"
  have u: "u < length m" using upper_index_less [of sizes] len pos by (fastforce simp: u_def)
  have u1: "unat (of_nat u + 1 :: u64) = u + 1"
  proof -
    have "of_nat u + 1 = (of_nat (u + 1) :: u64)" by simp
    moreover have "u + 1 < 2 ^ 64" using u pos by simp
    ultimately show ?thesis by (simp only: unat_of_nat_small)
  qed
  then have "0 < (of_nat u + 1 :: u64)" by (simp add: word_less_nat_alt)
  then obtain x g1 where x: "uniform_distribution_portable R g (of_nat u + 1) = Inr (x, g1)" "x < of_nat u + 1"
    by (rule uniform_returns [OF assms(1)])
  have xl: "unat x < length sizes" using x(2) u len by (simp add: word_less_nat_alt u1)
  then obtain vs where "(sw_id (sizes ! unat x), vs) \<in> set m"
    using calc_swarm_sizes_mem [OF assms(2)] nth_mem by (metis sizes_def)
  then have look: "map_of m (sw_id (sizes ! unat x)) = Some vs" using omap_inv_distinct [OF assms(4)] by simp
  show thesis
  proof (rule that [OF look])
    show "assign_snode R srt p pk (m, g) = create_new_swarm_from_excess R (omap_set (sw_id (sizes ! unat x)) (vs @ [pk]) m) g1"
      using x(1) look k xl
      by (simp add: assign_snode_def Let_def sizes_def [symmetric] k_def [symmetric] u_def [symmetric]
          at_throw_def at_ub_def map_at_def)
  qed
qed

lemma assign_snode_returns:
  assumes "fair R" and "sorts_by_size srt" and "p \<le> 100" and "swarm_ok m" and "safe_ids m" and "m \<noteq> []"
    and "pk \<notin># nodes m" and "size (nodes m) + 1 < 2 ^ 56"
  obtains m' g' where "assign_snode R srt p pk (m, g) = Inr (m', g')" "grown m m'"
    "nodes m' = add_mset pk (nodes m)"
proof -
  have "omap_inv m" "length m < 2 ^ 56" using assms(4) by (simp_all add: swarm_ok_def)
  then obtain i vs g1 where look: "map_of m i = Some vs"
    and eq: "assign_snode R srt p pk (m, g) = create_new_swarm_from_excess R (omap_set i (vs @ [pk]) m) g1"
    using assign_snode_choice [OF assms(1-3) _ assms(6)] by blast
  let ?m = "omap_set i (vs @ [pk]) m"
  note add = add_to_swarm [OF assms(4,5) look assms(7,8)]
  then have "swarm_ok ?m" "safe_ids ?m" "?m \<noteq> []" by (simp_all add: grown_def)
  then obtain m' g' where c: "create_new_swarm_from_excess R ?m g1 = Inr (m', g')" "grown ?m m'" "nodes m' = nodes ?m"
    by (rule create_new_swarm_returns [OF assms(1)])
  then show thesis using that grown_trans [OF add(1) c(2)] c(3) add(2) eq by simp
qed

lemma assign_snodes_returns:
  assumes "fair R" and "sorts_by_size srt" and "p \<le> 100"
    and "swarm_ok m" and "safe_ids m" and "m \<noteq> []" and "distinct ks" and "\<forall>k \<in> set ks. k \<notin># nodes m"
    and "size (nodes m) + length ks < 2 ^ 56"
  shows "\<exists>m' g'. assign_snodes R srt ks m g p = Inr (m', g') \<and> grown m m' \<and> nodes m' = nodes m + mset ks"
  using assms(4-)
proof (induction ks arbitrary: m g)
  case Nil
  then show ?case by (simp add: assign_snodes_def grown_refl)
next
  case (Cons k ks)
  then have "k \<notin># nodes m" "size (nodes m) + 1 < 2 ^ 56" by simp_all
  with Cons.prems(1-3) obtain m1 g1 where one: "assign_snode R srt p k (m, g) = Inr (m1, g1)" "grown m m1"
    "nodes m1 = add_mset k (nodes m)" by (rule assign_snode_returns [OF assms(1-3)])
  have "\<exists>m' g'. assign_snodes R srt ks m1 g1 p = Inr (m', g') \<and> grown m1 m' \<and> nodes m' = nodes m1 + mset ks"
    by (rule Cons.IH) (use Cons.prems one in \<open>auto simp: grown_def\<close>)
  then obtain m' g' where "assign_snodes R srt ks m1 g1 p = Inr (m', g')" "grown m1 m'" "nodes m' = nodes m1 + mset ks"
    by blast
  then show ?case using one grown_trans [OF one(2), of m'] by (simp add: assign_snodes_def)
qed

lemma sizes_poor:
  assumes "sorts_by_size srt" and "swarm_ok m"
  shows "\<forall>sw \<in> set (calc_swarm_sizes srt m). sw_size sw < 5 \<longrightarrow> sw_id sw \<in> poor m"
proof (intro ballI impI)
  fix sw assume "sw \<in> set (calc_swarm_sizes srt m)" "sw_size sw < 5"
  then show "sw_id sw \<in> poor m"
    using calc_swarm_sizes_mem [OF assms(1)] swarm_ok_distinct(2) [OF assms(2)] by (fastforce simp: poor_def)
qed

section \<open>Robin Hood\<close>

text \<open>How a donation, and then a rescue, changes the swarms.\<close>

definition shifted :: "u64 \<Rightarrow> swarm_map \<Rightarrow> swarm_map \<Rightarrow> bool" where
  "shifted sid m m' \<longleftrightarrow> swarm_ok m' \<and> safe_ids m' \<and> nodes m' = nodes m \<and> length m' = length m \<and>
    fst ` set m' = fst ` set m \<and> poor m' \<subseteq> poor m \<and> poor m - {sid} \<subseteq> poor m' \<and> rich m \<subseteq> rich m'"

lemma shifted_refl: "swarm_ok m \<Longrightarrow> safe_ids m \<Longrightarrow> shifted sid m m"
  by (simp add: shifted_def)

lemma shifted_trans: "shifted sid m1 m2 \<Longrightarrow> shifted sid m2 m3 \<Longrightarrow> shifted sid m1 m3"
  by (auto simp: shifted_def)

lemma donation:
  assumes ok: "swarm_ok m" and safe: "safe_ids m" and sid: "map_of m sid = Some vs" "length vs < 5"
    and t: "5 \<le> t" and sn: "sn \<in> set (fst (get_excess_pool t m x))"
  obtains m1 where "remove_excess_snode_from_swarm sn m = Inr m1" "omap_inv m1" "map_of m1 sid = Some vs"
    "shifted sid m (omap_set sid (vs @ [ep_key sn]) m1)"
proof -
  have inv: "omap_inv m" "distinct (concat (map snd m))" using ok by (simp_all add: swarm_ok_def)
  obtain m1 where m1: "remove_excess_snode_from_swarm sn m = Inr m1" "omap_inv m1"
    "fst ` set m1 = fst ` set m" "length m1 = length m" "nodes m = add_mset (ep_key sn) (nodes m1)"
    "calc_excess m = Suc (calc_excess m1)" "map_of m1 = (map_of m)(ep_swarm sn := map_of m1 (ep_swarm sn))"
    "\<exists>ws. map_of m1 (ep_swarm sn) = Some ws \<and> t \<le> length ws"
    "\<exists>ws. map_of m (ep_swarm sn) = Some ws \<and> t < length ws"
    by (rule take_from_pool [OF inv t sn])
  have same: "map_of m1 j = map_of m j" if "j \<noteq> ep_swarm sn" for j using m1(7) that by (metis fun_upd_other)
  have ne: "sid \<noteq> ep_swarm sn" using sid m1(9) t by auto
  have look: "map_of m1 sid = Some vs" using same [OF ne] sid(1) by simp
  have pr: "(j \<in> poor m1 \<longleftrightarrow> j \<in> poor m) \<and> (j \<in> rich m1 \<longleftrightarrow> j \<in> rich m)" for j
    using same [of j] m1(8,9) t by (cases "j = ep_swarm sn") (auto simp: poor_def rich_def)
  then have p1: "poor m1 = poor m" and r1: "rich m1 = rich m" by auto
  have "mset (concat (map snd m)) = mset (ep_key sn # concat (map snd m1))" using m1(5) by (simp add: nodes_concat)
  then have d1: "distinct (concat (map snd m1))" and fresh: "ep_key sn \<notin># nodes m1"
    using inv(2) mset_eq_imp_distinct_iff by (fastforce simp: nodes_concat)+
  have ok1: "swarm_ok m1" using ok m1 d1 by (simp add: swarm_ok_def)
  have safe1: "safe_ids m1" using safe m1(3) r1 by (simp add: safe_ids_def)
  have "size (nodes m1) + 1 < 2 ^ 56" using ok m1(5) by (simp add: swarm_ok_def)
  note add = add_to_swarm [OF ok1 safe1 look fresh this]
  let ?m2 = "omap_set sid (vs @ [ep_key sn]) m1"
  note rep = replace_swarm [OF m1(2) look, of "vs @ [ep_key sn]"]
  have "poor m1 - {sid} \<subseteq> poor ?m2" by (auto simp: poor_def map_of_omap_set [OF m1(2)])
  then have "shifted sid m ?m2"
    using add rep(2,3) m1(3,4,5) p1 r1 by (simp add: shifted_def grown_def)
  with that m1(1,2) look show thesis by blast
qed

lemma steal_one_returns:
  assumes "fair R" and "swarm_ok m" and "safe_ids m" and "map_of m sid = Some vs" and "length vs < 5"
    and "percentile_index STEALING_SWARM_UPPER_PERCENTILE (length sizes) < length sizes"
  obtains m' g' b where "steal_one R sizes sid (m, g, f) = Inr (m', g', b)" "shifted sid m m'"
    "\<not> b \<longrightarrow> (\<exists>k. map_of m' sid = Some (vs @ [k]))"
proof -
  define v where "v = sw_size (sizes ! percentile_index STEALING_SWARM_UPPER_PERCENTILE (length sizes))"
  define t where "t = max MIN_SWARM_SIZE (if v = 0 then 18446744073709551615 else v - 1)"
  note t_alt = t_def [unfolded v_def, symmetric]
  have t: "5 \<le> t" by (simp add: t_def swarm_constants)
  define pool excess where "pool = fst (get_excess_pool t m 0)" and "excess = snd (get_excess_pool t m 0)"
  have gp: "get_excess_pool t m 0 = (pool, excess)" by (simp add: pool_def excess_def)
  have min: "length vs \<le> MIN_SWARM_SIZE" "MIN_SWARM_SIZE - length vs = 5 - length vs"
    using assms(5) by (simp_all add: swarm_constants)
  have run: "steal_one R sizes sid (m, g, f) =
      (if excess < 5 - length vs then Inr (m, g, True)
       else bindE (pick_from_excess_pool R pool g) (\<lambda>(sn, mt).
            bindE (remove_excess_snode_from_swarm sn m) (\<lambda>m.
            bindE (map_at m sid) (\<lambda>poor. Inr (omap_set sid (poor @ [ep_key sn]) m, mt, False)))))"
    using assms(4,6) min
    by (simp add: steal_one_def at_throw_def map_at_def [of m] t_alt gp Let_def
        split del: if_split)
  show thesis
  proof (cases "excess < 5 - length vs")
    case True
    then have "steal_one R sizes sid (m, g, f) = Inr (m, g, True)"
      by (simp add: run)
    then show thesis using that shifted_refl [OF assms(2,3)] by blast
  next
    case False
    then have "pool \<noteq> []" using assms(5) excess_pool_nonempty [OF t, of m 0] by (simp add: pool_def excess_def)
    moreover have "length pool < 2 ^ 64"
      using excess_pool_length [OF t, of m 0] assms(2) by (simp add: pool_def swarm_ok_def)
    ultimately obtain sn g1 where pick: "pick_from_excess_pool R pool g = Inr (sn, g1)" "sn \<in> set pool"
      by (rule pick_returns [OF assms(1)])
    obtain m1 where m1: "remove_excess_snode_from_swarm sn m = Inr m1" "omap_inv m1" "map_of m1 sid = Some vs"
      "shifted sid m (omap_set sid (vs @ [ep_key sn]) m1)"
      by (rule donation [OF assms(2-5) t pick(2) [unfolded pool_def]])
    have "steal_one R sizes sid (m, g, f) = Inr (omap_set sid (vs @ [ep_key sn]) m1, g1, False)"
      using False pick(1) m1(1,3) by (simp add: run map_at_def)
    from that [OF this m1(4)] show thesis using m1(2) by (simp add: map_of_omap_set)
  qed
qed

lemma rescue_swarm_returns:
  fixes R :: "'g rng"
  assumes "fair R" and "swarm_ok m" and "safe_ids m" and "sid \<in> poor m"
    and "percentile_index STEALING_SWARM_UPPER_PERCENTILE (length sizes) < length sizes"
  obtains m' g' b where "rescue_swarm R sizes sid (m, g) = Inr (m', g', b)" "shifted sid m m'"
    "\<not> b \<longrightarrow> sid \<notin> poor m'"
proof -
  obtain vs where vs: "map_of m sid = Some vs" "length vs < 5" using assms(4) by (auto simp: poor_def)
  let ?b = "\<lambda>(m, _, insufficient). \<not> insufficient \<and>
    (case map_of m sid of Some ws \<Rightarrow> length ws < MIN_SWARM_SIZE | None \<Rightarrow> False)"
  let ?I = "\<lambda>(m', g' :: 'g, b). shifted sid m m'"
  let ?f = "\<lambda>(m', g' :: 'g, b :: bool). (if b then 0 else Suc (5 - length (the (map_of m' sid))))"
  have step: "\<exists>s'. steal_one R sizes sid s = Inr s' \<and> ?I s' \<and> ?f s' < ?f s" if I: "?I s" and b: "?b s" for s
  proof -
    obtain m1 g1 where s: "s = (m1, g1, False)" using b by (cases s) auto
    obtain ws where ws: "map_of m1 sid = Some ws" "length ws < 5"
      using b by (auto simp: s swarm_constants split: option.splits)
    have "swarm_ok m1" "safe_ids m1" "shifted sid m m1" using I by (auto simp: s shifted_def)
    then obtain m2 g2 b where "steal_one R sizes sid (m1, g1, False) = Inr (m2, g2, b)" "shifted sid m1 m2"
      "\<not> b \<longrightarrow> (\<exists>k. map_of m2 sid = Some (ws @ [k]))"
      using steal_one_returns [OF assms(1) _ _ ws assms(5)] by metis
    then show ?thesis using ws shifted_trans [OF \<open>shifted sid m m1\<close>, of m2] by (auto simp: s)
  qed
  have "?I (m, g, False)" "?b (m, g, False)" using assms(2,3) vs by (simp_all add: shifted_refl swarm_constants)
  with step obtain s1 where s1: "steal_one R sizes sid (m, g, False) = Inr s1" "?I s1" by blast
  have "\<exists>t. whileE ?b (steal_one R sizes sid) s1 = Inr t \<and> ?I t \<and> \<not> ?b t"
    by (rule whileE_total [where f = ?f, OF s1(2) step])
  then obtain t where t: "whileE ?b (steal_one R sizes sid) s1 = Inr t" "?I t" "\<not> ?b t" by blast
  obtain m' g' b where tt: "t = (m', g', b)" by (cases t)
  have run: "whileE ?b (steal_one R sizes sid) s1 = Inr (m', g', b)" "shifted sid m m'" "\<not> ?b (m', g', b)"
    using t by (simp_all add: tt)
  then have "rescue_swarm R sizes sid (m, g) = Inr (m', g', b)"
    using vs s1(1) by (simp add: rescue_swarm_def map_at_def)
  moreover have "\<not> b \<longrightarrow> sid \<notin> poor m'" using run(3) by (auto simp: poor_def swarm_constants split: option.splits)
  ultimately show thesis using that run(2) by blast
qed

lemma robin_hood_returns:
  assumes "fair R" and "percentile_index STEALING_SWARM_UPPER_PERCENTILE (length sizes) < length sizes"
    and "swarm_ok m" and "safe_ids m" and "distinct (map sw_id sws)"
    and "\<forall>sw \<in> set sws. sw_size sw < 5 \<longrightarrow> sw_id sw \<in> poor m"
  shows "\<exists>m' g'. robin_hood R sizes sws (m, g) = Inr (m', g') \<and> swarm_ok m' \<and> safe_ids m' \<and> nodes m' = nodes m \<and>
    length m' = length m"
  using assms(3-)
proof (induction sws arbitrary: m g)
  case Nil
  then show ?case by simp
next
  case (Cons sw sws)
  show ?case
  proof (cases "sw_size sw < 5")
    case False
    then show ?thesis using Cons.prems by (simp add: swarm_constants)
  next
    case True
    then have "sw_id sw \<in> poor m" using Cons.prems(4) by simp
    with Cons.prems(1,2) obtain m1 g1 b where one: "rescue_swarm R sizes (sw_id sw) (m, g) = Inr (m1, g1, b)"
      "shifted (sw_id sw) m m1" "\<not> b \<longrightarrow> sw_id sw \<notin> poor m1"
      using rescue_swarm_returns [OF assms(1) _ _ _ assms(2)] by metis
    note m1 = one(2) [unfolded shifted_def]
    have "\<exists>m' g'. robin_hood R sizes sws (m1, g1) = Inr (m', g') \<and> swarm_ok m' \<and> safe_ids m' \<and> nodes m' = nodes m1 \<and>
      length m' = length m1"
    proof (rule Cons.IH)
      show "\<forall>sw \<in> set sws. sw_size sw < 5 \<longrightarrow> sw_id sw \<in> poor m1"
      proof (intro ballI impI)
        fix sw' assume "sw' \<in> set sws" "sw_size sw' < 5"
        then have "sw_id sw' \<in> poor m" "sw_id sw' \<in> sw_id ` set sws" using Cons.prems(4) by force+
        moreover from this(2) have "sw_id sw' \<noteq> sw_id sw" using Cons.prems(3) by (metis distinct.simps(2) list.map(2) list.set_map)
        ultimately have "sw_id sw' \<in> poor m - {sw_id sw}" by blast
        then show "sw_id sw' \<in> poor m1" using m1 by blast
      qed
    qed (use Cons.prems(3) m1 in simp_all)
    then show ?thesis using one(1) m1 True by (cases b) (auto simp: swarm_constants)
  qed
qed

section \<open>Decommissioning\<close>

text \<open>A starving swarm is dissolved and its nodes go to the others.\<close>

lemma decommission_one_returns:
  assumes "fair R" and "sorts_by_size srt" and "swarm_ok m" and "safe_ids m" and "2 \<le> length m" and "poor m \<noteq> {}"
  obtains m' g' where "decommission_one R srt (m, g) = Inr (m', g')" "swarm_ok m'" "safe_ids m'" "m' \<noteq> []"
    "nodes m' = nodes m" "card (poor m') < card (poor m)"
proof -
  have inv: "omap_inv m" using assms(3) by (simp add: swarm_ok_def)
  have "\<exists>e \<in> set m. (\<lambda>(_, snodes). length snodes < MIN_SWARM_SIZE) e"
    using starving_iff_poor [OF inv] assms(6) by (simp add: has_starving_swarms_def list_ex_iff)
  then obtain i vs where f: "find (\<lambda>(_, snodes). length snodes < MIN_SWARM_SIZE) m = Some (i, vs)"
    by (cases "find (\<lambda>(_, snodes). length snodes < MIN_SWARM_SIZE) m") (auto simp: find_None_iff)
  then have iv: "(i, vs) \<in> set m" "length vs < 5" by (auto simp: find_Some_iff swarm_constants) (metis nth_mem)
  then have look: "map_of m i = Some vs" using swarm_ok_distinct(2) [OF assms(3)] by blast
  note er = erase_swarm [OF inv look]
  let ?m = "map_erase i m"
  have "mset (concat (map snd m)) = mset (vs @ concat (map snd ?m))" using er(2) by (simp add: nodes_concat)
  then have d: "distinct (concat (map snd ?m))" "distinct vs" "\<forall>k \<in> set vs. k \<notin># nodes ?m"
    using assms(3) mset_eq_imp_distinct_iff by (fastforce simp: swarm_ok_def nodes_concat)+
  have p: "poor ?m = poor m - {i}" and r: "rich ?m = rich m"
    using look iv(2) by (auto simp: poor_def rich_def map_of_erase)
  have ok: "swarm_ok ?m" using assms(3) er d by (auto simp: swarm_ok_def)
  have "fst ` set ?m \<subseteq> fst ` set m" using er(4) by auto
  then have safe: "safe_ids ?m" using assms(4) by (auto simp: safe_ids_def r)
  have ne: "?m \<noteq> []" using er(3) assms(5) by auto
  have "size (nodes ?m) + length vs < 2 ^ 56" using assms(3) er(2) by (simp add: swarm_ok_def)
  from assign_snodes_returns [OF assms(1,2) _ ok safe ne d(2,3) this, of 0 g]
  obtain m' g' where a: "assign_snodes R srt vs ?m g 0 = Inr (m', g')" "grown ?m m'" "nodes m' = nodes ?m + mset vs"
    by auto
  have "i \<in> poor m" using look iv(2) by (simp add: poor_def)
  then have "card (poor m') < card (poor m)"
    using a(2) p by (intro psubset_card_mono) (auto simp: grown_def)
  moreover have "decommission_one R srt (m, g) = Inr (m', g')"
    using a(1) by (simp add: decommission_one_def f DECOMMISSIONED_REDISTRIBUTION_LOWER_PERCENTILE_def)
  ultimately show thesis using that a er(2) by (simp add: grown_def)
qed

lemma decommission_all:
  fixes R :: "'g rng"
  assumes "fair R" and "sorts_by_size srt" and "swarm_ok m" and "safe_ids m" and "m \<noteq> []" and "5 \<le> size (nodes m)"
  obtains m' g' where "whileE (\<lambda>(m, _). has_starving_swarms m) (decommission_one R srt) (m, g) = Inr (m', g')"
    "swarm_ok m'" "m' \<noteq> []" "nodes m' = nodes m" "poor m' = {}"
proof -
  let ?I = "\<lambda>(m', g' :: 'g). swarm_ok m' \<and> safe_ids m' \<and> m' \<noteq> [] \<and> nodes m' = nodes m"
  let ?b = "\<lambda>(m :: swarm_map, g' :: 'g). has_starving_swarms m"
  have "\<exists>t. whileE ?b (decommission_one R srt) (m, g) = Inr t \<and> ?I t \<and> \<not> ?b t"
  proof (rule whileE_total [where f = "\<lambda>(m, _). card (poor m)"])
    show "?I (m, g)" using assms by simp
    fix s assume I: "?I s" and b: "?b s"
    obtain m1 g1 where s: "s = (m1, g1)" by (cases s)
    have m1: "swarm_ok m1" "safe_ids m1" "m1 \<noteq> []" "nodes m1 = nodes m" "poor m1 \<noteq> {}"
      using I b starving_iff_poor [of m1] by (auto simp: s swarm_ok_def)
    have "length m1 \<noteq> 1"
    proof
      assume "length m1 = 1"
      then obtain i vs where "m1 = [(i, vs)]" by (cases m1) auto
      moreover from this have "size (nodes m1) = length vs" by (simp add: nodes_def)
      ultimately show False using m1(4,5) assms(6) by (auto simp: poor_def split: if_splits)
    qed
    then have "2 \<le> length m1" using m1(3) by (cases m1) (auto simp: Suc_le_eq)
    then obtain m2 g2 where "decommission_one R srt (m1, g1) = Inr (m2, g2)" "swarm_ok m2" "safe_ids m2" "m2 \<noteq> []"
      "nodes m2 = nodes m1" "card (poor m2) < card (poor m1)"
      using decommission_one_returns [OF assms(1,2) m1(1,2) _ m1(5)] by metis
    then show "\<exists>s'. decommission_one R srt s = Inr s' \<and> ?I s' \<and> (case s' of (m, _) \<Rightarrow> card (poor m)) < (case s of (m, _) \<Rightarrow> card (poor m))"
      using m1(4) by (simp add: s)
  qed
  then obtain m' g' where "whileE ?b (decommission_one R srt) (m, g) = Inr (m', g')" "swarm_ok m'" "m' \<noteq> []"
    "nodes m' = nodes m" "\<not> has_starving_swarms m'" by auto
  with that starving_iff_poor [of m'] show thesis by (simp add: swarm_ok_def)
qed

section \<open>The whole round\<close>

text \<open>
  The input of a round: the swarms and, under the unassigned id, the nodes to place. Besides
  sizes within bounds it asks that no id can clash (see \<open>safe_ids\<close>) and that there are enough
  nodes for one full swarm whenever there is more than one swarm.
\<close>

definition round_ok :: "swarm_map \<Rightarrow> bool" where
  "round_ok m \<longleftrightarrow> omap_inv m \<and> distinct (concat (map snd m)) \<and> length m < 2 ^ 56 \<and> size (nodes m) < 2 ^ 56 \<and>
    safe_ids (map_erase UNASSIGNED_SWARM_ID m) \<and>
    (length (map_erase UNASSIGNED_SWARM_ID m) \<le> 1 \<or> 5 \<le> size (nodes m))"

lemma below_unassigned: "(i :: u64) \<noteq> UNASSIGNED_SWARM_ID \<Longrightarrow> i \<le> MAX_ID"
proof -
  assume "i \<noteq> UNASSIGNED_SWARM_ID"
  then have "unat i \<noteq> 18446744073709551615"
    by (metis UNASSIGNED_SWARM_ID_def unat_UINT64_MAX word_unat_eq_iff)
  then show ?thesis using unat64_bound [of i] by (simp add: word_le_nat_alt unat_MAX_ID)
qed

lemma unassigned_above: "\<not> UNASSIGNED_SWARM_ID \<le> MAX_ID"
  by (simp add: word_le_nat_alt unat_MAX_ID UNASSIGNED_SWARM_ID_def)

text \<open>The swarms and the nodes to place, at the start of the assignment.\<close>

lemma round_start:
  assumes "round_ok m"
  defines "ks \<equiv> case map_of m UNASSIGNED_SWARM_ID of Some s \<Rightarrow> s | None \<Rightarrow> []"
    and "m0 \<equiv> map_erase UNASSIGNED_SWARM_ID m"
  defines "m1 \<equiv> if m0 = [] then omap_insert (get_new_swarm_id []) [] m0 else m0"
  shows "swarm_ok m1" "safe_ids m1" "m1 \<noteq> []" "distinct ks" "\<forall>k \<in> set ks. k \<notin># nodes m1"
    "nodes m = mset ks + nodes m1" "length m1 \<le> 1 \<or> 5 \<le> size (nodes m)"
proof -
  have inv: "omap_inv m" using assms(1) by (simp add: round_ok_def)
  have inv0: "omap_inv m0" unfolding m0_def by (rule omap_inv_erase [OF inv])
  have n: "nodes m = mset ks + nodes m0 \<and> length m0 \<le> length m"
  proof (cases "map_of m UNASSIGNED_SWARM_ID")
    case None
    then have "mset m0 = mset m"
      unfolding m0_def by (intro omap.del_fresh [OF inv]) (simp add: map_of_eq_None_iff)
    then show ?thesis using None mset_eq_length [of m0 m] by (simp add: nodes_def ks_def)
  next
    case (Some vs)
    then show ?thesis using erase_swarm [OF inv Some] by (simp add: ks_def m0_def)
  qed
  note n0 = n [THEN conjunct1] n [THEN conjunct2]
  have "mset (concat (map snd m)) = mset (ks @ concat (map snd m0))" using n0(1) by (simp add: nodes_concat)
  then have d: "distinct (concat (map snd m0))" "distinct ks" "\<forall>k \<in> set ks. k \<notin># nodes m0"
    using assms(1) mset_eq_imp_distinct_iff by (fastforce simp: round_ok_def nodes_concat)+
  have "\<forall>i \<in> fst ` set m0. i \<le> MAX_ID" by (auto simp: m0_def map_erase_def intro: below_unassigned)
  then have ok0: "swarm_ok m0" using inv0 d(1) n0 assms(1) by (simp add: swarm_ok_def round_ok_def)
  have n1: "nodes m1 = nodes m0" by (simp add: m1_def omap_insert_def nodes_def)
  show "nodes m = mset ks + nodes m1" "\<forall>k \<in> set ks. k \<notin># nodes m1" using n0(1) d(3) n1 by simp_all
  show "distinct ks" by (rule d(2))
  show "m1 \<noteq> []" by (simp add: m1_def omap_insert_def)
  show "swarm_ok m1" using ok0 by (simp add: m1_def swarm_ok_def omap_insert_def get_new_swarm_id_def nodes_def)
  show "safe_ids m1"
    using assms(1) by (simp add: m1_def m0_def round_ok_def safe_ids_def omap_insert_def get_new_swarm_id_def MAX_ID_def)
  show "length m1 \<le> 1 \<or> 5 \<le> size (nodes m)"
    using assms(1) by (auto simp: m1_def m0_def round_ok_def omap_insert_def)
qed

lemma calc_swarm_round:
  assumes "fair R" and "sorts_by_size srt" and "round_ok m" and "m \<noteq> []"
  shows "\<exists>m'. calc_swarm_changes R srt m seed = Inr m' \<and> omap_inv m' \<and> nodes m' = nodes m \<and>
    UNASSIGNED_SWARM_ID \<notin> fst ` set m' \<and>
    (length m' = 1 \<or> (\<forall>e \<in> set m'. MIN_SWARM_SIZE \<le> length (snd e)))"
proof -
  define ks m0 where "ks = (case map_of m UNASSIGNED_SWARM_ID of Some s \<Rightarrow> s | None \<Rightarrow> [])"
    and "m0 = map_erase UNASSIGNED_SWARM_ID m"
  define m1 where "m1 = (if m0 = [] then omap_insert (get_new_swarm_id []) [] m0 else m0)"
  define g where "g = rng_init R seed"
  note start = round_start [OF assms(3), folded ks_def m0_def, folded m1_def]
  have "size (nodes m1) + length ks < 2 ^ 56"
    using assms(3) arg_cong [OF start(6), of size] by (simp add: round_ok_def)
  from assign_snodes_returns [OF assms(1,2) _ start(1-5) this, of 25 g, simplified]
  obtain m2 g2 where a: "assign_snodes R srt ks m1 g 25 = Inr (m2, g2)" "grown m1 m2" "nodes m2 = nodes m"
    using start(6) by (auto simp: ac_simps)
  define sizes where "sizes = calc_swarm_sizes srt m2"
  have len: "length sizes = length m2" using length_calc_swarm_sizes [OF assms(2)] by (simp add: sizes_def)
  have m2: "swarm_ok m2" "safe_ids m2" "m2 \<noteq> []" using a(2) by (simp_all add: grown_def)
  have idx: "percentile_index STEALING_SWARM_UPPER_PERCENTILE (length sizes) < length sizes"
    unfolding len by (rule percentile_index_less) (use m2 in \<open>simp_all add: swarm_ok_def STEALING_SWARM_UPPER_PERCENTILE_def\<close>)
  from robin_hood_returns [OF assms(1) idx m2(1,2) sizes_distinct [OF assms(2) m2(1)] sizes_poor [OF assms(2) m2(1)],
      folded sizes_def, of g2]
  obtain m3 g3 where r: "robin_hood R sizes sizes (m2, g2) = Inr (m3, g3)" "swarm_ok m3" "safe_ids m3"
    "nodes m3 = nodes m" "length m3 = length m2" using a(3) by auto
  have "m3 \<noteq> []" using r(5) m2(3) by auto
  with r(2,3) obtain m4 g4 where c: "create_new_swarm_from_excess R m3 g3 = Inr (m4, g4)" "grown m3 m4" "nodes m4 = nodes m3"
    by (rule create_new_swarm_returns [OF assms(1)])
  have unas: "UNASSIGNED_SWARM_ID \<notin> fst ` set m'" if "swarm_ok m'" for m'
    using that unassigned_above by (auto simp: swarm_ok_def)
  have run: "calc_swarm_changes R srt m seed =
      bindE (if 1 < length m4 then whileE (\<lambda>(m, _). has_starving_swarms m) (decommission_one R srt) (m4, g4)
             else Inr (m4, g4)) (\<lambda>(m, mt). Inr m)"
    using assms(4) a(1) r(1) c(1)
    by (simp add: calc_swarm_changes_def Let_def ks_def [symmetric] m0_def [symmetric] m1_def [symmetric]
        g_def [symmetric] sizes_def [symmetric] FILL_SWARM_LOWER_PERCENTILE_def split del: if_split)
  show ?thesis
  proof (cases "1 < length m4")
    case False
    then have "length m4 = 1" using c(2) by (cases m4) (auto simp: grown_def)
    then show ?thesis using run False c(2,3) r(4) unas [of m4] by (simp add: grown_def swarm_ok_def)
  next
    case True
    have "5 \<le> size (nodes m4)" using True start(7) a(2,3) r(4,5) c(2,3) by (auto simp: grown_def)
    then obtain m5 g5 where d: "whileE (\<lambda>(m, _). has_starving_swarms m) (decommission_one R srt) (m4, g4) = Inr (m5, g5)"
      "swarm_ok m5" "m5 \<noteq> []" "nodes m5 = nodes m4" "poor m5 = {}"
      using decommission_all [OF assms(1,2), of m4 g4] c(2) by (auto simp: grown_def)
    then have "\<forall>e \<in> set m5. MIN_SWARM_SIZE \<le> length (snd e)"
      using not_starving_iff [of m5] by (auto simp: swarm_ok_def starving_def not_less swarm_constants)
    then show ?thesis using run True d c(3) r(4) unas [of m5] by (simp add: swarm_ok_def)
  qed
qed

text \<open>
  (C8) A round of \<open>calc_swarm_changes\<close> on swarms and unassigned nodes within bounds always ends
  without an exception, places every node exactly once and in no other place, leaves nobody
  unassigned, and leaves either a single swarm or only swarms of at least \<open>MIN_SWARM_SIZE\<close> nodes.
\<close>

theorem calc_swarm_changes_correct:
  assumes "fair R" and "sorts_by_size srt" and "round_ok m" and "m \<noteq> []"
  shows "\<exists>m'. calc_swarm_changes R srt m seed = Inr m' \<and> omap_inv m' \<and> nodes m' = nodes m \<and>
    UNASSIGNED_SWARM_ID \<notin> fst ` set m' \<and>
    (length m' = 1 \<or> (\<forall>e \<in> set m'. MIN_SWARM_SIZE \<le> length (snd e)))"
  using calc_swarm_round [OF assms] .

lemma sorts_by_size_sort_key: "sorts_by_size (sort_key sw_size)"
  by (simp add: sorts_by_size_def)

definition example_swarms :: swarm_map where
  "example_swarms = [(3, [[1], [2], [3]]), (9, [[4], [5]]), (UNASSIGNED_SWARM_ID, [[6]])]"

lemma round_ok_example: "round_ok example_swarms"
  by (simp add: round_ok_def example_swarms_def UNASSIGNED_SWARM_ID_def map_erase_def safe_ids_def MAX_ID_def nodes_def)

theorem calc_swarm_changes_correct_witness:
  "round_ok example_swarms \<and>
    (\<exists>m'. calc_swarm_changes counter_rng (sort_key sw_size) example_swarms 7 = Inr m' \<and>
      nodes m' = nodes example_swarms)"
  using calc_swarm_changes_correct [OF fair_counter_rng sorts_by_size_sort_key round_ok_example, of 7] round_ok_example
  by (auto simp: example_swarms_def)

section \<open>Outside the bounds\<close>

text \<open>With fewer than five nodes in all every swarm is below the minimum, and no swarm can be created or helped.\<close>

lemma few_nodes_starving:
  assumes "size (nodes m) < 5"
  shows "e \<in> set m \<Longrightarrow> length (snd e) < 5" and "m \<noteq> [] \<Longrightarrow> has_starving_swarms m"
proof -
  show small: "length (snd e) < 5" if "e \<in> set m" for e using length_le_size_nodes [OF that] assms by linarith
  show "has_starving_swarms m" if "m \<noteq> []"
    using that small [of "hd m"] by (auto simp: has_starving_swarms_def list_ex_iff swarm_constants intro!: bexI [of _ "hd m"])
qed

lemma assign_few:
  assumes "fair R" and "sorts_by_size srt" and "p \<le> 100" and "omap_inv m" and "m \<noteq> []" and "length m < 2 ^ 56"
    and "size (nodes m) + length ks < 5"
  shows "\<exists>m' g'. assign_snodes R srt ks m g p = Inr (m', g') \<and> omap_inv m' \<and> length m' = length m \<and> nodes m' = nodes m + mset ks"
  using assms(4-)
proof (induction ks arbitrary: m g)
  case Nil
  then show ?case by (simp add: assign_snodes_def)
next
  case (Cons k ks)
  obtain i vs g1 where c: "map_of m i = Some vs"
    "assign_snode R srt p k (m, g) = create_new_swarm_from_excess R (omap_set i (vs @ [k]) m) g1"
    by (rule assign_snode_choice [OF assms(1-3) Cons.prems(1-3)])
  let ?m = "omap_set i (vs @ [k]) m"
  note rep = replace_swarm [OF Cons.prems(1) c(1), of "vs @ [k]"]
  have n: "nodes ?m = add_mset k (nodes m)" using rep(4) by simp
  have ne: "?m \<noteq> []" using rep(3) Cons.prems(2) by auto
  have "has_starving_swarms ?m" by (rule few_nodes_starving(2) [OF _ ne]) (use n Cons.prems(4) in simp)
  then have one: "assign_snode R srt p k (m, g) = Inr (?m, g1)" by (simp add: c(2) create_new_swarm_from_excess_def)
  have "\<exists>m' g'. assign_snodes R srt ks ?m g1 p = Inr (m', g') \<and> omap_inv m' \<and> length m' = length ?m \<and> nodes m' = nodes ?m + mset ks"
    by (rule Cons.IH) (use rep n ne Cons.prems in auto)
  then show ?case using one rep(3) n by (auto simp: assign_snodes_def)
qed

lemma dissolve_all:
  assumes "fair R" and "sorts_by_size srt" and "omap_inv m" and "m \<noteq> []" and "length m < 2 ^ 56"
    and "size (nodes m) < 5" and "nodes m \<noteq> {#}"
  shows "whileE (\<lambda>(m, _). has_starving_swarms m) (decommission_one R srt) (m, g) = Inl Out_of_range"
  using assms(3-)
proof (induction "length m" arbitrary: m g)
  case (Suc n)
  obtain i vs rest where m: "m = (i, vs) # rest" using Suc.prems(2) by (cases m) auto
  have f: "find (\<lambda>(_, snodes). length snodes < MIN_SWARM_SIZE) m = Some (i, vs)" "(i, vs) \<in> set m"
    using few_nodes_starving(1) [OF Suc.prems(4), of "(i, vs)"] by (simp_all add: m swarm_constants)
  then have look: "map_of m i = Some vs" using omap_inv_distinct [OF Suc.prems(1)] by simp
  note er = erase_swarm [OF Suc.prems(1) look]
  have step: "decommission_one R srt (m, g) = assign_snodes R srt vs (map_erase i m) g 0"
    by (simp add: decommission_one_def f(1) DECOMMISSIONED_REDISTRIBUTION_LOWER_PERCENTILE_def)
  have starve: "has_starving_swarms m" by (rule few_nodes_starving(2) [OF Suc.prems(4,2)])
  show ?case
  proof (cases "map_erase i m = []")
    case True
    then have "vs \<noteq> []" using er(2) Suc.prems(5) by (auto simp: nodes_def)
    moreover have "calc_swarm_sizes srt [] = []" using length_calc_swarm_sizes [OF assms(2), of "[]"] by simp
    ultimately have "assign_snodes R srt vs [] g 0 = Inl Out_of_range"
      by (cases vs) (simp_all add: assign_snodes_def assign_snode_def at_throw_def)
    then show ?thesis using starve by (simp add: whileE_unfold [of _ _ "(m, g)"] step True)
  next
    case False
    obtain m' g' where a: "assign_snodes R srt vs (map_erase i m) g 0 = Inr (m', g')" "omap_inv m'"
      "length m' = length (map_erase i m)" "nodes m' = nodes (map_erase i m) + mset vs"
      using assign_few [OF assms(1,2) _ er(1) False, of 0 vs g] er(2,3) Suc.prems(3,4) by (auto simp: ac_simps)
    have "nodes m' = nodes m" using a(4) er(2) by (simp add: ac_simps)
    moreover have "n = length m'" using a(3) er(3) Suc.hyps(2) by simp
    moreover have "m' \<noteq> []" using a(3) False by auto
    ultimately have "whileE (\<lambda>(m, _). has_starving_swarms m) (decommission_one R srt) (m', g') = Inl Out_of_range"
      using Suc.hyps(1) [of m' g'] a(2) Suc.prems(3-5) Suc.hyps(2) by simp
    then show ?thesis using starve by (simp add: whileE_unfold [of _ _ "(m, g)"] step a(1))
  qed
qed simp

lemma no_help:
  assumes "sorts_by_size srt" and "omap_inv m" and "m \<noteq> []" and "length m < 2 ^ 56" and "size (nodes m) < 5"
  shows "robin_hood R (calc_swarm_sizes srt m) (calc_swarm_sizes srt m) (m, g) = Inr (m, g)"
proof -
  define sizes where "sizes = calc_swarm_sizes srt m"
  have len: "length sizes = length m" using length_calc_swarm_sizes [OF assms(1)] by (simp add: sizes_def)
  then obtain sw rest where cons: "sizes = sw # rest" using assms(3) by (cases sizes) auto
  then obtain vs where vs: "(sw_id sw, vs) \<in> set m" "sw_size sw = length vs"
    using calc_swarm_sizes_mem [OF assms(1), of sw m] by (auto simp: sizes_def [symmetric])
  have small: "length vs < 5" using few_nodes_starving(1) [OF assms(5) vs(1)] by simp
  have look: "map_of m (sw_id sw) = Some vs" using vs(1) omap_inv_distinct [OF assms(2)] by simp
  have idx: "percentile_index STEALING_SWARM_UPPER_PERCENTILE (length sizes) < length sizes"
    unfolding len by (rule percentile_index_less) (use assms(3,4) in \<open>simp_all add: STEALING_SWARM_UPPER_PERCENTILE_def\<close>)
  have none: "snd (get_excess_pool t m 0) = 0" if "5 \<le> t" for t
    unfolding get_excess_pool_eq [OF that] using few_nodes_starving(1) [OF assms(5)] that by (fastforce intro!: sum_mset.neutral)
  have "steal_one R sizes (sw_id sw) (m, g, False) = Inr (m, g, True)"
    using idx look small none by (simp add: steal_one_def at_throw_def map_at_def Let_def swarm_constants case_prod_beta)
  then have "rescue_swarm R sizes (sw_id sw) (m, g) = Inr (m, g, True)"
    using look by (simp add: rescue_swarm_def map_at_def whileE_unfold [of _ _ "(m, g, True)"])
  then show ?thesis using small vs(2) unfolding sizes_def [symmetric] by (subst (2) cons) (simp add: swarm_constants)
qed

text \<open>
  The last step does not stop at one swarm. In a network of at least two swarms with one to four nodes in
  all, whatever their ids and the random choices, it dissolves every swarm, and the assignment of the
  nodes of the last one throws.
\<close>

theorem few_nodes_throw:
  assumes "fair R" and "sorts_by_size srt" and "swarm_ok m" and "2 \<le> length m" and "nodes m \<noteq> {#}" and "size (nodes m) < 5"
  shows "calc_swarm_changes R srt m seed = Inl Out_of_range"
proof -
  have m: "omap_inv m" "m \<noteq> []" "length m < 2 ^ 56" using assms(3,4) by (auto simp: swarm_ok_def)
  have no: "UNASSIGNED_SWARM_ID \<notin> fst ` set m" using assms(3) unassigned_above by (auto simp: swarm_ok_def)
  then have "map_of m UNASSIGNED_SWARM_ID = None" "map_erase UNASSIGNED_SWARM_ID m = m"
    by (simp add: map_of_eq_None_iff, force simp: map_erase_def filter_id_conv)
  moreover have "has_starving_swarms m" by (rule few_nodes_starving(2) [OF assms(6) m(2)])
  ultimately show ?thesis
    using m(2) assms(4) no_help [OF assms(2) m assms(6), of R] dissolve_all [OF assms(1,2) m assms(6,5)]
    by (simp add: calc_swarm_changes_def Let_def assign_snodes_def create_new_swarm_from_excess_def)
qed


text \<open>
  (C38) When the only swarm has the middle id, the id of a new swarm is again the middle one, so that the
  insertion does nothing. A sole swarm with this id and fourteen nodes or more therefore loses seven
  nodes at a time, whatever the random choices, until between seven and thirteen are left; the others
  are in no swarm any more.
\<close>

theorem sole_middle_swarm_loses_nodes:
  fixes R :: "'g rng"
  assumes "fair R" and "sorts_by_size srt" and "distinct vs" and "14 \<le> length vs" and "length vs < 2 ^ 56"
  shows "\<exists>vs'. calc_swarm_changes R srt [(MAX_ID div 2, vs)] seed = Inr [(MAX_ID div 2, vs')] \<and> mset vs' \<subseteq># mset vs \<and>
    7 \<le> length vs' \<and> length vs' \<le> 13 \<and> length vs' mod 7 = length vs mod 7"
proof -
  let ?i = "MAX_ID div 2 :: u64"
  let ?b = "\<lambda>(m, _, returned). \<not> returned \<and> calc_threshold m \<le> calc_excess m"
  let ?c = "\<lambda>(m, mt, _). bindE (collect_new_swarm R (m, mt)) (\<lambda>(new_snodes, m, mt, returned).
             if returned then Inr (m, mt, True)
             else Inr (omap_insert (get_new_swarm_id m) new_snodes m, mt, False))"
  let ?I = "\<lambda>(m, g :: 'g, ret). \<not> ret \<and> (\<exists>ws. m = [(?i, ws)] \<and> mset ws \<subseteq># mset vs \<and> 7 \<le> length ws \<and>
      length ws mod 7 = length vs mod 7)"
  have sole: "calc_threshold [(?i, ws)] = 9" "calc_excess [(?i, ws)] = length ws - 5" "\<not> has_starving_swarms [(?i, ws)] \<longleftrightarrow> 5 \<le> length ws" for ws
    by (auto simp: calc_threshold_def calc_excess_def has_starving_swarms_def swarm_constants)
  have "\<exists>t. whileE ?b ?c ([(?i, vs)], rng_init R seed, False) = Inr t \<and> ?I t \<and> \<not> ?b t"
  proof (rule whileE_total [where f = "\<lambda>(m, _). calc_excess m"])
    show "?I ([(?i, vs)], rng_init R seed, False)" using assms(4) by simp
    fix s assume I: "?I s" and b: "?b s"
    obtain ws g where s: "s = ([(?i, ws)], g, False)" "mset ws \<subseteq># mset vs" "length ws mod 7 = length vs mod 7"
      using I by (cases s) auto
    have n: "14 \<le> length ws" using b by (simp add: s(1) sole)
    have ok: "swarm_ok [(?i, ws)]"
    proof -
      have "length ws \<le> length vs" using size_mset_mono [OF s(2)] by simp
      moreover obtain zs where "mset vs = mset (ws @ zs)" using s(2) by (metis ex_mset mset_append subset_mset.add_diff_inverse)
      then have "distinct ws" using assms(3) mset_eq_imp_distinct_iff distinct_append by metis
      moreover have "?i \<le> MAX_ID" by (simp add: MAX_ID_def)
      ultimately show ?thesis using assms(5) by (simp add: swarm_ok_def nodes_def)
    qed
    have "\<forall>e \<in> set [(?i, ws)]. \<not> starving e" "7 \<le> calc_excess [(?i, ws)]" using n by (simp_all add: starving_def sole)
    then obtain new m g' where c: "collect_new_swarm R ([(?i, ws)], g) = Inr (new, m, g', False)" "length new = 7"
      "fst ` set m = fst ` set [(?i, ws)]" "length m = length [(?i, ws)]" "nodes [(?i, ws)] = nodes m + mset new"
      by (rule collect_new_swarm_returns [OF assms(1) ok])
    obtain us where m: "m = [(?i, us)]" using c(3,4) by (cases m) auto
    have sub: "mset ws = mset us + mset new" using c(5) by (simp add: m nodes_def)
    have len: "length ws = length us + 7" using arg_cong [OF sub, of size] c(2) by simp
    have "?c s = Inr ([(?i, us)], g', False)"
      by (simp add: s(1) c(1) m get_new_swarm_id_def omap_insert_def)
    moreover have "mset us \<subseteq># mset vs" using s(2) sub by (metis mset_subset_eq_add_left subset_mset.order_trans)
    ultimately show "\<exists>s'. ?c s = Inr s' \<and> ?I s' \<and> (case s' of (m, _) \<Rightarrow> calc_excess m) < (case s of (m, _) \<Rightarrow> calc_excess m)"
      using n len s(1,3) by (intro exI [of _ "([(?i, us)], g', False)"]) (simp add: sole)
  qed
  then obtain ws g where run: "whileE ?b ?c ([(?i, vs)], rng_init R seed, False) = Inr ([(?i, ws)], g, False)"
    "mset ws \<subseteq># mset vs" "7 \<le> length ws" "length ws mod 7 = length vs mod 7" "\<not> 14 \<le> length ws"
    by (auto simp: sole)
  have create: "create_new_swarm_from_excess R [(?i, vs)] (rng_init R seed) = Inr ([(?i, ws)], g)"
    using run(1) sole(3) [of vs] assms(4) by (simp add: create_new_swarm_from_excess_def)
  have ids: "?i \<noteq> UNASSIGNED_SWARM_ID" by (simp add: MAX_ID_def UNASSIGNED_SWARM_ID_def)
  obtain sw where sw: "calc_swarm_sizes srt [(?i, vs)] = [sw]" "sw_size sw = length vs"
  proof -
    have "mset (calc_swarm_sizes srt [(?i, vs)]) = {#\<lparr>sw_id = ?i, sw_size = length vs\<rparr>#}"
      using assms(2) by (simp add: sorts_by_size_def calc_swarm_sizes_def)
    then show thesis using that by simp
  qed
  have "calc_swarm_changes R srt [(?i, vs)] seed = Inr [(?i, ws)]"
    using ids create sw assms(4)
    by (simp add: calc_swarm_changes_def Let_def map_erase_def assign_snodes_def swarm_constants)
  with run show ?thesis by auto
qed

theorem sole_middle_swarm_loses_nodes_witness:
  "\<exists>vs'. calc_swarm_changes counter_rng (sort_key sw_size) [(MAX_ID div 2, map (\<lambda>i. [word_of_nat i]) [0..<30])] 0 = Inr [(MAX_ID div 2, vs')] \<and>
     length vs' = 9"
proof -
  let ?vs = "map (\<lambda>i. [word_of_nat i]) [0..<30] :: public_key list"
  have "distinct ?vs" by (simp add: upt_rec)
  moreover have "14 \<le> length ?vs" "length ?vs < 2 ^ 56" by simp_all
  ultimately obtain vs' where v: "calc_swarm_changes counter_rng (sort_key sw_size) [(MAX_ID div 2, ?vs)] 0 = Inr [(MAX_ID div 2, vs')]"
    "7 \<le> length vs'" "length vs' \<le> 13" "length vs' mod 7 = length ?vs mod 7"
    using sole_middle_swarm_loses_nodes [OF fair_counter_rng sorts_by_size_sort_key, of ?vs 0] by blast
  have "length vs' \<in> {7..13}" using v(2,3) by simp
  moreover have "{7..13} = {7, 8, 9, 10, 11, 12, 13 :: nat}" by auto
  ultimately have "length vs' = 9" using v(4) by auto
  with v(1) show ?thesis by blast
qed

end
