(* ===== verification/Int_Util.thy ===== *)
theory Int_Util
  imports Prelude
begin

text \<open>
  The 128-bit arithmetic of \<open>contrib/epee/include/int-util.h\<close>: the widening multiplication
  \<open>mul128\<close>, the long divisions \<open>div128_32\<close> (base $2^{32}$) and \<open>div128_64\<close> (bit by bit), and
  the portable multiplication of \<open>cryptonote_basic/difficulty.cpp\<close>. Output parameters of the
  C functions are components of the result. The lemmas show that each routine computes the
  product, quotient and remainder of the natural numbers its words stand for.
\<close>

section \<open>Definitions\<close>

definition hi_dword :: "u64 \<Rightarrow> u64" where
  "hi_dword val = drop_bit 32 val"

definition lo_dword :: "u64 \<Rightarrow> u64" where
  "lo_dword val = val AND 0xFFFFFFFF"

text \<open>\<open>mul128 multiplier multiplicand\<close> is the pair (low word, high word).\<close>

definition mul128 :: "u64 \<Rightarrow> u64 \<Rightarrow> u64 \<times> u64" where
  "mul128 multiplier multiplicand =
    (let a = hi_dword multiplier;
         b = lo_dword multiplier;
         c = hi_dword multiplicand;
         d = lo_dword multiplicand;
         ac = a * c;
         ad = a * d;
         bc = b * c;
         bd = b * d;
         adbc = ad + bc;
         adbc_carry = (if adbc < ad then 1 else 0);
         product_lo = bd + push_bit 32 adbc;
         product_lo_carry = (if product_lo < bd then 1 else 0);
         product_hi = ac + drop_bit 32 adbc + push_bit 32 adbc_carry + product_lo_carry
     in (product_lo, product_hi))"

text \<open>
  \<open>div_with_reminder dividend divisor remainder\<close> is the pair (quotient, new remainder);
  dividing by zero is undefined.
\<close>

definition div_with_reminder :: "u64 \<Rightarrow> u32 \<Rightarrow> u32 \<Rightarrow> (u64 \<times> u32) outcome" where
  "div_with_reminder dividend divisor remainder =
    (let dividend' = dividend OR push_bit 32 (ucast remainder :: u64)
     in if divisor = 0 then Inl Undefined
        else Inr (dividend' div ucast divisor, ucast (dividend' mod ucast divisor)))"

text \<open>\<open>div128_32\<close> returns (remainder, quotient high, quotient low).\<close>

definition div128_32 :: "u64 \<Rightarrow> u64 \<Rightarrow> u32 \<Rightarrow> (u32 \<times> u64 \<times> u64) outcome" where
  "div128_32 dividend_hi dividend_lo divisor =
    bindE (div_with_reminder (hi_dword dividend_hi) divisor 0) (\<lambda>(q3, r3).
    bindE (div_with_reminder (lo_dword dividend_hi) divisor r3) (\<lambda>(q2, r2).
    bindE (div_with_reminder (hi_dword dividend_lo) divisor r2) (\<lambda>(q1, r1).
    bindE (div_with_reminder (lo_dword dividend_lo) divisor r1) (\<lambda>(q0, r0).
      Inr (r0, push_bit 32 q3 OR q2, push_bit 32 q1 OR q0)))))"

text \<open>\<open>shl128 hi lo\<close> is (carry, new high, new low).\<close>

definition shl128 :: "u64 \<Rightarrow> u64 \<Rightarrow> bool \<times> u64 \<times> u64" where
  "shl128 hi lo =
    (let carry = (drop_bit 63 hi \<noteq> 0);
         hi' = push_bit 1 hi;
         hi'' = hi' + drop_bit 63 lo;
         lo' = push_bit 1 lo
     in (carry, hi'', lo'))"

text \<open>One iteration of the loop of \<open>div128_64\<close>, on (remainder, dividend high, dividend low).\<close>

definition div128_64_step :: "u64 \<Rightarrow> u64 \<times> u64 \<times> u64 \<Rightarrow> u64 \<times> u64 \<times> u64" where
  "div128_64_step divisor = (\<lambda>(remainder, dividend_hi, dividend_lo).
    (let carry = (drop_bit 63 remainder \<noteq> 0);
         remainder' = push_bit 1 remainder;
         (shifted, dividend_hi', dividend_lo') = shl128 dividend_hi dividend_lo;
         remainder'' = (if shifted then remainder' OR 1 else remainder')
     in if carry \<or> divisor \<le> remainder''
        then (remainder'' - divisor, dividend_hi', dividend_lo' OR 1)
        else (remainder'', dividend_hi', dividend_lo')))"

text \<open>\<open>div128_64\<close> returns (remainder, quotient high, quotient low).\<close>

definition div128_64 :: "u64 \<Rightarrow> u64 \<Rightarrow> u64 \<Rightarrow> u64 \<times> u64 \<times> u64" where
  "div128_64 dividend_hi dividend_lo divisor =
    (div128_64_step divisor ^^ 128) (0, dividend_hi, dividend_lo)"

text \<open>The multiplication \<open>difficulty.cpp\<close> uses off x86-64; the pair is (low, high).\<close>

definition mul_portable :: "u64 \<Rightarrow> u64 \<Rightarrow> u64 \<times> u64" where
  "mul_portable a b =
    (let aLow = a AND 0xFFFFFFFF;
         aHigh = drop_bit 32 a;
         bLow = b AND 0xFFFFFFFF;
         bHigh = drop_bit 32 b;
         res = aLow * bLow;
         lowRes1 = res AND 0xFFFFFFFF;
         carry = drop_bit 32 res;
         res = aHigh * bLow + carry;
         highResHigh1 = drop_bit 32 res;
         highResLow1 = res AND 0xFFFFFFFF;
         res = aLow * bHigh;
         lowRes2 = res AND 0xFFFFFFFF;
         carry = drop_bit 32 res;
         res = aHigh * bHigh + carry;
         highResHigh2 = drop_bit 32 res;
         highResLow2 = res AND 0xFFFFFFFF;
         r = highResLow1 + lowRes2;
         carry = drop_bit 32 r;
         low = push_bit 32 r OR lowRes1;
         r = highResHigh1 + highResLow2 + carry;
         d3 = r AND 0xFFFFFFFF;
         carry = drop_bit 32 r;
         r = highResHigh2 + carry;
         high = d3 OR push_bit 32 r
     in (low, high))"

section \<open>Words as natural numbers\<close>

text \<open>The number a pair of words stands for, high word first.\<close>

definition cat128 :: "u64 \<Rightarrow> u64 \<Rightarrow> nat" where
  "cat128 hi lo = unat hi * 2 ^ 64 + unat lo"

lemma unat_hi_dword: "unat (hi_dword x) = unat x div 2 ^ 32"
  unfolding hi_dword_def unat_drop_bit_eq by (simp add: drop_bit_eq_div)

lemma and_mask32: "x AND 0xFFFFFFFF = take_bit 32 (x :: u64)"
  by (simp add: take_bit_eq_mask mask_eq_exp_minus_1)

lemma unat_and_mask32: "unat (x AND 0xFFFFFFFF :: u64) = unat x mod 2 ^ 32"
  unfolding and_mask32 unsigned_take_bit_eq by (simp add: take_bit_eq_mod)

lemma unat_lo_dword: "unat (lo_dword x) = unat x mod 2 ^ 32"
  unfolding lo_dword_def by (rule unat_and_mask32)

lemma unat_drop32: "unat (drop_bit 32 x :: u64) = unat x div 2 ^ 32"
  unfolding unat_drop_bit_eq by (simp add: drop_bit_eq_div)

lemma unat_push32: "unat (push_bit 32 x :: u64) = (unat x mod 2 ^ 32) * 2 ^ 32"
proof -
  have "unat (push_bit 32 x :: u64) = (unat x * 2 ^ 32) mod 2 ^ 64"
    by (simp add: push_bit_eq_mult unat_word_ariths)
  also have "\<dots> = (unat x mod 2 ^ 32) * 2 ^ 32"
    using mod_mult_mult2 [of "unat x" "2 ^ 32" "2 ^ 32 :: nat"] by simp
  finally show ?thesis .
qed

lemma carry_iff: "(x + y < x) \<longleftrightarrow> 2 ^ LENGTH('a) \<le> unat x + unat (y :: 'a::len word)"
proof (cases "unat x + unat y < 2 ^ LENGTH('a)")
  case True
  then have "unat (x + y) = unat x + unat y" by (rule unat_add_less)
  with True show ?thesis by (simp add: word_less_nat_alt)
next
  case False
  have "unat x + unat y < 2 * 2 ^ LENGTH('a)"
    using unat_lt_exp [of x] unat_lt_exp [of y] by linarith
  with False have "(unat x + unat y) mod 2 ^ LENGTH('a) = unat x + unat y - 2 ^ LENGTH('a)"
    by (simp add: mod_if)
  then have "unat (x + y) = unat x + unat y - 2 ^ LENGTH('a)"
    by (simp add: unat_word_ariths)
  moreover have "unat x + unat y - 2 ^ LENGTH('a) < unat x"
    using unat_lt_exp [of y] unat_lt_exp [of x] False by linarith
  ultimately show ?thesis
    using False by (simp add: word_less_nat_alt)
qed

lemma carry_div: "(if x + y < x then 1 else 0) = (unat x + unat (y :: u64)) div 2 ^ 64"
proof -
  have "unat x + unat y < 2 * 2 ^ 64"
    using unat64_bound [of x] unat64_bound [of y] by simp
  then show ?thesis by (auto simp: carry_iff div_if)
qed

section \<open>Multiplication\<close>

text \<open>The schoolbook product of two 64-bit numbers, on their 32-bit halves.\<close>

lemma product_halves:
  fixes x y :: nat
  defines "a \<equiv> x div 2 ^ 32" and "b \<equiv> x mod 2 ^ 32"
    and "c \<equiv> y div 2 ^ 32" and "d \<equiv> y mod 2 ^ 32"
  shows "x * y = a * c * 2 ^ 64 + (a * d + b * c) * 2 ^ 32 + b * d"
proof -
  have "x = a * 2 ^ 32 + b" "y = c * 2 ^ 32 + d"
    by (simp_all add: assms)
  then show ?thesis by (simp add: algebra_simps)
qed

lemma half_product_less: "(a::nat) < 2 ^ 32 \<Longrightarrow> b < 2 ^ 32 \<Longrightarrow> a * b \<le> (2 ^ 32 - 1) * (2 ^ 32 - 1)"
  by (rule mult_le_mono) simp_all

lemma unat_half_product:
  "unat a < 2 ^ 32 \<Longrightarrow> unat b < 2 ^ 32 \<Longrightarrow> unat (a * b :: u64) = unat a * unat b"
  using half_product_less [of "unat a" "unat b"] by (intro unat_mult_less) simp

lemma unat_dwords_less: "unat (hi_dword x) < 2 ^ 32" "unat (lo_dword x) < 2 ^ 32"
  using unat64_bound [of x] by (simp_all add: unat_hi_dword unat_lo_dword)

text \<open>The carries of \<open>mul128\<close> on natural numbers.\<close>

lemma mul128_nat:
  fixes ac s bd :: nat
  defines "t \<equiv> bd + (s mod 2 ^ 32) * 2 ^ 32"
  shows "(ac + (s mod 2 ^ 64) div 2 ^ 32 + (s div 2 ^ 64) * 2 ^ 32 + t div 2 ^ 64) * 2 ^ 64 + t mod 2 ^ 64
    = ac * 2 ^ 64 + s * 2 ^ 32 + bd"
proof -
  have "s mod 2 ^ 64 div 2 ^ 32 = s div 2 ^ 32 mod 2 ^ 32"
    using div_mod_decomp by (simp add: mod_mult2_eq [of s "2 ^ 32" "2 ^ 32", simplified] )
  moreover have "s div 2 ^ 64 = s div 2 ^ 32 div 2 ^ 32"
    using div_mult2_eq [of s "2 ^ 32" "2 ^ 32"] by simp
  ultimately have "(s mod 2 ^ 64) div 2 ^ 32 + (s div 2 ^ 64) * 2 ^ 32 = s div 2 ^ 32"
    by simp
  then have "(ac + (s mod 2 ^ 64) div 2 ^ 32 + (s div 2 ^ 64) * 2 ^ 32 + t div 2 ^ 64) * 2 ^ 64 + t mod 2 ^ 64
    = (ac + s div 2 ^ 32) * 2 ^ 64 + t"
    by (simp add: algebra_simps)
  also have "\<dots> = ac * 2 ^ 64 + (s div 2 ^ 32 * 2 ^ 32 + s mod 2 ^ 32) * 2 ^ 32 + bd"
    unfolding t_def by (simp only: distrib_right) simp
  finally show ?thesis by (simp only: div_mult_mod_eq)
qed

lemma high_part_less:
  assumes "h * m + l = n" and "n < m * (m :: nat)"
  shows "h < m"
proof -
  have "h * m < m * m" using assms by linarith
  then show ?thesis by simp
qed

lemma mul128_correct:
  assumes "mul128 x y = (lo, hi)"
  shows "cat128 hi lo = unat x * unat y"
proof -
  let ?a = "hi_dword x" and ?b = "lo_dword x" and ?c = "hi_dword y" and ?d = "lo_dword y"
  note prods = unat_half_product [OF unat_dwords_less(1) [of x] unat_dwords_less(1) [of y]]
    unat_half_product [OF unat_dwords_less(1) [of x] unat_dwords_less(2) [of y]]
    unat_half_product [OF unat_dwords_less(2) [of x] unat_dwords_less(1) [of y]]
    unat_half_product [OF unat_dwords_less(2) [of x] unat_dwords_less(2) [of y]]
  define s where "s = unat ?a * unat ?d + unat ?b * unat ?c"
  define t where "t = unat (?b * ?d) + (s mod 2 ^ 32) * 2 ^ 32"
  define adbc where "adbc = ?a * ?d + ?b * ?c"
  have adbc: "unat adbc = s mod 2 ^ 64"
    by (simp add: adbc_def s_def unat_word_ariths(1) prods)
  have sh: "unat (push_bit 32 adbc) = (s mod 2 ^ 32) * 2 ^ 32"
    unfolding unat_push32 adbc by (simp add: mod_mod_cancel)
  have lo: "lo = ?b * ?d + push_bit 32 adbc"
    and hi: "hi = ?a * ?c + drop_bit 32 adbc + push_bit 32 (if adbc < ?a * ?d then 1 else 0)
        + (if lo < ?b * ?d then 1 else 0)"
    using assms by (auto simp: mul128_def Let_def adbc_def)
  have c1: "(if adbc < ?a * ?d then 1 else 0) = s div 2 ^ 64"
    using carry_div [of "?a * ?d" "?b * ?c"] by (simp add: adbc_def s_def prods)
  have c2: "(if lo < ?b * ?d then 1 else 0) = t div 2 ^ 64"
    using carry_div [of "?b * ?d" "push_bit 32 adbc"] by (simp add: lo t_def sh)
  have lo_nat: "unat lo = t mod 2 ^ 64"
    by (simp add: lo unat_word_ariths(1) sh t_def)
  let ?H = "unat ?a * unat ?c + (s mod 2 ^ 64) div 2 ^ 32 + (s div 2 ^ 64) * 2 ^ 32 + t div 2 ^ 64"
  have total: "?H * 2 ^ 64 + t mod 2 ^ 64 = unat x * unat y"
    unfolding t_def mul128_nat product_halves [of "unat x" "unat y"] prods s_def
    by (simp add: unat_hi_dword unat_lo_dword)
  have "unat x * unat y < 2 ^ 64 * 2 ^ 64"
    by (rule mult_strict_mono) (use unat64_bound [of x] unat64_bound [of y] in simp_all)
  with total have H_less: "?H < 2 ^ 64" by (rule high_part_less)
  have s1: "s div 2 ^ 64 \<le> 1" and t1: "t div 2 ^ 64 \<le> 1"
    using c1 c2 by (auto split: if_splits)
  have "unat (push_bit 32 (if adbc < ?a * ?d then 1 else 0 :: u64)) = (s div 2 ^ 64) * 2 ^ 32"
    using c1 by (auto simp: unat_push32 split: if_splits)
  moreover have "unat (if lo < ?b * ?d then 1 else 0 :: u64) = t div 2 ^ 64"
    using c2 by (auto split: if_splits)
  ultimately have "unat hi = ?H"
    using H_less unfolding hi by (simp add: word_nat prods unat_drop32 adbc)
  with lo_nat total show ?thesis by (simp add: cat128_def)
qed

section \<open>Division by a 64-bit divisor\<close>

lemma unat_drop63: "unat (drop_bit 63 (x :: u64)) = unat x div 2 ^ 63"
  unfolding unat_drop_bit_eq by (simp add: drop_bit_eq_div)

lemma drop63_iff: "drop_bit 63 (x :: u64) \<noteq> 0 \<longleftrightarrow> 2 ^ 63 \<le> unat x"
proof -
  have "drop_bit 63 x \<noteq> 0 \<longleftrightarrow> unat x div 2 ^ 63 \<noteq> 0"
    unfolding unat_drop63 [symmetric] by (simp only: unat_eq_0)
  then show ?thesis by (auto simp: div_eq_0_iff)
qed

lemma unat_push1: "unat (push_bit 1 (x :: u64)) = (2 * unat x) mod 2 ^ 64"
proof -
  have "push_bit 1 x = 2 * x" by (simp add: push_bit_eq_mult)
  then show ?thesis by (simp add: unat_word_ariths mult.commute)
qed

lemma mod_below_double: "m < 2 * k \<Longrightarrow> m mod k = (if k \<le> m then m - k else (m :: nat))"
  by (simp add: mod_if)

lemma div_below_double: "m < 2 * k \<Longrightarrow> m div k = (if k \<le> m then 1 else (0 :: nat))"
  by (auto simp: div_if)

lemma even_double_mod: "even ((2 * n) mod 2 ^ 64 :: nat)"
  by (rule dvd_mod) simp_all

lemma unat_or_1:
  assumes "even (unat (x :: u64))"
  shows "unat (x OR 1) = unat x + 1"
proof -
  have "even x" using assms by transfer (simp add: even_take_bit_eq even_nat_iff)
  then have "x OR 1 = x + 1" by (simp add: or_one_eq)
  moreover have "unat x \<noteq> 2 ^ 64 - 1" using assms by auto
  then have "unat x + 1 < 2 ^ 64" using unat64_bound [of x] by simp
  ultimately show ?thesis by (simp add: word_nat)
qed

text \<open>Doubling the dividend: the carry is its top bit.\<close>

lemma shl128_nat:
  assumes "shl128 hi lo = (c, hi', lo')"
  shows "c \<longleftrightarrow> 2 ^ 127 \<le> cat128 hi lo"
    and "cat128 hi' lo' = (2 * cat128 hi lo) mod 2 ^ 128"
    and "even (unat lo')"
proof -
  have c: "c \<longleftrightarrow> 2 ^ 63 \<le> unat hi" and lo': "unat lo' = (2 * unat lo) mod 2 ^ 64"
    and hi': "hi' = push_bit 1 hi + drop_bit 63 lo"
    using assms by (auto simp only: shl128_def Let_def drop63_iff unat_push1 prod.inject)
  show "even (unat lo')" unfolding lo' by (rule even_double_mod)
  show "c \<longleftrightarrow> 2 ^ 127 \<le> cat128 hi lo"
    using unat64_bound [of lo] by (auto simp: c cat128_def)
  have cat: "cat128 hi lo < 2 ^ 128"
    unfolding cat128_def using unat64_bound [of hi] unat64_bound [of lo] by simp
  define a b :: nat where "a = (if 2 ^ 63 \<le> unat lo then 1 else 0)"
    and "b = (if 2 ^ 63 \<le> unat hi then 1 else 0)"
  have low: "unat lo' + a * 2 ^ 64 = 2 * unat lo"
    using unat64_bound [of lo] by (simp add: lo' a_def mod_below_double)
  have "unat (push_bit 1 hi) + b * 2 ^ 64 = 2 * unat hi"
    using unat64_bound [of hi] unfolding unat_push1 by (simp add: b_def mod_below_double)
  moreover have "unat (drop_bit 63 lo) = a"
    using unat64_bound [of lo] unfolding unat_drop63 by (simp add: a_def div_below_double)
  moreover have "unat (push_bit 1 hi) + a < 2 ^ 64"
    unfolding unat_push1 using unat64_bound [of hi] by (auto simp: a_def mod_below_double)
  ultimately have "unat hi' + b * 2 ^ 64 = 2 * unat hi + a"
    unfolding hi' by (subst unat_add_less) simp_all
  with low have "cat128 hi' lo' + b * 2 ^ 128 = 2 * cat128 hi lo"
    unfolding cat128_def by simp
  moreover have "b = (if 2 ^ 127 \<le> cat128 hi lo then 1 else 0)"
    using unat64_bound [of lo] by (auto simp: b_def cat128_def)
  ultimately show "cat128 hi' lo' = (2 * cat128 hi lo) mod 2 ^ 128"
    using cat by (auto simp: mod_below_double split: if_splits)
qed

text \<open>
  One iteration, on numbers: the dividend's top bit moves into the remainder, and the quotient
  bit of the doubled remainder is shifted in at the bottom.
\<close>

lemma div128_64_step_nat:
  assumes step: "div128_64_step d (r, hi, lo) = (r', hi', lo')" and less: "r < d"
  defines "R \<equiv> 2 * unat r + (if 2 ^ 127 \<le> cat128 hi lo then 1 else 0)"
    and "V \<equiv> (2 * cat128 hi lo) mod 2 ^ 128"
  shows "r' < d"
    and "unat r' = (if unat d \<le> R then R - unat d else R)"
    and "cat128 hi' lo' = (if unat d \<le> R then V + 1 else V)"
proof -
  obtain c h l where shl: "shl128 hi lo = (c, h, l)" by (cases "shl128 hi lo")
  note shl_nat = shl128_nat [OF shl]
  define m where "m = (if c then push_bit 1 r OR 1 else push_bit 1 r)"
  have rd: "unat r < unat d" using less by (simp add: word_less_nat_alt)
  have "even (unat (push_bit 1 r))" unfolding unat_push1 by (rule even_double_mod)
  then have "unat m = (2 * unat r) mod 2 ^ 64 + (if c then 1 else 0)"
    unfolding m_def by (simp only: unat_or_1 unat_push1 if_distrib split: if_splits) simp
  moreover have "(2 * unat r) mod 2 ^ 64 + (if c then 1 else 0) = R mod 2 ^ 64"
    unfolding R_def shl_nat(1) [symmetric] using unat64_bound [of r]
    by (cases "2 ^ 63 \<le> unat r") (auto simp: mod_below_double)
  ultimately have m: "unat m = R mod 2 ^ 64" by simp
  have R_less: "R < 2 * unat d" using rd by (simp add: R_def)
  have big: "(2 ^ 63 \<le> unat r) \<longleftrightarrow> 2 ^ 64 \<le> R" by (auto simp: R_def)
  have cond: "drop_bit 63 r \<noteq> 0 \<or> d \<le> m \<longleftrightarrow> unat d \<le> R"
    unfolding drop63_iff big word_le_nat_alt m
    using unat64_bound [of d] by (cases "R < 2 ^ 64") auto
  have eqs: "r' = (if unat d \<le> R then m - d else m)" "hi' = h"
    "lo' = (if unat d \<le> R then l OR 1 else l)"
    using step cond
    by (auto simp only: div128_64_step_def shl m_def Let_def prod.case prod.inject split: if_splits)
  have sub: "unat (m - d) = R - unat d" if "unat d \<le> R"
  proof -
    have "m = of_nat R" by (simp add: word_eq_iff_unsigned [where 'a = nat] m unat_of_nat)
    then have "m - d = of_nat (R - unat d)" using that by (simp add: of_nat_diff)
    moreover have "R - unat d < 2 ^ 64" using R_less unat64_bound [of d] by simp
    ultimately show ?thesis by (simp add: unat_of_nat)
  qed
  show r': "unat r' = (if unat d \<le> R then R - unat d else R)"
    using eqs(1) sub m unat64_bound [of d] by auto
  show "r' < d" using r' R_less by (simp add: word_less_nat_alt split: if_splits)
  show "cat128 hi' lo' = (if unat d \<le> R then V + 1 else V)"
    using shl_nat(2,3) unfolding eqs V_def by (auto simp: cat128_def unat_or_1)
qed

lemma split_unique:
  assumes "a + b * m = c + d * m" and "a < m" and "c < (m :: nat)"
  shows "a = c \<and> b = d"
proof -
  from assms(1) have "(a + b * m) mod m = (c + d * m) mod m" by simp
  with assms(2,3) have "a = c" by simp
  with assms show ?thesis by simp
qed

text \<open>
  Read as the number $r \cdot 2^{128} + V$, the state doubles in every iteration and loses
  $d \cdot 2^{128} - 1$ where a quotient bit is produced; after 128 iterations the accumulated
  quotient bits are the low part.
\<close>

lemma div128_64_iterate:
  assumes "0 < d" and "i \<le> 128"
    and "(div128_64_step d ^^ i) (0, hi, lo) = (r, h, l)"
  shows "r < d \<and> (\<exists>q < 2 ^ i. unat r * 2 ^ 128 + cat128 h l + q * (unat d * 2 ^ 128) =
      2 ^ i * cat128 hi lo + q)"
  using assms(2,3)
proof (induction i arbitrary: r h l)
  case 0
  then show ?case using assms(1) by auto
next
  case (Suc i)
  obtain r0 h0 l0 where prev: "(div128_64_step d ^^ i) (0, hi, lo) = (r0, h0, l0)"
    by (cases "(div128_64_step d ^^ i) (0, hi, lo)")
  with Suc.prems have step: "div128_64_step d (r0, h0, l0) = (r, h, l)" by simp
  from Suc.IH [OF _ prev] Suc.prems(1) obtain q where less: "r0 < d" and q: "q < 2 ^ i"
    and inv: "unat r0 * 2 ^ 128 + cat128 h0 l0 + q * (unat d * 2 ^ 128) = 2 ^ i * cat128 hi lo + q"
    by auto
  note nat = div128_64_step_nat [OF step less]
  have small: "cat128 h0 l0 < 2 ^ 128"
    unfolding cat128_def using unat64_bound [of h0] unat64_bound [of l0] by simp
  define W b where "W = cat128 h0 l0" and "b = (if 2 ^ 127 \<le> W then 1 else 0 :: nat)"
  define k where "k = (if unat d \<le> 2 * unat r0 + b then 1 else 0 :: nat)"
  have "unat r + k * unat d = 2 * unat r0 + b" and "cat128 h l + b * 2 ^ 128 = 2 * W + k"
    using nat(2,3) small by (auto simp: k_def b_def W_def mod_below_double)
  moreover have "k \<le> 1" by (simp add: k_def)
  ultimately have "2 * q + k < 2 ^ Suc i \<and>
      unat r * 2 ^ 128 + cat128 h l + (2 * q + k) * (unat d * 2 ^ 128) =
      2 ^ Suc i * cat128 hi lo + (2 * q + k)"
    using q inv by (simp add: W_def [symmetric] algebra_simps)
  with nat(1) show ?case by blast
qed

lemma div128_64_quotient:
  assumes "0 < divisor" and "div128_64 hi lo divisor = (r, qhi, qlo)"
  shows "cat128 qhi qlo = cat128 hi lo div unat divisor \<and> unat r = cat128 hi lo mod unat divisor"
proof -
  from div128_64_iterate [OF assms(1) order_refl, of hi lo r qhi qlo] assms(2)
  obtain q where less: "r < divisor" and q: "q < 2 ^ 128"
    and inv: "unat r * 2 ^ 128 + cat128 qhi qlo + q * (unat divisor * 2 ^ 128) =
      2 ^ 128 * cat128 hi lo + q"
    by (auto simp: div128_64_def)
  have small: "cat128 qhi qlo < 2 ^ 128"
    unfolding cat128_def using unat64_bound [of qhi] unat64_bound [of qlo] by simp
  have "cat128 qhi qlo + (unat r + q * unat divisor) * 2 ^ 128 = q + cat128 hi lo * 2 ^ 128"
    using inv by (simp add: algebra_simps)
  from split_unique [OF this small q] have "cat128 qhi qlo = q"
    and "cat128 hi lo = unat r + q * unat divisor" by auto
  moreover have "unat r < unat divisor" using less by (simp add: word_less_nat_alt)
  ultimately show ?thesis by simp
qed

text \<open>
  (C28) The bit-by-bit division \<open>div128_64\<close> returns the quotient and the remainder of the 128-bit
  dividend by every nonzero 64-bit divisor.
\<close>

theorem div128_64_correct:
  assumes "0 < divisor" and "div128_64 hi lo divisor = (r, qhi, qlo)"
  shows "cat128 qhi qlo = cat128 hi lo div unat divisor \<and> unat r = cat128 hi lo mod unat divisor"
  by (rule div128_64_quotient [OF assms])

theorem div128_64_correct_witness:
  "\<exists>r qhi qlo. div128_64 7 9 0x100000001 = (r, qhi, qlo) \<and>
     cat128 qhi qlo = (7 * 2 ^ 64 + 9) div 4294967297 \<and> unat r = (7 * 2 ^ 64 + 9) mod 4294967297"
proof -
  obtain r qhi qlo where "div128_64 7 9 0x100000001 = (r, qhi, qlo)"
    by (cases "div128_64 7 9 0x100000001")
  with div128_64_correct [OF _ this] show ?thesis
    by (simp add: cat128_def [of 7 9] word_greater_zero_iff)
qed

section \<open>Division by a 32-bit divisor\<close>

lemma unat_or_push32:
  fixes a b :: u64
  assumes "unat a < 2 ^ 32"
  shows "unat (a OR push_bit 32 b) = unat a + (unat b mod 2 ^ 32) * 2 ^ 32"
    and "unat (push_bit 32 b OR a) = unat a + (unat b mod 2 ^ 32) * 2 ^ 32"
proof -
  have "unat (take_bit 32 a) = unat a"
    unfolding unsigned_take_bit_eq using assms by (simp add: take_bit_eq_mod)
  then have "take_bit 32 a = a" by (simp add: word_eq_iff_unsigned [where 'a = nat])
  then have "\<not> bit a n" if "32 \<le> n" for n
    using that by (metis bit_take_bit_iff not_less)
  then have "a OR push_bit 32 b = a + push_bit 32 b"
    by (intro disjunctive_add [symmetric]) (auto simp: bit_push_bit_iff not_le)
  moreover have "unat a + (unat b mod 2 ^ 32) * 2 ^ 32 < 2 ^ 64"
    using assms mod_less_divisor [of "2 ^ 32" "unat b"] by simp
  ultimately show "unat (a OR push_bit 32 b) = unat a + (unat b mod 2 ^ 32) * 2 ^ 32"
    by (simp add: unat_add_less unat_push32)
  then show "unat (push_bit 32 b OR a) = unat a + (unat b mod 2 ^ 32) * 2 ^ 32"
    by (simp only: or.commute)
qed

lemma unat_ucast32: "unat (ucast (x :: u32) :: u64) = unat x"
  using unat32_bound [of x] by (simp add: unsigned_ucast_eq take_bit_eq_mod)

lemma div_with_reminder_nat:
  assumes "unat dividend < 2 ^ 32" and "remainder < divisor"
  defines "D \<equiv> unat remainder * 2 ^ 32 + unat dividend"
  shows "\<exists>q r. div_with_reminder dividend divisor remainder = Inr (q, r) \<and> r < divisor \<and>
    unat q < 2 ^ 32 \<and> D = unat q * unat divisor + unat r"
proof -
  define w where "w = dividend OR push_bit 32 (ucast remainder :: u64)"
  have lt: "unat remainder < unat divisor" using assms(2) by (simp add: word_less_nat_alt)
  have "unat (ucast remainder :: u64) = unat remainder" by (rule unat_ucast32)
  then have w: "unat w = D"
    unfolding w_def unat_or_push32 [OF assms(1)] using unat32_bound [of remainder]
    by (simp add: D_def)
  have d: "unat (ucast divisor :: u64) = unat divisor" by (rule unat_ucast32)
  have q: "unat (w div ucast divisor) = D div unat divisor"
    and m: "unat (w mod ucast divisor) = D mod unat divisor"
    by (simp_all add: unat_div unat_mod w d)
  have m_less: "D mod unat divisor < unat divisor" using lt by simp
  then have r: "unat (ucast (w mod ucast divisor) :: u32) = D mod unat divisor"
    using m unat32_bound [of divisor] by (simp add: unsigned_ucast_eq take_bit_eq_mod)
  have "D < unat divisor * 2 ^ 32"
  proof -
    have "D < (unat remainder + 1) * 2 ^ 32" using assms(1) by (simp add: D_def)
    also have "\<dots> \<le> unat divisor * 2 ^ 32" using lt by (intro mult_le_mono1) simp
    finally show ?thesis .
  qed
  then have "D div unat divisor < 2 ^ 32" by (simp add: less_mult_imp_div_less mult.commute)
  moreover have "D = D div unat divisor * unat divisor + D mod unat divisor" by simp
  moreover have "divisor \<noteq> 0" using lt by auto
  ultimately show ?thesis
    using q r m_less unfolding div_with_reminder_def w_def [symmetric]
    by (auto simp: Let_def word_less_nat_alt)
qed

lemma div128_32_correct:
  assumes "0 < divisor"
  obtains r qhi qlo where "div128_32 hi lo divisor = Inr (r, qhi, qlo)"
    and "cat128 qhi qlo = cat128 hi lo div unat divisor"
    and "unat r = cat128 hi lo mod unat divisor"
proof -
  let ?d = "unat divisor"
  have limbs: "unat (hi_dword x) < 2 ^ 32" "unat (lo_dword x) < 2 ^ 32" for x
    using unat_dwords_less [of x] by simp_all
  from div_with_reminder_nat [OF limbs(1) [of hi] assms] obtain q3 r3
    where s3: "div_with_reminder (hi_dword hi) divisor 0 = Inr (q3, r3)" "r3 < divisor"
      "unat q3 < 2 ^ 32" "unat (hi_dword hi) = unat q3 * ?d + unat r3" by auto
  from div_with_reminder_nat [OF limbs(2) s3(2)] obtain q2 r2
    where s2: "div_with_reminder (lo_dword hi) divisor r3 = Inr (q2, r2)" "r2 < divisor"
      "unat q2 < 2 ^ 32" "unat r3 * 2 ^ 32 + unat (lo_dword hi) = unat q2 * ?d + unat r2" by blast
  from div_with_reminder_nat [OF limbs(1) s2(2)] obtain q1 r1
    where s1: "div_with_reminder (hi_dword lo) divisor r2 = Inr (q1, r1)" "r1 < divisor"
      "unat q1 < 2 ^ 32" "unat r2 * 2 ^ 32 + unat (hi_dword lo) = unat q1 * ?d + unat r1" by blast
  from div_with_reminder_nat [OF limbs(2) s1(2)] obtain q0 r0
    where s0: "div_with_reminder (lo_dword lo) divisor r1 = Inr (q0, r0)" "r0 < divisor"
      "unat q0 < 2 ^ 32" "unat r1 * 2 ^ 32 + unat (lo_dword lo) = unat q0 * ?d + unat r0" by blast
  let ?qhi = "push_bit 32 q3 OR q2" and ?qlo = "push_bit 32 q1 OR q0"
  have eq: "div128_32 hi lo divisor = Inr (r0, ?qhi, ?qlo)"
    by (simp add: div128_32_def s3(1) s2(1) s1(1) s0(1))
  have halves: "unat x = unat (hi_dword x) * 2 ^ 32 + unat (lo_dword x)" for x
    by (simp add: unat_hi_dword unat_lo_dword)
  have cat_q: "cat128 ?qhi ?qlo = unat q3 * 2 ^ 96 + unat q2 * 2 ^ 64 + unat q1 * 2 ^ 32 + unat q0"
    using s3(3) s1(3) unfolding cat128_def unat_or_push32(2) [OF s2(3)] unat_or_push32(2) [OF s0(3)]
    by simp
  have "cat128 hi lo = unat (hi_dword hi) * 2 ^ 96 + unat (lo_dword hi) * 2 ^ 64
      + unat (hi_dword lo) * 2 ^ 32 + unat (lo_dword lo)"
    unfolding cat128_def halves [of hi] halves [of lo] by simp
  then have total: "cat128 hi lo = cat128 ?qhi ?qlo * ?d + unat r0"
    using s3(4) s2(4) s1(4) s0(4) unfolding cat_q by (simp add: algebra_simps)
  have "unat r0 < ?d" using s0(2) by (simp add: word_less_nat_alt)
  with total have "cat128 ?qhi ?qlo = cat128 hi lo div ?d" "unat r0 = cat128 hi lo mod ?d"
    by simp_all
  with eq show thesis by (rule that)
qed

section \<open>The portable multiplication\<close>

lemma cat128_inj: "cat128 h l = cat128 h' l' \<Longrightarrow> h = h' \<and> l = l'"
  using split_unique [of "unat l" "unat h" "2 ^ 64" "unat l'" "unat h'"]
    unat64_bound [of l] unat64_bound [of l']
  by (simp add: cat128_def word_eq_iff_unsigned [where 'a = nat] add.commute)

lemma mul_limb_less:
  assumes "a < 2 ^ 32" and "b < 2 ^ 32" and "c < (2 ^ 32 :: nat)"
  shows "a * b + c < 2 ^ 64"
proof -
  have "a * b \<le> (2 ^ 32 - 1) * (2 ^ 32 - 1)" by (rule mult_le_mono) (use assms in simp_all)
  with assms(3) show ?thesis by simp
qed

lemma unat_mul_limb:
  fixes a b c :: u64
  assumes "unat a < 2 ^ 32" "unat b < 2 ^ 32" "unat c < 2 ^ 32"
  shows "unat (a * b + c) = unat a * unat b + unat c" and "unat (a * b) = unat a * unat b"
  using mul_limb_less [OF assms] by (simp_all add: word_nat)

text \<open>Schoolbook multiplication with the carries the code propagates.\<close>

lemma schoolbook_limbs:
  fixes aL aH bL bH :: nat
  assumes "aL * bL = c0 * 2 ^ 32 + l1" and "aH * bL + c0 = h1 * 2 ^ 32 + k1"
    and "aL * bH = c2 * 2 ^ 32 + l2" and "aH * bH + c2 = h2 * 2 ^ 32 + k2"
    and "k1 + l2 = e * 2 ^ 32 + p" and "h1 + k2 + e = f * 2 ^ 32 + d3"
  shows "(h2 + f) * 2 ^ 96 + d3 * 2 ^ 64 + p * 2 ^ 32 + l1 = (aH * 2 ^ 32 + aL) * (bH * 2 ^ 32 + bL)"
proof -
  have "(aH * 2 ^ 32 + aL) * (bH * 2 ^ 32 + bL)
      = aH * bH * 2 ^ 64 + aH * bL * 2 ^ 32 + aL * bH * 2 ^ 32 + aL * bL"
    by (simp add: algebra_simps)
  with assms show ?thesis by (simp only: power_numeral distrib_right) simp
qed

lemma mul_portable_words: "mul_portable a b = mul128 a b"
proof -
  let ?lo = "\<lambda>x. x AND 0xFFFFFFFF :: u64" and ?hi = "\<lambda>x. drop_bit 32 x :: u64"
  have lo: "unat (?lo x) < 2 ^ 32" and hi: "unat (?hi x) < 2 ^ 32" for x
    using unat_dwords_less [of x] by (simp_all add: lo_dword_def hi_dword_def)
  have parts: "unat x = unat (?hi x) * 2 ^ 32 + unat (?lo x)" for x
    unfolding unat_drop32 unat_and_mask32 by simp
  define r0 where "r0 = ?lo a * ?lo b"
  define r1 where "r1 = ?hi a * ?lo b + ?hi r0"
  define r2 where "r2 = ?lo a * ?hi b"
  define r3 where "r3 = ?hi a * ?hi b + ?hi r2"
  define s where "s = ?lo r1 + ?lo r2"
  define t where "t = ?hi r1 + ?lo r3 + ?hi s"
  define u where "u = ?hi r3 + ?hi t"
  have eq: "mul_portable a b = (push_bit 32 s OR ?lo r0, ?lo t OR push_bit 32 u)"
    by (simp only: mul_portable_def Let_def r0_def r1_def r2_def r3_def s_def t_def u_def)
  note rs = r0_def [THEN arg_cong [of _ _ unat], unfolded unat_mul_limb(2) [OF lo lo hi]]
    r1_def [THEN arg_cong [of _ _ unat], unfolded unat_mul_limb(1) [OF hi lo hi]]
    r2_def [THEN arg_cong [of _ _ unat], unfolded unat_mul_limb(2) [OF lo hi hi]]
    r3_def [THEN arg_cong [of _ _ unat], unfolded unat_mul_limb(1) [OF hi hi hi]]
  have s: "unat s = unat (?lo r1) + unat (?lo r2)"
    unfolding s_def by (rule unat_add_less) (use lo [of r1] lo [of r2] in simp)
  have t': "unat (?hi r1 + ?lo r3) = unat (?hi r1) + unat (?lo r3)"
    by (rule unat_add_less) (use hi [of r1] lo [of r3] in simp)
  have t: "unat t = unat (?hi r1) + unat (?lo r3) + unat (?hi s)"
    unfolding t_def using hi [of r1] lo [of r3] hi [of s] by (subst unat_add_less) (simp_all add: t')
  have u: "unat u = unat (?hi r3) + unat (?hi t)"
    unfolding u_def by (rule unat_add_less) (use hi [of r3] hi [of t] in simp)
  have "unat u * 2 ^ 96 + unat (?lo t) * 2 ^ 64 + unat (?lo s) * 2 ^ 32 + unat (?lo r0)
      = (unat (?hi a) * 2 ^ 32 + unat (?lo a)) * (unat (?hi b) * 2 ^ 32 + unat (?lo b))"
    unfolding u
    by (rule schoolbook_limbs [where ?c0.0 = "unat (?hi r0)" and ?h1.0 = "unat (?hi r1)"
          and ?k1.0 = "unat (?lo r1)" and ?c2.0 = "unat (?hi r2)" and ?l2.0 = "unat (?lo r2)"
          and ?k2.0 = "unat (?lo r3)" and e = "unat (?hi s)"];
        simp only: parts [symmetric] s [symmetric] t [symmetric] rs [symmetric])
  then have total: "unat u * 2 ^ 96 + unat (?lo t) * 2 ^ 64 + unat (?lo s) * 2 ^ 32 + unat (?lo r0)
      = unat a * unat b" by (simp only: parts [symmetric])
  have "unat a * unat b < 2 ^ 64 * 2 ^ 64"
    by (rule mult_strict_mono) (use unat64_bound [of a] unat64_bound [of b] in simp_all)
  with total have "unat u < 2 ^ 32" by simp
  then have "cat128 (?lo t OR push_bit 32 u) (push_bit 32 s OR ?lo r0) = unat a * unat b"
    unfolding cat128_def unat_or_push32(1) [OF lo] unat_or_push32(2) [OF lo] total [symmetric]
      unat_and_mask32 [of s, symmetric]
    by simp
  moreover obtain l h where m: "mul128 a b = (l, h)" by (cases "mul128 a b")
  ultimately show ?thesis unfolding eq m using mul128_correct [OF m] cat128_inj by metis
qed

text \<open>
  The portable multiplication of \<open>difficulty.cpp\<close> computes the same two words as
  \<open>mul128\<close>, and both stand for the exact 128-bit product.
\<close>

theorem mul_portable_eq:
  "mul_portable a b = mul128 a b \<and> (case mul128 a b of (lo, hi) \<Rightarrow> cat128 hi lo = unat a * unat b)"
proof -
  obtain lo hi where "mul128 a b = (lo, hi)" by (cases "mul128 a b")
  with mul_portable_words [of a b] mul128_correct [OF this] show ?thesis by simp
qed

end
