(* ===== verification/Difficulty.thy ===== *)
theory Difficulty
  imports Int_Util
begin

text \<open>
  The proof-of-work arithmetic of \<open>cryptonote_basic/difficulty.cpp\<close>: the target check
  \<open>check_hash\<close> and the difficulty retargeting routines \<open>next_difficulty\<close>,
  \<open>next_difficulty_lwma_3\<close>, \<open>next_difficulty_lwma_4\<close> and \<open>next_difficulty_v16\<close>. All
  arithmetic is on 64-bit words and wraps as the C++ code does; a subscript outside a vector and
  a division by zero are \<^const>\<open>Undefined\<close>. The assertions of the code are not part of the
  model: they are compiled out of release builds.
\<close>

section \<open>The target check\<close>

text \<open>Little-endian reading of bytes (\<open>swap64le\<close> of a 64-bit load).\<close>

fun le_load :: "bytes \<Rightarrow> u64" where
  "le_load [] = 0"
| "le_load (b # bs) = ucast b + 256 * le_load bs"

definition hash_word :: "hash \<Rightarrow> nat \<Rightarrow> u64" where
  "hash_word h k = le_load (take 8 (drop (8 * k) h))"

definition cadd :: "u64 \<Rightarrow> u64 \<Rightarrow> bool" where
  "cadd a b = (a + b < a)"

definition cadc :: "u64 \<Rightarrow> u64 \<Rightarrow> bool \<Rightarrow> bool" where
  "cadc a b c = (a + b < a \<or> (c \<and> a + b = - 1))"

definition check_hash :: "hash \<Rightarrow> u64 \<Rightarrow> bool" where
  "check_hash hash difficulty =
    (let (top, high) = mul128 (hash_word hash 3) difficulty
     in if high \<noteq> 0 then False
        else
          let (low, cur) = mul128 (hash_word hash 0) difficulty;
              (low, high) = mul128 (hash_word hash 1) difficulty;
              carry = cadd cur low;
              cur = high;
              (low, high) = mul128 (hash_word hash 2) difficulty;
              carry = cadc cur low carry;
              carry = cadc high top carry
          in \<not> carry)"

section \<open>The original retargeting\<close>

definition DIFFICULTY_WINDOW :: nat where "DIFFICULTY_WINDOW = 720"
definition DIFFICULTY_CUT :: nat where "DIFFICULTY_CUT = 60"

text \<open>\<open>std::vector::resize\<close> truncates or pads with zeros.\<close>

definition resize_list :: "nat \<Rightarrow> 'a::zero list \<Rightarrow> 'a list" where
  "resize_list n xs = take n xs @ replicate (n - length xs) 0"

definition cut_range :: "nat \<Rightarrow> nat \<times> nat" where
  "cut_range len =
    (let keep = DIFFICULTY_WINDOW - 2 * DIFFICULTY_CUT
     in if len \<le> keep then (0, len)
        else let cut_begin = (len - keep + 1) div 2 in (cut_begin, cut_begin + keep))"

definition next_difficulty :: "u64 list \<Rightarrow> u64 list \<Rightarrow> u64 \<Rightarrow> u64 outcome" where
  "next_difficulty timestamps cumulative_difficulties target_seconds =
    (let big = DIFFICULTY_WINDOW < length timestamps;
         timestamps = (if big then resize_list DIFFICULTY_WINDOW timestamps else timestamps);
         cumulative_difficulties =
           (if big then resize_list DIFFICULTY_WINDOW cumulative_difficulties
            else cumulative_difficulties);
         len = length timestamps
     in if len \<le> 1 then Inr 1
        else
          let timestamps = sort timestamps;
              (cut_begin, cut_end) = cut_range len
          in bindE (at_ub timestamps (cut_end - 1)) (\<lambda>t_end.
             bindE (at_ub timestamps cut_begin) (\<lambda>t_begin.
             let time_span = (if t_end - t_begin = 0 then 1 else t_end - t_begin)
             in bindE (at_ub cumulative_difficulties (cut_end - 1)) (\<lambda>d_end.
                bindE (at_ub cumulative_difficulties cut_begin) (\<lambda>d_begin.
                let total_work = d_end - d_begin;
                    (low, high) = mul128 total_work target_seconds
                in if high \<noteq> 0 \<or> low + time_span - 1 < low then Inr 0
                   else Inr ((low + time_span - 1) div time_span))))))"

section \<open>The weighted moving averages\<close>

definition DIFFICULTY_TARGET_V10 :: u64 where "DIFFICULTY_TARGET_V10 = 120"
definition DIFFICULTY_WINDOW_V10 :: nat where "DIFFICULTY_WINDOW_V10 = 90"
definition DIFFICULTY_TARGET_V11 :: u64 where "DIFFICULTY_TARGET_V11 = 120"
definition DIFFICULTY_WINDOW_V11 :: nat where "DIFFICULTY_WINDOW_V11 = 90"
definition DIFFICULTY_TARGET_V16 :: u64 where "DIFFICULTY_TARGET_V16 = DIFFICULTY_TARGET_V11"
definition DIFFICULTY_WINDOW_V16 :: nat where "DIFFICULTY_WINDOW_V16 = DIFFICULTY_WINDOW_V11"

definition div_ub :: "u64 \<Rightarrow> u64 \<Rightarrow> u64 outcome" where
  "div_ub a b = (if b = 0 then Inl Undefined else Inr (a div b))"

text \<open>
  The body of the loop of \<open>next_difficulty_lwma_3\<close>, on (previous timestamp, \<open>L\<close>,
  \<open>sum_3_ST\<close>); \<open>n\<close> is the final value of \<open>N\<close>.
\<close>

definition lwma_3_step ::
  "u64 \<Rightarrow> nat \<Rightarrow> u64 list \<Rightarrow> nat \<Rightarrow> u64 \<times> u64 \<times> u64 \<Rightarrow> (u64 \<times> u64 \<times> u64) outcome" where
  "lwma_3_step T n timestamps i = (\<lambda>(previous_timestamp, L, sum_3_ST).
    bindE (at_ub timestamps i) (\<lambda>t.
    let this_timestamp = (if previous_timestamp < t then t else previous_timestamp + 1);
        ST = min (6 * T) (this_timestamp - previous_timestamp)
    in Inr (this_timestamp, L + ST * of_nat i,
            if n - 3 < i then sum_3_ST + ST else sum_3_ST)))"

definition next_difficulty_lwma_3 :: "u64 list \<Rightarrow> u64 list \<Rightarrow> u64 outcome" where
  "next_difficulty_lwma_3 timestamps cumulative_difficulties =
    (let T = DIFFICULTY_TARGET_V10; N = DIFFICULTY_WINDOW_V10; difficulty_guess = 100000
     in if length timestamps \<le> 10 then Inr difficulty_guess
        else
          let N = (if length timestamps < N + 1 then length timestamps - 1 else N)
          in bindE (at_ub timestamps 0) (\<lambda>t0.
             bindE (foldE (lwma_3_step T N timestamps) [1..<N + 1] (t0, 0, 0)) (\<lambda>(_, L, sum_3_ST).
             bindE (at_ub cumulative_difficulties N) (\<lambda>dN.
             bindE (at_ub cumulative_difficulties 0) (\<lambda>d0.
             bindE (div_ub ((dN - d0) * T * (of_nat N + 1) * 99) (100 * 2 * L)) (\<lambda>next_D.
             bindE (at_ub cumulative_difficulties (N - 1)) (\<lambda>dN1.
             let prev_D = dN - dN1;
                 next_D = max ((prev_D * 67) div 100) (min next_D ((prev_D * 150) div 100));
                 next_D = (if sum_3_ST < (8 * T) div 10
                           then max next_D ((prev_D * 108) div 100) else next_D)
             in Inr next_D)))))))"

text \<open>
  \<open>next_difficulty_lwma_4\<close> and \<open>next_difficulty_v16\<close> differ in the length below which they
  return the initial guess and in the limit on a single solve time. \<open>monotone_ts\<close> is the loop
  that fills the vector \<open>TS\<close> after its first element.
\<close>

fun monotone_ts :: "u64 \<Rightarrow> u64 list \<Rightarrow> u64 list" where
  "monotone_ts prev [] = []"
| "monotone_ts prev (t # ts) = (let m = (if prev < t then t else prev) in m # monotone_ts m ts)"

definition solve_time :: "u64 \<Rightarrow> u64 \<Rightarrow> u64 list \<Rightarrow> nat \<Rightarrow> u64" where
  "solve_time T limit TS i =
    (if 4 < i \<and> 5 * T < TS ! i - TS ! (i - 1) \<and> TS ! (i - 1) - TS ! (i - 4) < (14 * T) div 10
     then 2 * T
     else if 7 < i \<and> 5 * T < TS ! i - TS ! (i - 1) \<and> TS ! (i - 1) - TS ! (i - 7) < 4 * T
     then 2 * T
     else min (limit * T) (TS ! i - TS ! (i - 1)))"

definition weighted_solve_times :: "u64 \<Rightarrow> u64 \<Rightarrow> u64 list \<Rightarrow> nat \<Rightarrow> u64" where
  "weighted_solve_times T limit TS N =
    fold (\<lambda>i L. L + solve_time T limit TS i * of_nat i) [1..<N + 1] 0"

text \<open>``Make all insignificant digits zero for easy reading'': the loop on \<open>i\<close>.\<close>

function round_digits :: "u64 \<Rightarrow> u64 \<Rightarrow> u64" where
  "round_digits i next_D =
    (if 1 < i
     then if i * 100 < next_D then ((next_D + i div 2) div i) * i
          else round_digits (i div 10) next_D
     else next_D)"
  by auto
termination
proof (relation "measure (\<lambda>(i, _). unat i)")
  fix i next_D :: u64
  assume "1 < i"
  then have "1 < unat i" by (simp add: word_less_nat_alt)
  then have "unat i div 10 < unat i" by simp
  then show "((i div 10, next_D), i, next_D) \<in> measure (\<lambda>(i, _). unat i)"
    by (simp add: unat_div)
qed simp

definition lwma_4_guided :: "nat \<Rightarrow> u64 \<Rightarrow> u64 \<Rightarrow> nat \<Rightarrow> u64 list \<Rightarrow> u64 list \<Rightarrow> u64 outcome" where
  "lwma_4_guided startup limit T N timestamps cumulative_difficulties =
    (let difficulty_guess = 80000
     in if length timestamps \<le> startup then Inr difficulty_guess
        else
          let N = (if length timestamps < N + 1 then length timestamps - 1 else N);
              TS = hd timestamps # monotone_ts (hd timestamps) (take N (tl timestamps));
              n = of_nat N;
              L = weighted_solve_times T limit TS N;
              L = (if L < n * n * T div 20 then n * n * T div 20 else L)
          in bindE (at_ub cumulative_difficulties N) (\<lambda>dN.
             bindE (at_ub cumulative_difficulties 0) (\<lambda>d0.
             bindE (div_ub (dN - d0) n) (\<lambda>avg_D.
             bindE (if 2000000 * n * n * T < avg_D
                    then bindE (div_ub avg_D (200 * L)) (\<lambda>q. Inr (q * (n * (n + 1) * T * 97)))
                    else div_ub (avg_D * n * (n + 1) * T * 97) (200 * L)) (\<lambda>next_D.
             bindE (at_ub cumulative_difficulties (N - 1)) (\<lambda>dN1.
             let prev_D = dN - dN1;
                 next_D =
                   (if TS ! N - TS ! (N - 1) < (2 * T) div 10 \<or>
                       TS ! N - TS ! (N - 2) < (5 * T) div 10 \<or>
                       TS ! N - TS ! (N - 3) < (8 * T) div 10
                    then max next_D (min ((prev_D * 110) div 100) ((105 * avg_D) div 100))
                    else next_D);
                 next_D = round_digits 1000000000 next_D;
                 next_D =
                   (if 100000 < next_D
                    then ((next_D + 500) div 1000) * 1000 +
                         min 999 ((TS ! N - TS ! (N - 10)) div 10)
                    else next_D)
             in Inr next_D))))))"

definition next_difficulty_lwma_4 :: "u64 list \<Rightarrow> u64 list \<Rightarrow> u64 outcome" where
  "next_difficulty_lwma_4 = lwma_4_guided 12 5 DIFFICULTY_TARGET_V11 DIFFICULTY_WINDOW_V11"

definition next_difficulty_v16 :: "u64 list \<Rightarrow> u64 list \<Rightarrow> u64 outcome" where
  "next_difficulty_v16 = lwma_4_guided 16 3 DIFFICULTY_TARGET_V16 DIFFICULTY_WINDOW_V16"

section \<open>Correctness of the target check\<close>

text \<open>The number a byte string stands for, least significant byte first.\<close>

fun le_nat :: "bytes \<Rightarrow> nat" where
  "le_nat [] = 0"
| "le_nat (b # bs) = unat b + 256 * le_nat bs"

lemma le_nat_append: "le_nat (xs @ ys) = le_nat xs + 256 ^ length xs * le_nat ys"
  by (induction xs) (simp_all add: algebra_simps)

lemma le_nat_less: "le_nat bs < 256 ^ length bs"
proof (induction bs)
  case Nil
  then show ?case by simp
next
  case (Cons b bs)
  then show ?case using unat8_bound [of b] by simp
qed

lemma le_load_nat: "length bs \<le> 8 \<Longrightarrow> unat (le_load bs) = le_nat bs"
proof (induction bs)
  case Nil
  then show ?case by simp
next
  case (Cons b bs)
  have "le_nat bs < 256 ^ 7"
    using le_nat_less [of bs] power_increasing [of "length bs" 7 "256 :: nat"] Cons.prems by simp
  then have small: "unat b + 256 * le_nat bs < 2 ^ 64" using unat8_bound [of b] by simp
  have b: "unat (ucast b :: u64) = unat b"
    using unat8_bound [of b] by (simp add: unsigned_ucast_eq take_bit_eq_mod)
  have m: "unat (256 * le_load bs) = 256 * le_nat bs"
    using small Cons by (subst unat_mult_less) simp_all
  show ?case using small b m by (simp add: unat_add_less)
qed

lemma cadc_carry: "cadc a b c \<longleftrightarrow> 2 ^ 64 \<le> unat a + unat b + (if c then 1 else 0)"
proof -
  have "a + b = - 1 \<longleftrightarrow> unat (a + b) = 2 ^ 64 - 1"
    by (simp add: word_eq_iff_unsigned [where 'a = nat])
  then show ?thesis
    using carry_iff [of a b] unat_add_less [of a b] unat64_bound [of "a + b"]
    by (cases "unat a + unat b < 2 ^ 64") (auto simp: cadc_def)
qed

lemma cadd_carry: "cadd a b \<longleftrightarrow> 2 ^ 64 \<le> unat a + unat b"
  by (simp add: cadd_def carry_iff)

lemma le_nat_chunk:
  assumes "8 * k + 8 \<le> length h"
  shows "le_nat (drop (8 * k) h) = unat (hash_word h k) + 2 ^ 64 * le_nat (drop (8 * k + 8) h)"
proof -
  have "le_nat (drop (8 * k) h) = le_nat (take 8 (drop (8 * k) h) @ drop 8 (drop (8 * k) h))"
    by (simp only: append_take_drop_id)
  also have "\<dots> = le_nat (take 8 (drop (8 * k) h)) + 256 ^ 8 * le_nat (drop (8 * k + 8) h)"
    using assms by (simp only: le_nat_append) (simp add: add.commute)
  finally show ?thesis by (simp add: hash_word_def le_load_nat)
qed

lemma hash_words:
  assumes "length h = 32"
  shows "le_nat h = unat (hash_word h 0) + 2 ^ 64 * unat (hash_word h 1)
    + 2 ^ 128 * unat (hash_word h 2) + 2 ^ 192 * unat (hash_word h 3)"
  using le_nat_chunk [of 0 h] le_nat_chunk [of 1 h] le_nat_chunk [of 2 h] le_nat_chunk [of 3 h] assms
  by simp

lemma mul128_split:
  assumes "mul128 x y = (lo, hi)"
  shows "unat x * unat y = unat hi * 2 ^ 64 + unat lo"
  using mul128_correct [OF assms] by (simp add: cat128_def)

text \<open>Whether a sum of 64-bit columns overflows is decided by the last carry.\<close>

lemma carry_chain:
  fixes l0 s1 s2 s3 :: nat
  assumes "l0 < 2 ^ 64" and "s1 < 2 ^ 65 - 1" and "s2 < 2 ^ 65 - 1"
    and c1: "c1 \<longleftrightarrow> 2 ^ 64 \<le> s1" and c2: "c2 \<longleftrightarrow> 2 ^ 64 \<le> s2 + (if c1 then 1 else 0)"
  shows "l0 + s1 * 2 ^ 64 + s2 * 2 ^ 128 + s3 * 2 ^ 192 < 2 ^ 256 \<longleftrightarrow>
    \<not> 2 ^ 64 \<le> s3 + (if c2 then 1 else 0)"
  using assms(1-3) by (cases c1; cases c2; simp add: c1 c2 not_le; linarith)

text \<open>
  (C6) A 32-byte hash meets a difficulty exactly when the 256-bit little-endian number it stands
  for, multiplied by the difficulty, is below $2^{256}$.
\<close>

theorem check_hash_correct:
  assumes "length h = 32"
  shows "check_hash h d \<longleftrightarrow> le_nat h * unat d < 2 ^ 256"
proof -
  obtain l0 h0 where m0: "mul128 (hash_word h 0) d = (l0, h0)" by fastforce
  obtain l1 h1 where m1: "mul128 (hash_word h 1) d = (l1, h1)" by fastforce
  obtain l2 h2 where m2: "mul128 (hash_word h 2) d = (l2, h2)" by fastforce
  obtain l3 h3 where m3: "mul128 (hash_word h 3) d = (l3, h3)" by fastforce
  have total: "le_nat h * unat d = unat l0 + (unat h0 + unat l1) * 2 ^ 64
      + (unat h1 + unat l2) * 2 ^ 128 + (unat h2 + unat l3) * 2 ^ 192 + unat h3 * 2 ^ 256"
    using mul128_split [OF m0] mul128_split [OF m1] mul128_split [OF m2] mul128_split [OF m3]
    unfolding hash_words [OF assms] by (simp add: algebra_simps)
  note bounds = unat64_bound [of l0] unat64_bound [of l1] unat64_bound [of l2] unat64_bound [of l3]
    unat64_bound [of h0] unat64_bound [of h1] unat64_bound [of h2] unat64_bound [of h3]
  show ?thesis
  proof (cases "h3 = 0")
    case True
    then have "check_hash h d \<longleftrightarrow> \<not> cadc h2 l3 (cadc h1 l2 (cadd h0 l1))"
      by (simp only: check_hash_def m0 m1 m2 m3 Let_def prod.case) simp
    also have "\<dots> \<longleftrightarrow> le_nat h * unat d < 2 ^ 256"
      using carry_chain [OF _ _ _ cadd_carry [of h0 l1] cadc_carry [of h1 l2], of "unat l0" "unat h2 + unat l3"]
        bounds True by (simp add: total cadc_carry)
    finally show ?thesis .
  next
    case False
    then have "1 \<le> unat h3" by (simp add: Suc_leI unat_gt_0)
    with total have "2 ^ 256 \<le> le_nat h * unat d" by simp
    with False show ?thesis by (simp add: check_hash_def m0 m1 m2 m3)
  qed
qed

theorem check_hash_correct_witness:
  "check_hash (replicate 31 0 @ [16]) 15 \<longleftrightarrow> le_nat (replicate 31 0 @ [16]) * 15 < 2 ^ 256"
  using check_hash_correct [of "replicate 31 0 @ [16]" 15] by simp

section \<open>Correctness of the original retargeting\<close>

lemma cut_range_bounds:
  assumes "cut_range n = (b, e)" and "1 < n"
  shows "b + 2 \<le> e" and "e \<le> n"
  using assms by (auto simp: cut_range_def Let_def DIFFICULTY_WINDOW_def DIFFICULTY_CUT_def
      split: if_splits)

lemma mul128_fits:
  assumes "mul128 x y = (lo, hi)"
  shows "hi = 0 \<longleftrightarrow> unat x * unat y < 2 ^ 64" and "hi = 0 \<Longrightarrow> unat lo = unat x * unat y"
  using mul128_split [OF assms] unat64_bound [of lo] unat_gt_0 [of hi] by auto

lemma rounded_up_quotient:
  fixes lo span :: u64
  assumes "0 < span"
  defines "s \<equiv> unat lo + (unat span - 1)"
  shows "(lo + span - 1 < lo) \<longleftrightarrow> 2 ^ 64 \<le> s"
    and "s < 2 ^ 64 \<Longrightarrow> (lo + span - 1) div span = of_nat (s div unat span)"
proof -
  have one: "unat (span - 1) = unat span - 1"
    using assms by (simp add: unat_sub_le word_less_nat_alt word_le_nat_alt)
  have eq: "lo + span - 1 = lo + (span - 1)" by simp
  show "(lo + span - 1 < lo) \<longleftrightarrow> 2 ^ 64 \<le> s"
    unfolding eq carry_iff by (simp add: one s_def)
  assume "s < 2 ^ 64"
  then have "unat (lo + (span - 1)) = s" by (subst unat_add_less) (simp_all add: one s_def)
  then show "(lo + span - 1) div span = of_nat (s div unat span)"
    unfolding eq by (simp only: word_arith_nat_div)
qed

text \<open>
  (C37) On vectors of equal length with more than one entry \<open>next_difficulty\<close> always returns. The window
  is the middle 600 of at most 720 entries, with the timestamps sorted. With \<open>work\<close>
  the difference of the cumulative difficulties over the window times the target, and \<open>span\<close> the
  time the window took, at least 1, the result is \<open>work\<close> divided by \<open>span\<close>, rounded up, as long as
  \<open>work + (span - 1)\<close> fits into 64 bits; otherwise it is 0, even where the quotient itself would fit.
\<close>

theorem next_difficulty_correct:
  fixes timestamps difficulties :: "u64 list" and target :: u64
  assumes "length timestamps = length difficulties" and "1 < length timestamps"
  defines "ts \<equiv> sort (take 720 timestamps)"
  defines "b \<equiv> (if length ts \<le> 600 then 0 else (length ts - 599) div 2)"
  defines "e \<equiv> b + min 600 (length ts)"
  defines "work \<equiv> unat (difficulties ! (e - 1) - difficulties ! b) * unat target"
  defines "span \<equiv> max 1 (unat (ts ! (e - 1)) - unat (ts ! b))"
  shows "next_difficulty timestamps difficulties target =
    Inr (if 2 ^ 64 \<le> work + (span - 1) then 0 else of_nat ((work + (span - 1)) div span))"
proof -
  have cut: "cut_range (length ts) = (b, e)"
    by (auto simp: cut_range_def b_def e_def Let_def DIFFICULTY_WINDOW_def DIFFICULTY_CUT_def)
  define D where "D = take 720 difficulties"
  have len: "length ts = min 720 (length timestamps)" "length D = length ts"
    using assms(1) by (simp_all add: ts_def D_def)
  with assms(2) have range: "b + 2 \<le> e" "e \<le> length ts"
    using cut_range_bounds [OF cut] by simp_all
  have "ts ! b \<le> ts ! (e - 1)"
    by (rule sorted_nth_mono) (use range in \<open>auto simp: ts_def\<close>)
  then have diff: "unat (ts ! (e - 1) - ts ! b) = unat (ts ! (e - 1)) - unat (ts ! b)"
    by (rule unat_sub)
  define sp where "sp = (if ts ! (e - 1) - ts ! b = 0 then 1 else ts ! (e - 1) - ts ! b)"
  have sp: "0 < sp" "unat sp = span"
    unfolding sp_def span_def diff [symmetric]
    by (simp_all add: word_greater_zero_iff max_def Suc_le_eq unat_gt_0)
  obtain lo hi where mul: "mul128 (D ! (e - 1) - D ! b) target = (lo, hi)" by fastforce
  have idx: "D ! (e - 1) = difficulties ! (e - 1)" "D ! b = difficulties ! b"
    unfolding D_def using range len by (auto intro!: nth_take)
  have "next_difficulty timestamps difficulties target =
      (if hi \<noteq> 0 \<or> lo + sp - 1 < lo then Inr 0 else Inr ((lo + sp - 1) div sp))"
  proof -
    have ts_eq: "(if DIFFICULTY_WINDOW < length timestamps
        then resize_list DIFFICULTY_WINDOW timestamps else timestamps) = take 720 timestamps"
      and D_eq: "(if DIFFICULTY_WINDOW < length timestamps
        then resize_list DIFFICULTY_WINDOW difficulties else difficulties) = D"
      using assms(1) by (auto simp: resize_list_def DIFFICULTY_WINDOW_def D_def)
    have at: "at_ub ts (e - 1) = Inr (ts ! (e - 1))" "at_ub ts b = Inr (ts ! b)"
      "at_ub D (e - 1) = Inr (D ! (e - 1))" "at_ub D b = Inr (D ! b)"
      using range len by (auto simp: at_ub_def)
    have n: "length (take 720 timestamps) = length ts" "\<not> length ts \<le> 1"
      using len assms(2) by (auto simp: ts_def)
    show ?thesis
      unfolding next_difficulty_def Let_def ts_eq D_eq n(1) cut ts_def [symmetric] prod.case at
        bindE_Inr mul sp_def [symmetric] if_not_P [OF n(2)] ..
  qed
  also have "\<dots> = Inr (if 2 ^ 64 \<le> work + (span - 1) then 0
      else of_nat ((work + (span - 1)) div span))"
    using mul128_fits [OF mul, unfolded idx, folded work_def]
      rounded_up_quotient [OF sp(1), of lo, unfolded sp(2)]
    by (cases "hi = 0") auto
  finally show ?thesis .
qed

theorem next_difficulty_correct_witness:
  "next_difficulty [100, 220, 350] [10, 1010, 2010] 120 = Inr (of_nat ((2000 * 120 + 249) div 250))"
proof -
  have "sort [100, 220, 350 :: u64] = [100, 220, 350]" by simp
  then show ?thesis
    using next_difficulty_correct [of "[100, 220, 350]" "[10, 1010, 2010]" 120] by simp
qed

section \<open>Correctness of LWMA-3\<close>

lemma unat_mono_mult_bound:
  fixes a b :: u64
  assumes "unat a \<le> x" "unat b \<le> y" "x * y < 2 ^ 64"
  shows "unat (a * b) = unat a * unat b" "unat (a * b) \<le> x * y"
proof -
  have le: "unat a * unat b \<le> x * y" using assms by (simp add: mult_le_mono)
  with assms(3) show "unat (a * b) = unat a * unat b" by (intro unat_mult_less) simp
  with le show "unat (a * b) \<le> x * y" by simp
qed

text \<open>
  The accumulated weight: every counted solve time is at least one second and at most six
  targets, so after the loop \<open>L\<close> is positive and far from wrapping.
\<close>

lemma lwma_3_loop:
  assumes "1 \<le> N" and "N \<le> 90" and "N < length timestamps"
  shows "\<exists>t L s. foldE (lwma_3_step 120 N timestamps) [1..<N + 1] (t0, 0, 0) = Inr (t, L, s) \<and>
    0 < unat L \<and> unat L \<le> 64800 * N"
proof -
  define P where "P i = (\<lambda>(t :: u64, L :: u64, s :: u64).
    (1 < i \<longrightarrow> 0 < unat L) \<and> unat L \<le> 64800 * (i - 1))" for i :: nat
  have "\<exists>r. foldE (lwma_3_step 120 N timestamps) [1..<N + 1] (t0, 0, 0) = Inr r \<and> P (N + 1) r"
  proof (rule foldE_upt)
    show "1 \<le> N + 1" and "P 1 (t0, 0, 0)" by (simp_all add: P_def)
    fix i and st :: "u64 \<times> u64 \<times> u64"
    assume i: "1 \<le> i" "i < N + 1" and "P i st"
    obtain prev L s3 where st: "st = (prev, L, s3)" by (cases st)
    with \<open>P i st\<close> have L: "unat L \<le> 64800 * (i - 1)" by (simp add: P_def)
    define this where "this = (if prev < timestamps ! i then timestamps ! i else prev + 1)"
    define ST where "ST = min 720 (this - prev)"
    have step: "lwma_3_step 120 N timestamps i st =
        Inr (this, L + ST * of_nat i, if N - 3 < i then s3 + ST else s3)"
      using i assms by (simp add: lwma_3_step_def st at_ub_def this_def ST_def Let_def)
    have "this - prev \<noteq> 0" by (auto simp: this_def)
    then have "0 < ST" and "ST \<le> 720" by (auto simp: ST_def min_def word_greater_zero_iff)
    then have ST: "0 < unat ST" "unat ST \<le> 720" by (simp_all add: unat_gt_0 word_le_nat_alt)
    have i': "unat (of_nat i :: u64) = i" using i assms by (simp add: unat_of_nat_small)
    have prod: "unat (ST * of_nat i) = unat ST * i" "unat (ST * of_nat i) \<le> 720 * 90"
      using unat_mono_mult_bound [of ST 720 "of_nat i" 90] ST i' i assms by simp_all
    then have "unat (L + ST * of_nat i) = unat L + unat ST * i"
      using L i assms by (subst unat_add_less) simp_all
    moreover have "0 < unat ST * i" using ST i by simp
    moreover have "unat L + unat ST * i \<le> 64800 * i" using L prod i by simp
    ultimately have "P (Suc i) (this, L + ST * of_nat i, if N - 3 < i then s3 + ST else s3)"
      by (simp add: P_def)
    with step show "\<exists>s'. lwma_3_step 120 N timestamps i st = Inr s' \<and> P (Suc i) s'" by blast
  qed
  then show ?thesis using assms by (auto simp: P_def)
qed

text \<open>
  LWMA-3 always returns (its divisor cannot be zero), and the new difficulty stays within
  67\% and 150\% of the difficulty of the last block, whatever the timestamps are.
\<close>

theorem lwma_3_clamped:
  fixes timestamps difficulties :: "u64 list"
  assumes "length timestamps = length difficulties" and "10 < length timestamps"
  defines "N \<equiv> min 90 (length timestamps - 1)"
  defines "prev \<equiv> unat (difficulties ! N - difficulties ! (N - 1))"
  assumes fits: "150 * prev < 2 ^ 64"
  shows "\<exists>D. next_difficulty_lwma_3 timestamps difficulties = Inr D \<and>
    67 * prev div 100 \<le> unat D \<and> unat D \<le> 150 * prev div 100"
proof -
  have N: "1 \<le> N" "N \<le> 90" "N < length timestamps" "N < length difficulties"
    "N - Suc 0 < length difficulties" "timestamps \<noteq> []" "difficulties \<noteq> []"
    using assms(1,2) by (auto simp: N_def)
  obtain t L s where loop: "foldE (lwma_3_step 120 N timestamps) [1..<N + 1]
      (timestamps ! 0, 0, 0) = Inr (t, L, s)" and L: "0 < unat L" "unat L \<le> 64800 * N"
    using lwma_3_loop [OF N(1-3)] by blast
  have "unat (200 * L) = 200 * unat L" using L N by (subst unat_mult_less) simp_all
  then have "200 * L \<noteq> 0" using L by (metis mult_pos_pos unat_0 less_numeral_extra(3) zero_less_numeral)
  define W where "W = difficulties ! N - difficulties ! (N - 1)"
  have W: "unat W = prev" by (simp add: W_def prev_def)
  have pct: "unat ((W * of_nat k) div 100) = k * prev div 100" if "k \<le> 150" for k
  proof -
    have "prev * k \<le> prev * 150" using that by (rule mult_le_mono2)
    also have "\<dots> < 2 ^ 64" using fits by simp
    finally have small: "prev * k < 2 ^ 64" .
    have k: "unat (of_nat k :: u64) = k" using that by (intro unat_of_nat_small) simp
    have "unat (W * of_nat k) = prev * k" using small by (simp add: unat_mult_less W k)
    then show ?thesis by (simp add: unat_div mult.commute)
  qed
  define q where "q = (difficulties ! N - difficulties ! 0) * 120 * (of_nat N + 1) * 99 div (200 * L)"
  define c where "c = max ((W * 67) div 100) (min q ((W * 150) div 100))"
  define D where "D = (if s < 96 then max c ((W * 108) div 100) else c)"
  have "next_difficulty_lwma_3 timestamps difficulties = Inr D"
  proof -
    have n: "(if length timestamps < DIFFICULTY_WINDOW_V10 + 1 then length timestamps - 1
        else DIFFICULTY_WINDOW_V10) = N"
      by (auto simp: N_def DIFFICULTY_WINDOW_V10_def)
    show ?thesis
      unfolding next_difficulty_lwma_3_def Let_def n DIFFICULTY_TARGET_V10_def
      using assms(2) N loop \<open>200 * L \<noteq> 0\<close>
      by (simp add: at_ub_def div_ub_def D_def c_def q_def W_def)
  qed
  moreover have "67 * prev div 100 \<le> unat c \<and> unat c \<le> 150 * prev div 100"
    using pct [of 67] pct [of 150] by (auto simp: c_def max_def min_def word_le_nat_alt)
  then have "67 * prev div 100 \<le> unat D \<and> unat D \<le> 150 * prev div 100"
    using pct [of 108] by (auto simp: D_def max_def word_le_nat_alt)
  ultimately show ?thesis by blast
qed

theorem lwma_3_clamped_witness:
  "\<exists>D. next_difficulty_lwma_3 (map (\<lambda>i. 7 * of_nat i) [0..<12]) (map (\<lambda>i. 100 * of_nat i) [0..<12])
     = Inr D \<and> 67 \<le> unat D \<and> unat D \<le> 150"
  using lwma_3_clamped [of "map (\<lambda>i. 7 * of_nat i) [0..<12]" "map (\<lambda>i. 100 * of_nat i) [0..<12]"]
  by simp

section \<open>Correctness of LWMA-4 and its successor\<close>

text \<open>The vector \<open>TS\<close> is nondecreasing, so the differences taken of it never wrap.\<close>

lemma length_monotone_ts [simp]: "length (monotone_ts p ts) = length ts"
  by (induction ts arbitrary: p) (simp_all add: Let_def)

lemma monotone_ts_ge: "t \<in> set (monotone_ts p ts) \<Longrightarrow> p \<le> t"
  by (induction ts arbitrary: p) (fastforce simp: Let_def split: if_splits)+

lemma sorted_monotone_ts: "sorted (p # monotone_ts p ts)"
  by (induction ts arbitrary: p) (auto simp: Let_def dest: monotone_ts_ge)

lemma monotone_ts_running_max:
  "i < length ts \<Longrightarrow> monotone_ts p ts ! i = Max (insert p (set (take (Suc i) ts)))"
proof (induction ts arbitrary: p i)
  case Nil
  then show ?case by simp
next
  case (Cons t ts)
  have "Max (insert p (insert t S)) = Max (insert (if p < t then t else p) S)" if "finite S" for S
    using that by (cases "S = {}") (auto simp: max_def)
  then show ?case using Cons by (cases i) (auto simp: Let_def max_def)
qed

lemma solve_time_le:
  assumes "2 \<le> limit" and "limit \<le> 5"
  shows "unat (solve_time 120 limit TS i) \<le> unat limit * 120"
proof -
  have lim: "2 \<le> unat limit" "unat limit \<le> 5" using assms by (simp_all add: word_le_nat_alt)
  then have "unat (limit * 120) = unat limit * 120" by (subst unat_mult_less) simp_all
  moreover have "min (limit * 120) x \<le> limit * 120" for x by simp
  ultimately have "unat (min (limit * 120) x) \<le> unat limit * 120" for x
    by (metis word_le_nat_alt)
  then show ?thesis using lim by (auto simp: solve_time_def)
qed

lemma weighted_solve_times_le:
  assumes "2 \<le> limit" and "limit \<le> 5" and "N \<le> 90"
  shows "2 * unat (weighted_solve_times 120 limit TS N) \<le> unat limit * 120 * (N * (N + 1))"
proof -
  define P where "P i L \<longleftrightarrow> 2 * unat L \<le> unat limit * 120 * ((i - 1) * i)" for i and L :: u64
  have lim: "unat limit \<le> 5" using assms by (simp add: word_le_nat_alt)
  have "P (N + 1) (weighted_solve_times 120 limit TS N)"
    unfolding weighted_solve_times_def
  proof (rule fold_upt)
    show "1 \<le> N + 1" and "P 1 0" by (simp_all add: P_def)
    fix i and L :: u64
    assume i: "1 \<le> i" "i < N + 1" and "P i L"
    define ST where "ST = solve_time 120 limit TS i"
    have ST: "unat ST \<le> unat limit * 120" unfolding ST_def by (rule solve_time_le) fact+
    with lim have ST': "unat ST \<le> 600" by simp
    have i': "unat (of_nat i :: u64) = i" using i assms by (simp add: unat_of_nat_small)
    have prod: "unat (ST * of_nat i) = unat ST * i"
      using unat_mono_mult_bound(1) [of ST 600 "of_nat i" 90] ST' i' i assms by simp
    have "(i - 1) * i \<le> 90 * 90" using i assms by (intro mult_le_mono) simp_all
    then have "unat limit * 120 * ((i - 1) * i) \<le> 600 * 8100"
      using lim by (intro mult_le_mono) simp_all
    then have "unat L \<le> 600 * 8100" using \<open>P i L\<close> by (simp add: P_def)
    moreover have "unat ST * i \<le> 600 * 90" using ST' i assms by (intro mult_le_mono) simp_all
    ultimately have "unat (L + ST * of_nat i) = unat L + unat ST * i"
      using prod by (subst unat_add_less) simp_all
    moreover have "unat ST * i \<le> unat limit * 120 * i" using ST by simp
    moreover have "(i - 1) * i + 2 * i = i * Suc i" using i by (cases i) simp_all
    then have "unat limit * 120 * ((i - 1) * i) + 2 * (unat limit * 120 * i) =
        unat limit * 120 * (i * Suc i)" by (metis (no_types, lifting) distrib_left mult.left_commute)
    ultimately show "P (Suc i) (L + solve_time 120 limit TS i * of_nat i)"
      using \<open>P i L\<close> unfolding P_def ST_def [symmetric] diff_Suc_1 by linarith
  qed
  then show ?thesis by (simp add: P_def)
qed

text \<open>Rounding to significant digits changes a number by at most half a percent.\<close>

lemma round_to_multiple:
  fixes n i :: nat
  assumes "1 < i" and "100 * i < n"
  defines "r \<equiv> (n + i div 2) div i * i"
  shows "200 * r \<le> 201 * n" and "199 * n \<le> 200 * r"
proof -
  have "r \<le> n + i div 2" and "n + i div 2 < r + i"
    using assms(1) dividend_less_div_times [of i "n + i div 2"] by (simp_all add: r_def)
  with assms(2) show "200 * r \<le> 201 * n" and "199 * n \<le> 200 * r" by linarith+
qed

lemma round_digits_bounds:
  assumes "unat i \<le> 1000000000" and "unat n < 2 ^ 63"
  shows "200 * unat (round_digits i n) \<le> 201 * unat n \<and>
    199 * unat n \<le> 200 * unat (round_digits i n)"
  using assms
proof (induction i n rule: round_digits.induct)
  case (1 i n)
  show ?case
  proof (cases "1 < i \<and> i * 100 < n")
    case True
    have "unat (i * 100) = unat i * 100" using 1(2) by (subst unat_mult_less) simp_all
    with True have i: "1 < unat i" "100 * unat i < unat n" by (simp_all add: word_less_nat_alt)
    have half: "unat (i div 2) = unat i div 2" by (simp add: unat_div)
    have sum: "unat (n + i div 2) = unat n + unat i div 2"
      using 1(2,3) half by (subst unat_add_less) simp_all
    have "(unat n + unat i div 2) div unat i * unat i < 2 ^ 64"
      by (rule le_less_trans [OF div_times_less_eq_dividend]) (use 1(2,3) in simp)
    then have "unat ((n + i div 2) div i * i) = (unat n + unat i div 2) div unat i * unat i"
      by (subst unat_mult_less) (simp_all add: unat_div sum)
    with True round_to_multiple [OF i] show ?thesis by (simp add: round_digits.simps [of i n])
  next
    case False
    show ?thesis
    proof (cases "1 < i")
      case True
      have "unat (i div 10) \<le> 1000000000" using 1(2) by (simp add: unat_div)
      with 1 True False show ?thesis by (simp add: round_digits.simps [of i n])
    qed (simp add: round_digits.simps [of i n])
  qed
qed

text \<open>
  The weighted average on natural numbers. \<open>A\<close> is the average difficulty, \<open>L\<close> the weighted sum
  of solve times and \<open>r\<close> one of the two ways of computing $A \cdot K / (200 L)$.
\<close>

lemma weighted_average_upper:
  fixes A L N r :: nat
  assumes "12 \<le> N" and "6 * (N * N) \<le> L" and "r * (200 * L) \<le> A * (N * (N + 1) * 11640)"
  shows "20 * r \<le> 211 * A"
proof -
  have "r * (200 * (6 * (N * N))) \<le> r * (200 * L)" using assms(2) by simp
  also note assms(3)
  finally have "N * (N * (1200 * r)) \<le> N * (A * (N + 1) * 11640)" by (simp add: algebra_simps)
  then have "N * (1200 * r) \<le> A * (N + 1) * 11640" using assms(1) by simp
  then have "12 * (N * (1200 * r)) \<le> A * (12 * (N + 1)) * 11640" by (simp add: algebra_simps)
  also have "12 * (N + 1) \<le> 13 * N" using assms(1) by simp
  then have "A * (12 * (N + 1)) * 11640 \<le> A * (13 * N) * 11640"
    by (intro mult_le_mono1 mult_le_mono2)
  finally have "N * (14400 * r) \<le> N * (151320 * A)" by (simp add: algebra_simps)
  then have "14400 * r \<le> 151320 * A" using assms(1) by simp
  then show ?thesis by simp
qed

lemma weighted_average_lower:
  fixes A L N r c lim :: nat
  assumes "12 \<le> N" and "2 * L \<le> lim * 120 * (N * (N + 1))"
    and "A * (N * (N + 1) * 11640) \<le> (r + c) * (200 * L)"
  shows "97 * A \<le> 100 * lim * (r + c)"
proof -
  have "(r + c) * (100 * (2 * L)) \<le> (r + c) * (100 * (lim * 120 * (N * (N + 1))))"
    using assms(2) by simp
  with assms(3) have "(N * (N + 1)) * (11640 * A) \<le> (N * (N + 1)) * (12000 * lim * (r + c))"
    by (simp add: algebra_simps)
  then have "11640 * A \<le> 12000 * lim * (r + c)" using assms(1) by simp
  then show ?thesis by simp
qed

lemma coarse_quotient_bounds:
  fixes A N K d :: nat
  assumes "12 \<le> N" and "240000000 * (N * N) < A" and "0 < d"
  defines "K \<equiv> N * (N + 1) * 11640"
  shows "A div d * K * d \<le> A * K" and "A * K \<le> (A div d * K + K) * d" and "19000 * K \<le> A"
proof -
  have "A div d * d \<le> A" by simp
  then have "A div d * d * K \<le> A * K" by (rule mult_le_mono1)
  then show "A div d * K * d \<le> A * K" by (simp add: algebra_simps)
  have "A \<le> (A div d + 1) * d" using assms(3) dividend_less_div_times [of d A] by simp
  then have "A * K \<le> (A div d + 1) * d * K" by (rule mult_le_mono1)
  then show "A * K \<le> (A div d * K + K) * d" by (simp add: algebra_simps)
  have "12 * (N * (N + 1)) \<le> 13 * (N * N)" using assms(1) by simp
  then show "19000 * K \<le> A" using assms(2) unfolding K_def by linarith
qed

lemma lwma_4_average:
  fixes avg L n :: u64
  assumes N: "12 \<le> N" "N \<le> 90" and n: "n = of_nat N"
    and L: "6 * (N * N) \<le> unat L" "2 * unat L \<le> lim * 120 * (N * (N + 1))" and lim: "lim \<le> 5"
    and fits: "unat avg * (N * (N + 1) * 11640) < 2 ^ 64 \<or> 240000000 * (N * N) < unat avg"
      "11 * unat avg + 1500 < 2 ^ 63"
  shows "\<exists>raw. (if 2000000 * n * n * 120 < avg
      then bindE (div_ub avg (200 * L)) (\<lambda>q. Inr (q * (n * (n + 1) * 120 * 97)))
      else div_ub (avg * n * (n + 1) * 120 * 97) (200 * L)) = Inr raw \<and>
    20 * unat raw \<le> 211 * unat avg \<and> 96 * unat avg \<le> 100 * lim * (unat raw + 1)"
proof -
  define K where "K = N * (N + 1) * 11640"
  have NN: "144 \<le> N * N" "N * N \<le> 8100" "N * (N + 1) \<le> 8190"
    using N mult_le_mono [of 12 N 12 N] mult_le_mono [of N 90 N 90] mult_le_mono [of N 90 "N + 1" 91]
    by simp_all
  have un: "unat n = N" "unat (n + 1) = N + 1"
    using N by (simp_all add: n unat_of_nat_small unat_add_less)
  have "lim * 120 * (N * (N + 1)) \<le> 600 * 8190" using lim NN by (intro mult_le_mono) simp_all
  with L(2) have "unat L \<le> 600 * 8190" by simp
  then have d: "unat (200 * L) = 200 * unat L" by (subst unat_mult_less) simp_all
  have pos: "0 < 200 * unat L" using L(1) NN by simp
  then have "200 * L \<noteq> 0" using d by (metis unat_0 less_numeral_extra(3))
  have thr: "unat (2000000 * n * n * 120) = 240000000 * (N * N)"
    using N NN by (simp add: unat_mult_less un)
  have up: "20 * r \<le> 211 * unat avg" if "r * (200 * unat L) \<le> unat avg * K" for r
    using weighted_average_upper [OF N(1) L(1)] that by (simp add: K_def)
  have low: "97 * unat avg \<le> 100 * lim * (r + c)"
    if "unat avg * K \<le> (r + c) * (200 * unat L)" for r c
    using weighted_average_lower [OF N(1) L(2)] that by (simp add: K_def)
  show ?thesis
  proof (cases "2000000 * n * n * 120 < avg")
    case True
    then have big: "240000000 * (N * N) < unat avg" using thr by (simp add: word_less_nat_alt)
    define r where "r = unat avg div (200 * unat L) * K"
    note coarse = coarse_quotient_bounds [OF N(1) big pos, folded K_def, folded r_def]
    have r: "20 * r \<le> 211 * unat avg" by (rule up) (rule coarse(1))
    define w where "w = n * (n + 1) * 120 * 97"
    have k: "unat w = K"
      using N NN by (simp add: unat_mult_less un K_def w_def)
    have eq: "unat (avg div (200 * L) * w) = r"
      using r fits(2) by (subst unat_mult_less) (simp_all add: unat_div d k r_def)
    have "lim * K \<le> 5 * K" using lim by simp
    moreover have "100 * lim * (r + K) = 100 * lim * r + 100 * (lim * K)" by (simp add: algebra_simps)
    ultimately have "96 * unat avg \<le> 100 * lim * r" using low [OF coarse(2)] coarse(3) by linarith
    with eq show ?thesis
      unfolding w_def [symmetric] using True r \<open>200 * L \<noteq> 0\<close> by (simp add: div_ub_def)
  next
    case False
    then have "\<not> 240000000 * (N * N) < unat avg" using thr by (simp add: word_less_nat_alt)
    with fits have small: "unat avg * K < 2 ^ 64" by (simp add: K_def)
    define r where "r = unat avg * K div (200 * unat L)"
    have le: "unat avg * N \<le> unat avg * K" "unat avg * N * (N + 1) \<le> unat avg * K"
      "unat avg * N * (N + 1) * 120 \<le> unat avg * K"
      by (simp_all add: K_def algebra_simps)
    note lt = le [THEN le_less_trans, OF small]
    have p1: "unat (avg * n) = unat avg * N"
      using lt(1) by (subst unat_mult_less) (simp_all add: un)
    have p2: "unat (avg * n * (n + 1)) = unat avg * N * (N + 1)"
      using lt(2) by (subst unat_mult_less) (simp_all only: p1 un, simp)
    have p3: "unat (avg * n * (n + 1) * 120) = unat avg * N * (N + 1) * 120"
      using lt(3) by (subst unat_mult_less) (simp_all only: p2, simp_all)
    have K: "unat avg * N * (N + 1) * 120 * 97 = unat avg * K" by (simp add: K_def algebra_simps)
    have "unat (x * 97) = unat x * 97" if "unat x * 97 < 2 ^ 64" for x :: u64
      using that by (subst unat_mult_less) simp_all
    from this [of "avg * n * (n + 1) * 120", unfolded p3 K, OF small]
    have "unat (avg * n * (n + 1) * 120 * 97) = unat avg * K" .
    then have eq: "unat (avg * n * (n + 1) * 120 * 97 div (200 * L)) = r"
      by (simp add: unat_div d r_def)
    have "20 * r \<le> 211 * unat avg" by (rule up) (simp add: r_def)
    moreover have "unat avg * K \<le> (r + 1) * (200 * unat L)"
      using dividend_less_div_times [OF pos, of "unat avg * K"] by (simp add: r_def)
    from low [OF this] have "96 * unat avg \<le> 100 * lim * (r + 1)" by simp
    ultimately show ?thesis using False eq \<open>200 * L \<noteq> 0\<close> by (simp add: div_ub_def)
  qed
qed

text \<open>The last two adjustments: the rounding and the three digits that carry the solve time.\<close>

lemma lwma_4_finish:
  fixes x m :: u64
  assumes "unat x < 2 ^ 62"
  defines "y \<equiv> round_digits 1000000000 x"
  defines "D \<equiv> (if 100000 < y then ((y + 500) div 1000) * 1000 + min 999 m else y)"
  shows "200 * unat D \<le> 201 * unat x + 300000" and "199 * unat x \<le> 200 * (unat D + 500)"
proof -
  have y: "200 * unat y \<le> 201 * unat x" "199 * unat x \<le> 200 * unat y"
    using round_digits_bounds [of 1000000000 x] assms(1) by (simp_all add: y_def)
  have y_small: "unat y < 2 ^ 63" using y(1) assms(1) by simp
  define z where "z = (unat y + 500) div 1000 * 1000"
  have z: "z \<le> unat y + 500" "unat y \<le> z + 500"
    using dividend_less_div_times [of 1000 "unat y + 500"] by (simp_all add: z_def)
  have s500: "unat (y + 500) = unat y + 500" using y_small by (subst unat_add_less) simp_all
  have zw: "unat ((y + 500) div 1000 * 1000) = z"
    using z y_small by (subst unat_mult_less) (simp_all add: unat_div s500 z_def)
  have m: "unat (min 999 m) \<le> 999" using word_le_nat_alt [of "min 999 m" 999] by simp
  have "unat ((y + 500) div 1000 * 1000 + min 999 m) = z + unat (min 999 m)"
    using z y_small m zw by (subst unat_add_less) simp_all
  then show "200 * unat D \<le> 201 * unat x + 300000" and "199 * unat x \<le> 200 * (unat D + 500)"
    using y z m by (simp_all add: D_def)
qed

text \<open>
  The new difficulty against the average \<open>A\<close> of the window: it is never more than eleven
  times the average, and at least about $96 / (100 \cdot \mathit{limit})$ of it, whatever the
  timestamps are.
\<close>

lemma lwma_4_guided_bounds:
  fixes timestamps difficulties :: "u64 list" and limit :: u64
  assumes "length timestamps = length difficulties" and "12 \<le> startup" and "startup < length timestamps"
    and limit: "2 \<le> limit" "limit \<le> 5"
  defines "N \<equiv> min 90 (length timestamps - 1)"
  defines "A \<equiv> unat (difficulties ! N - difficulties ! 0) div N"
  assumes fits: "A * (N * (N + 1) * 11640) < 2 ^ 64 \<or> 240000000 * (N * N) < A"
    and small: "11 * A < 2 ^ 62"
  shows "\<exists>D. lwma_4_guided startup limit 120 90 timestamps difficulties = Inr D \<and>
    unat D \<le> 11 * A + 1500 \<and> 19104 * A \<le> 20000 * unat limit * (unat D + 501)"
proof -
  have N: "12 \<le> N" "N \<le> 90" "N < length difficulties" "N - Suc 0 < length difficulties"
    "difficulties \<noteq> []" using assms(1-3) by (auto simp: N_def)
  define n :: u64 where "n = of_nat N"
  have un: "unat n = N" using N by (simp add: n_def unat_of_nat_small)
  define avg where "avg = (difficulties ! N - difficulties ! 0) div n"
  have avg: "unat avg = A" by (simp add: avg_def A_def unat_div un)
  define TS where "TS = hd timestamps # monotone_ts (hd timestamps) (take N (tl timestamps))"
  define L where "L = (if weighted_solve_times 120 limit TS N < n * n * 120 div 20
    then n * n * 120 div 20 else weighted_solve_times 120 limit TS N)"
  have NN: "N * N \<le> 8100" using N mult_le_mono [of N 90 N 90] by simp
  then have floor: "unat (n * n * 120 div 20) = 6 * (N * N)" using N by (simp add: unat_div unat_mult_less un)
  have "6 * (N * N) \<le> unat limit * 60 * (N * (N + 1))"
    using limit by (intro mult_le_mono) (simp_all add: word_le_nat_alt)
  then have L: "6 * (N * N) \<le> unat L" "2 * unat L \<le> unat limit * 120 * (N * (N + 1))"
    using weighted_solve_times_le [OF limit N(2), of TS] floor
    by (auto simp: L_def word_less_nat_alt)
  have lim': "unat limit \<le> 5" using limit(2) by (simp add: word_le_nat_alt)
  have small': "11 * A + 1500 < 2 ^ 63" using small by simp
  obtain raw where raw: "(if 2000000 * n * n * 120 < avg
      then bindE (div_ub avg (200 * L)) (\<lambda>q. Inr (q * (n * (n + 1) * 120 * 97)))
      else div_ub (avg * n * (n + 1) * 120 * 97) (200 * L)) = Inr raw"
    and raw_bounds: "20 * unat raw \<le> 211 * A" "96 * A \<le> 100 * unat limit * (unat raw + 1)"
    using lwma_4_average [OF N(1,2) n_def L lim', of avg, unfolded avg, OF fits small'] by blast
  define prev where "prev = difficulties ! N - difficulties ! (N - 1)"
  define jump where "jump = min ((prev * 110) div 100) ((105 * avg) div 100)"
  define x where "x = (if TS ! N - TS ! (N - 1) < (2 * 120) div 10 \<or>
      TS ! N - TS ! (N - 2) < (5 * 120) div 10 \<or> TS ! N - TS ! (N - 3) < (8 * 120) div 10
    then max raw jump else raw)"
  have "unat ((105 * avg) div 100) \<le> 105 * A div 100"
    by (simp add: unat_div unat_word_ariths(2) avg div_le_mono)
  then have "unat jump \<le> 105 * A div 100"
    unfolding jump_def by (meson min.cobounded2 order_trans word_le_nat_alt)
  then have x: "20 * unat x \<le> 211 * A" "unat raw \<le> unat x"
    using raw_bounds(1) by (auto simp: x_def max_def word_le_nat_alt)
  define D where "D = (if 100000 < round_digits 1000000000 x
    then ((round_digits 1000000000 x + 500) div 1000) * 1000 + min 999 ((TS ! N - TS ! (N - 10)) div 10)
    else round_digits 1000000000 x)"
  have "unat x < 2 ^ 62" using x(1) small by simp
  note D = lwma_4_finish [OF this, of "(TS ! N - TS ! (N - 10)) div 10", folded D_def]
  have "lwma_4_guided startup limit 120 90 timestamps difficulties = Inr D"
  proof -
    have steps: "at_ub difficulties N = Inr (difficulties ! N)"
      "at_ub difficulties 0 = Inr (difficulties ! 0)"
      "at_ub difficulties (N - 1) = Inr (difficulties ! (N - 1))"
      "div_ub (difficulties ! N - difficulties ! 0) n = Inr avg"
      using N un by (auto simp: at_ub_def div_ub_def avg_def)
    have n_eq: "(if length timestamps < 90 + 1 then length timestamps - 1 else 90) = N"
      by (auto simp: N_def)
    have big: "\<not> length timestamps \<le> startup" using assms(3) by simp
    show ?thesis
      unfolding lwma_4_guided_def Let_def n_eq TS_def [symmetric] n_def [symmetric]
        if_not_P [OF big] steps bindE_Inr L_def [symmetric] raw prev_def [symmetric]
        jump_def [symmetric] x_def [symmetric] D_def [symmetric] ..
  qed
  moreover have "unat D \<le> 11 * A + 1500" using D(1) x(1) by linarith
  moreover have "19104 * A \<le> 20000 * unat limit * (unat D + 501)"
  proof -
    have "199 * (96 * A) \<le> 199 * (100 * unat limit * (unat x + 1))"
      by (rule mult_le_mono2, rule order_trans [OF raw_bounds(2)]) (use x(2) in simp)
    also have "\<dots> = 100 * unat limit * (199 * unat x + 199)" by (simp add: algebra_simps)
    also have "\<dots> \<le> 100 * unat limit * (200 * (unat D + 501))"
      by (rule mult_le_mono2) (use D(2) in simp)
    finally show ?thesis by (simp add: algebra_simps)
  qed
  ultimately show ?thesis by blast
qed

lemmas v16_constants = DIFFICULTY_TARGET_V16_def DIFFICULTY_TARGET_V11_def
  DIFFICULTY_WINDOW_V16_def DIFFICULTY_WINDOW_V11_def

text \<open>
  (C29) The range of the next difficulty where nothing overflows. Take vectors of equal length above the
  start-up length of 16, and let the average difficulty of the window be small enough for the product to
  fit into 64 bits, or large enough for the other formula to be chosen, and below $2^{62} / 11$. Then
  \<open>next_difficulty_v16\<close> returns, whatever timestamps the miners chose, at most eleven times the average
  plus 1500, and at least 31\% of the average less 501. (For averages in between see
  \<open>next_difficulty_v16_overflow\<close>.)
\<close>

theorem next_difficulty_v16_bounds:
  fixes timestamps difficulties :: "u64 list"
  assumes "length timestamps = length difficulties" and "16 < length timestamps"
  defines "N \<equiv> min 90 (length timestamps - 1)"
  defines "A \<equiv> unat (difficulties ! N - difficulties ! 0) div N"
  assumes "A * (N * (N + 1) * 11640) < 2 ^ 64 \<or> 240000000 * (N * N) < A" and "11 * A < 2 ^ 62"
  shows "\<exists>D. next_difficulty_v16 timestamps difficulties = Inr D \<and>
    unat D \<le> 11 * A + 1500 \<and> 31 * A \<le> 100 * (unat D + 501)"
proof -
  obtain D where "next_difficulty_v16 timestamps difficulties = Inr D" "unat D \<le> 11 * A + 1500"
    and low: "19104 * A \<le> 20000 * unat (3 :: u64) * (unat D + 501)"
    using lwma_4_guided_bounds [of timestamps difficulties 16 3, folded N_def, folded A_def] assms
    by (auto simp: next_difficulty_v16_def v16_constants)
  moreover have "31 * A \<le> 100 * (unat D + 501)" using low by simp
  ultimately show ?thesis by blast
qed

theorem next_difficulty_v16_bounds_witness:
  "\<exists>D. next_difficulty_v16 (map (\<lambda>i. 120 * of_nat i) [0..<20]) (map (\<lambda>i. 5000 * of_nat i) [0..<20])
     = Inr D \<and> unat D \<le> 11 * 5000 + 1500 \<and> 31 * 5000 \<le> 100 * (unat D + 501)"
  using next_difficulty_v16_bounds
    [of "map (\<lambda>i. 120 * of_nat i) [0..<20]" "map (\<lambda>i. 5000 * of_nat i) [0..<20]"]
  by simp





end
