(* ===== verification/Hardfork.thy ===== *)
theory Hardfork
  imports Prelude
begin

text \<open>
  The hard-fork state machine of \<open>cryptonote_basic/hardfork.cpp\<close>: the hard-coded fork tables,
  the voting window and every operation of the class \<open>HardFork\<close>. The block database it
  consults is the record \<open>chain_db\<close>: the (major, minor) versions of the stored blocks and the
  table written by \<open>set_hard_fork_version\<close>. Operations return the updated object.
\<close>

section \<open>State\<close>

record fork_params =
  fork_version :: u8
  fork_height :: u64
  fork_threshold :: u8
  fork_time :: int

record chain_db =
  db_blocks :: "(u8 \<times> u8) list"
  db_hf_versions :: "nat \<Rightarrow> u8 option"

record hard_fork =
  hf_db :: chain_db
  window_size :: u64
  default_threshold_percent :: u8
  original_version :: u8
  heights :: "fork_params list"
  versions :: "u8 list"
  last_versions :: "u8 \<Rightarrow> u32"
  current_fork_index :: nat

datatype network_type = MAINNET | TESTNET | STAGENET | FAKECHAIN | UNDEFINED

definition db_height :: "hard_fork \<Rightarrow> u64" where
  "db_height hf = of_nat (length (db_blocks (hf_db hf)))"

definition get_block_from_height :: "hard_fork \<Rightarrow> u64 \<Rightarrow> (u8 \<times> u8) outcome" where
  "get_block_from_height hf h =
    (let bs = db_blocks (hf_db hf)
     in if unat h < length bs then Inr (bs ! unat h) else Inl Exception)"

definition get_hard_fork_version :: "hard_fork \<Rightarrow> u64 \<Rightarrow> u8 outcome" where
  "get_hard_fork_version hf h =
    (case db_hf_versions (hf_db hf) (unat h) of Some v \<Rightarrow> Inr v | None \<Rightarrow> Inl Exception)"

definition set_hard_fork_version :: "hard_fork \<Rightarrow> u64 \<Rightarrow> u8 \<Rightarrow> hard_fork" where
  "set_hard_fork_version hf h v =
    hf\<lparr>hf_db := (hf_db hf)\<lparr>db_hf_versions := (db_hf_versions (hf_db hf))(unat h \<mapsto> v)\<rparr>\<rparr>"

section \<open>The fork tables\<close>

definition Params :: "u8 \<Rightarrow> u64 \<Rightarrow> u8 \<Rightarrow> int \<Rightarrow> fork_params" where
  "Params v h th t = \<lparr>fork_version = v, fork_height = h, fork_threshold = th, fork_time = t\<rparr>"

definition MAINNET_HARD_FORK_20_HEIGHT :: u64 where "MAINNET_HARD_FORK_20_HEIGHT = 4000000"
definition MAINNET_HARD_FORK_21_HEIGHT :: u64 where "MAINNET_HARD_FORK_21_HEIGHT = 5000000"

definition mainnet_hard_forks :: "fork_params list" where
  "mainnet_hard_forks =
    [Params 1 0 0 1341378000, Params 7 1 0 1528750800, Params 8 100 0 1528751200,
     Params 9 7000 0 1530320400, Params 10 61250 0 1543615200, Params 11 131650 0 1552424400,
     Params 12 183700 0 1558656000, Params 13 248200 0 1566511680, Params 14 248920 0 1566598080,
     Params 15 303666 0 1573257000, Params 16 1731480 0 1749313836, Params 17 1760751 0 1754410575,
     Params 18 1863160 0 1768160647, Params 19 1886030 0 1771099200,
     Params 20 MAINNET_HARD_FORK_20_HEIGHT 0 2024775600,
     Params 21 MAINNET_HARD_FORK_21_HEIGHT 0 2144775600]"

definition testnet_hard_forks :: "fork_params list" where
  "testnet_hard_forks =
    [Params 1 0 0 1341378000, Params 7 1 0 1528750800, Params 8 100 0 1528751200,
     Params 9 200 0 1530248400, Params 10 300 0 1538352000, Params 11 400 0 1552424400,
     Params 12 500 0 1552824400, Params 13 600 0 1566511680, Params 14 700 0 1566598080,
     Params 15 800 0 1566598080, Params 16 900 0 1566598280, Params 17 1000 0 1566598281,
     Params 18 1100 0 1566598282, Params 19 1200 0 1566598283, Params 20 1300 0 1566598284,
     Params 21 1400 0 1566598285]"

definition stagenet_hard_forks :: "fork_params list" where
  "stagenet_hard_forks =
    [Params 1 0 0 1341378000, Params 7 1 0 1528750800, Params 8 10 0 1528751200,
     Params 9 20 0 1530248400, Params 10 40 0 1538352000, Params 11 60 0 1552424400,
     Params 12 80 0 1554336000, Params 13 100 0 1560348000, Params 14 120 0 1560351600,
     Params 15 140 0 1570414500, Params 16 160 0 1570414510, Params 17 180 0 1570414511,
     Params 18 200 0 1570414512, Params 19 220 0 1570414513, Params 20 240 0 1570414514,
     Params 21 260 0 1570414515]"

definition get_hardcoded_hard_forks :: "network_type \<Rightarrow> fork_params list" where
  "get_hardcoded_hard_forks nettype =
    (if nettype = MAINNET then mainnet_hard_forks
     else if nettype = TESTNET then testnet_hard_forks
     else if nettype = STAGENET then stagenet_hard_forks
     else [])"

definition get_hardcoded_hard_fork_height :: "network_type \<Rightarrow> u8 \<Rightarrow> u64" where
  "get_hardcoded_hard_fork_height nettype version =
    (case find (\<lambda>rec. version \<le> fork_version rec) (get_hardcoded_hard_forks nettype) of
       Some rec \<Rightarrow> fork_height rec
     | None \<Rightarrow> UINT64_MAX)"

section \<open>Construction\<close>

definition HardFork_init :: "chain_db \<Rightarrow> u8 \<Rightarrow> u64 \<Rightarrow> u8 \<Rightarrow> hard_fork outcome" where
  "HardFork_init db original window threshold =
    (if window = 0 then Inl Exception
     else if 100 < threshold then Inl Exception
     else Inr \<lparr>hf_db = db, window_size = window, default_threshold_percent = threshold,
               original_version = original, heights = [], versions = [],
               last_versions = (\<lambda>_. 0), current_fork_index = 0\<rparr>)"

definition add_fork :: "hard_fork \<Rightarrow> u8 \<Rightarrow> u64 \<Rightarrow> u8 \<Rightarrow> int \<Rightarrow> bool \<times> hard_fork" where
  "add_fork hf version height threshold time =
    (if version = 0 then (False, hf)
     else if heights hf \<noteq> [] \<and> version \<le> fork_version (last (heights hf)) then (False, hf)
     else if heights hf \<noteq> [] \<and> height \<le> fork_height (last (heights hf)) then (False, hf)
     else if heights hf \<noteq> [] \<and> time \<le> fork_time (last (heights hf)) then (False, hf)
     else if 100 < threshold then (False, hf)
     else (True, hf\<lparr>heights := heights hf @ [Params version height threshold time]\<rparr>))"

definition add_fork_default :: "hard_fork \<Rightarrow> u8 \<Rightarrow> u64 \<Rightarrow> int \<Rightarrow> bool \<times> hard_fork" where
  "add_fork_default hf version height time =
    add_fork hf version height (default_threshold_percent hf) time"

text \<open>The loop of \<open>Blockchain::init\<close> that registers the table of the network.\<close>

definition register_forks :: "fork_params list \<Rightarrow> hard_fork \<Rightarrow> hard_fork" where
  "register_forks recs hf =
    fold (\<lambda>rec hf. snd (add_fork hf (fork_version rec) (fork_height rec) (fork_threshold rec)
                          (fork_time rec))) recs hf"

section \<open>Votes\<close>

definition get_block_vote :: "u8 \<times> u8 \<Rightarrow> u8" where
  "get_block_vote b = (if snd b = 0 then 1 else snd b)"

definition get_block_version :: "u8 \<times> u8 \<Rightarrow> u8" where
  "get_block_version b = fst b"

definition get_effective_version :: "hard_fork \<Rightarrow> u8 \<Rightarrow> u8" where
  "get_effective_version hf voting_version =
    (if heights hf \<noteq> []
     then let max_version = fork_version (last (heights hf))
          in if max_version < voting_version then max_version else voting_version
     else voting_version)"

definition do_check_at :: "hard_fork \<Rightarrow> nat \<Rightarrow> u8 \<Rightarrow> u8 \<Rightarrow> bool outcome" where
  "do_check_at hf index block_version voting_version =
    bindE (at_ub (heights hf) index) (\<lambda>f.
      Inr (block_version = fork_version f \<and> fork_version f \<le> voting_version))"

definition do_check :: "hard_fork \<Rightarrow> u8 \<Rightarrow> u8 \<Rightarrow> bool outcome" where
  "do_check hf block_version voting_version =
    do_check_at hf (current_fork_index hf) block_version voting_version"

definition check :: "hard_fork \<Rightarrow> u8 \<times> u8 \<Rightarrow> bool outcome" where
  "check hf b = do_check hf (get_block_version b) (get_block_vote b)"

text \<open>The scan of \<open>get_voted_fork_index\<close> from the fork with index \<open>n\<close> downwards.\<close>

definition fork_votes_needed :: "hard_fork \<Rightarrow> fork_params \<Rightarrow> u32" where
  "fork_votes_needed hf f = ucast ((window_size hf * ucast (fork_threshold f) + 99) div 100)"

fun voted_fork_scan :: "hard_fork \<Rightarrow> u64 \<Rightarrow> nat \<Rightarrow> u32 \<Rightarrow> nat" where
  "voted_fork_scan hf height 0 accumulated_votes = current_fork_index hf"
| "voted_fork_scan hf height (Suc n) accumulated_votes =
    (let f = heights hf ! Suc n;
         accumulated_votes = accumulated_votes + last_versions hf (fork_version f);
         threshold = fork_votes_needed hf f
     in if fork_height f \<le> height \<and> threshold \<le> accumulated_votes then Suc n
        else voted_fork_scan hf height n accumulated_votes)"

definition get_voted_fork_index :: "hard_fork \<Rightarrow> u64 \<Rightarrow> nat" where
  "get_voted_fork_index hf height = voted_fork_scan hf height (length (heights hf) - 1) 0"

definition do_check_for_height :: "hard_fork \<Rightarrow> u8 \<Rightarrow> u8 \<Rightarrow> u64 \<Rightarrow> bool outcome" where
  "do_check_for_height hf block_version voting_version height =
    do_check_at hf (get_voted_fork_index hf height) block_version voting_version"

definition check_for_height :: "hard_fork \<Rightarrow> u8 \<times> u8 \<Rightarrow> u64 \<Rightarrow> bool outcome" where
  "check_for_height hf b height = do_check_for_height hf (get_block_version b) (get_block_vote b) height"

text \<open>
  Dropping the oldest votes while the window is full; an empty window cannot be full because
  the constructor refuses a window of size 0.
\<close>

fun trim_window :: "u64 \<Rightarrow> u8 list \<Rightarrow> (u8 \<Rightarrow> u32) \<Rightarrow> u8 list \<times> (u8 \<Rightarrow> u32)" where
  "trim_window w [] lv = ([], lv)"
| "trim_window w (v # vs) lv =
    (if unat w \<le> length (v # vs) then trim_window w vs (lv(v := lv v - 1)) else (v # vs, lv))"

definition push_vote :: "u8 \<Rightarrow> hard_fork \<Rightarrow> hard_fork" where
  "push_vote v hf = hf\<lparr>last_versions := (last_versions hf)(v := last_versions hf v + 1),
                       versions := versions hf @ [v]\<rparr>"

text \<open>\<open>uint8_t voted = get_voted_fork_index(height)\<close> and the conditional advance.\<close>

definition advance_fork :: "u64 \<Rightarrow> hard_fork \<Rightarrow> hard_fork" where
  "advance_fork height hf =
    (let voted = unat (of_nat (get_voted_fork_index hf height) :: u8)
     in if current_fork_index hf < voted then hf\<lparr>current_fork_index := voted\<rparr> else hf)"

definition add_votes :: "hard_fork \<Rightarrow> u8 \<Rightarrow> u8 \<Rightarrow> u64 \<Rightarrow> (bool \<times> hard_fork) outcome" where
  "add_votes hf block_version voting_version height =
    bindE (do_check hf block_version voting_version) (\<lambda>ok.
    if \<not> ok then Inr (False, hf)
    else
      bindE (at_ub (heights hf) (current_fork_index hf)) (\<lambda>f.
      let hf = set_hard_fork_version hf height (fork_version f);
          voting_version = get_effective_version hf voting_version;
          (vs, lv) = trim_window (window_size hf) (versions hf) (last_versions hf);
          hf = push_vote voting_version (hf\<lparr>versions := vs, last_versions := lv\<rparr>)
      in Inr (True, advance_fork (height + 1) hf)))"

definition add :: "hard_fork \<Rightarrow> u8 \<times> u8 \<Rightarrow> u64 \<Rightarrow> (bool \<times> hard_fork) outcome" where
  "add hf b height = add_votes hf (get_block_version b) (get_block_vote b) height"

section \<open>Rescanning the chain\<close>

definition clear_votes :: "hard_fork \<Rightarrow> hard_fork" where
  "clear_votes hf = hf\<lparr>versions := [], last_versions := (\<lambda>_. 0)\<rparr>"

definition recount :: "nat list \<Rightarrow> hard_fork \<Rightarrow> hard_fork outcome" where
  "recount hs hf =
    foldE (\<lambda>h hf. bindE (get_block_from_height hf (of_nat h)) (\<lambda>b.
      Inr (push_vote (get_effective_version hf (get_block_vote b)) hf))) hs hf"

text \<open>\<open>while (current_fork_index > 0 && heights[current_fork_index].version > start)\<close>\<close>

fun retreat_index :: "fork_params list \<Rightarrow> u8 \<Rightarrow> nat \<Rightarrow> nat outcome" where
  "retreat_index hs start 0 = Inr 0"
| "retreat_index hs start (Suc n) =
    bindE (at_ub hs (Suc n)) (\<lambda>f.
      if start < fork_version f then retreat_index hs start n else Inr (Suc n))"

definition reorganize_from_block_height :: "hard_fork \<Rightarrow> u64 \<Rightarrow> (bool \<times> hard_fork) outcome" where
  "reorganize_from_block_height hf height =
    (if db_height hf \<le> height then Inr (False, hf)
     else
       let hf = clear_votes hf;
           rescan_height = (if window_size hf - 1 \<le> height then height - (window_size hf - 1) else 0)
       in bindE (if height = 0 then Inr (original_version hf) else get_hard_fork_version hf height)
            (\<lambda>start_version.
          bindE (retreat_index (heights hf) start_version (current_fork_index hf)) (\<lambda>idx.
          bindE (recount [unat rescan_height..<unat height + 1] (hf\<lparr>current_fork_index := idx\<rparr>)) (\<lambda>hf.
          let hf = advance_fork (height + 1) hf
          in bindE (foldE (\<lambda>h hf. bindE (get_block_from_height hf (of_nat h)) (\<lambda>b.
                     bindE (add hf b (of_nat h)) (\<lambda>(_, hf). Inr hf)))
                   [unat height + 1..<length (db_blocks (hf_db hf))] hf)
                 (\<lambda>hf. Inr (True, hf))))))"

definition reorganize_from_chain_height :: "hard_fork \<Rightarrow> u64 \<Rightarrow> (bool \<times> hard_fork) outcome" where
  "reorganize_from_chain_height hf height =
    (if height = 0 then Inr (False, hf) else reorganize_from_block_height hf (height - 1))"

text \<open>\<open>while (i + 1 < heights.size() && heights[i].version != lastv) ++i\<close>, as the index found.\<close>

fun index_of_version :: "u8 \<Rightarrow> fork_params list \<Rightarrow> nat" where
  "index_of_version lastv (f # g # fs) =
    (if fork_version f = lastv then 0 else Suc (index_of_version lastv (g # fs)))"
| "index_of_version lastv fs = 0"

definition rescan_from_block_height :: "hard_fork \<Rightarrow> u64 \<Rightarrow> (bool \<times> hard_fork) outcome" where
  "rescan_from_block_height hf height =
    (if db_height hf \<le> height then Inr (False, hf)
     else
       bindE (recount [unat height..<length (db_blocks (hf_db hf))] (clear_votes hf)) (\<lambda>hf.
       bindE (get_hard_fork_version hf (db_height hf - 1)) (\<lambda>lastv.
       let hf = hf\<lparr>current_fork_index := index_of_version lastv (heights hf)\<rparr>
       in Inr (True, advance_fork (db_height hf) hf))))"

definition rescan_from_chain_height :: "hard_fork \<Rightarrow> u64 \<Rightarrow> (bool \<times> hard_fork) outcome" where
  "rescan_from_chain_height hf height =
    (if height = 0 then Inr (False, hf) else rescan_from_block_height hf (height - 1))"

definition init_hf :: "hard_fork \<Rightarrow> hard_fork outcome" where
  "init_hf hf =
    (let hf = (if heights hf = []
               then hf\<lparr>heights := [Params (original_version hf) 0 0 0]\<rparr> else hf);
         hf = (clear_votes hf)\<lparr>current_fork_index := 0\<rparr>;
         height = db_height hf;
         height = (if window_size hf < height then height - (window_size hf - 1) else 1)
     in bindE (rescan_from_chain_height hf height) (\<lambda>(_, hf). Inr hf))"

text \<open>
  Popping blocks. The loop counts an unsigned height down to the new chain height; from 0 it
  wraps, and the lookup of the wrapped height throws.
\<close>

definition pop_vote :: "u64 \<Rightarrow> hard_fork \<Rightarrow> hard_fork outcome" where
  "pop_vote height hf =
    (if versions hf = [] then Inl Undefined
     else
       let version = last (versions hf);
           hf = hf\<lparr>last_versions := (last_versions hf)(version := last_versions hf version - 1),
                   versions := butlast (versions hf)\<rparr>
       in bindE (get_hard_fork_version hf height) (\<lambda>version.
          Inr (hf\<lparr>versions := version # versions hf,
                  last_versions := (last_versions hf)(version := last_versions hf version + 1)\<rparr>)))"

fun index_for_height :: "fork_params list \<Rightarrow> u64 \<Rightarrow> nat \<Rightarrow> nat" where
  "index_for_height hs height 0 = 0"
| "index_for_height hs height (Suc n) =
    (if fork_height (hs ! Suc n) \<le> height then Suc n else index_for_height hs height n)"

definition on_block_popped :: "hard_fork \<Rightarrow> u64 \<Rightarrow> hard_fork outcome" where
  "on_block_popped hf nblocks =
    (if nblocks = 0 then Inl Exception
     else
       let new_chain_height = db_height hf;
           old_chain_height = new_chain_height + nblocks
       in bindE (foldE (\<lambda>h. pop_vote (of_nat h))
                  (rev [unat new_chain_height..<unat old_chain_height]) hf) (\<lambda>hf.
          if new_chain_height = 0 then bindE (pop_vote UINT64_MAX hf) (\<lambda>_. Inl Diverges)
          else if heights hf = [] then Inl Undefined
          else Inr (hf\<lparr>current_fork_index :=
                 index_for_height (heights hf) new_chain_height (length (heights hf) - 1)\<rparr>)))"

section \<open>Queries\<close>

definition INVALID_HARD_FORK_VERSION_FOR_HEIGHT :: u8 where
  "INVALID_HARD_FORK_VERSION_FOR_HEIGHT = 255"

definition get_current_version :: "hard_fork \<Rightarrow> u8 outcome" where
  "get_current_version hf = bindE (at_ub (heights hf) (current_fork_index hf)) (\<lambda>f. Inr (fork_version f))"

definition get_version :: "hard_fork \<Rightarrow> u64 \<Rightarrow> u8 outcome" where
  "get_version hf height =
    (if db_height hf < height then Inr INVALID_HARD_FORK_VERSION_FOR_HEIGHT
     else if height = db_height hf then get_current_version hf
     else get_hard_fork_version hf height)"

definition get_ideal_version_last :: "hard_fork \<Rightarrow> u8 outcome" where
  "get_ideal_version_last hf =
    (if heights hf = [] then Inl Undefined else Inr (fork_version (last (heights hf))))"

fun ideal_version_scan :: "hard_fork \<Rightarrow> u64 \<Rightarrow> nat \<Rightarrow> u8" where
  "ideal_version_scan hf height 0 = original_version hf"
| "ideal_version_scan hf height (Suc n) =
    (if fork_height (heights hf ! Suc n) \<le> height then fork_version (heights hf ! Suc n)
     else ideal_version_scan hf height n)"

definition get_ideal_version :: "hard_fork \<Rightarrow> u64 \<Rightarrow> u8 outcome" where
  "get_ideal_version hf height =
    (if heights hf = [] then Inl Undefined
     else Inr (ideal_version_scan hf height (length (heights hf) - 1)))"

text \<open>The scan over \<open>heights.rbegin() .. rend()\<close>, with the height found so far.\<close>

fun earliest_scan :: "u8 \<Rightarrow> fork_params list \<Rightarrow> u64 \<Rightarrow> u64" where
  "earliest_scan version [] height = height"
| "earliest_scan version (f # fs) height =
    (if version \<le> fork_version f then earliest_scan version fs (fork_height f) else height)"

definition get_earliest_ideal_height_for_version :: "hard_fork \<Rightarrow> u8 \<Rightarrow> u64" where
  "get_earliest_ideal_height_for_version hf version =
    earliest_scan version (rev (heights hf)) UINT64_MAX"

fun next_version_scan :: "u64 \<Rightarrow> fork_params list \<Rightarrow> fork_params option \<Rightarrow> u8 option" where
  "next_version_scan height [] prev = None"
| "next_version_scan height (f # fs) prev =
    (if fork_height f \<le> height then Some (fork_version (case prev of None \<Rightarrow> f | Some p \<Rightarrow> p))
     else next_version_scan height fs (Some f))"

definition get_next_version :: "hard_fork \<Rightarrow> u8" where
  "get_next_version hf =
    (case next_version_scan (db_height hf) (rev (heights hf)) None of
       Some v \<Rightarrow> v
     | None \<Rightarrow> original_version hf)"

record voting_info =
  vi_window :: u32
  vi_votes :: u32
  vi_threshold :: u32
  vi_earliest_height :: u64
  vi_voting :: u8

definition get_voting_info :: "hard_fork \<Rightarrow> u8 \<Rightarrow> (bool \<times> voting_info) outcome" where
  "get_voting_info hf version =
    bindE (at_ub (heights hf) (current_fork_index hf)) (\<lambda>cur.
    let enabled = version \<le> fork_version cur;
        window = of_nat (length (versions hf));
        votes = fold (\<lambda>n votes. votes + last_versions hf (of_nat n)) [unat version..<256] 0;
        threshold = (window * ucast (fork_threshold cur) + 99) div 100
    in Inr (enabled,
        \<lparr>vi_window = window, vi_votes = votes, vi_threshold = threshold,
         vi_earliest_height = get_earliest_ideal_height_for_version hf version,
         vi_voting = fork_version (last (heights hf))\<rparr>))"

section \<open>The invariant\<close>

text \<open>
  Forks are registered in strictly increasing order of version, height and time; the counters
  agree with the window, which never exceeds its size; the current fork is one of the table.
\<close>

definition forks_ok :: "fork_params list \<Rightarrow> bool" where
  "forks_ok fs \<longleftrightarrow>
    sorted_wrt (\<lambda>f g. fork_version f < fork_version g \<and> fork_height f < fork_height g \<and>
      fork_time f < fork_time g) fs \<and>
    (\<forall>f \<in> set fs. 0 < fork_version f \<and> fork_threshold f \<le> 100)"

definition counts_ok :: "u8 list \<Rightarrow> (u8 \<Rightarrow> u32) \<Rightarrow> bool" where
  "counts_ok vs lv \<longleftrightarrow> (\<forall>v. unat (lv v) = count_list vs v)"

definition hf_inv :: "hard_fork \<Rightarrow> bool" where
  "hf_inv hf \<longleftrightarrow>
    0 < window_size hf \<and> unat (window_size hf) < 2 ^ 32 \<and>
    forks_ok (heights hf) \<and> current_fork_index hf < length (heights hf) \<and>
    length (versions hf) \<le> unat (window_size hf) \<and> counts_ok (versions hf) (last_versions hf)"

lemma forks_ok_nth:
  assumes "forks_ok fs" and "i < j" and "j < length fs"
  shows "fork_version (fs ! i) < fork_version (fs ! j)" and "fork_height (fs ! i) < fork_height (fs ! j)"
  using assms sorted_wrt_nth_less by (fastforce simp: forks_ok_def)+

lemma forks_ok_last:
  assumes "forks_ok fs" and "i < length fs"
  shows "fork_version (fs ! i) \<le> fork_version (last fs)"
proof (cases "i = length fs - 1")
  case True
  with assms(2) show ?thesis by (cases fs rule: rev_cases) auto
next
  case False
  with assms(2) have "i < length fs - 1" and "fs \<noteq> []" by auto
  with forks_ok_nth(1) [OF assms(1), of i "length fs - 1"] show ?thesis by (simp add: last_conv_nth)
qed

lemma forks_ok_distinct: "forks_ok fs \<Longrightarrow> distinct (map fork_version fs)"
  by (auto simp: distinct_conv_nth linorder_neq_iff dest: forks_ok_nth)

lemma forks_ok_length:
  assumes "forks_ok fs"
  shows "length fs < 256"
proof -
  have "set (map fork_version fs) \<subseteq> UNIV - {0}" using assms by (auto simp: forks_ok_def)
  then have "card (set (map fork_version fs)) \<le> card (UNIV - {0} :: u8 set)"
    by (rule card_mono [rotated]) simp
  then show ?thesis
    using distinct_card [OF forks_ok_distinct [OF assms]] by (simp add: card_word)
qed

text \<open>Votes.\<close>

lemma counts_ok_empty [simp]: "counts_ok [] (\<lambda>_. 0)"
  by (simp add: counts_ok_def)

lemma count_list_le: "count_list xs x \<le> length xs"
  by (induction xs) auto

lemma counts_ok_push:
  assumes "counts_ok vs lv" and "length vs + 1 < 2 ^ 32"
  shows "counts_ok (vs @ [v]) (lv(v := lv v + 1))" and "counts_ok (v # vs) (lv(v := lv v + 1))"
proof -
  have "unat (lv v) + 1 < 2 ^ 32"
    using assms count_list_le [of vs v] by (simp add: counts_ok_def)
  then have "unat (lv v + 1) = count_list vs v + 1"
    using assms by (simp add: unat_add_less counts_ok_def)
  then show "counts_ok (vs @ [v]) (lv(v := lv v + 1))" "counts_ok (v # vs) (lv(v := lv v + 1))"
    using assms by (auto simp: counts_ok_def)
qed

lemma counts_ok_pop:
  assumes "counts_ok (v # vs) lv"
  shows "counts_ok vs (lv(v := lv v - 1))"
proof -
  have "unat (lv v) = count_list vs v + 1" using assms by (simp add: counts_ok_def)
  then have "1 \<le> lv v" by (simp add: word_le_nat_alt)
  then have "unat (lv v - 1) = count_list vs v"
    using \<open>unat (lv v) = _\<close> by (simp add: unat_sub_le)
  then show ?thesis using assms by (auto simp: counts_ok_def split: if_splits)
qed

lemma counts_ok_rotate: "counts_ok (vs @ [v]) lv = counts_ok (v # vs) lv"
  by (auto simp: counts_ok_def)

lemma trim_window_spec:
  assumes "trim_window w vs lv = (vs', lv')" and "counts_ok vs lv" and "0 < w"
  shows "vs' = drop (length vs + 1 - unat w) vs" and "counts_ok vs' lv'"
  using assms
proof (induction vs arbitrary: lv)
  case Nil
  { case 1 then show ?case by simp }
  { case 2 then show ?case by simp }
next
  case (Cons v vs)
  have w: "0 < unat w" using \<open>0 < w\<close> by (simp add: unat_gt_0 word_greater_zero_iff)
  {
    case 1
    show ?case
    proof (cases "unat w \<le> length (v # vs)")
      case True
      then have "trim_window w vs (lv(v := lv v - 1)) = (vs', lv')" using 1 by simp
      from Cons.IH(1) [OF this counts_ok_pop [OF 1(2)] 1(3)] True show ?thesis
        by (simp add: Suc_diff_le)
    qed (use 1 w in auto)
  }
  {
    case 2
    show ?case
    proof (cases "unat w \<le> length (v # vs)")
      case True
      then have "trim_window w vs (lv(v := lv v - 1)) = (vs', lv')" using 2 by simp
      from Cons.IH(2) [OF this counts_ok_pop [OF 2(2)] 2(3)] show ?thesis .
    qed (use 2 in auto)
  }
qed

section \<open>Which fork the window votes for\<close>

text \<open>
  A block in the window supports fork \<open>n\<close> of the table when it votes for it or for a later
  fork; the fork is due at a height when the height has come and its share of the window
  supports it.
\<close>

definition support :: "hard_fork \<Rightarrow> nat \<Rightarrow> nat" where
  "support hf n = length (filter (\<lambda>v. v \<in> fork_version ` set (drop n (heights hf))) (versions hf))"

definition needed :: "hard_fork \<Rightarrow> nat \<Rightarrow> nat" where
  "needed hf n = (unat (window_size hf) * unat (fork_threshold (heights hf ! n)) + 99) div 100"

definition due :: "hard_fork \<Rightarrow> u64 \<Rightarrow> nat \<Rightarrow> bool" where
  "due hf height n \<longleftrightarrow> n < length (heights hf) \<and> fork_height (heights hf ! n) \<le> height \<and>
    needed hf n \<le> support hf n"

lemma length_filter_insert:
  assumes "x \<notin> A"
  shows "length (filter (\<lambda>v. v = x \<or> v \<in> A) vs) = count_list vs x + length (filter (\<lambda>v. v \<in> A) vs)"
  using assms by (induction vs) auto

lemma support_Suc:
  assumes "forks_ok (heights hf)" and "n < length (heights hf)"
  shows "support hf n = count_list (versions hf) (fork_version (heights hf ! n)) + support hf (Suc n)"
proof -
  let ?f = "heights hf ! n"
  have drop: "drop n (heights hf) = ?f # drop (Suc n) (heights hf)"
    using assms(2) by (rule Cons_nth_drop_Suc [symmetric])
  have "distinct (map fork_version (drop n (heights hf)))"
    using forks_ok_distinct [OF assms(1)] by (simp add: drop_map flip: drop_map)
  then have "fork_version ?f \<notin> fork_version ` set (drop (Suc n) (heights hf))" by (simp add: drop)
  then show ?thesis by (simp add: support_def drop length_filter_insert)
qed

lemma support_le: "support hf n \<le> length (versions hf)"
  by (simp add: support_def)

lemma support_end: "length (heights hf) \<le> n \<Longrightarrow> support hf n = 0"
  by (simp add: support_def)

lemma fork_votes_needed_nat:
  assumes "hf_inv hf" and "n < length (heights hf)"
  shows "unat (fork_votes_needed hf (heights hf ! n)) = needed hf n"
proof -
  let ?t = "unat (fork_threshold (heights hf ! n))"
  have "heights hf ! n \<in> set (heights hf)" using assms(2) by simp
  then have t: "?t \<le> 100" using assms(1) by (auto simp: hf_inv_def forks_ok_def word_le_nat_alt)
  have w: "unat (window_size hf) < 2 ^ 32" using assms(1) by (simp add: hf_inv_def)
  have ut: "unat (ucast (fork_threshold (heights hf ! n)) :: u64) = ?t"
    using t by (simp add: unsigned_ucast_eq take_bit_eq_mod)
  have prod: "unat (window_size hf) * ?t \<le> (2 ^ 32 - 1) * 100"
    by (rule mult_le_mono) (use w t in simp_all)
  have m: "unat (window_size hf * ucast (fork_threshold (heights hf ! n))) = unat (window_size hf) * ?t"
    using prod by (subst unat_mult_less) (simp_all only: ut, simp)
  then have "unat (window_size hf * ucast (fork_threshold (heights hf ! n)) + 99)
      = unat (window_size hf) * ?t + 99"
    using prod by (subst unat_add_less) (simp_all only: m, simp_all)
  moreover have "(unat (window_size hf) * ?t + 99) div 100 < 2 ^ 32" using prod w by simp
  ultimately show ?thesis
    by (simp add: fork_votes_needed_def needed_def unsigned_ucast_eq take_bit_eq_mod unat_div)
qed

lemma voted_fork_scan_spec:
  assumes "hf_inv hf" and "n < length (heights hf)" and "unat acc = support hf (Suc n)"
  shows "voted_fork_scan hf height n acc =
    (let E = {m. 0 < m \<and> m \<le> n \<and> due hf height m}
     in if E = {} then current_fork_index hf else Max E)"
  using assms(2,3)
proof (induction n arbitrary: acc)
  case 0
  have "{m. 0 < m \<and> m \<le> (0 :: nat) \<and> due hf height m} = {}" by auto
  then show ?case by (simp only: Let_def voted_fork_scan.simps) simp
next
  case (Suc n)
  let ?f = "heights hf ! Suc n" and ?E = "\<lambda>n. {m. 0 < m \<and> m \<le> n \<and> due hf height m}"
  define acc' where "acc' = acc + last_versions hf (fork_version ?f)"
  have inv: "forks_ok (heights hf)" "counts_ok (versions hf) (last_versions hf)"
    "length (versions hf) < 2 ^ 32" using assms(1) by (auto simp: hf_inv_def)
  have "unat acc + unat (last_versions hf (fork_version ?f)) = support hf (Suc n)"
    using support_Suc [OF inv(1) Suc.prems(1)] Suc.prems(2) inv(2) by (simp add: counts_ok_def)
  then have acc': "unat acc' = support hf (Suc n)"
    using support_le [of hf "Suc n"] inv(3) unfolding acc'_def by (subst unat_add_less) simp_all
  have due: "due hf height (Suc n) \<longleftrightarrow> fork_height ?f \<le> height \<and> fork_votes_needed hf ?f \<le> acc'"
    using Suc.prems(1) fork_votes_needed_nat [OF assms(1) Suc.prems(1)] acc'
    by (simp add: due_def word_le_nat_alt)
  show ?case
  proof (cases "due hf height (Suc n)")
    case True
    have "Suc n \<in> ?E (Suc n)" using True by simp
    moreover have "Max (?E (Suc n)) = Suc n" by (rule Max_eqI) (use True in auto)
    ultimately show ?thesis
      using True unfolding due acc'_def by (auto simp: Let_def)
  next
    case False
    then have "?E (Suc n) = ?E n" by (auto simp: le_Suc_eq)
    with False Suc.IH [OF _ acc'] Suc.prems(1) show ?thesis
      unfolding due acc'_def by (auto simp: Let_def)
  qed
qed

lemma voted_index_eq:
  assumes "hf_inv hf"
  shows "get_voted_fork_index hf height =
    (let E = {m. 0 < m \<and> due hf height m} in if E = {} then current_fork_index hf else Max E)"
proof -
  have ne: "length (heights hf) - 1 < length (heights hf)" using assms by (auto simp: hf_inv_def)
  have "{m. 0 < m \<and> m \<le> length (heights hf) - 1 \<and> due hf height m} = {m. 0 < m \<and> due hf height m}"
    by (auto simp: due_def)
  then show ?thesis
    using voted_fork_scan_spec [OF assms ne, of 0 height] ne
    by (simp add: get_voted_fork_index_def support_end)
qed

lemma voted_index_less:
  assumes "hf_inv hf"
  shows "get_voted_fork_index hf height < length (heights hf)"
proof -
  let ?E = "{m. 0 < m \<and> due hf height m}"
  have "finite ?E" by (rule finite_subset [of _ "{..<length (heights hf)}"]) (auto simp: due_def)
  then have "?E \<noteq> {} \<Longrightarrow> Max ?E \<in> ?E" by (rule Max_in)
  then show ?thesis
    using assms unfolding voted_index_eq [OF assms] by (auto simp: Let_def due_def hf_inv_def)
qed

lemma advance_fork_eq:
  assumes "hf_inv hf"
  shows "advance_fork height hf =
    hf\<lparr>current_fork_index := max (current_fork_index hf) (get_voted_fork_index hf height)\<rparr>"
proof -
  have "get_voted_fork_index hf height < 256"
    using voted_index_less [OF assms, of height] forks_ok_length [of "heights hf"] assms
    by (simp add: hf_inv_def)
  then show ?thesis by (simp add: advance_fork_def unat_of_nat Let_def max_def)
qed

lemma hf_inv_advance:
  assumes "hf_inv hf"
  shows "hf_inv (advance_fork height hf)"
  using assms voted_index_less [OF assms, of height]
  by (simp add: advance_fork_eq hf_inv_def)

lemma advance_fork_fields [simp]:
  "versions (advance_fork h hf) = versions hf" "last_versions (advance_fork h hf) = last_versions hf"
  "heights (advance_fork h hf) = heights hf" "hf_db (advance_fork h hf) = hf_db hf"
  "window_size (advance_fork h hf) = window_size hf"
  "original_version (advance_fork h hf) = original_version hf"
  by (simp_all add: advance_fork_def Let_def)

section \<open>Adding blocks\<close>

lemma push_vote_fields [simp]:
  "versions (push_vote v hf) = versions hf @ [v]"
  "last_versions (push_vote v hf) = (last_versions hf)(v := last_versions hf v + 1)"
  "heights (push_vote v hf) = heights hf" "hf_db (push_vote v hf) = hf_db hf"
  "window_size (push_vote v hf) = window_size hf"
  "current_fork_index (push_vote v hf) = current_fork_index hf"
  "original_version (push_vote v hf) = original_version hf"
  by (simp_all add: push_vote_def)

lemma hf_inv_current:
  assumes "hf_inv hf"
  shows "at_ub (heights hf) (current_fork_index hf) = Inr (heights hf ! current_fork_index hf)"
  using assms by (simp add: hf_inv_def at_ub_def)

lemma get_effective_version_congs [simp]:
  "get_effective_version (set_hard_fork_version hf h v) = get_effective_version hf"
  by (auto simp: get_effective_version_def set_hard_fork_version_def Let_def)

text \<open>The state after a block whose versions are accepted, before the fork may advance.\<close>

definition slide_window :: "hard_fork \<Rightarrow> u8 \<Rightarrow> u64 \<Rightarrow> hard_fork \<Rightarrow> bool" where
  "slide_window hf vote height hf' \<longleftrightarrow>
    versions hf' = drop (length (versions hf) + 1 - unat (window_size hf)) (versions hf)
      @ [get_effective_version hf vote] \<and>
    heights hf' = heights hf \<and> window_size hf' = window_size hf \<and>
    original_version hf' = original_version hf \<and>
    hf_db hf' = hf_db (set_hard_fork_version hf height (fork_version (heights hf ! current_fork_index hf)))"

lemma add_votes_cases:
  assumes "hf_inv hf"
  defines "cur \<equiv> fork_version (heights hf ! current_fork_index hf)"
  obtains (refused) "\<not> (bv = cur \<and> cur \<le> vote)" "add_votes hf bv vote height = Inr (False, hf)"
  | (accepted) hf' where "bv = cur" "cur \<le> vote" "hf_inv hf'"
      "add_votes hf bv vote height = Inr (True, advance_fork (height + 1) hf')"
      "slide_window hf vote height hf'" "current_fork_index hf' = current_fork_index hf"
proof (cases "bv = cur \<and> cur \<le> vote")
  case False
  then have "add_votes hf bv vote height = Inr (False, hf)"
    by (simp add: add_votes_def do_check_def do_check_at_def hf_inv_current [OF assms(1)] cur_def)
  with False show thesis by (rule refused)
next
  case True
  obtain vs lv where trim: "trim_window (window_size hf) (versions hf) (last_versions hf) = (vs, lv)"
    by fastforce
  have w: "0 < window_size hf" "counts_ok (versions hf) (last_versions hf)"
    using assms(1) by (auto simp: hf_inv_def)
  note trimmed = trim_window_spec [OF trim w(2,1)]
  define hf' where "hf' = push_vote (get_effective_version hf vote)
    ((set_hard_fork_version hf height cur)\<lparr>versions := vs, last_versions := lv\<rparr>)"
  have "0 < unat (window_size hf)" using w(1) by (simp add: unat_gt_0 word_greater_zero_iff)
  then have len: "length vs + 1 \<le> unat (window_size hf)" by (simp add: trimmed(1))
  then have "length vs + 1 < 2 ^ 32" using assms(1) by (simp add: hf_inv_def)
  then have inv: "hf_inv hf'"
    using assms(1) counts_ok_push(1) [OF trimmed(2)] len
    by (simp add: hf_inv_def hf'_def push_vote_def set_hard_fork_version_def)
  have "add_votes hf bv vote height = Inr (True, advance_fork (height + 1) hf')"
    using True trim
    by (simp add: add_votes_def do_check_def do_check_at_def hf_inv_current [OF assms(1)]
        cur_def [symmetric] hf'_def Let_def)
       (simp add: set_hard_fork_version_def)
  moreover have "slide_window hf vote height hf'"
    using trimmed(1) by (simp add: slide_window_def hf'_def push_vote_def cur_def
        set_hard_fork_version_def)
  ultimately show thesis
    using True inv accepted by (simp add: hf'_def push_vote_def set_hard_fork_version_def)
qed

lemma hf_inv_add:
  assumes "hf_inv hf"
  shows "\<exists>ok hf'. add hf b height = Inr (ok, hf') \<and> hf_inv hf' \<and> heights hf' = heights hf \<and>
    hf_db hf' = (hf_db hf)\<lparr>db_hf_versions := db_hf_versions (hf_db hf')\<rparr>"
proof (cases rule: add_votes_cases [OF assms, of "get_block_version b" "get_block_vote b" height])
  case 1
  then show ?thesis using assms by (auto simp: add_def)
next
  case (2 hf')
  then have "hf_inv (advance_fork (height + 1) hf')" by (simp add: hf_inv_advance)
  with 2 show ?thesis by (auto simp: add_def slide_window_def set_hard_fork_version_def)
qed

section \<open>Rescans\<close>

lemma hf_inv_recount:
  assumes "recount hs hf = Inr hf'" and "counts_ok (versions hf) (last_versions hf)"
    and "length (versions hf) + length hs < 2 ^ 32"
  shows "counts_ok (versions hf') (last_versions hf') \<and>
    length (versions hf') = length (versions hf) + length hs \<and> heights hf' = heights hf \<and>
    hf_db hf' = hf_db hf \<and> window_size hf' = window_size hf \<and>
    current_fork_index hf' = current_fork_index hf \<and> original_version hf' = original_version hf"
  using assms unfolding recount_def
proof (induction hs arbitrary: hf)
  case Nil
  then show ?case by simp
next
  case (Cons h hs)
  then obtain v where f: "foldE (\<lambda>h hf. bindE (get_block_from_height hf (of_nat h)) (\<lambda>b.
      Inr (push_vote (get_effective_version hf (get_block_vote b)) hf))) hs (push_vote v hf) = Inr hf'"
    by (auto elim!: bindE_InrE)
  have c: "counts_ok (versions (push_vote v hf)) (last_versions (push_vote v hf))"
    unfolding push_vote_fields by (rule counts_ok_push(1)) (use Cons.prems in auto)
  have l: "length (versions (push_vote v hf)) + length hs < 2 ^ 32" using Cons.prems(3) by simp
  from Cons.IH [OF f c l] show ?case by simp
qed

lemma index_of_version_less: "fs \<noteq> [] \<Longrightarrow> index_of_version v fs < length fs"
  by (induction v fs rule: index_of_version.induct) auto

lemma hf_inv_rescan:
  assumes inv: "0 < window_size hf" "unat (window_size hf) < 2 ^ 32" "forks_ok (heights hf)" "heights hf \<noteq> []"
    and len: "length (db_blocks (hf_db hf)) - unat height \<le> unat (window_size hf)"
      "height < db_height hf"
    and res: "rescan_from_block_height hf height = Inr (ok, hf')"
  shows "hf_inv hf'"
proof -
  from res len obtain hf1 lastv where
    r: "recount [unat height..<length (db_blocks (hf_db hf))] (clear_votes hf) = Inr hf1"
    and hf': "hf' = advance_fork (db_height hf1)
      (hf1\<lparr>current_fork_index := index_of_version lastv (heights hf1)\<rparr>)"
    by (auto simp: rescan_from_block_height_def Let_def db_height_def elim!: bindE_InrE split: if_splits)
  have hf1: "counts_ok (versions hf1) (last_versions hf1)"
    "length (versions hf1) = length (db_blocks (hf_db hf)) - unat height"
    "heights hf1 = heights hf" "window_size hf1 = window_size hf"
    using hf_inv_recount [OF r] inv len by (auto simp: clear_votes_def)
  show ?thesis
    unfolding hf' by (rule hf_inv_advance) (use inv len hf1 index_of_version_less in \<open>auto simp: hf_inv_def\<close>)
qed

lemma clear_votes_fields [simp]:
  "versions (clear_votes hf) = []" "last_versions (clear_votes hf) = (\<lambda>_. 0)"
  "heights (clear_votes hf) = heights hf" "hf_db (clear_votes hf) = hf_db hf"
  "window_size (clear_votes hf) = window_size hf"
  "current_fork_index (clear_votes hf) = current_fork_index hf"
  "original_version (clear_votes hf) = original_version hf"
  by (simp_all add: clear_votes_def)

lemma retreat_index_le: "retreat_index fs start n = Inr m \<Longrightarrow> m \<le> n"
  by (induction fs start n rule: retreat_index.induct) (auto elim!: bindE_InrE split: if_splits)

lemma rescan_range_le:
  fixes w height :: u64
  assumes "0 < w"
  shows "unat height + 1 - unat (if w - 1 \<le> height then height - (w - 1) else 0) \<le> unat w"
proof -
  have "unat (w - 1) = unat w - 1"
    using assms by (simp add: unat_sub_le word_le_nat_alt word_less_nat_alt)
  moreover have "0 < unat w" using assms by (simp add: unat_gt_0 word_greater_zero_iff)
  ultimately show ?thesis
    by (cases "w - 1 \<le> height") (auto simp: unat_sub_le word_le_nat_alt)
qed

lemma hf_inv_reorganize:
  assumes inv: "hf_inv hf" and res: "reorganize_from_block_height hf height = Inr (ok, hf')"
  shows "hf_inv hf'"
proof (cases "db_height hf \<le> height")
  case True
  with assms show ?thesis by (simp add: reorganize_from_block_height_def)
next
  case False
  let ?w = "window_size hf"
  let ?lo = "if ?w - 1 \<le> height then height - (?w - 1) else 0"
  from res [unfolded reorganize_from_block_height_def Let_def clear_votes_fields] False
  obtain start idx hf1 where
    idx: "retreat_index (heights hf) start (current_fork_index hf) = Inr idx"
    and hf1: "recount [unat ?lo..<unat height + 1] ((clear_votes hf)\<lparr>current_fork_index := idx\<rparr>) = Inr hf1"
    and loop: "foldE (\<lambda>h hf. bindE (get_block_from_height hf (of_nat h)) (\<lambda>b.
        bindE (add hf b (of_nat h)) (\<lambda>(_, hf). Inr hf)))
      [unat height + 1..<length (db_blocks (hf_db hf1))] (advance_fork (height + 1) hf1) = Inr hf'"
    by (auto simp del: upt_Suc elim!: bindE_InrE)
  have w: "0 < ?w" "unat ?w < 2 ^ 32" using inv by (simp_all add: hf_inv_def)
  note range = rescan_range_le [OF w(1), of height]
  have "hf_inv hf1"
    using hf_inv_recount [OF hf1] inv retreat_index_le [OF idx] range w
    by (simp add: hf_inv_def del: upt_Suc)
  then have "hf_inv (advance_fork (height + 1) hf1)" by (rule hf_inv_advance)
  with loop show ?thesis
  proof (rule foldE_invariant)
    fix h hf2 hf3
    assume "hf_inv hf2" and "bindE (get_block_from_height hf2 (of_nat h)) (\<lambda>b.
      bindE (add hf2 b (of_nat h)) (\<lambda>(_, hf). Inr hf)) = Inr hf3"
    then obtain b ok where "add hf2 b (of_nat h) = Inr (ok, hf3)" by (auto elim!: bindE_InrE)
    with hf_inv_add [OF \<open>hf_inv hf2\<close>, of b "of_nat h"] show "hf_inv hf3" by auto
  qed
qed

lemma hf_inv_pop_vote:
  assumes "hf_inv hf" and "pop_vote height hf = Inr hf'"
  shows "hf_inv hf'" and "heights hf' = heights hf" and "hf_db hf' = hf_db hf"
    and "original_version hf' = original_version hf"
proof -
  from assms(2) obtain vs v where vs: "versions hf = vs @ [v]"
    by (cases "versions hf" rule: rev_cases) (auto simp: pop_vote_def)
  define hf1 where "hf1 = hf\<lparr>last_versions := (last_versions hf)(v := last_versions hf v - 1), versions := vs\<rparr>"
  from assms(2) obtain u where hf': "hf' = hf1\<lparr>versions := u # vs,
      last_versions := (last_versions hf1)(u := last_versions hf1 u + 1)\<rparr>"
    by (auto simp: pop_vote_def vs hf1_def Let_def elim!: bindE_InrE)
  have "counts_ok vs (last_versions hf1)"
    using counts_ok_pop [of v vs "last_versions hf"] assms(1)
    by (simp add: hf_inv_def vs counts_ok_rotate hf1_def)
  then have "counts_ok (u # vs) ((last_versions hf1)(u := last_versions hf1 u + 1))"
    by (rule counts_ok_push(2)) (use assms(1) in \<open>simp add: hf_inv_def vs\<close>)
  then show "hf_inv hf'" using assms(1) by (simp add: hf_inv_def hf' hf1_def vs)
  show "heights hf' = heights hf" "hf_db hf' = hf_db hf" "original_version hf' = original_version hf"
    by (simp_all add: hf' hf1_def)
qed

lemma index_for_height_le: "index_for_height fs h n \<le> n"
  by (induction fs h n rule: index_for_height.induct) auto

lemma on_block_popped_inv:
  assumes inv: "hf_inv hf" and res: "on_block_popped hf n = Inr hf'"
  shows "hf_inv hf'" and "heights hf' = heights hf" and "hf_db hf' = hf_db hf"
    and "original_version hf' = original_version hf"
    and "current_fork_index hf' = index_for_height (heights hf) (db_height hf) (length (heights hf) - 1)"
proof -
  from res obtain hf1 where
    loop: "foldE (\<lambda>h. pop_vote (of_nat h)) (rev [unat (db_height hf)..<unat (db_height hf + n)]) hf = Inr hf1"
    and hf': "hf' = hf1\<lparr>current_fork_index :=
      index_for_height (heights hf1) (db_height hf) (length (heights hf1) - 1)\<rparr>"
    by (auto simp: on_block_popped_def Let_def elim!: bindE_InrE split: if_splits)
  have "hf_inv hf1 \<and> heights hf1 = heights hf \<and> hf_db hf1 = hf_db hf \<and>
      original_version hf1 = original_version hf"
    by (rule foldE_invariant [OF loop]) (use inv hf_inv_pop_vote in auto)
  moreover have "index_for_height (heights hf) h (length (heights hf) - 1) < length (heights hf)" for h
    using index_for_height_le [of "heights hf" h "length (heights hf) - 1"] inv
    by (auto simp: hf_inv_def)
  ultimately show "hf_inv hf'" "heights hf' = heights hf" "hf_db hf' = hf_db hf"
    "original_version hf' = original_version hf"
    "current_fork_index hf' = index_for_height (heights hf) (db_height hf) (length (heights hf) - 1)"
    by (auto simp: hf' hf_inv_def)
qed

lemma hf_inv_init:
  assumes "forks_ok (heights hf)" and "0 < original_version hf" and "0 < window_size hf"
    and "unat (window_size hf) < 2 ^ 32" and blocks: "length (db_blocks (hf_db hf)) < 2 ^ 64"
    and "init_hf hf = Inr hf'"
  shows "hf_inv hf'"
proof -
  define hs where "hs = (if heights hf = [] then [Params (original_version hf) 0 0 0] else heights hf)"
  define hf1 where "hf1 = hf\<lparr>heights := hs, versions := [], last_versions := (\<lambda>_. 0), current_fork_index := 0\<rparr>"
  define h where "h = (if window_size hf < db_height hf then db_height hf - (window_size hf - 1) else 1)"
  have hs: "forks_ok hs" "hs \<noteq> []" using assms(1,2) by (auto simp: hs_def forks_ok_def Params_def)
  have dbh: "db_height hf1 = db_height hf" by (simp add: db_height_def hf1_def)
  have w: "0 < unat (window_size hf)" using assms(3) by (simp add: unat_gt_0 word_greater_zero_iff)
  have len: "unat (db_height hf) = length (db_blocks (hf_db hf))"
    using blocks by (simp add: db_height_def unat_of_nat)
  have um: "unat (window_size hf - 1) = unat (window_size hf) - 1"
    using w by (simp add: unat_sub_le word_le_nat_alt)
  have e: "(clear_votes (if heights hf = [] then hf\<lparr>heights := [Params (original_version hf) 0 0 0]\<rparr>
      else hf))\<lparr>current_fork_index := 0\<rparr> = hf1" "window_size hf1 = window_size hf"
    by (simp_all add: hf1_def hs_def clear_votes_def)
  from assms(6) obtain ok where "rescan_from_chain_height hf1 h = Inr (ok, hf')"
    unfolding init_hf_def Let_def e dbh h_def [symmetric] by (auto elim!: bindE_InrE)
  moreover have h: "0 < unat h \<and> length (db_blocks (hf_db hf)) - (unat h - 1) \<le> unat (window_size hf)"
  proof (cases "window_size hf < db_height hf")
    case True
    then have less: "unat (window_size hf) < unat (db_height hf)" by (simp add: word_less_nat_alt)
    then have "unat h = unat (db_height hf) - (unat (window_size hf) - 1)"
      using True um by (simp add: h_def unat_sub_le word_le_nat_alt)
    with less len w show ?thesis by simp
  next
    case False
    with len show ?thesis by (simp add: h_def word_less_nat_alt)
  qed
  ultimately have res: "rescan_from_block_height hf1 (h - 1) = Inr (ok, hf')"
    by (auto simp: rescan_from_chain_height_def split: if_splits)
  show ?thesis
  proof (cases "db_height hf1 \<le> h - 1")
    case True
    with res have "hf' = hf1" by (simp add: rescan_from_block_height_def)
    with hs assms(3,4) show ?thesis by (simp add: hf1_def hf_inv_def)
  next
    case False
    have "unat (h - 1) = unat h - 1" using h by (simp add: unat_sub_le word_le_nat_alt)
    with h False res hs assms(3,4) show ?thesis
      by (intro hf_inv_rescan [of hf1 "h - 1" ok]) (auto simp: hf1_def)
  qed
qed

section \<open>The state machine\<close>

text \<open>
  What happens to the object after its initialisation: blocks are added and popped, the window
  is reorganised, and the block store changes underneath.
\<close>

inductive hf_step :: "hard_fork \<Rightarrow> hard_fork \<Rightarrow> bool" where
  step_add: "add hf b height = Inr (ok, hf') \<Longrightarrow> hf_step hf hf'"
| step_reorganize: "reorganize_from_chain_height hf height = Inr (ok, hf') \<Longrightarrow> hf_step hf hf'"
| step_popped: "on_block_popped hf n = Inr hf' \<Longrightarrow> hf_step hf hf'"
| step_store: "hf_step hf (hf\<lparr>hf_db := (hf_db hf)\<lparr>db_blocks := bs\<rparr>\<rparr>)"

lemma hf_step_inv:
  assumes "hf_step hf hf'" and "hf_inv hf"
  shows "hf_inv hf'"
  using assms
proof cases
  case (step_add b height ok)
  with hf_inv_add [OF assms(2), of b height] show ?thesis by auto
next
  case (step_reorganize height ok)
  with assms(2) show ?thesis
    by (auto simp: reorganize_from_chain_height_def intro: hf_inv_reorganize split: if_splits)
next
  case (step_popped n)
  with assms(2) show ?thesis by (blast intro: on_block_popped_inv(1))
next
  case (step_store bs)
  with assms(2) show ?thesis by (simp add: hf_inv_def)
qed

section \<open>Activation by height\<close>

text \<open>
  The forks of the hard-coded tables have threshold 0: they need no votes and become current
  at their height.
\<close>

lemma index_for_height_spec:
  shows "0 < index_for_height fs h n \<Longrightarrow> fork_height (fs ! index_for_height fs h n) \<le> h"
    and "index_for_height fs h n < m \<Longrightarrow> m \<le> n \<Longrightarrow> h < fork_height (fs ! m)"
  by (induction n) (auto simp: not_le le_Suc_eq split: if_splits)

lemma ideal_version_scan_index:
  assumes "original_version hf = fork_version (heights hf ! 0)"
  shows "ideal_version_scan hf h n = fork_version (heights hf ! index_for_height (heights hf) h n)"
  using assms by (induction n) auto

lemma index_for_height_mono:
  "h \<le> h' \<Longrightarrow> index_for_height fs h n \<le> index_for_height fs h' n"
  by (induction n) (auto intro: order_trans index_for_height_le le_SucI)

lemma voted_index_no_threshold:
  fixes h :: u64
  assumes inv: "hf_inv hf" and thr: "\<forall>f \<in> set (heights hf). fork_threshold f = 0"
  defines "i \<equiv> index_for_height (heights hf) h (length (heights hf) - 1)"
  shows "get_voted_fork_index hf h = (if i = 0 then current_fork_index hf else i)"
proof -
  let ?n = "length (heights hf) - 1" and ?E = "{m. 0 < m \<and> due hf h m}"
  have n: "?n < length (heights hf)" using inv by (auto simp: hf_inv_def)
  have due: "due hf h m \<longleftrightarrow> m < length (heights hf) \<and> fork_height (heights hf ! m) \<le> h" for m
    using thr by (auto simp: due_def needed_def)
  note spec = index_for_height_spec [of "heights hf" h ?n, folded i_def]
  have upper: "m \<le> i" if "m \<in> ?E" for m
  proof (rule ccontr)
    assume "\<not> m \<le> i"
    with that have "h < fork_height (heights hf ! m)" by (intro spec(2)) (auto simp: due)
    with that show False by (auto simp: due)
  qed
  show ?thesis
  proof (cases "i = 0")
    case True
    with upper have "?E = {}" by force
    with True show ?thesis by (simp add: voted_index_eq [OF inv])
  next
    case False
    then have "i \<in> ?E"
      using spec(1) index_for_height_le [of "heights hf" h ?n] n by (auto simp: due i_def)
    with upper have "Max ?E = i" by (intro Max_eqI) (auto intro: finite_subset [of _ "{..i}"])
    moreover from \<open>i \<in> ?E\<close> have "?E \<noteq> {}" by blast
    ultimately show ?thesis using False unfolding voted_index_eq [OF inv] Let_def by (simp only: if_False)
  qed
qed

lemma current_is_ideal:
  assumes "hf_inv hf" and "original_version hf = fork_version (heights hf ! 0)"
    and "current_fork_index hf = index_for_height (heights hf) h (length (heights hf) - 1)"
  shows "get_current_version hf = get_ideal_version hf h"
  using assms
  by (auto simp: get_current_version_def get_ideal_version_def at_ub_def ideal_version_scan_index
      hf_inv_def)

lemma forks_ok_version_inj:
  assumes "forks_ok fs" and "i < length fs" and "j < length fs"
    and "fork_version (fs ! i) = fork_version (fs ! j)"
  shows "i = j"
  using assms forks_ok_nth(1) [OF assms(1)] by (metis linorder_neqE_nat less_irrefl)

lemma max_if_Max: "finite E \<Longrightarrow> max c (if E = {} then c else Max E) = Max (insert c E)"
  by (cases "E = {}") simp_all

section \<open>Registering the tables\<close>

lemma forks_ok_add_fork:
  assumes "forks_ok (heights hf)"
  shows "forks_ok (heights (snd (add_fork hf v h th t)))"
proof (cases "fst (add_fork hf v h th t)")
  case False
  then have "snd (add_fork hf v h th t) = hf" by (auto simp: add_fork_def split: if_splits)
  with assms show ?thesis by simp
next
  case True
  have "\<forall>f \<in> set (heights hf). fork_version f < v \<and> fork_height f < h \<and> fork_time f < t"
  proof
    fix f assume "f \<in> set (heights hf)"
    moreover from this have "heights hf \<noteq> []" by auto
    ultimately have "f = last (heights hf) \<or> f \<in> set (butlast (heights hf))"
      by (metis Un_iff append_butlast_last_id set_append set_ConsD empty_iff list.set(1))
    moreover have "fork_version (last (heights hf)) < v" "fork_height (last (heights hf)) < h"
      "fork_time (last (heights hf)) < t"
      using True \<open>heights hf \<noteq> []\<close> by (auto simp: add_fork_def not_le split: if_splits)
    moreover have "sorted_wrt (\<lambda>f g. fork_version f < fork_version g \<and> fork_height f < fork_height g \<and>
        fork_time f < fork_time g) (butlast (heights hf) @ [last (heights hf)])"
      using assms \<open>heights hf \<noteq> []\<close> by (simp add: forks_ok_def)
    ultimately show "fork_version f < v \<and> fork_height f < h \<and> fork_time f < t"
      by (auto simp: sorted_wrt_append)
  qed
  with True assms show ?thesis
    by (auto simp: add_fork_def forks_ok_def sorted_wrt_append Params_def word_neq_0_conv not_le
        split: if_splits)
qed

lemma add_fork_other_fields:
  "window_size (snd (add_fork hf v h th t)) = window_size hf"
  "original_version (snd (add_fork hf v h th t)) = original_version hf"
  "hf_db (snd (add_fork hf v h th t)) = hf_db hf"
  by (auto simp: add_fork_def)

lemma register_forks_inv:
  assumes "forks_ok (heights hf)"
  shows "forks_ok (heights (register_forks recs hf)) \<and>
    window_size (register_forks recs hf) = window_size hf \<and>
    original_version (register_forks recs hf) = original_version hf \<and>
    hf_db (register_forks recs hf) = hf_db hf"
  using assms unfolding register_forks_def
  by (induction recs arbitrary: hf) (simp_all add: forks_ok_add_fork add_fork_other_fields)

lemma register_forks_all:
  assumes "forks_ok (heights hf @ recs)"
  shows "heights (register_forks recs hf) = heights hf @ recs"
  using assms
proof (induction recs arbitrary: hf)
  case Nil
  then show ?case by (simp add: register_forks_def)
next
  case (Cons f recs)
  let ?hf = "snd (add_fork hf (fork_version f) (fork_height f) (fork_threshold f) (fork_time f))"
  have "Params (fork_version f) (fork_height f) (fork_threshold f) (fork_time f) = f"
    by (simp add: Params_def)
  moreover have "0 < fork_version f" "fork_threshold f \<le> 100"
    "\<forall>g \<in> set (heights hf). fork_version g < fork_version f \<and> fork_height g < fork_height f \<and>
      fork_time g < fork_time f"
    using Cons.prems by (auto simp: forks_ok_def sorted_wrt_append)
  ultimately have "heights ?hf = heights hf @ [f]"
    by (auto simp: add_fork_def not_le dest: last_in_set)
  with Cons.IH [of ?hf] Cons.prems show ?case by (simp add: register_forks_def)
qed

section \<open>Properties\<close>

text \<open>
  (C25) The hard-fork object keeps its invariant for ever: however the fork table is registered
  after construction, and whatever sequence of additions, pops, reorganisations and changes of
  the block store follows the initialisation, the table is strictly increasing, the counters
  count the window, the window is no longer than its size and the current fork exists.
\<close>

theorem hardfork_reachable_inv:
  assumes "HardFork_init db original window threshold = Inr hf0"
    and "0 < original" and "unat window < 2 ^ 32" and "length (db_blocks db) < 2 ^ 64"
    and "init_hf (register_forks recs hf0) = Inr hf1" and "hf_step\<^sup>*\<^sup>* hf1 hf2"
  shows "hf_inv hf2"
proof -
  have hf0: "heights hf0 = []" "window_size hf0 = window" "original_version hf0 = original"
    "hf_db hf0 = db" "0 < window"
    using assms(1) by (auto simp: HardFork_init_def word_greater_zero_iff split: if_splits)
  have "forks_ok (heights hf0)" by (simp add: hf0 forks_ok_def)
  from register_forks_inv [OF this] have "hf_inv hf1"
    using hf0 assms(2-5) by (intro hf_inv_init [of "register_forks recs hf0"]) simp_all
  with assms(6) show ?thesis by (induction rule: rtranclp_induct) (auto intro: hf_step_inv)
qed

text \<open>
  (C26) Adding a block under the invariant never faults. A block is refused, with the object
  unchanged, unless its major version is the current one and its vote is at least that version.
  An accepted block records the version in the database, slides the window, and moves the
  current fork to the latest fork that is due at the next height, never backwards.
\<close>

theorem add_block_spec:
  assumes "hf_inv hf"
  defines "cur \<equiv> fork_version (heights hf ! current_fork_index hf)"
  shows "if get_block_version b = cur \<and> cur \<le> get_block_vote b
    then \<exists>hf'. add hf b height = Inr (True, hf') \<and> hf_inv hf' \<and>
      slide_window hf (get_block_vote b) height hf' \<and>
      current_fork_index hf' =
        Max (insert (current_fork_index hf) {m. 0 < m \<and> due hf' (height + 1) m})
    else add hf b height = Inr (False, hf)"
proof (cases rule: add_votes_cases [OF assms(1), of "get_block_version b" "get_block_vote b" height])
  case 1
  then show ?thesis by (auto simp: add_def cur_def)
next
  case (2 hf1)
  let ?E = "{m. 0 < m \<and> due hf1 (height + 1) m}"
  define hf' where "hf' = advance_fork (height + 1) hf1"
  have fin: "finite ?E" by (rule finite_subset [of _ "{..<length (heights hf1)}"]) (auto simp: due_def)
  have due: "due hf' = due hf1" by (intro ext) (simp add: hf'_def due_def needed_def support_def)
  have sel: "current_fork_index (hf1\<lparr>current_fork_index := x\<rparr>) = x" for x by simp
  have "current_fork_index hf' = max (current_fork_index hf)
      (if ?E = {} then current_fork_index hf else Max ?E)"
    using 2(6) unfolding hf'_def advance_fork_eq [OF 2(3)] voted_index_eq [OF 2(3)] Let_def
    by (simp only: sel)
  also have "\<dots> = Max (insert (current_fork_index hf) ?E)"
    using fin by (rule max_if_Max)
  finally have "current_fork_index hf' = Max (insert (current_fork_index hf) {m. 0 < m \<and> due hf' (height + 1) m})"
    by (simp add: due)
  moreover have "slide_window hf (get_block_vote b) height hf'"
    using 2 by (simp add: slide_window_def hf'_def)
  ultimately show ?thesis
    using 2 hf_inv_advance by (auto simp: add_def hf'_def cur_def)
qed

lemma add_keeps_ideal:
  assumes inv: "hf_inv hf" and thr: "\<forall>f \<in> set (heights hf). fork_threshold f = 0"
    and orig: "original_version hf = fork_version (heights hf ! 0)"
    and cur: "get_current_version hf = get_ideal_version hf height" and less: "height < UINT64_MAX"
    and add: "add hf b height = Inr (True, hf')"
  shows "get_current_version hf' = get_ideal_version hf' (height + 1)"
proof -
  let ?n = "length (heights hf) - 1" and ?i = "\<lambda>h. index_for_height (heights hf) h (length (heights hf) - 1)"
  have ne: "heights hf \<noteq> []" and ok: "forks_ok (heights hf)"
    and idx: "current_fork_index hf < length (heights hf)" using inv by (auto simp: hf_inv_def)
  have i: "?i h < length (heights hf)" for h
    using index_for_height_le [of "heights hf" h ?n] ne by (cases "heights hf") auto
  have "fork_version (heights hf ! current_fork_index hf) = fork_version (heights hf ! ?i height)"
    using cur idx ne by (simp add: get_current_version_def get_ideal_version_def at_ub_def
        ideal_version_scan_index [OF orig])
  then have ci: "current_fork_index hf = ?i height" by (rule forks_ok_version_inj [OF ok idx i])
  obtain hf1 where hf1: "hf_inv hf1" "hf' = advance_fork (height + 1) hf1"
    "slide_window hf (get_block_vote b) height hf1" "current_fork_index hf1 = current_fork_index hf"
  proof (cases rule: add_votes_cases [OF inv, of "get_block_version b" "get_block_vote b" height])
    case 1
    with add show thesis by (simp add: add_def)
  next
    case (2 hf1)
    with add that show thesis by (simp add: add_def)
  qed
  then have same: "heights hf1 = heights hf" "original_version hf1 = original_version hf"
    by (simp_all add: slide_window_def)
  have "height \<le> height + 1" using less by (simp add: word_le_nat_alt word_less_nat_alt unat_add_less)
  then have mono: "?i height \<le> ?i (height + 1)" by (rule index_for_height_mono)
  have "get_voted_fork_index hf1 (height + 1) = (if ?i (height + 1) = 0 then ?i height else ?i (height + 1))"
    using voted_index_no_threshold [OF hf1(1), of "height + 1"] thr hf1(4) ci by (simp add: same)
  with mono have "current_fork_index hf' = ?i (height + 1)"
    by (simp add: hf1(2) advance_fork_eq [OF hf1(1)] hf1(4) ci)
  then show ?thesis
    using hf_inv_advance [OF hf1(1)] orig by (intro current_is_ideal) (simp_all add: hf1(2) same)
qed

lemma pop_makes_ideal:
  assumes inv: "hf_inv hf" and orig: "original_version hf = fork_version (heights hf ! 0)"
    and pop: "on_block_popped hf n = Inr hf'"
  shows "get_current_version hf' = get_ideal_version hf' (db_height hf')"
  by (rule current_is_ideal) (use on_block_popped_inv [OF inv pop] orig in \<open>simp_all add: db_height_def\<close>)

text \<open>
  (C30) With the thresholds of the hard-coded tables (all zero) the forks are activated by height
  alone: if the current version is the ideal version for the height of an accepted block, then
  afterwards it is the ideal version for the next height. After blocks are popped it is the
  ideal version for the new height of the chain.
\<close>

theorem activation_by_height:
  assumes "hf_inv hf" and "\<forall>f \<in> set (heights hf). fork_threshold f = 0"
    and "original_version hf = fork_version (heights hf ! 0)"
  shows "(get_current_version hf = get_ideal_version hf height \<and> height < UINT64_MAX \<and>
        add hf b height = Inr (True, hf1) \<longrightarrow>
        get_current_version hf1 = get_ideal_version hf1 (height + 1)) \<and>
    (on_block_popped hf n = Inr hf2 \<longrightarrow>
        get_current_version hf2 = get_ideal_version hf2 (db_height hf2))"
  using add_keeps_ideal [OF assms] pop_makes_ideal [OF assms(1,3)] by blast

lemma earliest_scan_spec:
  assumes "forks_ok fs"
  shows "earliest_scan v (rev fs) H \<le> h \<longleftrightarrow>
    (if fs \<noteq> [] \<and> v \<le> fork_version (last fs)
     then \<exists>f \<in> set fs. v \<le> fork_version f \<and> fork_height f \<le> h else H \<le> h)"
  using assms
proof (induction fs arbitrary: H rule: rev_induct)
  case Nil
  then show ?case by simp
next
  case (snoc f gs)
  have gs: "forks_ok gs" using snoc.prems by (simp add: forks_ok_def sorted_wrt_append)
  have below: "fork_version g < fork_version f \<and> fork_height g < fork_height f" if "g \<in> set gs" for g
    using snoc.prems that by (simp add: forks_ok_def sorted_wrt_append)
  have top: "fork_version g \<le> fork_version (last gs)" if "g \<in> set gs" for g
  proof -
    from that obtain i where i: "i < length gs" "g = gs ! i" by (auto simp: in_set_conv_nth)
    show ?thesis using forks_ok_last [OF gs i(1)] i(2) by simp
  qed
  show ?case
  proof (cases "gs \<noteq> [] \<and> v \<le> fork_version (last gs)")
    case True
    then have "last gs \<in> set gs" by simp
    with True below [of "last gs"] snoc.IH [OF gs] show ?thesis by (auto intro: bexI [of _ "last gs"])
  next
    case False
    then have "\<not> v \<le> fork_version g" if "g \<in> set gs" for g using top that by (cases "gs = []") force+
    with False snoc.IH [OF gs] show ?thesis by auto
  qed
qed

text \<open>
  The two queries on the fork table are adjoint: the ideal version at a height is at least
  \<open>v\<close> exactly from the earliest height reported for \<open>v\<close> on.
\<close>

theorem earliest_height_iff_ideal:
  assumes "hf_inv hf" and "original_version hf = fork_version (heights hf ! 0)"
    and "fork_height (heights hf ! 0) = 0" and "h < UINT64_MAX"
  shows "\<exists>ideal. get_ideal_version hf h = Inr ideal \<and>
    (get_earliest_ideal_height_for_version hf v \<le> h \<longleftrightarrow> v \<le> ideal)"
proof -
  let ?hs = "heights hf"
  define i where "i = index_for_height ?hs h (length ?hs - 1)"
  have ok: "forks_ok ?hs" and ne: "?hs \<noteq> []" using assms(1) by (auto simp: hf_inv_def)
  have i: "i < length ?hs"
    using index_for_height_le [of ?hs h "length ?hs - 1"] ne by (cases ?hs) (auto simp: i_def)
  note spec = index_for_height_spec [of ?hs h "length ?hs - 1", folded i_def]
  have at_i: "fork_height (?hs ! i) \<le> h" using spec(1) assms(3) by (cases "i = 0") auto
  have ex: "(\<exists>f \<in> set ?hs. v \<le> fork_version f \<and> fork_height f \<le> h) \<longleftrightarrow> v \<le> fork_version (?hs ! i)"
  proof
    assume "\<exists>f \<in> set ?hs. v \<le> fork_version f \<and> fork_height f \<le> h"
    then obtain j where j: "j < length ?hs" "v \<le> fork_version (?hs ! j)" "fork_height (?hs ! j) \<le> h"
      by (auto simp: in_set_conv_nth)
    have "j \<le> length ?hs - 1" using j(1) by linarith
    then have "j \<le> i" using spec(2) [of j] j(3) by (meson leD leI)
    then show "v \<le> fork_version (?hs ! i)"
      using j(2) forks_ok_nth(1) [OF ok, of j i] i by (cases "j = i") auto
  next
    assume "v \<le> fork_version (?hs ! i)"
    then show "\<exists>f \<in> set ?hs. v \<le> fork_version f \<and> fork_height f \<le> h" using at_i i by auto
  qed
  have "get_earliest_ideal_height_for_version hf v \<le> h \<longleftrightarrow> v \<le> fork_version (?hs ! i)"
  proof (cases "v \<le> fork_version (last ?hs)")
    case True
    then show ?thesis
      using ne ex earliest_scan_spec [OF ok] by (simp add: get_earliest_ideal_height_for_version_def)
  next
    case False
    have "fork_version (?hs ! i) \<le> fork_version (last ?hs)" by (rule forks_ok_last [OF ok i])
    with False assms(4) show ?thesis
      using earliest_scan_spec [OF ok] by (auto simp: get_earliest_ideal_height_for_version_def)
  qed
  then show ?thesis
    using ne by (simp add: get_ideal_version_def ideal_version_scan_index [OF assms(2)] i_def)
qed

text \<open>
  Registering the hard-coded table of the main network or of the staging network registers
  every fork of it; of the test network's table the entry of version 15 is refused, because it
  has the same time as the entry of version 14, and version 15 never becomes current there.
\<close>

theorem hardcoded_tables_registered:
  assumes "heights hf = []"
  shows "heights (register_forks mainnet_hard_forks hf) = mainnet_hard_forks \<and>
    heights (register_forks stagenet_hard_forks hf) = stagenet_hard_forks \<and>
    heights (register_forks testnet_hard_forks hf) =
      filter (\<lambda>f. fork_version f \<noteq> 15) testnet_hard_forks"
proof -
  have "forks_ok mainnet_hard_forks" and "forks_ok stagenet_hard_forks"
    and "forks_ok (take 9 testnet_hard_forks)"
    and late: "forks_ok (take 9 testnet_hard_forks @ drop 10 testnet_hard_forks)"
    by code_simp+
  note reg = this [THEN register_forks_all [of hf, unfolded assms append_Nil]]
  let ?early = "take 9 testnet_hard_forks" and ?f = "testnet_hard_forks ! 9"
  define hf9 where "hf9 = register_forks ?early hf"
  have hf9: "heights hf9 = ?early" using reg(3) by (simp add: hf9_def)
  have "fork_time ?f \<le> fork_time (last ?early)" and "?early \<noteq> []" by code_simp+
  then have "snd (add_fork hf9 (fork_version ?f) (fork_height ?f) (fork_threshold ?f) (fork_time ?f)) = hf9"
    by (simp add: add_fork_def hf9)
  then have "register_forks (?early @ ?f # drop 10 testnet_hard_forks) hf =
      register_forks (drop 10 testnet_hard_forks) hf9" by (simp add: register_forks_def hf9_def)
  moreover have split: "testnet_hard_forks = ?early @ ?f # drop 10 testnet_hard_forks"
    by (simp add: testnet_hard_forks_def)
  ultimately have "register_forks testnet_hard_forks hf = register_forks (drop 10 testnet_hard_forks) hf9"
    by (simp only: split [symmetric])
  also have "heights \<dots> = ?early @ drop 10 testnet_hard_forks"
    using register_forks_all [of hf9] late by (simp add: hf9)
  also have "\<dots> = filter (\<lambda>f. fork_version f \<noteq> 15) testnet_hard_forks" by code_simp
  finally show ?thesis using reg(1,2) by simp
qed

section \<open>An example\<close>

definition sample_db :: chain_db where
  "sample_db = \<lparr>db_blocks = [(1, 1)], db_hf_versions = [0 \<mapsto> 1, 1 \<mapsto> 7]\<rparr>"

definition sample_hf :: hard_fork where
  "sample_hf = \<lparr>hf_db = sample_db, window_size = 10, default_threshold_percent = 80,
     original_version = 1, heights = [], versions = [], last_versions = (\<lambda>_. 0),
     current_fork_index = 0\<rparr>"

theorem hardcoded_tables_registered_witness:
  "heights sample_hf = [] \<and>
   length (heights (register_forks testnet_hard_forks sample_hf)) = 15"
  using hardcoded_tables_registered [of sample_hf]
  by (simp add: sample_hf_def testnet_hard_forks_def Params_def)

lemma sample_runs:
  obtains hf1 where "init_hf (register_forks mainnet_hard_forks sample_hf) = Inr hf1"
    and "\<exists>hf2. add hf1 (7, 7) 1 = Inr (True, hf2)"
    and "heights hf1 = mainnet_hard_forks" and "current_fork_index hf1 = 1"
    and "original_version hf1 = 1" and "\<exists>hf2. on_block_popped hf1 1 = Inr hf2"
proof -
  let ?r = "init_hf (register_forks mainnet_hard_forks sample_hf)"
  have "\<not> isl ?r" by code_simp
  then obtain hf1 where hf1: "?r = Inr hf1" by (cases ?r) auto
  have "(case ?r of Inl _ \<Rightarrow> False | Inr hf \<Rightarrow> (case add hf (7, 7) 1 of Inl _ \<Rightarrow> False | Inr (ok, _) \<Rightarrow> ok))"
    by code_simp
  then have "\<exists>hf2. add hf1 (7, 7) 1 = Inr (True, hf2)" by (auto simp: hf1 split: sum.splits)
  moreover have "(case ?r of Inl _ \<Rightarrow> False | Inr hf \<Rightarrow> \<not> isl (on_block_popped hf 1))" by code_simp
  then have "\<exists>hf2. on_block_popped hf1 1 = Inr hf2" by (cases "on_block_popped hf1 1") (auto simp: hf1)
  moreover have "(case ?r of Inl _ \<Rightarrow> False | Inr hf \<Rightarrow> current_fork_index hf = 1 \<and>
      original_version hf = 1 \<and> heights hf = mainnet_hard_forks)" by code_simp
  ultimately show thesis using that hf1 by simp
qed

lemma sample_inv:
  assumes "init_hf (register_forks mainnet_hard_forks sample_hf) = Inr hf1"
  shows "hf_inv hf1"
proof -
  have "forks_ok (heights sample_hf)" by (simp add: sample_hf_def forks_ok_def)
  from register_forks_inv [OF this, of mainnet_hard_forks] assms show ?thesis
    by (intro hf_inv_init [of "register_forks mainnet_hard_forks sample_hf"])
      (simp_all add: sample_hf_def sample_db_def)
qed

theorem hardfork_reachable_inv_witness:
  "\<exists>hf1 hf2. init_hf (register_forks mainnet_hard_forks sample_hf) = Inr hf1 \<and>
     add hf1 (7, 7) 1 = Inr (True, hf2) \<and> hf_inv hf2"
proof -
  obtain hf1 hf2 where run: "init_hf (register_forks mainnet_hard_forks sample_hf) = Inr hf1"
    "add hf1 (7, 7) 1 = Inr (True, hf2)" by (rule sample_runs) blast
  have "HardFork_init sample_db 1 10 80 = Inr sample_hf"
    by (simp add: HardFork_init_def sample_hf_def)
  moreover have "hf_step\<^sup>*\<^sup>* hf1 hf2" using step_add [OF run(2)] by (rule r_into_rtranclp)
  ultimately have "hf_inv hf2"
    using hardfork_reachable_inv [OF _ _ _ _ run(1), of sample_db 1 10 80 hf2] by (simp add: sample_db_def)
  with run show ?thesis by blast
qed

theorem add_block_spec_witness:
  "\<exists>hf1 hf2. init_hf (register_forks mainnet_hard_forks sample_hf) = Inr hf1 \<and>
     add hf1 (7, 7) 1 = Inr (True, hf2) \<and>
     current_fork_index hf2 = Max (insert 1 {m. 0 < m \<and> due hf2 2 m})"
proof -
  obtain hf1 hf2 where run: "init_hf (register_forks mainnet_hard_forks sample_hf) = Inr hf1"
    "add hf1 (7, 7) 1 = Inr (True, hf2)" "current_fork_index hf1 = 1" by (rule sample_runs) blast
  with add_block_spec [OF sample_inv [OF run(1)], of "(7, 7)" 1] show ?thesis
    by (auto split: if_splits)
qed

theorem activation_by_height_witness:
  "\<exists>hf1 hf2 hf3. init_hf (register_forks mainnet_hard_forks sample_hf) = Inr hf1 \<and>
     add hf1 (7, 7) 1 = Inr (True, hf2) \<and> get_current_version hf2 = get_ideal_version hf2 2 \<and>
     on_block_popped hf1 1 = Inr hf3 \<and> get_current_version hf3 = get_ideal_version hf3 (db_height hf3)"
proof -
  obtain hf1 hf2 hf3 where run: "init_hf (register_forks mainnet_hard_forks sample_hf) = Inr hf1"
    "add hf1 (7, 7) 1 = Inr (True, hf2)" "current_fork_index hf1 = 1"
    "heights hf1 = mainnet_hard_forks" "original_version hf1 = 1" "on_block_popped hf1 1 = Inr hf3"
    by (rule sample_runs) blast
  have t: "\<forall>f \<in> set (heights hf1). fork_threshold f = 0"
    and o: "original_version hf1 = fork_version (heights hf1 ! 0)"
    unfolding run(4,5) by (simp_all add: mainnet_hard_forks_def Params_def)
  have "index_for_height mainnet_hard_forks 1 (length mainnet_hard_forks - 1) = 1" by code_simp
  then have "get_current_version hf1 = get_ideal_version hf1 1"
    using sample_inv [OF run(1)] o run(3,4) by (intro current_is_ideal) simp_all
  with activation_by_height [OF sample_inv [OF run(1)] t o, of 1 "(7, 7)" hf2 1 hf3] run
  show ?thesis by (auto simp: word_less_nat_alt)
qed

theorem earliest_height_iff_ideal_witness:
  "\<exists>hf1 ideal. init_hf (register_forks mainnet_hard_forks sample_hf) = Inr hf1 \<and>
     get_ideal_version hf1 200000 = Inr ideal \<and>
     (get_earliest_ideal_height_for_version hf1 12 \<le> 200000 \<longleftrightarrow> 12 \<le> ideal)"
proof -
  obtain hf1 where run: "init_hf (register_forks mainnet_hard_forks sample_hf) = Inr hf1"
    "heights hf1 = mainnet_hard_forks" "original_version hf1 = 1" by (rule sample_runs) blast
  have "original_version hf1 = fork_version (heights hf1 ! 0)" "fork_height (heights hf1 ! 0) = 0"
    unfolding run(2,3) by (simp_all add: mainnet_hard_forks_def Params_def)
  from earliest_height_iff_ideal [OF sample_inv [OF run(1)] this, of 200000 12] run(1)
  show ?thesis by (auto simp: word_less_nat_alt)
qed

end
