(* ===== verification/Sn_Rules.thy ===== *)
theory Sn_Rules
  imports Difficulty Hardfork
begin

text \<open>
  The rules of service nodes, \<open>cryptonote_core/service_node_rules.{h,cpp}\<close>: the constants, the
  votes a quorum needs, the staking requirement, and the arithmetic between portions of a stake
  and atomic amounts. The conversions from percentages, which use floating point, are not
  modelled.
\<close>

section \<open>Constants\<close>

definition STAKING_SHARE_PARTS :: u64 where "STAKING_SHARE_PARTS = 0xfffffffffffffffc"
definition MAX_NUMBER_OF_CONTRIBUTORS :: nat where "MAX_NUMBER_OF_CONTRIBUTORS = 12"
definition BLOCKS_EXPECTED_IN_HOURS :: "u64 \<Rightarrow> u64" where "BLOCKS_EXPECTED_IN_HOURS v = (3600 div DIFFICULTY_TARGET_V16) * v"
definition BLOCKS_EXPECTED_IN_DAYS :: "u64 \<Rightarrow> u64" where "BLOCKS_EXPECTED_IN_DAYS v = BLOCKS_EXPECTED_IN_HOURS 24 * v"
definition ARQMA :: u64 where "ARQMA = 1000000000"


definition CHECKPOINT_NUM_CHECKPOINTS_FOR_CHAIN_FINALITY :: u64 where
  "CHECKPOINT_NUM_CHECKPOINTS_FOR_CHAIN_FINALITY = 2"
definition CHECKPOINT_INTERVAL :: u64 where "CHECKPOINT_INTERVAL = 4"
definition CHECKPOINT_STORE_PERSISTENTLY_INTERVAL :: u64 where "CHECKPOINT_STORE_PERSISTENTLY_INTERVAL = 60"
definition CHECKPOINT_NUM_QUORUMS_TO_PARTICIPATE_IN :: nat where "CHECKPOINT_NUM_QUORUMS_TO_PARTICIPATE_IN = 8"
definition STATE_CHANGE_NTH_OF_THE_NETWORK_TO_TEST :: nat where "STATE_CHANGE_NTH_OF_THE_NETWORK_TO_TEST = 100"
definition STATE_CHANGE_MIN_NODES_TO_TEST :: nat where "STATE_CHANGE_MIN_NODES_TO_TEST = 50"
definition VOTE_LIFETIME :: u64 where "VOTE_LIFETIME = BLOCKS_EXPECTED_IN_HOURS 2"
definition STATE_CHANGE_MIN_VOTES_TO_CHANGE_STATE :: nat where "STATE_CHANGE_MIN_VOTES_TO_CHANGE_STATE = 4"
definition STATE_CHANGE_QUORUM_SIZE :: nat where "STATE_CHANGE_QUORUM_SIZE = 10"
definition CHECKPOINT_QUORUM_SIZE :: nat where "CHECKPOINT_QUORUM_SIZE = 20"
definition CHECKPOINT_MIN_VOTES :: nat where "CHECKPOINT_MIN_VOTES = 5"
definition REORG_SAFETY_BUFFER_IN_BLOCKS :: u64 where
  "REORG_SAFETY_BUFFER_IN_BLOCKS =
    CHECKPOINT_INTERVAL * CHECKPOINT_NUM_CHECKPOINTS_FOR_CHAIN_FINALITY + (CHECKPOINT_INTERVAL - 1)"
definition KEY_IMAGE_AWAITING_UNLOCK_HEIGHT :: u64 where "KEY_IMAGE_AWAITING_UNLOCK_HEIGHT = 0"
definition STATE_CHANGE_TX_LIFETIME_IN_BLOCKS :: u64 where "STATE_CHANGE_TX_LIFETIME_IN_BLOCKS = VOTE_LIFETIME"
definition VOTE_OR_TX_VERIFY_HEIGHT_BUFFER :: u64 where "VOTE_OR_TX_VERIFY_HEIGHT_BUFFER = 5"

section \<open>Rules\<close>

text \<open>
  \<open>quorum_type\<close> is an 8-bit enumeration that arrives from the network, so that a value outside
  the named ones is possible.
\<close>

datatype quorum_type = obligations | checkpointing | unknown_quorum u8

definition min_votes_for_quorum_type :: "quorum_type \<Rightarrow> nat" where
  "min_votes_for_quorum_type q =
    (case q of obligations \<Rightarrow> STATE_CHANGE_MIN_VOTES_TO_CHANGE_STATE
             | checkpointing \<Rightarrow> CHECKPOINT_MIN_VOTES
             | unknown_quorum _ \<Rightarrow> 18446744073709551615)"

definition max_quorum_type_for_hf :: "u8 \<Rightarrow> quorum_type" where
  "max_quorum_type_for_hf hard_fork_version = (if hard_fork_version < 17 then obligations else checkpointing)"

definition staking_num_lock_blocks :: "network_type \<Rightarrow> u64" where
  "staking_num_lock_blocks nettype =
    (case nettype of TESTNET \<Rightarrow> BLOCKS_EXPECTED_IN_DAYS 2
                   | STAGENET \<Rightarrow> BLOCKS_EXPECTED_IN_DAYS 2
                   | _ \<Rightarrow> BLOCKS_EXPECTED_IN_DAYS 30)"

definition get_staking_requirement :: "network_type \<Rightarrow> u64 \<Rightarrow> u64" where
  "get_staking_requirement m_nettype height =
    (if m_nettype \<noteq> MAINNET then 1000 * ARQMA else 100000 * ARQMA)"

definition portions_to_amount :: "u64 \<Rightarrow> u64 \<Rightarrow> u64" where
  "portions_to_amount portions staking_requirement =
    (let (lo, hi) = mul128 staking_requirement portions;
         (_, _, resultlo) = div128_64 hi lo STAKING_SHARE_PARTS
     in resultlo)"

definition get_min_node_contribution :: "u64 \<Rightarrow> u64 \<Rightarrow> nat \<Rightarrow> u64" where
  "get_min_node_contribution staking_requirement total_reserved num_contributions =
    (let needed = staking_requirement - total_reserved
     in if MAX_NUMBER_OF_CONTRIBUTORS \<le> num_contributions then UINT64_MAX
        else needed div of_nat (MAX_NUMBER_OF_CONTRIBUTORS - num_contributions))"

text \<open>The loop of \<open>check_service_node_portions\<close>: contribution \<open>i\<close> on, with the sum reserved so far.\<close>

fun check_portions_from :: "nat \<Rightarrow> u64 \<Rightarrow> u64 list \<Rightarrow> bool" where
  "check_portions_from i reserved [] = (reserved \<le> STAKING_SHARE_PARTS)"
| "check_portions_from i reserved (p # ps) =
    (if p < get_min_node_contribution STAKING_SHARE_PARTS reserved i then False
     else check_portions_from (Suc i) (reserved + p) ps)"

definition check_service_node_portions :: "u64 list \<Rightarrow> bool" where
  "check_service_node_portions portions =
    (if MAX_NUMBER_OF_CONTRIBUTORS < length portions then False
     else check_portions_from 0 0 portions)"

text \<open>The four bytes of the nonce, in memory order, eight times.\<close>

definition u32_bytes :: "u32 \<Rightarrow> bytes" where
  "u32_bytes x = [ucast x, ucast (drop_bit 8 x), ucast (drop_bit 16 x), ucast (drop_bit 24 x)]"

definition generate_request_stake_unlock_hash :: "u32 \<Rightarrow> hash" where
  "generate_request_stake_unlock_hash nonce = concat (replicate 8 (u32_bytes nonce))"

definition get_locked_key_image_unlock_height :: "network_type \<Rightarrow> u64 \<Rightarrow> u64 \<Rightarrow> u64" where
  "get_locked_key_image_unlock_height nettype node_register_height curr_height =
    curr_height + staking_num_lock_blocks nettype div 2"

definition get_portions_to_make_amount :: "u64 \<Rightarrow> u64 \<Rightarrow> u64" where
  "get_portions_to_make_amount staking_requirement amount =
    (let (lo, hi) = mul128 amount STAKING_SHARE_PARTS;
         hi = (if UINT64_MAX - (staking_requirement - 1) < lo then hi + 1 else hi);
         lo = lo + (staking_requirement - 1);
         (_, _, resultlo) = div128_64 hi lo staking_requirement
     in resultlo)"

definition get_min_node_contribution_in_portions :: "u64 \<Rightarrow> u64 \<Rightarrow> nat \<Rightarrow> u64" where
  "get_min_node_contribution_in_portions staking_requirement total_reserved num_contributions =
    (let atomic_amount = get_min_node_contribution staking_requirement total_reserved num_contributions
     in if atomic_amount = UINT64_MAX then UINT64_MAX
        else get_portions_to_make_amount staking_requirement atomic_amount)"

section \<open>Portions and amounts\<close>

lemma unat_STAKING_SHARE_PARTS: "unat STAKING_SHARE_PARTS = 18446744073709551612"
  by (simp add: STAKING_SHARE_PARTS_def)

lemma cat128_low: "cat128 hi lo < 2 ^ 64 \<Longrightarrow> unat lo = cat128 hi lo"
  using unat64_bound [of lo] by (cases "unat hi") (simp_all add: cat128_def)

text \<open>A product divided by a 64-bit number, where the quotient fits.\<close>

definition mul_div :: "u64 \<Rightarrow> u64 \<Rightarrow> u64 \<Rightarrow> u64" where
  "mul_div a b d = (let (lo, hi) = mul128 a b; (_, _, resultlo) = div128_64 hi lo d in resultlo)"

lemma mul_div_nat:
  assumes "0 < d" and "unat a * unat b div unat d < 2 ^ 64"
  shows "unat (mul_div a b d) = unat a * unat b div unat d"
proof -
  obtain lo hi where m: "mul128 a b = (lo, hi)" by (cases "mul128 a b")
  obtain r qh ql where q: "div128_64 hi lo d = (r, qh, ql)" by (cases "div128_64 hi lo d")
  have "cat128 qh ql = unat a * unat b div unat d"
    using div128_64_quotient [OF assms(1) q] mul128_correct [OF m] by simp
  with cat128_low [of qh ql] assms(2) show ?thesis by (simp add: mul_div_def m q)
qed

lemma portions_to_amount_mul_div: "portions_to_amount p r = mul_div r p STAKING_SHARE_PARTS"
  by (simp add: portions_to_amount_def mul_div_def)

lemma mul_div_le_bound:
  assumes "(a :: nat) < 18446744073709551616" and "b \<le> 18446744073709551612"
  shows "a * b div 18446744073709551612 \<le> a"
proof -
  have "a * b \<le> a * 18446744073709551612" using assms(2) by simp
  from div_le_mono [OF this, of 18446744073709551612] show ?thesis by simp
qed

lemma portions_to_amount_nat:
  assumes "p \<le> STAKING_SHARE_PARTS"
  shows "unat (portions_to_amount p r) = unat r * unat p div 18446744073709551612"
proof -
  have "unat r * unat p div 18446744073709551612 \<le> unat r"
    by (rule mul_div_le_bound) (use assms unat64_bound in \<open>simp_all add: word_le_nat_alt unat_STAKING_SHARE_PARTS\<close>)
  then have "unat r * unat p div unat STAKING_SHARE_PARTS < 2 ^ 64"
    using unat64_bound [of r] by (simp add: unat_STAKING_SHARE_PARTS)
  with mul_div_nat [of STAKING_SHARE_PARTS r p] show ?thesis
    by (simp add: portions_to_amount_mul_div unat_STAKING_SHARE_PARTS) (simp add: STAKING_SHARE_PARTS_def)
qed

lemma get_portions_nat:
  assumes "0 < r" and "(unat a * 18446744073709551612 + (unat r - 1)) div unat r < 2 ^ 64"
  shows "unat (get_portions_to_make_amount r a) = (unat a * 18446744073709551612 + (unat r - 1)) div unat r"
proof -
  obtain lo hi where m: "mul128 a STAKING_SHARE_PARTS = (lo, hi)" by (cases "mul128 a STAKING_SHARE_PARTS")
  define hi' lo' where "hi' = (if UINT64_MAX - (r - 1) < lo then hi + 1 else hi)" and "lo' = lo + (r - 1)"
  obtain x qh ql where q: "div128_64 hi' lo' r = (x, qh, ql)" by (cases "div128_64 hi' lo' r")
  have r0: "0 < unat r" using assms(1) by (simp add: word_less_nat_alt)
  have r1: "unat (r - 1) = unat r - 1" using r0 by (subst unat_sub) (simp_all add: word_le_nat_alt)
  have prod: "unat hi * 18446744073709551616 + unat lo = unat a * 18446744073709551612"
    using mul128_correct [OF m] by (simp add: cat128_def unat_STAKING_SHARE_PARTS)
  have hib: "unat hi + 1 < 18446744073709551616"
    using prod unat64_bound [of a] unat64_bound [of hi] by linarith
  have cond: "UINT64_MAX - (r - 1) < lo \<longleftrightarrow> 18446744073709551616 \<le> unat lo + (unat r - 1)"
  proof -
    have "unat (UINT64_MAX - (r - 1)) = 18446744073709551615 - (unat r - 1)"
      using unat64_bound [of r] by (subst unat_sub) (simp_all add: word_le_nat_alt r1)
    then show ?thesis using unat64_bound [of lo] unat64_bound [of r] r0 by (simp add: word_less_nat_alt) linarith
  qed
  have cat: "cat128 hi' lo' = unat a * 18446744073709551612 + (unat r - 1)"
  proof (cases "UINT64_MAX - (r - 1) < lo")
    case True
    have "unat hi' = unat hi + 1" using True hib by (simp add: hi'_def unat_add_less)
    moreover have "unat lo' = unat lo + (unat r - 1) - 18446744073709551616"
      using True cond unat64_bound [of lo] unat64_bound [of r]
      by (simp add: lo'_def unat_word_ariths r1 mod_if)
    ultimately show ?thesis using prod True cond by (simp add: cat128_def)
  next
    case False
    then have "unat lo' = unat lo + (unat r - 1)" using cond by (simp add: lo'_def unat_add_less r1)
    then show ?thesis using False prod by (simp add: cat128_def hi'_def)
  qed
  have "cat128 qh ql = cat128 hi' lo' div unat r" using div128_64_quotient [OF assms(1) q] by simp
  then have "unat ql = (unat a * 18446744073709551612 + (unat r - 1)) div unat r"
    using cat128_low [of qh ql] assms(2) by (simp add: cat)
  moreover have "get_portions_to_make_amount r a = ql"
    unfolding get_portions_to_make_amount_def m Let_def prod.case hi'_def [symmetric] lo'_def [symmetric] q by simp
  ultimately show ?thesis by simp
qed

lemma round_trip_nat:
  assumes "0 < r" and "r \<le> S" and "a \<le> (r :: nat)"
  defines "p \<equiv> (a * S + (r - 1)) div r"
  shows "p \<le> S" and "r * p div S = a"
proof -
  have "a * S \<le> r * S" using assms(3) by simp
  then have "p \<le> (r * S + (r - 1)) div r" unfolding p_def by (intro div_le_mono) simp
  also have "\<dots> = S + (r - 1) div r"
    using div_mult_self2 [of r "r - 1" S] assms(1) by (simp only: add.commute [of "r * S"] less_not_refl2 not_False_eq_True)
  also have "\<dots> = S" using assms(1) by simp
  finally show "p \<le> S" .
  have lower: "a * S \<le> r * p"
  proof -
    have "a * S + (r - 1) = r * p + (a * S + (r - 1)) mod r" by (simp add: p_def)
    moreover have "(a * S + (r - 1)) mod r \<le> r - 1"
      using mod_less_divisor [OF assms(1), of "a * S + (r - 1)"] by linarith
    ultimately show ?thesis by linarith
  qed
  have upper: "r * p \<le> a * S + (r - 1)" unfolding p_def by simp
  have "0 < S" using assms by simp
  show "r * p div S = a"
  proof (rule div_nat_eqI)
    show "S * a \<le> r * p" using lower by (simp add: mult.commute)
    show "r * p < S * Suc a" using upper assms(1,2) by (simp add: algebra_simps)
  qed
qed

text \<open>
  A contribution converted to portions and back is the same number of atomic units:
  \<open>get_portions_to_make_amount\<close> rounds up just enough for \<open>portions_to_amount\<close>, which rounds
  down, to return the amount. It holds for every requirement a registration can have and every
  amount up to it, and the portions never exceed a whole stake.
\<close>

theorem portions_round_trip:
  assumes "0 < r" and "r \<le> STAKING_SHARE_PARTS" and "a \<le> r"
  shows "portions_to_amount (get_portions_to_make_amount r a) r = a \<and>
    get_portions_to_make_amount r a \<le> STAKING_SHARE_PARTS"
proof -
  have n: "0 < unat r" "unat r \<le> 18446744073709551612" "unat a \<le> unat r"
    using assms by (simp_all add: word_less_nat_alt word_le_nat_alt unat_STAKING_SHARE_PARTS)
  note rt = round_trip_nat [OF n]
  have p: "unat (get_portions_to_make_amount r a) = (unat a * 18446744073709551612 + (unat r - 1)) div unat r"
    by (rule get_portions_nat [OF assms(1)]) (use rt(1) in simp)
  then have le: "get_portions_to_make_amount r a \<le> STAKING_SHARE_PARTS"
    using rt(1) by (simp add: word_le_nat_alt unat_STAKING_SHARE_PARTS)
  from portions_to_amount_nat [OF le, of r] rt(2)
  have "unat (portions_to_amount (get_portions_to_make_amount r a) r) = unat a" by (simp add: p)
  with le show ?thesis by (simp add: word_unat_eq_iff)
qed

theorem portions_round_trip_witness:
  "portions_to_amount (get_portions_to_make_amount 100000000000000 8333333333334) 100000000000000 = 8333333333334"
  using portions_round_trip [of 100000000000000 8333333333334] by (simp add: STAKING_SHARE_PARTS_def)

section \<open>The portions of a registration\<close>

text \<open>What the check asks of each contribution: its equal share of what is left.\<close>

fun fair_shares :: "nat \<Rightarrow> nat \<Rightarrow> nat list \<Rightarrow> bool" where
  "fair_shares i reserved [] = True"
| "fair_shares i reserved (p # ps) =
    ((18446744073709551612 - reserved) div (12 - i) \<le> p \<and> fair_shares (Suc i) (reserved + p) ps)"

lemma get_min_node_contribution_nat:
  assumes "i < 12" and "unat reserved \<le> 18446744073709551612"
  shows "unat (get_min_node_contribution STAKING_SHARE_PARTS reserved i) =
    (18446744073709551612 - unat reserved) div (12 - i)"
proof -
  have "unat (of_nat (12 - i) :: u64) = 12 - i" by (rule unat_of_nat_small) simp
  moreover have "unat (STAKING_SHARE_PARTS - reserved) = 18446744073709551612 - unat reserved"
    using assms(2) by (subst unat_sub) (simp_all add: word_le_nat_alt unat_STAKING_SHARE_PARTS)
  ultimately show ?thesis
    using assms(1) by (simp add: get_min_node_contribution_def Let_def MAX_NUMBER_OF_CONTRIBUTORS_def unat_div)
qed

lemma check_portions_over:
  assumes "18446744073709551612 < unat reserved + sum_list (map unat ps)"
    and "unat reserved + sum_list (map unat ps) < 2 ^ 64"
  shows "\<not> check_portions_from i reserved ps"
  using assms
proof (induction ps arbitrary: i reserved)
  case Nil
  then show ?case by (simp add: word_le_nat_alt unat_STAKING_SHARE_PARTS)
next
  case (Cons p ps)
  have "unat (reserved + p) = unat reserved + unat p" using Cons.prems(2) by (simp add: unat_add_less)
  with Cons show ?case by simp
qed

lemma check_portions_from_exact:
  assumes "i + length ps \<le> 12" and "unat reserved + sum_list (map unat ps) \<le> 18446744073709551612"
  shows "check_portions_from i reserved ps \<longleftrightarrow> fair_shares i (unat reserved) (map unat ps)"
  using assms
proof (induction ps arbitrary: i reserved)
  case Nil
  then show ?case by (simp add: word_le_nat_alt unat_STAKING_SHARE_PARTS)
next
  case (Cons p ps)
  have sum: "unat (reserved + p) = unat reserved + unat p" using Cons.prems(2) by (simp add: unat_add_less)
  have "check_portions_from (Suc i) (reserved + p) ps \<longleftrightarrow> fair_shares (Suc i) (unat reserved + unat p) (map unat ps)"
    using Cons.IH [of "Suc i" "reserved + p"] Cons.prems sum by simp
  with get_min_node_contribution_nat [of i reserved] Cons.prems show ?case
    by (simp add: word_less_nat_alt not_less)
qed

text \<open>
  (C36) While the sum of the portions fits 64 bits, \<open>check_service_node_portions\<close> accepts exactly
  the lists of at most twelve portions that make no more than a whole stake and in which every
  contribution is at least its equal share of what the earlier ones left. Beyond that the running
  sum wraps: two portions that together exceed a whole stake are accepted.
\<close>

theorem check_service_node_portions_exact:
  "(sum_list (map unat ps) < 2 ^ 64 \<longrightarrow>
     (check_service_node_portions ps \<longleftrightarrow>
       length ps \<le> 12 \<and> sum_list (map unat ps) \<le> unat STAKING_SHARE_PARTS \<and> fair_shares 0 0 (map unat ps))) \<and>
   check_service_node_portions [0xffffffffffffffff, 0x8000000000000000]"
proof
  show "check_service_node_portions [0xffffffffffffffff, 0x8000000000000000]" by code_simp
  show "sum_list (map unat ps) < 2 ^ 64 \<longrightarrow>
     (check_service_node_portions ps \<longleftrightarrow>
       length ps \<le> 12 \<and> sum_list (map unat ps) \<le> unat STAKING_SHARE_PARTS \<and> fair_shares 0 0 (map unat ps))"
    using check_portions_over [of 0 ps 0] check_portions_from_exact [of 0 ps 0]
    by (cases "sum_list (map unat ps) \<le> 18446744073709551612")
      (auto simp: check_service_node_portions_def MAX_NUMBER_OF_CONTRIBUTORS_def unat_STAKING_SHARE_PARTS not_le)
qed

theorem check_service_node_portions_exact_witness:
  "sum_list (map unat [0xf000000000000000, 0xffffffffffffffc :: u64]) < 2 ^ 64 \<and>
    check_service_node_portions [0xf000000000000000, 0xffffffffffffffc]"
  using check_service_node_portions_exact [of "[0xf000000000000000, 0xffffffffffffffc]"]
  by (simp add: unat_STAKING_SHARE_PARTS)

end
