(* ===== verification/Serialization.thy ===== *)
theory Serialization
  imports Prelude "HOL-Library.Monad_Syntax"
begin

text \<open>
  The binary archive: variable-length integers (\<open>common/varint.h\<close>), the archive's primitives
  (\<open>serialization/binary_archive.h\<close>), strings and containers (\<open>serialization/string.h\<close>,
  \<open>serialization/container.h\<close>). An output stream is the list of bytes written; an input stream is
  the list of bytes still to read. A load returns the value and the rest of the stream, or
  \<open>None\<close> where the code returns false or leaves the stream in a failed state, which every
  caller of a field checks.

  The law a serializer has to keep is the locale \<open>codec\<close>; the lemmas on containers are proved
  once inside it and reach the types of the program through interpretations.
\<close>

section \<open>Variable-length integers\<close>

datatype varint_error = EVARINT_OVERFLOW | EVARINT_REPRESENT

function write_varint :: "'a::len word \<Rightarrow> bytes" where
  "write_varint i =
    (if 0x80 \<le> unat i then ((ucast i AND 0x7f) OR 0x80) # write_varint (drop_bit 7 i)
     else [ucast i])"
  by pat_completeness auto

lemma unat_drop7: "unat (drop_bit 7 (i :: 'a::len word)) = unat i div 128"
  by (simp add: unat_drop_bit_eq drop_bit_eq_div [of 7 "unat i"])

termination write_varint
  by (relation "measure unat") (simp_all add: unat_drop7)

declare write_varint.simps [simp del]

text \<open>
  The loop of \<open>read_varint\<close> at a given shift, with the value so far. At the end of the input it
  returns what it has.
\<close>

fun read_varint_from :: "nat \<Rightarrow> 'a::len word \<Rightarrow> bytes \<Rightarrow> varint_error + ('a word \<times> bytes)" where
  "read_varint_from shift w [] = Inr (w, [])"
| "read_varint_from shift w (byte # rest) =
    (if LENGTH('a) \<le> shift + 7 \<and> 2 ^ (LENGTH('a) - shift) \<le> unat byte then Inl EVARINT_OVERFLOW
     else if byte = 0 \<and> shift \<noteq> 0 then Inl EVARINT_REPRESENT
     else
       let w = w OR push_bit shift (ucast (byte AND 0x7f))
       in if byte AND 0x80 = 0 then Inr (w, rest) else read_varint_from (shift + 7) w rest)"

definition read_varint :: "bytes \<Rightarrow> varint_error + ('a::len word \<times> bytes)" where
  "read_varint bs = read_varint_from 0 0 bs"

section \<open>The archive\<close>

type_synonym 'a load = "bytes \<Rightarrow> ('a \<times> bytes) option"

definition save_varint :: "'a::len word \<Rightarrow> bytes" where
  "save_varint v = write_varint v"

definition load_varint :: "'a::len word load" where
  "load_varint bs = (case read_varint bs of Inl _ \<Rightarrow> None | Inr r \<Rightarrow> Some r)"

text \<open>Fixed-width integers, least significant byte first.\<close>

fun save_uint_bytes :: "nat \<Rightarrow> 'a::len word \<Rightarrow> bytes" where
  "save_uint_bytes 0 v = []"
| "save_uint_bytes (Suc n) v = ucast (v AND 0xff) # save_uint_bytes n (drop_bit 8 v)"

definition save_uint :: "'a::len word \<Rightarrow> bytes" where
  "save_uint v = save_uint_bytes (LENGTH('a) div 8) v"

fun load_uint_bytes :: "nat \<Rightarrow> nat \<Rightarrow> 'a::len word \<Rightarrow> 'a word load" where
  "load_uint_bytes 0 shift ret bs = Some (ret, bs)"
| "load_uint_bytes (Suc n) shift ret [] = None"
| "load_uint_bytes (Suc n) shift ret (c # bs) = load_uint_bytes n (shift + 8) (ret + push_bit shift (ucast c)) bs"

definition load_uint :: "'a::len word load" where
  "load_uint bs = load_uint_bytes (LENGTH('a) div 8) 0 0 bs"

definition save_blob :: "bytes \<Rightarrow> bytes" where
  "save_blob b = b"

definition load_blob :: "nat \<Rightarrow> bytes load" where
  "load_blob len bs = (if length bs < len then None else Some (take len bs, drop len bs))"

section \<open>Strings and containers\<close>

definition size_word :: "'a list \<Rightarrow> u64" where
  "size_word xs = of_nat (length xs)"

definition save_string :: "bytes \<Rightarrow> bytes" where
  "save_string str = save_varint (size_word str) @ save_blob str"

definition load_string :: "bytes load" where
  "load_string bs = do {
     (n, bs) \<leftarrow> load_varint bs;
     if length bs < unat (n :: u64) then None else load_blob (unat n) bs
   }"

definition save_container :: "('a \<Rightarrow> bytes) \<Rightarrow> 'a list \<Rightarrow> bytes" where
  "save_container save v = save_varint (size_word v) @ concat (map save v)"

fun load_elements :: "'a load \<Rightarrow> nat \<Rightarrow> 'a list load" where
  "load_elements load 0 bs = Some ([], bs)"
| "load_elements load (Suc n) bs = do {
     (e, bs) \<leftarrow> load bs;
     (es, bs) \<leftarrow> load_elements load n bs;
     Some (e # es, bs)
   }"

definition load_container :: "'a load \<Rightarrow> 'a list load" where
  "load_container load bs = do {
     (cnt, bs) \<leftarrow> load_varint bs;
     if length bs < unat (cnt :: u64) then None else load_elements load (unat cnt) bs
   }"

text \<open>An enumeration is a varint of its underlying type; a load checks the range.\<close>

definition load_enum :: "nat \<Rightarrow> 'a::len word load" where
  "load_enum bound bs = do {
     (v, bs) \<leftarrow> load_varint bs;
     if unat v < bound then Some (v, bs) else None
   }"

section \<open>The law of a serializer\<close>

locale codec =
  fixes save :: "'a \<Rightarrow> bytes"
    and load :: "'a load"
    and valid :: "'a \<Rightarrow> bool"
  assumes load_save: "valid x \<Longrightarrow> load (save x @ rest) = Some (x, rest)"
begin

lemma save_inj:
  assumes "valid x" and "valid y" and "save x @ r = save y @ s"
  shows "x = y \<and> r = s"
proof -
  have "Some (x, r) = load (save y @ s)" using load_save [OF assms(1), of r] unfolding assms(3) by (rule sym)
  also have "\<dots> = Some (y, s)" by (rule load_save [OF assms(2)])
  finally show ?thesis by simp
qed

lemma load_elements_save:
  assumes "\<forall>x \<in> set xs. valid x"
  shows "load_elements load (length xs) (concat (map save xs) @ rest) = Some (xs, rest)"
  using assms by (induction xs) (simp_all add: load_save)

end

text \<open>
  The elements of a container take at least one byte each; without this the sanity check of the
  load would refuse what the save wrote.
\<close>

locale element_codec = codec +
  assumes save_nonempty: "valid x \<Longrightarrow> save x \<noteq> []"
begin

lemma length_concat_save: "\<forall>x \<in> set xs. valid x \<Longrightarrow> length xs \<le> length (concat (map save xs))"
proof (induction xs)
  case (Cons x xs)
  then have "0 < length (save x)" "length xs \<le> length (concat (map save xs))" using save_nonempty by auto
  then show ?case unfolding list.map concat.simps length_append length_Cons by linarith
qed simp

end

section \<open>Varints read back\<close>

text \<open>The bytes of a varint, over the natural numbers.\<close>

fun varint_bytes :: "nat \<Rightarrow> bytes" where
  "varint_bytes n = (if 128 \<le> n then of_nat (n mod 128 + 128) # varint_bytes (n div 128) else [of_nat n])"

declare varint_bytes.simps [simp del]

lemma unat_of_nat_u8: "n < 256 \<Longrightarrow> unat (of_nat n :: u8) = n"
  by (simp add: unat_of_nat)

lemma or_push_bit:
  fixes a b :: "'a::len word"
  assumes "unat a < 2 ^ s"
  shows "a OR push_bit s b = a + b * 2 ^ s"
proof -
  have "unat (take_bit s a) = unat a"
    unfolding unsigned_take_bit_eq using assms by (simp add: take_bit_eq_mod)
  then have "take_bit s a = a" by (simp add: word_eq_iff_unsigned [where 'a = nat])
  then have "\<not> bit a n" if "s \<le> n" for n using that by (metis bit_take_bit_iff not_less)
  then have "a OR push_bit s b = a + push_bit s b"
    by (intro disjunctive_add [symmetric]) (auto simp: bit_push_bit_iff not_le)
  then show ?thesis by (simp add: push_bit_eq_mult)
qed

lemma low_seven_bits: "(ucast (i :: 'a::len word) AND 0x7f) OR 0x80 = (of_nat (unat i mod 128 + 128) :: u8)"
proof -
  define m :: u8 where "m = ucast i AND 0x7f"
  have m: "m = take_bit 7 (ucast i)" by (simp add: m_def take_bit_eq_mask mask_eq_exp_minus_1)
  have um: "unat m = unat i mod 128"
    unfolding m unsigned_take_bit_eq unsigned_ucast_eq by (simp add: take_bit_eq_mod mod_mod_cancel)
  have "m OR push_bit 7 1 = m + 1 * 2 ^ 7" by (rule or_push_bit) (simp add: um)
  then have "m OR 0x80 = m + 0x80" by (simp add: push_bit_eq_mult)
  also have "\<dots> = of_nat (unat i mod 128 + 128)" by (simp add: um [symmetric])
  finally show ?thesis by (simp add: m_def)
qed

lemma write_varint_nat: "write_varint (i :: 'a::len word) = varint_bytes (unat i)"
proof (induction i rule: write_varint.induct)
  case (1 i)
  from 1 show ?case
    by (subst write_varint.simps, subst varint_bytes.simps) (simp add: low_seven_bits unat_drop7)
qed

lemma high_bit: "n < 256 \<Longrightarrow> (of_nat n :: u8) AND 0x80 = 0 \<longleftrightarrow> n < 128"
proof -
  assume n: "n < 256"
  have "(of_nat n :: u8) AND 0x80 = 0 \<longleftrightarrow> \<not> bit (of_nat n :: u8) 7"
    using and_exp_eq_0_iff_not_bit [of "of_nat n :: u8" 7] by simp
  also have "\<dots> \<longleftrightarrow> n < 128"
  proof -
    have "bit (of_nat n :: u8) 7 \<longleftrightarrow> bit (unat (of_nat n :: u8)) 7" by (simp add: bit_unsigned_iff)
    also have "\<dots> \<longleftrightarrow> odd (n div 128)" using n by (simp add: unat_of_nat_u8 bit_iff_odd)
    also have "n div 128 = (if n < 128 then 0 else 1)" using n by (simp add: div_nat_eqI)
    also have "odd (if n < 128 then 0 else 1 :: nat) \<longleftrightarrow> \<not> n < 128" by simp
    finally show ?thesis by blast
  qed
  finally show ?thesis .
qed

lemma low_bits: "n < 256 \<Longrightarrow> unat ((of_nat n :: u8) AND 0x7f) = n mod 128"
proof -
  assume "n < 256"
  have "(of_nat n :: u8) AND 0x7f = take_bit 7 (of_nat n)" by (simp add: take_bit_eq_mask mask_eq_exp_minus_1)
  then have "unat ((of_nat n :: u8) AND 0x7f) = take_bit 7 (unat (of_nat n :: u8))"
    by (simp only: unsigned_take_bit_eq)
  then show ?thesis using \<open>n < 256\<close> by (simp add: unat_of_nat_u8 take_bit_eq_mod)
qed

lemma varint_accumulate:
  fixes a :: "'a::len word"
  assumes "unat a < 2 ^ s" and "n < 256" and "n mod 128 < 2 ^ (LENGTH('a) - s)" and "s \<le> LENGTH('a)"
  shows "unat (a OR push_bit s (ucast ((of_nat n :: u8) AND 0x7f))) = unat a + n mod 128 * 2 ^ s"
proof -
  have "ucast ((of_nat n :: u8) AND 0x7f) = (of_nat (n mod 128) :: 'a word)"
  proof -
    have "ucast ((of_nat n :: u8) AND 0x7f) = (of_nat (unat ((of_nat n :: u8) AND 0x7f)) :: 'a word)" by simp
    then show ?thesis by (simp only: low_bits [OF assms(2)])
  qed
  then have eq: "a OR push_bit s (ucast ((of_nat n :: u8) AND 0x7f)) = of_nat (unat a + n mod 128 * 2 ^ s)"
    by (simp add: or_push_bit [OF assms(1)])
  have "Suc (n mod 128) * 2 ^ s \<le> 2 ^ (LENGTH('a) - s) * 2 ^ s" using assms(3) by (intro mult_right_mono) simp_all
  also have "\<dots> = 2 ^ LENGTH('a)" using assms(4) by (simp flip: power_add)
  finally have "unat a + n mod 128 * 2 ^ s < 2 ^ LENGTH('a)" using assms(1) by simp
  then show ?thesis unfolding eq by (simp only: unat_of_nat mod_less)
qed

lemma read_varint_from_save:
  fixes a :: "'a::len word"
  assumes "unat a < 2 ^ s" and "v < 2 ^ (LENGTH('a) - s)" and "s \<le> LENGTH('a)" and "v \<noteq> 0 \<or> s = 0"
  shows "read_varint_from s a (varint_bytes v @ rest) = Inr (of_nat (unat a + v * 2 ^ s), rest)"
  using assms
proof (induction v arbitrary: s a rule: varint_bytes.induct)
  case (1 v)
  have vm: "v mod 128 < 2 ^ (LENGTH('a) - s)" using "1.prems"(2) by (meson le_less_trans mod_less_eq_dividend)
  show ?case
  proof (cases "128 \<le> v")
    case True
    define b :: u8 where "b = of_nat (v mod 128 + 128)"
    have m: "v mod 128 + 128 < 256" by simp
    have ub: "unat b = v mod 128 + 128" unfolding b_def by (rule unat_of_nat_u8 [OF m])
    have long: "s + 7 < LENGTH('a)"
    proof (rule ccontr)
      assume "\<not> s + 7 < LENGTH('a)"
      then have "(2 :: nat) ^ (LENGTH('a) - s) \<le> 2 ^ 7" by (intro power_increasing) auto
      with True "1.prems"(2) show False by simp
    qed
    define w where "w = a OR push_bit s (ucast (b AND 0x7f))"
    have w: "unat w = unat a + v mod 128 * 2 ^ s"
      unfolding w_def b_def using varint_accumulate [OF "1.prems"(1) m _ "1.prems"(3)] vm by simp
    have "unat w < 2 ^ (s + 7)"
    proof -
      have "(v mod 128 + 1) * 2 ^ s \<le> 128 * 2 ^ s" by (intro mult_right_mono) (simp_all add: Suc_leI)
      moreover have "(2 :: nat) ^ (s + 7) = 128 * 2 ^ s" by (simp add: power_add)
      ultimately show ?thesis unfolding w using "1.prems"(1) by (simp only: add_mult_distrib)
    qed
    moreover have "v div 128 < 2 ^ (LENGTH('a) - (s + 7))"
    proof -
      have "(2 :: nat) ^ (LENGTH('a) - s) = 2 ^ (LENGTH('a) - (s + 7)) * 128"
      proof -
        have "LENGTH('a) - s = LENGTH('a) - (s + 7) + 7" using long by simp
        then show ?thesis by (simp only: power_add) simp
      qed
      then show ?thesis using "1.prems"(2) by (simp add: less_mult_imp_div_less)
    qed
    moreover have "v div 128 \<noteq> 0" using True by simp
    ultimately have "read_varint_from (s + 7) w (varint_bytes (v div 128) @ rest) =
        Inr (of_nat (unat w + v div 128 * 2 ^ (s + 7)), rest)"
      using "1.IH" [OF True, of w "s + 7"] long by simp
    moreover have "unat w + v div 128 * 2 ^ (s + 7) = unat a + v * 2 ^ s"
    proof -
      have "v div 128 * 2 ^ (s + 7) = v div 128 * 128 * 2 ^ s" by (simp add: power_add)
      moreover have "v mod 128 * 2 ^ s + v div 128 * 128 * 2 ^ s = (v mod 128 + v div 128 * 128) * 2 ^ s"
        by (simp only: add_mult_distrib)
      moreover have "\<dots> = v * 2 ^ s" by simp
      ultimately show ?thesis by (simp only: w add.assoc)
    qed
    moreover have "b AND 0x80 \<noteq> 0" "b \<noteq> 0"
      using high_bit [OF m] ub by (auto simp: b_def)
    moreover have "varint_bytes v = b # varint_bytes (v div 128)"
      using True by (simp only: varint_bytes.simps [of v] b_def if_True)
    ultimately show ?thesis using long by (simp add: w_def [symmetric] Let_def)
  next
    case False
    define b :: u8 where "b = of_nat v"
    have v: "v < 256" using False by simp
    have ub: "unat b = v" unfolding b_def by (rule unat_of_nat_u8 [OF v])
    define w where "w = a OR push_bit s (ucast (b AND 0x7f))"
    have "unat w = unat a + v * 2 ^ s"
      unfolding w_def b_def using varint_accumulate [OF "1.prems"(1) v vm "1.prems"(3)] False by simp
    moreover have "of_nat (unat w) = w" by simp
    ultimately have w: "w = of_nat (unat a + v * 2 ^ s)" by (simp only:)
    have "b AND 0x80 = 0" using high_bit [OF v] False by (simp add: b_def)
    moreover have "b = 0 \<longrightarrow> s = 0" using "1.prems"(4) ub by auto
    moreover have "varint_bytes v = [b]" using False by (simp only: varint_bytes.simps [of v] b_def if_False)
    ultimately show ?thesis using "1.prems"(2) ub w by (simp add: w_def [symmetric] Let_def)
  qed
qed

lemma read_write_varint: "read_varint (write_varint (w :: 'a::len word) @ rest) = Inr (w, rest)"
  using read_varint_from_save [of "0 :: 'a word" 0 "unat w" rest] unat_lt_exp [of w]
  by (simp add: read_varint_def write_varint_nat)

section \<open>Fixed-width integers read back\<close>

lemma ucast_low_byte:
  assumes "8 \<le> LENGTH('a)"
  shows "ucast (ucast ((v :: 'a::len word) AND 0xff) :: u8) = take_bit 8 v"
proof -
  have "v AND 0xff = take_bit 8 v" by (simp add: take_bit_eq_mask mask_eq_exp_minus_1)
  then show ?thesis by (simp only:) (rule bit_word_eqI, use assms in \<open>auto simp: bit_simps\<close>)
qed

lemma load_uint_bytes_save:
  fixes v :: "'a::len word"
  assumes "s + 8 * n = LENGTH('a)"
  shows "load_uint_bytes n s ret (save_uint_bytes n v @ rest) = Some (ret + push_bit s v, rest)"
  using assms
proof (induction n arbitrary: s ret v)
  case 0
  then have "push_bit s v = 0" by (intro bit_word_eqI) (auto simp: bit_simps)
  then show ?case by simp
next
  case (Suc n)
  have "push_bit s v = push_bit s (push_bit 8 (drop_bit 8 v) + take_bit 8 v)" by (simp only: bits_ident)
  also have "\<dots> = push_bit s (take_bit 8 v) + push_bit (s + 8) (drop_bit 8 v)"
    by (simp only: push_bit_add push_bit_push_bit add.commute)
  finally have v: "push_bit s v = push_bit s (take_bit 8 v) + push_bit (s + 8) (drop_bit 8 v)" .
  have len: "8 \<le> LENGTH('a)" using Suc.prems by simp
  have "load_uint_bytes n (s + 8) (ret + push_bit s (take_bit 8 v)) (save_uint_bytes n (drop_bit 8 v) @ rest) =
      Some (ret + push_bit s (take_bit 8 v) + push_bit (s + 8) (drop_bit 8 v), rest)"
    by (rule Suc.IH) (use Suc.prems in simp)
  then show ?case
    by (simp only: save_uint_bytes.simps load_uint_bytes.simps append_Cons ucast_low_byte [OF len] v add.assoc)
qed

lemma load_save_uint: "8 * (LENGTH('a) div 8) = LENGTH('a) \<Longrightarrow> load_uint (save_uint (v :: 'a::len word) @ rest) = Some (v, rest)"
  using load_uint_bytes_save [of 0 "LENGTH('a) div 8" 0 v rest] by (simp add: load_uint_def save_uint_def)

section \<open>The program's integers, strings and vectors as codecs\<close>

lemma save_varint_nonempty [simp]: "save_varint w \<noteq> []"
  unfolding save_varint_def by (subst write_varint.simps) simp

lemma save_uint_bytes_nonempty: "0 < n \<Longrightarrow> save_uint_bytes n v \<noteq> []"
  by (cases n) simp_all

interpretation varint: element_codec save_varint load_varint "\<lambda>_. True"
  by unfold_locales
    (simp_all add: load_varint_def read_write_varint [folded save_varint_def])

interpretation uint8: element_codec "save_uint :: u8 \<Rightarrow> bytes" load_uint "\<lambda>_. True"
  by unfold_locales (simp add: load_save_uint, simp add: save_uint_def save_uint_bytes_nonempty)

interpretation uint16: element_codec "save_uint :: u16 \<Rightarrow> bytes" load_uint "\<lambda>_. True"
  by unfold_locales (simp add: load_save_uint, simp add: save_uint_def save_uint_bytes_nonempty)

interpretation uint32: element_codec "save_uint :: u32 \<Rightarrow> bytes" load_uint "\<lambda>_. True"
  by unfold_locales (simp add: load_save_uint, simp add: save_uint_def save_uint_bytes_nonempty)

interpretation uint64: element_codec "save_uint :: u64 \<Rightarrow> bytes" load_uint "\<lambda>_. True"
  by unfold_locales (simp add: load_save_uint, simp add: save_uint_def save_uint_bytes_nonempty)

text \<open>A plain-data type of \<open>n\<close> bytes.\<close>

lemma load_save_blob: "length b = n \<Longrightarrow> load_blob n (save_blob b @ rest) = Some (b, rest)"
  by (simp add: load_blob_def save_blob_def)

interpretation blob32: element_codec save_blob "load_blob 32" "\<lambda>b. length b = 32"
  by unfold_locales (simp add: load_save_blob, auto simp: save_blob_def)

interpretation blob64: element_codec save_blob "load_blob 64" "\<lambda>b. length b = 64"
  by unfold_locales (simp add: load_save_blob, auto simp: save_blob_def)

definition sized :: "'a list \<Rightarrow> bool" where
  "sized xs \<longleftrightarrow> length xs < 2 ^ 64"

lemma unat_size_word: "sized xs \<Longrightarrow> unat (size_word xs) = length xs"
  unfolding sized_def size_word_def by (rule unat_of_nat_small)

interpretation string: element_codec save_string load_string sized
proof
  show "load_string (save_string x @ rest) = Some (x, rest)" if "sized x" for x rest
    using that varint.load_save [of "size_word x" "x @ rest"] load_save_blob [OF refl, of x rest]
    by (simp add: load_string_def save_string_def unat_size_word save_blob_def)
  show "save_string x \<noteq> []" for x
    by (simp add: save_string_def)
qed

lemma save_container_nonempty [simp]: "save_container save xs \<noteq> []"
  by (simp add: save_container_def)

context element_codec
begin

lemma load_save_container:
  assumes "sized xs" and "\<forall>x \<in> set xs. valid x"
  shows "load_container load (save_container save xs @ rest) = Some (xs, rest)"
  using varint.load_save [of "size_word xs" "concat (map save xs) @ rest"] length_concat_save [OF assms(2)]
    load_elements_save [OF assms(2), of rest]
  by (simp add: load_container_def save_container_def unat_size_word [OF assms(1)])

end

text \<open>A container of encodable elements is itself encodable.\<close>

lemma element_codec_container:
  assumes "element_codec save load valid"
  shows "element_codec (save_container save) (load_container load) (\<lambda>xs. sized xs \<and> (\<forall>x \<in> set xs. valid x))"
  by unfold_locales
    (simp_all add: element_codec.load_save_container [OF assms])

interpretation keys: element_codec "save_container save_blob" "load_container (load_blob 32)" "\<lambda>xs. sized xs \<and> (\<forall>x \<in> set xs. length x = 32)"
  by (rule element_codec_container [OF blob32.element_codec_axioms])

interpretation varints: element_codec "save_container save_varint" "load_container load_varint" "\<lambda>xs. sized xs \<and> (\<forall>x \<in> set xs. True)"
  by (rule element_codec_container [OF varint.element_codec_axioms])

section \<open>What a varint load accepts\<close>

text \<open>
  Bytes that were taken off the input. Either they are the canonical encoding of the value or
  the input ended inside the varint.
\<close>

lemma varint_bytes_snoc_step:
  assumes "b \<noteq> (0 :: u8)" and "b AND 0x80 \<noteq> 0" and "0 < v"
  shows "varint_bytes (unat (b AND 0x7f) + v * 128) = b # varint_bytes v"
proof -
  define n where "n = unat b"
  have n: "n < 256" "b = of_nat n" using unat8_bound [of b] by (simp_all add: n_def)
  have hi: "128 \<le> n" using high_bit [OF n(1)] assms(2) n(2) by auto
  have "unat (b AND 0x7f) = n mod 128" using low_bits [OF n(1)] n(2) by simp
  moreover have "n mod 128 + 128 = n" using hi n(1) by (simp add: mod_if) linarith
  ultimately show ?thesis using assms(3) n(2) by (subst varint_bytes.simps) simp
qed

lemma read_varint_from_canonical:
  fixes a :: "'a::len word"
  assumes "read_varint_from s a bs = Inr (w, rest)" and "unat a < 2 ^ s" and "s < LENGTH('a)"
  shows "(\<exists>v. unat w = unat a + v * 2 ^ s \<and> bs = varint_bytes v @ rest \<and> (s \<noteq> 0 \<longrightarrow> 0 < v)) \<or>
    (rest = [] \<and> (\<forall>b \<in> set bs. b AND 0x80 \<noteq> 0))"
  using assms
proof (induction s a bs rule: read_varint_from.induct)
  case (1 s a)
  then show ?case by simp
next
  case (2 s a b bs)
  define n where "n = unat b"
  have n: "n < 256" "b = of_nat n" using unat8_bound [of b] by (simp_all add: n_def)
  have no: "\<not> (LENGTH('a) \<le> s + 7 \<and> 2 ^ (LENGTH('a) - s) \<le> n)" and nz: "\<not> (b = 0 \<and> s \<noteq> 0)"
    using "2.prems"(1) by (auto simp: n_def split: if_splits)
  define w' where "w' = a OR push_bit s (ucast (b AND 0x7f))"
  have fits: "n mod 128 < 2 ^ (LENGTH('a) - s)"
  proof (cases "LENGTH('a) \<le> s + 7")
    case True
    with no show ?thesis by (meson le_less_trans mod_less_eq_dividend not_le)
  next
    case False
    then have "(2 :: nat) ^ 7 \<le> 2 ^ (LENGTH('a) - s)" by (intro power_increasing) auto
    moreover have "n mod 128 < 2 ^ 7" by simp
    ultimately show ?thesis by (rule less_le_trans [rotated])
  qed
  have w': "unat w' = unat a + n mod 128 * 2 ^ s"
    unfolding w'_def n(2) using varint_accumulate [OF "2.prems"(2) n(1) fits] "2.prems"(3) by simp
  show ?case
  proof (cases "b AND 0x80 = 0")
    case True
    then have low: "n < 128" using high_bit [OF n(1)] n(2) by simp
    then have "varint_bytes n = [b]" using n(2) by (subst varint_bytes.simps) simp
    moreover have "w = w'" "rest = bs" using "2.prems"(1) no nz True by (auto simp: n_def w'_def Let_def split: if_splits)
    moreover have "s \<noteq> 0 \<longrightarrow> 0 < n" using nz n(2) by (cases n) auto
    ultimately show ?thesis using w' low by (intro disjI1 exI [of _ n]) simp
  next
    case False
    then have high: "128 \<le> n" using high_bit [OF n(1)] n(2) by auto
    have long: "s + 7 < LENGTH('a)"
    proof (rule ccontr)
      assume "\<not> s + 7 < LENGTH('a)"
      then have "(2 :: nat) ^ (LENGTH('a) - s) \<le> 2 ^ 7" by (intro power_increasing) auto
      with high no \<open>\<not> s + 7 < LENGTH('a)\<close> show False by simp
    qed
    have "read_varint_from (s + 7) w' bs = Inr (w, rest)"
      using "2.prems"(1) no nz False by (auto simp: n_def w'_def Let_def split: if_splits)
    moreover have "unat w' < 2 ^ (s + 7)"
    proof -
      have "(n mod 128 + 1) * 2 ^ s \<le> 128 * 2 ^ s" by (intro mult_right_mono) (simp_all add: Suc_leI)
      moreover have "(2 :: nat) ^ (s + 7) = 128 * 2 ^ s" by (simp add: power_add)
      ultimately show ?thesis unfolding w' using "2.prems"(2) by (simp only: add_mult_distrib)
    qed
    ultimately have IH: "(\<exists>v. unat w = unat w' + v * 2 ^ (s + 7) \<and> bs = varint_bytes v @ rest \<and> 0 < v) \<or>
        (rest = [] \<and> (\<forall>b \<in> set bs. b AND 0x80 \<noteq> 0))"
      using "2.IH" [OF _ _ refl] no nz False long by (simp add: n_def w'_def)
    show ?thesis
    proof (cases "rest = [] \<and> (\<forall>b \<in> set bs. b AND 0x80 \<noteq> 0)")
      case True
      with False show ?thesis by simp
    next
      case False
      with IH obtain v where v: "unat w = unat w' + v * 2 ^ (s + 7)" "bs = varint_bytes v @ rest" "0 < v" by blast
      have "b \<noteq> 0" using high n(2) unat_of_nat_u8 [OF n(1)] by auto
      from varint_bytes_snoc_step [OF this \<open>b AND 0x80 \<noteq> 0\<close> v(3)]
      have "b # bs = varint_bytes (n mod 128 + v * 128) @ rest" using low_bits [OF n(1)] n(2) v(2) by simp
      moreover have "unat w = unat a + (n mod 128 + v * 128) * 2 ^ s"
        by (simp add: v(1) w' power_add add_mult_distrib)
      ultimately show ?thesis using v(3) by (intro disjI1 exI [of _ "n mod 128 + v * 128"]) simp
    qed
  qed
qed

text \<open>
  (C33) A varint of any width that was written is read back, with what follows it left on the
  stream. Conversely a load accepts only the canonical encoding, unless the input ends inside
  the varint: then every byte read has its continuation bit set and the load succeeds anyway.
\<close>

theorem varint_round_trip:
  fixes w :: "'a::len word"
  shows "load_varint (save_varint w @ rest) = Some (w, rest) \<and>
    (load_varint bs = Some (w, rest) \<longrightarrow>
      bs = save_varint w @ rest \<or> rest = [] \<and> (\<forall>b \<in> set bs. b AND 0x80 \<noteq> 0))"
proof
  show "load_varint (save_varint w @ rest) = Some (w, rest)" by (rule varint.load_save) simp
  show "load_varint bs = Some (w, rest) \<longrightarrow>
      bs = save_varint w @ rest \<or> rest = [] \<and> (\<forall>b \<in> set bs. b AND 0x80 \<noteq> 0)"
  proof
    assume "load_varint bs = Some (w, rest)"
    then have "read_varint_from 0 (0 :: 'a word) bs = Inr (w, rest)"
      by (simp add: load_varint_def read_varint_def split: sum.splits)
    from read_varint_from_canonical [OF this]
    show "bs = save_varint w @ rest \<or> rest = [] \<and> (\<forall>b \<in> set bs. b AND 0x80 \<noteq> 0)"
      by (auto simp: save_varint_def write_varint_nat)
  qed
qed

theorem varint_round_trip_witness:
  "load_varint (save_varint (300 :: u64) @ [7]) = Some (300 :: u64, [7]) \<and>
    load_varint [] = Some (0 :: u64, []) \<and> ([] = save_varint (0 :: u64) @ [] \<or> (\<forall>b \<in> set ([] :: bytes). b AND 0x80 \<noteq> 0))"
proof -
  have e: "load_varint [] = Some (0 :: u64, [])" by (simp add: load_varint_def read_varint_def)
  show ?thesis
    using varint_round_trip [of "300 :: u64" "[7]" "[]"] varint_round_trip [of "0 :: u64" "[]" "[]"] e by simp
qed

end
