(* ===== verification/Tx_Types.thy ===== *)
theory Tx_Types
  imports Serialization
begin

text \<open>
  The data of the chain and its binary form: transaction inputs and outputs, the transaction
  prefix, the block header (\<open>cryptonote_basic/cryptonote_basic.h\<close>, \<open>txtypes.h\<close>) and the fields of a
  transaction's extra data (\<open>cryptonote_basic/tx_extra.h\<close>), each with the save and the load that
  its serialization macros generate. A variant writes its tag and then its value; a load tries
  the tags and fails on an unknown one (\<open>serialization/variant.h\<close>).
\<close>

section \<open>Inputs and outputs\<close>

record txout_to_script =
  script_keys :: "public_key list"
  script_bytes :: bytes

datatype txout_target_v =
  target_script txout_to_script
| target_scripthash hash
| target_key public_key

record tx_out =
  out_amount :: u64
  out_target :: txout_target_v

datatype txin_v =
  txin_gen u64
| txin_to_script hash u64 bytes
| txin_to_scripthash hash u64 txout_to_script bytes
| txin_to_key u64 "u64 list" key_image

definition save_bytes :: "bytes \<Rightarrow> bytes" where
  "save_bytes v = save_container save_uint v"

definition load_bytes :: "bytes load" where
  "load_bytes = load_container load_uint"

definition save_txout_to_script :: "txout_to_script \<Rightarrow> bytes" where
  "save_txout_to_script s = save_container save_blob (script_keys s) @ save_bytes (script_bytes s)"

definition load_txout_to_script :: "txout_to_script load" where
  "load_txout_to_script bs = do {
     (ks, bs) \<leftarrow> load_container (load_blob 32) bs;
     (sc, bs) \<leftarrow> load_bytes bs;
     Some (\<lparr>script_keys = ks, script_bytes = sc\<rparr>, bs)
   }"

fun save_target :: "txout_target_v \<Rightarrow> bytes" where
  "save_target (target_script s) = save_uint (0x0 :: u8) @ save_txout_to_script s"
| "save_target (target_scripthash h) = save_uint (0x1 :: u8) @ save_blob h"
| "save_target (target_key k) = save_uint (0x2 :: u8) @ save_blob k"

definition load_target :: "txout_target_v load" where
  "load_target bs = do {
     (t, bs) \<leftarrow> load_uint bs;
     if t = (0x0 :: u8) then do { (s, bs) \<leftarrow> load_txout_to_script bs; Some (target_script s, bs) }
     else if t = 0x1 then do { (h, bs) \<leftarrow> load_blob 32 bs; Some (target_scripthash h, bs) }
     else if t = 0x2 then do { (k, bs) \<leftarrow> load_blob 32 bs; Some (target_key k, bs) }
     else None
   }"

definition save_tx_out :: "tx_out \<Rightarrow> bytes" where
  "save_tx_out out = save_varint (out_amount out) @ save_target (out_target out)"

definition load_tx_out :: "tx_out load" where
  "load_tx_out bs = do {
     (a, bs) \<leftarrow> load_varint bs;
     (t, bs) \<leftarrow> load_target bs;
     Some (\<lparr>out_amount = a, out_target = t\<rparr>, bs)
   }"

fun save_txin :: "txin_v \<Rightarrow> bytes" where
  "save_txin (txin_gen height) = save_uint (0xff :: u8) @ save_varint height"
| "save_txin (txin_to_script prev prevout sigset) =
    save_uint (0x0 :: u8) @ save_blob prev @ save_varint prevout @ save_bytes sigset"
| "save_txin (txin_to_scripthash prev prevout script sigset) =
    save_uint (0x1 :: u8) @ save_blob prev @ save_varint prevout @ save_txout_to_script script @ save_bytes sigset"
| "save_txin (txin_to_key amount key_offsets k_image) =
    save_uint (0x2 :: u8) @ save_varint amount @ save_container save_varint key_offsets @ save_blob k_image"

definition load_txin :: "txin_v load" where
  "load_txin bs = do {
     (t, bs) \<leftarrow> load_uint bs;
     if t = (0xff :: u8) then do { (h, bs) \<leftarrow> load_varint bs; Some (txin_gen h, bs) }
     else if t = 0x0 then do {
       (prev, bs) \<leftarrow> load_blob 32 bs;
       (prevout, bs) \<leftarrow> load_varint bs;
       (sigset, bs) \<leftarrow> load_bytes bs;
       Some (txin_to_script prev prevout sigset, bs)
     } else if t = 0x1 then do {
       (prev, bs) \<leftarrow> load_blob 32 bs;
       (prevout, bs) \<leftarrow> load_varint bs;
       (script, bs) \<leftarrow> load_txout_to_script bs;
       (sigset, bs) \<leftarrow> load_bytes bs;
       Some (txin_to_scripthash prev prevout script sigset, bs)
     } else if t = 0x2 then do {
       (amount, bs) \<leftarrow> load_varint bs;
       (offsets, bs) \<leftarrow> load_container load_varint bs;
       (ki, bs) \<leftarrow> load_blob 32 bs;
       Some (txin_to_key amount offsets ki, bs)
     } else None
   }"

section \<open>The transaction prefix\<close>

text \<open>\<open>txversion\<close> is the 16-bit number of its enumerator.\<close>

type_synonym txversion = u16

datatype txtype = standard | state_change_tx | key_image_unlock_tx | stake

fun txtype_value :: "txtype \<Rightarrow> u16" where
  "txtype_value standard = 0"
| "txtype_value state_change_tx = 1"
| "txtype_value key_image_unlock_tx = 2"
| "txtype_value stake = 3"

definition txtype_of :: "u16 \<Rightarrow> txtype" where
  "txtype_of v = (if v = 0 then standard else if v = 1 then state_change_tx
    else if v = 2 then key_image_unlock_tx else stake)"

record transaction_prefix =
  tx_version :: txversion
  tx_type :: txtype
  unlock_time :: u64
  vin :: "txin_v list"
  vout :: "tx_out list"
  extra :: bytes
  output_unlock_times :: "u64 list"

definition null_transaction_prefix :: transaction_prefix where
  "null_transaction_prefix =
    \<lparr>tx_version = 1, tx_type = standard, unlock_time = 0, vin = [], vout = [], extra = [],
     output_unlock_times = []\<rparr>"

definition is_transfer :: "'a transaction_prefix_scheme \<Rightarrow> bool" where
  "is_transfer tx \<longleftrightarrow> tx_type tx = standard \<or> tx_type tx = stake"

definition get_unlock_time :: "'a transaction_prefix_scheme \<Rightarrow> nat \<Rightarrow> u64" where
  "get_unlock_time tx out_index =
    (if 3 \<le> tx_version tx then
       if length (output_unlock_times tx) \<le> out_index then unlock_time tx
       else output_unlock_times tx ! out_index
     else unlock_time tx)"

definition get_min_version_for_hf :: "u8 \<Rightarrow> txversion" where
  "get_min_version_for_hf hf = (if hf < 14 then 1 else if hf < 16 then 2 else 3)"

definition get_max_version_for_hf :: "u8 \<Rightarrow> txversion" where
  "get_max_version_for_hf hf = (if hf < 16 then 2 else 3)"

definition get_max_type_for_hf :: "u8 \<Rightarrow> txtype" where
  "get_max_type_for_hf hf = (if hf < 16 then standard else stake)"

text \<open>The save fails, after writing, when a version 3 prefix has not one unlock time per output.\<close>

definition save_transaction_prefix :: "transaction_prefix \<Rightarrow> bytes option" where
  "save_transaction_prefix tx =
    (let ok = \<not> (3 \<le> tx_version tx \<and> length (vout tx) \<noteq> length (output_unlock_times tx))
     in if \<not> ok then None
        else Some (save_varint (tx_version tx) @
          (if 3 \<le> tx_version tx
           then save_varint (txtype_value (tx_type tx)) @ save_container save_varint (output_unlock_times tx)
           else []) @
          save_varint (unlock_time tx) @ save_container save_txin (vin tx) @
          save_container save_tx_out (vout tx) @ save_bytes (extra tx)))"

definition load_transaction_prefix :: "transaction_prefix load" where
  "load_transaction_prefix bs = do {
     (version, bs) \<leftarrow> load_enum 4 bs;
     if version < (1 :: u16) then None
     else do {
       ((ty, times), bs) \<leftarrow>
         (if 3 \<le> version then do {
            (ty, bs) \<leftarrow> load_enum 4 bs;
            (times, bs) \<leftarrow> load_container load_varint bs;
            Some ((txtype_of ty, times), bs)
          } else Some ((tx_type null_transaction_prefix, output_unlock_times null_transaction_prefix), bs));
       (ut, bs) \<leftarrow> load_varint bs;
       (ins, bs) \<leftarrow> load_container load_txin bs;
       (outs, bs) \<leftarrow> load_container load_tx_out bs;
       if 3 \<le> version \<and> length outs \<noteq> length times then None
       else do {
         (ex, bs) \<leftarrow> load_bytes bs;
         Some (\<lparr>tx_version = version, tx_type = ty, unlock_time = ut, vin = ins, vout = outs, extra = ex,
                output_unlock_times = times\<rparr>, bs)
       }
     }
   }"

record block_header =
  hdr_major_version :: u8
  hdr_minor_version :: u8
  hdr_timestamp :: u64
  hdr_prev_id :: hash
  hdr_nonce :: u32

definition save_block_header :: "block_header \<Rightarrow> bytes" where
  "save_block_header h =
    save_varint (hdr_major_version h) @ save_varint (hdr_minor_version h) @ save_varint (hdr_timestamp h) @
    save_blob (hdr_prev_id h) @ save_uint (hdr_nonce h)"

definition load_block_header :: "block_header load" where
  "load_block_header bs = do {
     (ma, bs) \<leftarrow> load_varint bs;
     (mi, bs) \<leftarrow> load_varint bs;
     (ts, bs) \<leftarrow> load_varint bs;
     (prev, bs) \<leftarrow> load_blob 32 bs;
     (no, bs) \<leftarrow> load_uint bs;
     Some (\<lparr>hdr_major_version = ma, hdr_minor_version = mi, hdr_timestamp = ts, hdr_prev_id = prev, hdr_nonce = no\<rparr>, bs)
   }"

section \<open>Round trips\<close>

interpretation u8s: element_codec save_bytes load_bytes "\<lambda>xs. sized xs \<and> (\<forall>x \<in> set xs. True)"
  unfolding save_bytes_def load_bytes_def by (rule element_codec_container [OF uint8.element_codec_axioms])

definition valid_script :: "txout_to_script \<Rightarrow> bool" where
  "valid_script s \<longleftrightarrow> sized (script_keys s) \<and> (\<forall>k \<in> set (script_keys s). length k = 32) \<and> sized (script_bytes s)"

lemmas codec_laws = varint.load_save uint8.load_save uint16.load_save uint32.load_save uint64.load_save
  blob32.load_save blob64.load_save string.load_save keys.load_save varints.load_save u8s.load_save

interpretation script: element_codec save_txout_to_script load_txout_to_script valid_script
  by unfold_locales
    (simp_all add: save_txout_to_script_def load_txout_to_script_def valid_script_def codec_laws)

fun valid_target :: "txout_target_v \<Rightarrow> bool" where
  "valid_target (target_script s) = valid_script s"
| "valid_target (target_scripthash h) = (length h = 32)"
| "valid_target (target_key k) = (length k = 32)"

interpretation target: element_codec save_target load_target valid_target
proof
  show "load_target (save_target x @ rest) = Some (x, rest)" if "valid_target x" for x rest
    using that by (cases x) (simp_all add: load_target_def codec_laws script.load_save)
  show "save_target x \<noteq> []" for x by (cases x) (simp_all add: uint8.save_nonempty)
qed

definition valid_tx_out :: "tx_out \<Rightarrow> bool" where
  "valid_tx_out out \<longleftrightarrow> valid_target (out_target out)"

interpretation outp: element_codec save_tx_out load_tx_out valid_tx_out
  by unfold_locales (simp_all add: save_tx_out_def load_tx_out_def valid_tx_out_def codec_laws target.load_save)

fun valid_txin :: "txin_v \<Rightarrow> bool" where
  "valid_txin (txin_gen height) = True"
| "valid_txin (txin_to_script prev prevout sigset) = (length prev = 32 \<and> sized sigset)"
| "valid_txin (txin_to_scripthash prev prevout script sigset) = (length prev = 32 \<and> valid_script script \<and> sized sigset)"
| "valid_txin (txin_to_key amount key_offsets k_image) = (sized key_offsets \<and> length k_image = 32)"

interpretation inp: element_codec save_txin load_txin valid_txin
proof
  show "load_txin (save_txin x @ rest) = Some (x, rest)" if "valid_txin x" for x rest
    using that by (cases x) (simp_all add: load_txin_def codec_laws script.load_save)
  show "save_txin x \<noteq> []" for x by (cases x) (simp_all add: uint8.save_nonempty)
qed

interpretation header: element_codec save_block_header load_block_header "\<lambda>h. length (hdr_prev_id h) = 32"
  by unfold_locales (simp_all add: save_block_header_def load_block_header_def codec_laws)

lemma txtype_of_value [simp]: "txtype_of (txtype_value t) = t"
  by (cases t) (simp_all add: txtype_of_def)

lemma txtype_value_less: "unat (txtype_value t) < 4"
  by (cases t) simp_all

lemma load_enum_save: "unat v < n \<Longrightarrow> load_enum n (save_varint v @ rest) = Some (v, rest)"
  by (simp add: load_enum_def varint.load_save)

text \<open>
  A prefix that a node can hold: keys and hashes of their size, a known version, and the fields
  of version 3 at their defaults below it.
\<close>

definition valid_prefix :: "transaction_prefix \<Rightarrow> bool" where
  "valid_prefix tx \<longleftrightarrow> 1 \<le> tx_version tx \<and> tx_version tx < 4 \<and>
    sized (vin tx) \<and> (\<forall>i \<in> set (vin tx). valid_txin i) \<and> sized (vout tx) \<and> (\<forall>out \<in> set (vout tx). valid_tx_out out) \<and>
    sized (extra tx) \<and> sized (output_unlock_times tx) \<and>
    (if 3 \<le> tx_version tx then length (output_unlock_times tx) = length (vout tx)
     else tx_type tx = standard \<and> output_unlock_times tx = [])"

interpretation ins: element_codec "save_container save_txin" "load_container load_txin" "\<lambda>xs. sized xs \<and> (\<forall>x \<in> set xs. valid_txin x)"
  by (rule element_codec_container [OF inp.element_codec_axioms])

interpretation outs: element_codec "save_container save_tx_out" "load_container load_tx_out" "\<lambda>xs. sized xs \<and> (\<forall>x \<in> set xs. valid_tx_out x)"
  by (rule element_codec_container [OF outp.element_codec_axioms])

text \<open>
  (C35) A transaction prefix that was saved is loaded back unchanged, with what follows it left on
  the stream.
\<close>

theorem transaction_prefix_round_trip:
  assumes "valid_prefix tx"
  shows "\<exists>bs. save_transaction_prefix tx = Some bs \<and> load_transaction_prefix (bs @ rest) = Some (tx, rest)"
proof -
  have "1 \<le> tx_version tx" "tx_version tx < 4" using assms by (simp_all add: valid_prefix_def)
  then have v: "unat (tx_version tx) < 4" "\<not> tx_version tx < 1" by (simp add: word_less_nat_alt, simp only: not_less)
  show ?thesis
  proof (cases "3 \<le> tx_version tx")
    case True
    then show ?thesis
      using assms v
      by (simp add: save_transaction_prefix_def load_transaction_prefix_def valid_prefix_def load_enum_save
          txtype_value_less codec_laws ins.load_save outs.load_save)
  next
    case False
    then show ?thesis
      using assms v
      by (simp add: save_transaction_prefix_def load_transaction_prefix_def valid_prefix_def load_enum_save
          codec_laws ins.load_save outs.load_save null_transaction_prefix_def)
  qed
qed

definition example_prefix :: transaction_prefix where
  "example_prefix =
    \<lparr>tx_version = 3, tx_type = stake, unlock_time = 300,
     vin = [txin_gen 7, txin_to_key 5 [1, 200] (replicate 32 9)],
     vout = [\<lparr>out_amount = 1000, out_target = target_key (replicate 32 1)\<rparr>],
     extra = [1, 2, 3], output_unlock_times = [20]\<rparr>"

theorem transaction_prefix_round_trip_witness:
  "valid_prefix example_prefix \<and>
    (\<exists>bs. save_transaction_prefix example_prefix = Some bs \<and> load_transaction_prefix (bs @ [5]) = Some (example_prefix, [5]))"
proof -
  have "valid_prefix example_prefix"
    by (simp add: valid_prefix_def example_prefix_def sized_def valid_tx_out_def)
  with transaction_prefix_round_trip [of example_prefix "[5]"] show ?thesis by blast
qed

end
