(* ===== verification/Tx_Extra.thy ===== *)
theory Tx_Extra
  imports Tx_Types
begin

text \<open>
  The extra data of a transaction: its fields (\<open>cryptonote_basic/tx_extra.h\<close>), their binary form,
  and the functions that add, find, sort and remove them
  (\<open>cryptonote_basic/cryptonote_format_utils.{h,cpp}\<close>).
\<close>

section \<open>The fields\<close>

text \<open>\<open>new_state\<close> is a 16-bit enumeration; a vote from the network can carry any value.\<close>

datatype new_state = deregister | decommission | recommission | ip_change_penalty | unknown_state u16

fun new_state_value :: "new_state \<Rightarrow> u16" where
  "new_state_value deregister = 0"
| "new_state_value decommission = 1"
| "new_state_value recommission = 2"
| "new_state_value ip_change_penalty = 3"
| "new_state_value (unknown_state v) = v"

definition new_state_of :: "u16 \<Rightarrow> new_state" where
  "new_state_of v = (if v = 0 then deregister else if v = 1 then decommission else if v = 2 then recommission
    else if v = 3 then ip_change_penalty else unknown_state v)"

record tx_extra_service_node_register =
  reg_public_spend_keys :: "public_key list"
  reg_public_view_keys :: "public_key list"
  reg_portions_for_operator :: u64
  reg_portions :: "u64 list"
  reg_expiration_timestamp :: u64
  reg_service_node_signature :: signature

text \<open>A vote of a state change, and of a Pulse round.\<close>

record tx_extra_vote =
  ev_signature :: signature
  ev_validator_index :: u32

record tx_extra_service_node_state_change =
  sc_state :: new_state
  sc_block_height :: u64
  sc_service_node_index :: u32
  sc_votes :: "tx_extra_vote list"

record key_image_proof =
  kp_key_image :: key_image
  kp_signature :: signature

record tx_extra_tx_key_image_unlock =
  ku_key_image :: key_image
  ku_signature :: signature
  ku_nonce :: u32

record tx_extra_pulse_round =
  pr_height :: u64
  pr_round :: u8
  pr_leader_index :: u32
  pr_payload_hash :: hash
  pr_votes :: "tx_extra_vote list"

datatype tx_extra_field =
  extra_padding nat
| extra_pub_key public_key
| extra_nonce bytes
| extra_merge_mining_tag u64 hash
| extra_additional_pub_keys "public_key list"
| extra_mysterious_minergate bytes
| extra_service_node_pubkey public_key
| extra_service_node_register tx_extra_service_node_register
| extra_service_node_contributor public_key public_key
| extra_service_node_winner public_key
| extra_service_node_state_change tx_extra_service_node_state_change
| extra_tx_secret_key secret_key
| extra_tx_key_image_proofs "key_image_proof list"
| extra_tx_key_image_unlock tx_extra_tx_key_image_unlock
| extra_burn u64
| extra_pulse_round tx_extra_pulse_round

section \<open>Their binary form\<close>

text \<open>The tag of each alternative, which also tells the alternatives apart.\<close>

fun field_tag :: "tx_extra_field \<Rightarrow> u8" where
  "field_tag (extra_padding _) = 0x00"
| "field_tag (extra_pub_key _) = 0x01"
| "field_tag (extra_nonce _) = 0x02"
| "field_tag (extra_merge_mining_tag _ _) = 0x03"
| "field_tag (extra_additional_pub_keys _) = 0x04"
| "field_tag (extra_mysterious_minergate _) = 0xDE"
| "field_tag (extra_service_node_register _) = 0x70"
| "field_tag (extra_service_node_state_change _) = 0x71"
| "field_tag (extra_service_node_winner _) = 0x72"
| "field_tag (extra_service_node_contributor _ _) = 0x73"
| "field_tag (extra_service_node_pubkey _) = 0x74"
| "field_tag (extra_tx_secret_key _) = 0x75"
| "field_tag (extra_tx_key_image_proofs _) = 0x76"
| "field_tag (extra_tx_key_image_unlock _) = 0x77"
| "field_tag (extra_burn _) = 0x78"
| "field_tag (extra_pulse_round _) = 0x79"

fun load_padding :: "nat \<Rightarrow> nat load" where
  "load_padding n [] = (if n \<le> 255 then Some (n, []) else None)"
| "load_padding n (zero # bs) = (if 255 < n then None else if zero \<noteq> 0 then None else load_padding (Suc n) bs)"

definition save_padding :: "nat \<Rightarrow> bytes option" where
  "save_padding n = (if 255 < n then None else Some (concat (replicate (n - 1) (save_uint (0 :: u8)))))"

definition save_nonce :: "bytes \<Rightarrow> bytes option" where
  "save_nonce nonce = (if 255 < length nonce then None else Some (save_string nonce))"

definition load_nonce :: "bytes load" where
  "load_nonce bs = do {
     (nonce, bs) \<leftarrow> load_string bs;
     if 255 < length nonce then None else Some (nonce, bs)
   }"

definition save_merge_mining_tag :: "u64 \<Rightarrow> hash \<Rightarrow> bytes" where
  "save_merge_mining_tag depth merkle_root = save_string (save_varint depth @ save_blob merkle_root)"

definition load_merge_mining_tag :: "(u64 \<times> hash) load" where
  "load_merge_mining_tag bs = do {
     (field, bs) \<leftarrow> load_string bs;
     (depth, f) \<leftarrow> load_varint field;
     (root, f) \<leftarrow> load_blob 32 f;
     if f \<noteq> [] then None else Some ((depth, root), bs)
   }"

definition save_register :: "tx_extra_service_node_register \<Rightarrow> bytes" where
  "save_register r =
    save_container save_blob (reg_public_spend_keys r) @ save_container save_blob (reg_public_view_keys r) @
    save_uint (reg_portions_for_operator r) @ save_container save_varint (reg_portions r) @
    save_uint (reg_expiration_timestamp r) @ save_blob (reg_service_node_signature r)"

definition load_register :: "tx_extra_service_node_register load" where
  "load_register bs = do {
     (spend, bs) \<leftarrow> load_container (load_blob 32) bs;
     (view, bs) \<leftarrow> load_container (load_blob 32) bs;
     (op, bs) \<leftarrow> load_uint bs;
     (portions, bs) \<leftarrow> load_container load_varint bs;
     (exp, bs) \<leftarrow> load_uint bs;
     (sig, bs) \<leftarrow> load_blob 64 bs;
     Some (\<lparr>reg_public_spend_keys = spend, reg_public_view_keys = view, reg_portions_for_operator = op,
            reg_portions = portions, reg_expiration_timestamp = exp, reg_service_node_signature = sig\<rparr>, bs)
   }"

definition save_extra_vote :: "tx_extra_vote \<Rightarrow> bytes" where
  "save_extra_vote v = save_varint (ev_validator_index v) @ save_blob (ev_signature v)"

definition load_extra_vote :: "tx_extra_vote load" where
  "load_extra_vote bs = do {
     (i, bs) \<leftarrow> load_varint bs;
     (sig, bs) \<leftarrow> load_blob 64 bs;
     Some (\<lparr>ev_signature = sig, ev_validator_index = i\<rparr>, bs)
   }"

definition save_state_change :: "tx_extra_service_node_state_change \<Rightarrow> bytes" where
  "save_state_change sc =
    save_varint (new_state_value (sc_state sc)) @ save_varint (sc_block_height sc) @
    save_varint (sc_service_node_index sc) @ save_container save_extra_vote (sc_votes sc)"

definition load_state_change :: "tx_extra_service_node_state_change load" where
  "load_state_change bs = do {
     (st, bs) \<leftarrow> load_enum 4 bs;
     (h, bs) \<leftarrow> load_varint bs;
     (i, bs) \<leftarrow> load_varint bs;
     (votes, bs) \<leftarrow> load_container load_extra_vote bs;
     Some (\<lparr>sc_state = new_state_of st, sc_block_height = h, sc_service_node_index = i, sc_votes = votes\<rparr>, bs)
   }"

definition save_key_image_proof :: "key_image_proof \<Rightarrow> bytes" where
  "save_key_image_proof p = save_blob (kp_key_image p @ kp_signature p)"

definition load_key_image_proof :: "key_image_proof load" where
  "load_key_image_proof bs = do {
     (b, bs) \<leftarrow> load_blob 96 bs;
     Some (\<lparr>kp_key_image = take 32 b, kp_signature = drop 32 b\<rparr>, bs)
   }"

definition save_key_image_unlock :: "tx_extra_tx_key_image_unlock \<Rightarrow> bytes" where
  "save_key_image_unlock u = save_blob (ku_key_image u) @ save_blob (ku_signature u) @ save_uint (ku_nonce u)"

definition load_key_image_unlock :: "tx_extra_tx_key_image_unlock load" where
  "load_key_image_unlock bs = do {
     (ki, bs) \<leftarrow> load_blob 32 bs;
     (sig, bs) \<leftarrow> load_blob 64 bs;
     (no, bs) \<leftarrow> load_uint bs;
     Some (\<lparr>ku_key_image = ki, ku_signature = sig, ku_nonce = no\<rparr>, bs)
   }"

definition save_pulse_round :: "tx_extra_pulse_round \<Rightarrow> bytes" where
  "save_pulse_round p =
    save_varint (pr_height p) @ save_uint (pr_round p) @ save_varint (pr_leader_index p) @
    save_blob (pr_payload_hash p) @ save_container save_extra_vote (pr_votes p)"

definition load_pulse_round :: "tx_extra_pulse_round load" where
  "load_pulse_round bs = do {
     (h, bs) \<leftarrow> load_varint bs;
     (r, bs) \<leftarrow> load_uint bs;
     (l, bs) \<leftarrow> load_varint bs;
     (p, bs) \<leftarrow> load_blob 32 bs;
     (votes, bs) \<leftarrow> load_container load_extra_vote bs;
     Some (\<lparr>pr_height = h, pr_round = r, pr_leader_index = l, pr_payload_hash = p, pr_votes = votes\<rparr>, bs)
   }"

fun save_field_value :: "tx_extra_field \<Rightarrow> bytes option" where
  "save_field_value (extra_padding n) = save_padding n"
| "save_field_value (extra_pub_key k) = Some (save_blob k)"
| "save_field_value (extra_nonce n) = save_nonce n"
| "save_field_value (extra_merge_mining_tag d r) = Some (save_merge_mining_tag d r)"
| "save_field_value (extra_additional_pub_keys ks) = Some (save_container save_blob ks)"
| "save_field_value (extra_mysterious_minergate d) = Some (save_string d)"
| "save_field_value (extra_service_node_pubkey k) = Some (save_blob k)"
| "save_field_value (extra_service_node_register r) = Some (save_register r)"
| "save_field_value (extra_service_node_contributor s v) = Some (save_blob s @ save_blob v)"
| "save_field_value (extra_service_node_winner k) = Some (save_blob k)"
| "save_field_value (extra_service_node_state_change sc) = Some (save_state_change sc)"
| "save_field_value (extra_tx_secret_key k) = Some (save_blob k)"
| "save_field_value (extra_tx_key_image_proofs ps) = Some (save_container save_key_image_proof ps)"
| "save_field_value (extra_tx_key_image_unlock u) = Some (save_key_image_unlock u)"
| "save_field_value (extra_burn a) = Some (save_uint a)"
| "save_field_value (extra_pulse_round p) = Some (save_pulse_round p)"

definition save_field :: "tx_extra_field \<Rightarrow> bytes option" where
  "save_field f = map_option (\<lambda>v. save_uint (field_tag f) @ v) (save_field_value f)"

definition wrap :: "('a \<Rightarrow> 'b) \<Rightarrow> 'a load \<Rightarrow> 'b load" where
  "wrap c ld bs = map_option (\<lambda>(x, bs). (c x, bs)) (ld bs)"

text \<open>The value that follows a tag.\<close>

definition load_tagged :: "u8 \<Rightarrow> tx_extra_field load" where
  "load_tagged t bs =
    (if t = 0x00 then wrap extra_padding (load_padding 1) bs
     else if t = 0x01 then wrap extra_pub_key (load_blob 32) bs
     else if t = 0x02 then wrap extra_nonce load_nonce bs
     else if t = 0x03 then wrap (\<lambda>(d, r). extra_merge_mining_tag d r) load_merge_mining_tag bs
     else if t = 0x04 then wrap extra_additional_pub_keys (load_container (load_blob 32)) bs
     else if t = 0xDE then wrap extra_mysterious_minergate load_string bs
     else if t = 0x74 then wrap extra_service_node_pubkey (load_blob 32) bs
     else if t = 0x70 then wrap extra_service_node_register load_register bs
     else if t = 0x73 then do {
       (s, bs) \<leftarrow> load_blob 32 bs;
       (v, bs) \<leftarrow> load_blob 32 bs;
       Some (extra_service_node_contributor s v, bs)
     }
     else if t = 0x72 then wrap extra_service_node_winner (load_blob 32) bs
     else if t = 0x71 then wrap extra_service_node_state_change load_state_change bs
     else if t = 0x75 then wrap extra_tx_secret_key (load_blob 32) bs
     else if t = 0x76 then wrap extra_tx_key_image_proofs (load_container load_key_image_proof) bs
     else if t = 0x77 then wrap extra_tx_key_image_unlock load_key_image_unlock bs
     else if t = 0x78 then wrap extra_burn load_uint bs
     else if t = 0x79 then wrap extra_pulse_round load_pulse_round bs
     else None)"

definition load_field :: "tx_extra_field load" where
  "load_field bs = do {
     (t, bs) \<leftarrow> load_uint bs;
     load_tagged t bs
   }"

section \<open>A load never lengthens the stream\<close>

definition shrinks :: "'a load \<Rightarrow> bool" where
  "shrinks ld \<longleftrightarrow> (\<forall>bs x rest. ld bs = Some (x, rest) \<longrightarrow> length rest \<le> length bs)"

named_theorems shrinking \<open>loads that never lengthen the stream\<close>

lemma shrinks_bind [shrinking]:
  assumes "shrinks ld" and "\<And>x. shrinks (k x)"
  shows "shrinks (\<lambda>bs. do { (x, bs) \<leftarrow> ld bs; k x bs })"
  using assms unfolding shrinks_def by (fastforce simp: bind_eq_Some_conv intro: le_trans)

lemma shrinks_return [shrinking]: "shrinks (\<lambda>bs. Some (x, bs))"
  by (simp add: shrinks_def)

lemma shrinks_fail [shrinking]: "shrinks (\<lambda>bs. None)"
  by (simp add: shrinks_def)

lemma shrinks_if [shrinking]: "(c \<Longrightarrow> shrinks a) \<Longrightarrow> (\<not> c \<Longrightarrow> shrinks b) \<Longrightarrow> shrinks (\<lambda>bs. if c then a bs else b bs)"
  by (simp add: shrinks_def)

lemma shrinks_guard [shrinking]: "shrinks a \<Longrightarrow> shrinks (\<lambda>bs. if length bs < n then None else a bs)"
  by (simp add: shrinks_def)

lemma read_varint_from_shrinks: "read_varint_from s a bs = Inr (w, rest) \<Longrightarrow> length rest \<le> length bs"
  by (induction s a bs rule: read_varint_from.induct) (auto simp: Let_def split: if_splits)

lemma shrinks_varint [shrinking]: "shrinks load_varint"
  using read_varint_from_shrinks by (auto simp: shrinks_def load_varint_def read_varint_def split: sum.splits)

lemma load_uint_bytes_shrinks: "load_uint_bytes n s ret bs = Some (w, rest) \<Longrightarrow> n + length rest = length bs"
  by (induction n s ret bs rule: load_uint_bytes.induct) auto

lemma shrinks_uint [shrinking]: "shrinks load_uint"
  using load_uint_bytes_shrinks by (fastforce simp: shrinks_def load_uint_def)

lemma shrinks_blob [shrinking]: "shrinks (load_blob n)"
  by (auto simp: shrinks_def load_blob_def split: if_splits)

lemma shrinks_enum [shrinking]: "shrinks (load_enum n)"
  unfolding load_enum_def by (intro shrinking)

lemma shrinks_elements: "shrinks ld \<Longrightarrow> shrinks (load_elements ld n)"
proof (induction n)
  case 0
  then show ?case by (simp add: shrinks_def)
next
  case (Suc n)
  then show ?case unfolding load_elements.simps by (intro shrinking)
qed

lemma shrinks_string [shrinking]: "shrinks load_string"
  unfolding load_string_def by (intro shrinking)

lemma shrinks_container [shrinking]: "shrinks ld \<Longrightarrow> shrinks (load_container ld)"
  unfolding load_container_def by (intro shrinking shrinks_elements)

lemma load_padding_shrinks: "load_padding n bs = Some (m, rest) \<Longrightarrow> rest = []"
  by (induction n bs rule: load_padding.induct) (auto split: if_splits)

lemma shrinks_padding [shrinking]: "shrinks (load_padding n)"
  using load_padding_shrinks by (fastforce simp: shrinks_def)

lemma shrinks_wrap [shrinking]: "shrinks ld \<Longrightarrow> shrinks (wrap c ld)"
  by (auto simp: shrinks_def wrap_def)

lemma shrinks_merge [shrinking]: "shrinks load_merge_mining_tag"
  using shrinks_string unfolding load_merge_mining_tag_def shrinks_def
  by (fastforce simp: bind_eq_Some_conv split: if_splits)

lemma shrinks_structs [shrinking]:
  "shrinks load_nonce" "shrinks load_extra_vote" "shrinks load_key_image_proof"
  "shrinks load_register" "shrinks load_key_image_unlock"
  unfolding load_nonce_def load_extra_vote_def load_key_image_proof_def load_register_def load_key_image_unlock_def
  by (intro shrinking)+

lemma shrinks_vote_structs [shrinking]: "shrinks load_state_change" "shrinks load_pulse_round"
  unfolding load_state_change_def load_pulse_round_def by (intro shrinking)+

lemma load_field_shrinks:
  assumes "load_field bs = Some (f, rest)"
  shows "length rest < length bs"
proof -
  obtain t bs' where t: "load_uint bs = Some (t :: u8, bs')"
    using assms by (auto simp: load_field_def bind_eq_Some_conv)
  then have "1 + length bs' = length bs" using load_uint_bytes_shrinks by (fastforce simp: load_uint_def)
  moreover have "length rest \<le> length bs'"
  proof -
    have "shrinks (load_tagged t)" unfolding load_tagged_def by (intro shrinking)
    moreover have "load_tagged t bs' = Some (f, rest)" using assms t by (simp add: load_field_def)
    ultimately show ?thesis by (auto simp: shrinks_def)
  qed
  ultimately show ?thesis by simp
qed

section \<open>Parsing and finding fields\<close>

text \<open>
  The loop shared by \<open>parse_tx_extra\<close>, \<open>sort_tx_extra\<close> and \<open>remove_field_from_tx_extra\<close>: whether
  all fields were read, the fields, and the bytes from the first field that was not.
\<close>

function parse_fields :: "bytes \<Rightarrow> bool \<times> tx_extra_field list \<times> bytes" where
  "parse_fields bs =
    (case load_field bs of
       None \<Rightarrow> (False, [], bs)
     | Some (field, rest) \<Rightarrow>
         if rest = [] then (True, [field], [])
         else let (r, fields, unparsed) = parse_fields rest in (r, field # fields, unparsed))"
  by pat_completeness auto

termination parse_fields
  by (relation "measure length") (simp, metis load_field_shrinks in_measure)

declare parse_fields.simps [simp del]

definition parse_tx_extra :: "bytes \<Rightarrow> bool \<times> tx_extra_field list" where
  "parse_tx_extra tx_extra =
    (if tx_extra = [] then (True, [])
     else let (r, fields, _) = parse_fields tx_extra in (r, fields))"

text \<open>The alternative to look for is given by a function that takes it out of a field.\<close>

fun nth_match :: "(tx_extra_field \<Rightarrow> 'a option) \<Rightarrow> nat \<Rightarrow> tx_extra_field list \<Rightarrow> 'a option" where
  "nth_match sel skip [] = None"
| "nth_match sel skip (f # fs) =
    (case sel f of None \<Rightarrow> nth_match sel skip fs
                 | Some x \<Rightarrow> if skip = 0 then Some x else nth_match sel (skip - 1) fs)"

definition find_tx_extra_field_by_type :: "(tx_extra_field \<Rightarrow> 'a option) \<Rightarrow> tx_extra_field list \<Rightarrow> nat \<Rightarrow> 'a option" where
  "find_tx_extra_field_by_type sel tx_extra_fields skip_fields =
    (if length tx_extra_fields \<le> skip_fields then None else nth_match sel skip_fields tx_extra_fields)"

fun sel_pub_key where "sel_pub_key (extra_pub_key k) = Some k" | "sel_pub_key _ = None"
fun sel_additional where "sel_additional (extra_additional_pub_keys ks) = Some ks" | "sel_additional _ = None"
fun sel_sn_pubkey where "sel_sn_pubkey (extra_service_node_pubkey k) = Some k" | "sel_sn_pubkey _ = None"
fun sel_secret_key where "sel_secret_key (extra_tx_secret_key k) = Some k" | "sel_secret_key _ = None"
fun sel_proofs where "sel_proofs (extra_tx_key_image_proofs ps) = Some ps" | "sel_proofs _ = None"
fun sel_unlock where "sel_unlock (extra_tx_key_image_unlock u) = Some u" | "sel_unlock _ = None"
fun sel_contributor where "sel_contributor (extra_service_node_contributor s v) = Some (s, v)" | "sel_contributor _ = None"
fun sel_register where "sel_register (extra_service_node_register r) = Some r" | "sel_register _ = None"
fun sel_state_change where "sel_state_change (extra_service_node_state_change sc) = Some sc" | "sel_state_change _ = None"
fun sel_winner where "sel_winner (extra_service_node_winner k) = Some k" | "sel_winner _ = None"
fun sel_burn where "sel_burn (extra_burn a) = Some a" | "sel_burn _ = None"
fun sel_pulse where "sel_pulse (extra_pulse_round p) = Some p" | "sel_pulse _ = None"

definition field_from_extra :: "(tx_extra_field \<Rightarrow> 'a option) \<Rightarrow> bytes \<Rightarrow> nat \<Rightarrow> 'a option" where
  "field_from_extra sel tx_extra skip = find_tx_extra_field_by_type sel (snd (parse_tx_extra tx_extra)) skip"

definition get_tx_pub_key_from_extra :: "bytes \<Rightarrow> nat \<Rightarrow> public_key" where
  "get_tx_pub_key_from_extra tx_extra pk_index =
    (case field_from_extra sel_pub_key tx_extra pk_index of None \<Rightarrow> null_pkey | Some k \<Rightarrow> k)"

definition get_additional_tx_pub_keys_from_extra :: "bytes \<Rightarrow> public_key list" where
  "get_additional_tx_pub_keys_from_extra tx_extra =
    (case field_from_extra sel_additional tx_extra 0 of None \<Rightarrow> [] | Some ks \<Rightarrow> ks)"

definition get_service_node_pubkey_from_tx_extra :: "bytes \<Rightarrow> public_key option" where
  "get_service_node_pubkey_from_tx_extra tx_extra = field_from_extra sel_sn_pubkey tx_extra 0"

definition get_tx_secret_key_from_tx_extra :: "bytes \<Rightarrow> secret_key option" where
  "get_tx_secret_key_from_tx_extra tx_extra = field_from_extra sel_secret_key tx_extra 0"

definition get_tx_key_image_proofs_from_tx_extra :: "bytes \<Rightarrow> key_image_proof list option" where
  "get_tx_key_image_proofs_from_tx_extra tx_extra = field_from_extra sel_proofs tx_extra 0"

definition get_tx_key_image_unlock_from_tx_extra :: "bytes \<Rightarrow> tx_extra_tx_key_image_unlock option" where
  "get_tx_key_image_unlock_from_tx_extra tx_extra = field_from_extra sel_unlock tx_extra 0"

text \<open>The address as (spend key, view key).\<close>

definition get_service_node_contributor_from_tx_extra :: "bytes \<Rightarrow> (public_key \<times> public_key) option" where
  "get_service_node_contributor_from_tx_extra tx_extra = field_from_extra sel_contributor tx_extra 0"

definition get_service_node_register_from_tx_extra :: "bytes \<Rightarrow> tx_extra_service_node_register option" where
  "get_service_node_register_from_tx_extra tx_extra =
    (case field_from_extra sel_register tx_extra 0 of
       None \<Rightarrow> None
     | Some r \<Rightarrow> if length (reg_public_spend_keys r) = length (reg_public_view_keys r) then Some r else None)"

definition get_service_node_state_change_from_tx_extra :: "bytes \<Rightarrow> tx_extra_service_node_state_change option" where
  "get_service_node_state_change_from_tx_extra tx_extra = field_from_extra sel_state_change tx_extra 0"

definition get_service_node_winner_from_tx_extra :: "bytes \<Rightarrow> public_key" where
  "get_service_node_winner_from_tx_extra tx_extra =
    (case field_from_extra sel_winner tx_extra 0 of None \<Rightarrow> null_pkey | Some k \<Rightarrow> k)"

definition get_burned_amount_from_tx_extra :: "bytes \<Rightarrow> u64" where
  "get_burned_amount_from_tx_extra tx_extra =
    (case field_from_extra sel_burn tx_extra 0 of None \<Rightarrow> 0 | Some a \<Rightarrow> a)"

definition get_pulse_round_from_tx_extra :: "bytes \<Rightarrow> tx_extra_pulse_round option" where
  "get_pulse_round_from_tx_extra tx_extra =
    (let (r, fields) = parse_tx_extra tx_extra
     in if \<not> r then None else find_tx_extra_field_by_type sel_pulse fields 0)"

section \<open>Adding fields\<close>

definition add_data_to_tx_extra :: "bytes \<Rightarrow> bytes \<Rightarrow> u8 \<Rightarrow> bytes" where
  "add_data_to_tx_extra tx_extra data tag = tx_extra @ [tag] @ data"

definition add_tx_pub_key_to_extra :: "bytes \<Rightarrow> public_key \<Rightarrow> bytes" where
  "add_tx_pub_key_to_extra tx_extra k = add_data_to_tx_extra tx_extra k 0x01"

definition add_service_node_pubkey_to_tx_extra :: "bytes \<Rightarrow> public_key \<Rightarrow> bytes" where
  "add_service_node_pubkey_to_tx_extra tx_extra k = add_data_to_tx_extra tx_extra k 0x74"

definition add_service_node_contributor_to_tx_extra :: "bytes \<Rightarrow> public_key \<times> public_key \<Rightarrow> bytes" where
  "add_service_node_contributor_to_tx_extra tx_extra address =
    add_data_to_tx_extra tx_extra (fst address @ snd address) 0x73"

definition add_tx_secret_key_to_tx_extra :: "bytes \<Rightarrow> secret_key \<Rightarrow> bytes" where
  "add_tx_secret_key_to_tx_extra tx_extra k = add_data_to_tx_extra tx_extra k 0x75"

definition add_service_node_winner_to_tx_extra :: "bytes \<Rightarrow> public_key \<Rightarrow> bytes" where
  "add_service_node_winner_to_tx_extra tx_extra k = add_data_to_tx_extra tx_extra k 0x72"

definition add_tx_extra_field_to_tx_extra :: "bytes \<Rightarrow> tx_extra_field \<Rightarrow> bytes option" where
  "add_tx_extra_field_to_tx_extra tx_extra field = map_option (\<lambda>b. tx_extra @ b) (save_field field)"

definition add_additional_tx_pub_keys_to_extra :: "bytes \<Rightarrow> public_key list \<Rightarrow> bytes option" where
  "add_additional_tx_pub_keys_to_extra tx_extra ks = add_tx_extra_field_to_tx_extra tx_extra (extra_additional_pub_keys ks)"

definition add_service_node_state_change_to_tx_extra ::
  "bytes \<Rightarrow> tx_extra_service_node_state_change \<Rightarrow> bytes option" where
  "add_service_node_state_change_to_tx_extra tx_extra sc =
    add_tx_extra_field_to_tx_extra tx_extra (extra_service_node_state_change sc)"

definition add_tx_key_image_proofs_to_tx_extra :: "bytes \<Rightarrow> key_image_proof list \<Rightarrow> bytes option" where
  "add_tx_key_image_proofs_to_tx_extra tx_extra ps =
    add_tx_extra_field_to_tx_extra tx_extra (extra_tx_key_image_proofs ps)"

definition add_tx_key_image_unlock_to_tx_extra :: "bytes \<Rightarrow> tx_extra_tx_key_image_unlock \<Rightarrow> bytes option" where
  "add_tx_key_image_unlock_to_tx_extra tx_extra u =
    add_tx_extra_field_to_tx_extra tx_extra (extra_tx_key_image_unlock u)"

definition add_burned_amount_to_tx_extra :: "bytes \<Rightarrow> u64 \<Rightarrow> bytes option" where
  "add_burned_amount_to_tx_extra tx_extra a = add_tx_extra_field_to_tx_extra tx_extra (extra_burn a)"

definition add_pulse_round_to_tx_extra :: "bytes \<Rightarrow> tx_extra_pulse_round \<Rightarrow> bytes option" where
  "add_pulse_round_to_tx_extra tx_extra p = add_tx_extra_field_to_tx_extra tx_extra (extra_pulse_round p)"

definition add_service_node_register_to_tx_extra ::
  "bytes \<Rightarrow> (public_key \<times> public_key) list \<Rightarrow> u64 \<Rightarrow> u64 list \<Rightarrow> u64 \<Rightarrow> signature \<Rightarrow> bytes option" where
  "add_service_node_register_to_tx_extra tx_extra addresses portions_for_operator portions expiration sig =
    (if length addresses \<noteq> length portions then None
     else add_tx_extra_field_to_tx_extra tx_extra (extra_service_node_register
       \<lparr>reg_public_spend_keys = map fst addresses, reg_public_view_keys = map snd addresses,
        reg_portions_for_operator = portions_for_operator, reg_portions = portions,
        reg_expiration_timestamp = expiration, reg_service_node_signature = sig\<rparr>))"

definition add_extra_nonce_to_tx_extra :: "bytes \<Rightarrow> bytes \<Rightarrow> bytes option" where
  "add_extra_nonce_to_tx_extra tx_extra n =
    (if 255 < length n then None else Some (tx_extra @ [0x02, of_nat (length n)] @ n))"

section \<open>Payment ids in the nonce\<close>

definition set_payment_id_to_tx_extra_nonce :: "hash \<Rightarrow> bytes" where
  "set_payment_id_to_tx_extra_nonce payment_id = 0x00 # payment_id"

definition set_encrypted_payment_id_to_tx_extra_nonce :: "bytes \<Rightarrow> bytes" where
  "set_encrypted_payment_id_to_tx_extra_nonce payment_id = 0x01 # payment_id"

definition get_payment_id_from_tx_extra_nonce :: "bytes \<Rightarrow> hash option" where
  "get_payment_id_from_tx_extra_nonce n =
    (if length n \<noteq> 33 then None else if hd n \<noteq> 0x00 then None else Some (tl n))"

definition get_encrypted_payment_id_from_tx_extra_nonce :: "bytes \<Rightarrow> bytes option" where
  "get_encrypted_payment_id_from_tx_extra_nonce n =
    (if length n \<noteq> 9 then None else if hd n \<noteq> 0x01 then None else Some (tl n))"

section \<open>Sorting and removing fields\<close>

text \<open>\<open>pick\<close> writes the fields of one alternative, in order, and takes them out of the list.\<close>

fun pick :: "u8 \<Rightarrow> tx_extra_field list \<Rightarrow> (bytes \<times> tx_extra_field list) option" where
  "pick tag [] = Some ([], [])"
| "pick tag (f # fs) =
    (if field_tag f = tag then do {
       b \<leftarrow> save_field f;
       (bs, rest) \<leftarrow> pick tag fs;
       Some (b @ bs, rest)
     } else do {
       (bs, rest) \<leftarrow> pick tag fs;
       Some (bs, f # rest)
     })"

fun pick_all :: "u8 list \<Rightarrow> tx_extra_field list \<Rightarrow> (bytes \<times> tx_extra_field list) option" where
  "pick_all [] fs = Some ([], fs)"
| "pick_all (t # ts) fs = do {
     (b, fs) \<leftarrow> pick t fs;
     (bs, fs) \<leftarrow> pick_all ts fs;
     Some (b @ bs, fs)
   }"

definition sort_order :: "u8 list" where
  "sort_order = [0x01, 0x72, 0x04, 0x02, 0x70, 0x71, 0x73, 0x74, 0x75, 0x76, 0x77, 0x78, 0x79, 0x03, 0xDE, 0x00]"

definition sort_tx_extra :: "bytes \<Rightarrow> bool \<Rightarrow> bytes option" where
  "sort_tx_extra tx_extra allow_partial =
    (if tx_extra = [] then Some []
     else
       let (r, fields, unparsed) = parse_fields tx_extra
       in if \<not> r \<and> \<not> allow_partial then None
          else do {
            (b, left) \<leftarrow> pick_all sort_order fields;
            if left \<noteq> [] then None
            else Some (b @ (if allow_partial \<and> unparsed \<noteq> [] then unparsed else []))
          })"

text \<open>A field whose save fails is left out without an error.\<close>

definition remove_field_from_tx_extra :: "bytes \<Rightarrow> u8 \<Rightarrow> bytes option" where
  "remove_field_from_tx_extra tx_extra tag =
    (if tx_extra = [] then Some []
     else
       let (r, fields, _) = parse_fields tx_extra
       in if \<not> r then None
          else Some (concat (map (\<lambda>f. case save_field f of None \<Rightarrow> [] | Some b \<Rightarrow> b)
                       (filter (\<lambda>f. field_tag f \<noteq> tag) fields))))"

section \<open>Round trips\<close>

lemma new_state_of_value: "new_state_value s = v \<Longrightarrow> unat v < 4 \<Longrightarrow> (\<forall>u. s \<noteq> unknown_state u) \<Longrightarrow> new_state_of v = s"
  by (cases s) (auto simp: new_state_of_def)

definition valid_extra_vote :: "tx_extra_vote \<Rightarrow> bool" where
  "valid_extra_vote v \<longleftrightarrow> length (ev_signature v) = 64"

interpretation evote: element_codec save_extra_vote load_extra_vote valid_extra_vote
  by unfold_locales (simp_all add: save_extra_vote_def load_extra_vote_def valid_extra_vote_def codec_laws)

interpretation evotes: element_codec "save_container save_extra_vote" "load_container load_extra_vote"
    "\<lambda>xs. sized xs \<and> (\<forall>x \<in> set xs. valid_extra_vote x)"
  by (rule element_codec_container [OF evote.element_codec_axioms])

definition valid_proof :: "key_image_proof \<Rightarrow> bool" where
  "valid_proof p \<longleftrightarrow> length (kp_key_image p) = 32 \<and> length (kp_signature p) = 64"

interpretation kiproof: element_codec save_key_image_proof load_key_image_proof valid_proof
  by unfold_locales
    (auto simp: save_key_image_proof_def load_key_image_proof_def valid_proof_def load_blob_def save_blob_def)

interpretation kiproofs: element_codec "save_container save_key_image_proof" "load_container load_key_image_proof"
    "\<lambda>xs. sized xs \<and> (\<forall>x \<in> set xs. valid_proof x)"
  by (rule element_codec_container [OF kiproof.element_codec_axioms])

text \<open>The fields a node can build: keys and signatures of their size, counts that fit.\<close>

fun valid_field :: "tx_extra_field \<Rightarrow> bool" where
  "valid_field (extra_padding n) = (1 \<le> n \<and> n \<le> 255)"
| "valid_field (extra_pub_key k) = (length k = 32)"
| "valid_field (extra_nonce n) = (length n \<le> 255)"
| "valid_field (extra_merge_mining_tag d r) = (length r = 32)"
| "valid_field (extra_additional_pub_keys ks) = (sized ks \<and> (\<forall>k \<in> set ks. length k = 32))"
| "valid_field (extra_mysterious_minergate d) = sized d"
| "valid_field (extra_service_node_pubkey k) = (length k = 32)"
| "valid_field (extra_service_node_register r) =
    (sized (reg_public_spend_keys r) \<and> (\<forall>k \<in> set (reg_public_spend_keys r). length k = 32) \<and>
     sized (reg_public_view_keys r) \<and> (\<forall>k \<in> set (reg_public_view_keys r). length k = 32) \<and>
     sized (reg_portions r) \<and> length (reg_service_node_signature r) = 64)"
| "valid_field (extra_service_node_contributor s v) = (length s = 32 \<and> length v = 32)"
| "valid_field (extra_service_node_winner k) = (length k = 32)"
| "valid_field (extra_service_node_state_change sc) =
    ((\<forall>u. sc_state sc \<noteq> unknown_state u) \<and> sized (sc_votes sc) \<and> (\<forall>v \<in> set (sc_votes sc). valid_extra_vote v))"
| "valid_field (extra_tx_secret_key k) = (length k = 32)"
| "valid_field (extra_tx_key_image_proofs ps) = (sized ps \<and> (\<forall>p \<in> set ps. valid_proof p))"
| "valid_field (extra_tx_key_image_unlock u) = (length (ku_key_image u) = 32 \<and> length (ku_signature u) = 64)"
| "valid_field (extra_burn a) = True"
| "valid_field (extra_pulse_round p) =
    (length (pr_payload_hash p) = 32 \<and> sized (pr_votes p) \<and> (\<forall>v \<in> set (pr_votes p). valid_extra_vote v))"

lemma load_padding_zeros: "n + m \<le> 255 \<Longrightarrow> load_padding n (replicate m 0) = Some (n + m, [])"
  by (induction m arbitrary: n) simp_all

lemma save_padding_zeros: "n \<le> 255 \<Longrightarrow> save_padding n = Some (replicate (n - 1) 0)"
proof -
  assume "n \<le> 255"
  moreover have "save_uint (0 :: u8) = [0]" by (simp add: save_uint_def)
  moreover have "concat (replicate k [0 :: u8]) = replicate k 0" for k by (induction k) simp_all
  ultimately show ?thesis by (simp add: save_padding_def)
qed

lemma load_save_state_change:
  assumes "\<forall>u. sc_state sc \<noteq> unknown_state u" and "sized (sc_votes sc)" and "\<forall>v \<in> set (sc_votes sc). valid_extra_vote v"
  shows "load_state_change (save_state_change sc @ rest) = Some (sc, rest)"
proof -
  have "unat (new_state_value (sc_state sc)) < 4" using assms(1) by (cases "sc_state sc") auto
  with new_state_of_value [OF refl this assms(1)] assms(2,3) show ?thesis
    by (simp add: load_state_change_def save_state_change_def load_enum_save codec_laws evotes.load_save)
qed

lemma length_varint_bytes: "v < 128 ^ Suc k \<Longrightarrow> length (varint_bytes v) \<le> Suc k"
proof (induction k arbitrary: v)
  case 0
  then show ?case by (subst varint_bytes.simps) simp
next
  case (Suc k)
  have "v div 128 < 128 ^ Suc k" using Suc.prems by (simp add: less_mult_imp_div_less)
  with Suc.IH [of "v div 128"] show ?case by (subst varint_bytes.simps) simp
qed

lemma varint_root_sized:
  assumes "length r = 32"
  shows "sized (save_varint (d :: u64) @ save_blob r)"
proof -
  have "unat d < 128 ^ Suc 9" using unat64_bound [of d] by simp
  from length_varint_bytes [OF this] assms show ?thesis
    by (simp add: save_varint_def write_varint_nat sized_def save_blob_def)
qed

lemma load_save_field_value:
  assumes "valid_field f" and "save_field_value f = Some b" and "rest = [] \<or> field_tag f \<noteq> 0"
  shows "load_tagged (field_tag f) (b @ rest) = Some (f, rest)"
proof (cases f)
  case (extra_padding n)
  then show ?thesis
    using assms load_padding_zeros [of 1 "n - 1"] by (auto simp: load_tagged_def wrap_def save_padding_zeros)
next
  case (extra_nonce n)
  then have "sized n" using assms(1) by (simp add: sized_def)
  then show ?thesis
    using assms extra_nonce by (auto simp: load_tagged_def wrap_def load_nonce_def save_nonce_def string.load_save)
next
  case (extra_merge_mining_tag d r)
  then have "length r = 32" using assms(1) by simp
  then show ?thesis
    using assms(2) extra_merge_mining_tag string.load_save [OF varint_root_sized, of r d rest]
      blob32.load_save [of r "[]"]
    by (auto simp: load_tagged_def wrap_def save_merge_mining_tag_def load_merge_mining_tag_def codec_laws)
next
  case (extra_service_node_state_change sc)
  then show ?thesis
    using assms by (auto simp: load_tagged_def wrap_def load_save_state_change)
qed (use assms in \<open>auto simp: load_tagged_def wrap_def codec_laws kiproofs.load_save evotes.load_save
  load_register_def save_register_def load_key_image_unlock_def save_key_image_unlock_def load_pulse_round_def save_pulse_round_def\<close>)

lemma valid_field_saves: "valid_field f \<Longrightarrow> \<exists>b. save_field_value f = Some b"
  by (cases f) (auto simp: save_padding_def save_nonce_def)

text \<open>The bytes of a field and of a list of fields.\<close>

definition field_bytes :: "tx_extra_field \<Rightarrow> bytes" where
  "field_bytes f = (case save_field f of None \<Rightarrow> [] | Some b \<Rightarrow> b)"

definition fields_bytes :: "tx_extra_field list \<Rightarrow> bytes" where
  "fields_bytes fs = concat (map field_bytes fs)"

lemma save_field_valid: "valid_field f \<Longrightarrow> save_field f = Some (field_bytes f)"
  using valid_field_saves [of f] by (auto simp: save_field_def field_bytes_def)

lemma load_field_bytes:
  assumes "valid_field f" and "rest = [] \<or> field_tag f \<noteq> 0"
  shows "load_field (field_bytes f @ rest) = Some (f, rest)"
proof -
  obtain b where b: "save_field_value f = Some b" using valid_field_saves [OF assms(1)] by blast
  then have "field_bytes f = save_uint (field_tag f) @ b" by (simp add: field_bytes_def save_field_def)
  then show ?thesis
    using load_save_field_value [OF assms(1) b assms(2)] by (simp add: load_field_def codec_laws)
qed

lemma field_bytes_nonempty: "valid_field f \<Longrightarrow> field_bytes f \<noteq> []"
  using valid_field_saves uint8.save_nonempty by (fastforce simp: field_bytes_def save_field_def)

interpretation field: element_codec field_bytes load_field "\<lambda>f. valid_field f \<and> field_tag f \<noteq> 0"
  by unfold_locales (simp_all add: load_field_bytes field_bytes_nonempty)

text \<open>Padding runs to the end of the data, so that it can only be the last field.\<close>

definition well_formed :: "tx_extra_field list \<Rightarrow> bool" where
  "well_formed fs \<longleftrightarrow> (\<forall>f \<in> set fs. valid_field f) \<and> (\<forall>f \<in> set (butlast fs). field_tag f \<noteq> 0)"

lemma parse_fields_bytes:
  assumes "well_formed fs" and "fs \<noteq> []"
  shows "parse_fields (fields_bytes fs) = (True, fs, [])"
  using assms
proof (induction fs)
  case (Cons f fs)
  have vf: "valid_field f" using Cons.prems by (simp add: well_formed_def)
  show ?case
  proof (cases "fs = []")
    case True
    then show ?thesis
      using load_field_bytes [OF vf, of "[]"] by (subst parse_fields.simps) (simp add: fields_bytes_def)
  next
    case False
    then have wf: "well_formed fs" "field_tag f \<noteq> 0" using Cons.prems by (auto simp: well_formed_def)
    have "fields_bytes fs \<noteq> []"
      using False wf(1) field_bytes_nonempty by (cases fs) (auto simp: fields_bytes_def well_formed_def)
    then show ?thesis
      using Cons.IH [OF wf(1) False] load_field_bytes [OF vf, of "fields_bytes fs"] wf(2)
      by (subst parse_fields.simps) (auto simp: fields_bytes_def)
  qed
qed simp

lemma parse_tx_extra_bytes: "well_formed fs \<Longrightarrow> parse_tx_extra (fields_bytes fs) = (True, fs)"
  using parse_fields_bytes [of fs] field_bytes_nonempty
  by (cases fs) (auto simp: parse_tx_extra_def fields_bytes_def well_formed_def)

lemma fields_bytes_snoc: "fields_bytes (fs @ [f]) = fields_bytes fs @ field_bytes f"
  by (simp add: fields_bytes_def)

lemma nth_match_snoc: "(\<forall>f \<in> set fs. sel f = None) \<Longrightarrow> nth_match sel 0 (fs @ gs) = nth_match sel 0 gs"
  by (induction fs) simp_all

lemma field_from_extra_bytes:
  assumes "well_formed (fs @ [f])" and "\<forall>g \<in> set fs. sel g = None" and "sel f = Some x"
  shows "field_from_extra sel (fields_bytes (fs @ [f])) 0 = Some x"
  using parse_tx_extra_bytes [OF assms(1)] nth_match_snoc [OF assms(2), of "[f]"] assms(3)
  by (simp add: field_from_extra_def find_tx_extra_field_by_type_def)

lemma save_uint8: "save_uint (t :: u8) = [t]"
proof -
  have "ucast (t AND 0xff) = t" using ucast_low_byte [where v = t] by (simp add: take_bit_word_eq_self)
  then show ?thesis by (simp add: save_uint_def)
qed

lemma add_raw_fields:
  "add_tx_pub_key_to_extra e k = e @ field_bytes (extra_pub_key k)"
  "add_service_node_pubkey_to_tx_extra e k = e @ field_bytes (extra_service_node_pubkey k)"
  "add_service_node_contributor_to_tx_extra e a = e @ field_bytes (extra_service_node_contributor (fst a) (snd a))"
  "add_tx_secret_key_to_tx_extra e k = e @ field_bytes (extra_tx_secret_key k)"
  "add_service_node_winner_to_tx_extra e k = e @ field_bytes (extra_service_node_winner k)"
  by (simp_all add: add_tx_pub_key_to_extra_def add_service_node_pubkey_to_tx_extra_def
      add_service_node_contributor_to_tx_extra_def add_tx_secret_key_to_tx_extra_def
      add_service_node_winner_to_tx_extra_def add_data_to_tx_extra_def field_bytes_def save_field_def save_uint8 save_blob_def)

lemma add_short_nonce:
  assumes "length n < 128"
  shows "add_extra_nonce_to_tx_extra e n = Some (e @ field_bytes (extra_nonce n))"
proof -
  have "sized n" using assms by (simp add: sized_def)
  then have "save_varint (size_word n) = [of_nat (length n)]"
    using assms by (simp add: save_varint_def write_varint_nat unat_size_word varint_bytes.simps)
  then show ?thesis
    using assms by (simp add: add_extra_nonce_to_tx_extra_def field_bytes_def save_field_def save_nonce_def
        save_string_def save_blob_def save_uint8)
qed

section \<open>Sorting\<close>

lemma pick_valid:
  assumes "\<forall>f \<in> set fs. valid_field f"
  shows "pick t fs = Some (fields_bytes (filter (\<lambda>f. field_tag f = t) fs), filter (\<lambda>f. field_tag f \<noteq> t) fs)"
  using assms by (induction fs) (auto simp: save_field_valid fields_bytes_def)

definition by_tags :: "u8 list \<Rightarrow> tx_extra_field list \<Rightarrow> tx_extra_field list" where
  "by_tags ts fs = concat (map (\<lambda>t. filter (\<lambda>f. field_tag f = t) fs) ts)"

lemma set_by_tags: "set (by_tags ts fs) = {f \<in> set fs. field_tag f \<in> set ts}"
  by (auto simp: by_tags_def)

lemma pick_all_valid:
  assumes "\<forall>f \<in> set fs. valid_field f" and "distinct ts"
  shows "pick_all ts fs = Some (fields_bytes (by_tags ts fs), filter (\<lambda>f. field_tag f \<notin> set ts) fs)"
  using assms
proof (induction ts arbitrary: fs)
  case Nil
  then show ?case by (simp add: by_tags_def fields_bytes_def)
next
  case (Cons t ts)
  let ?fs = "filter (\<lambda>f. field_tag f \<noteq> t) fs"
  have "filter (\<lambda>f. field_tag f = u) ?fs = filter (\<lambda>f. field_tag f = u) fs" if "u \<in> set ts" for u
    using that Cons.prems(2) by (auto simp: filter_filter intro!: filter_cong)
  then have "by_tags ts ?fs = by_tags ts fs" by (simp add: by_tags_def cong: map_cong)
  moreover have "pick_all ts ?fs = Some (fields_bytes (by_tags ts ?fs), filter (\<lambda>f. field_tag f \<notin> set ts) ?fs)"
    using Cons by simp
  ultimately show ?case
    using pick_valid [OF Cons.prems(1), of t] by (simp add: by_tags_def fields_bytes_def filter_filter)
qed

lemma mset_by_tags: "distinct ts \<Longrightarrow> mset (by_tags ts fs) = mset (filter (\<lambda>f. field_tag f \<in> set ts) fs)"
proof (induction ts)
  case Nil
  then show ?case by (simp add: by_tags_def)
next
  case (Cons t ts)
  have "mset (filter (\<lambda>f. field_tag f = t \<or> field_tag f \<in> set ts) fs) =
      mset (filter (\<lambda>f. field_tag f = t) fs) + mset (filter (\<lambda>f. field_tag f \<in> set ts) fs)"
    using Cons.prems by (induction fs) auto
  with Cons show ?case by (simp add: by_tags_def)
qed

lemma sort_order_complete: "distinct sort_order" "field_tag f \<in> set sort_order"
  by (simp add: sort_order_def) (cases f; simp add: sort_order_def)

lemma one_padding: "well_formed fs \<Longrightarrow> length (filter (\<lambda>f. field_tag f = 0) fs) \<le> 1"
  by (cases fs rule: rev_cases) (auto simp: well_formed_def filter_empty_conv)

lemma by_tags_well_formed:
  assumes "well_formed fs"
  shows "well_formed (by_tags sort_order fs)"
proof -
  let ?A = "by_tags (butlast sort_order) fs" and ?P = "filter (\<lambda>f. field_tag f = 0) fs"
  have split: "by_tags sort_order fs = ?A @ ?P" by (simp add: by_tags_def sort_order_def)
  have "0 \<notin> set (butlast sort_order)" by (simp add: sort_order_def)
  then have A: "\<forall>f \<in> set ?A. field_tag f \<noteq> 0" by (auto simp: set_by_tags)
  have "butlast ?P = []" using one_padding [OF assms] by (cases ?P) auto
  then have "butlast (?A @ ?P) = (if ?P = [] then butlast ?A else ?A)" by (simp only: butlast_append append_Nil2)
  then have "set (butlast (?A @ ?P)) \<subseteq> set ?A" using in_set_butlastD by (metis subsetI)
  with A have "\<forall>f \<in> set (butlast (?A @ ?P)). field_tag f \<noteq> 0" by blast
  moreover have "\<forall>f \<in> set (by_tags sort_order fs). valid_field f"
    using assms by (auto simp: set_by_tags well_formed_def)
  ultimately show ?thesis unfolding well_formed_def split by blast
qed

section \<open>Properties\<close>

text \<open>
  (C17) The extra data of a transaction is a faithful encoding of its fields. Parsing the bytes of
  any well-formed list of fields returns the list; adding a field appends exactly its encoding,
  so that the field is found again; and the helpers that write keys by hand write the same
  bytes as the serializer.
\<close>

theorem tx_extra_round_trip:
  assumes "well_formed fs"
  shows "parse_tx_extra (fields_bytes fs) = (True, fs) \<and>
    (\<forall>f. well_formed (fs @ [f]) \<longrightarrow>
      add_tx_extra_field_to_tx_extra (fields_bytes fs) f = Some (fields_bytes (fs @ [f])) \<and>
      parse_tx_extra (fields_bytes (fs @ [f])) = (True, fs @ [f])) \<and>
    (\<forall>k. add_tx_pub_key_to_extra (fields_bytes fs) k = fields_bytes (fs @ [extra_pub_key k]) \<and>
      add_service_node_winner_to_tx_extra (fields_bytes fs) k = fields_bytes (fs @ [extra_service_node_winner k]) \<and>
      add_service_node_pubkey_to_tx_extra (fields_bytes fs) k = fields_bytes (fs @ [extra_service_node_pubkey k]))"
proof (intro conjI allI impI)
  show "parse_tx_extra (fields_bytes fs) = (True, fs)" by (rule parse_tx_extra_bytes [OF assms])
  fix f assume wf: "well_formed (fs @ [f])"
  then show "add_tx_extra_field_to_tx_extra (fields_bytes fs) f = Some (fields_bytes (fs @ [f]))"
    by (simp add: add_tx_extra_field_to_tx_extra_def fields_bytes_snoc save_field_valid well_formed_def)
  show "parse_tx_extra (fields_bytes (fs @ [f])) = (True, fs @ [f])" by (rule parse_tx_extra_bytes [OF wf])
qed (simp_all add: add_raw_fields fields_bytes_snoc)

lemma sort_fields_bytes:
  assumes "well_formed gs"
  shows "sort_tx_extra (fields_bytes gs) partial = Some (fields_bytes (by_tags sort_order gs))"
proof (cases "gs = []")
  case True
  then show ?thesis by (simp add: sort_tx_extra_def fields_bytes_def by_tags_def)
next
  case False
  then have "fields_bytes gs \<noteq> []"
    using assms field_bytes_nonempty by (cases gs) (auto simp: fields_bytes_def well_formed_def)
  then show ?thesis
    using parse_fields_bytes [OF assms False] assms sort_order_complete
      pick_all_valid [OF _ sort_order_complete(1), of gs]
    by (simp add: sort_tx_extra_def well_formed_def)
qed

text \<open>
  \<open>sort_tx_extra\<close> succeeds on the bytes of every well-formed list of fields, whatever the mode;
  the result parses to the same fields, grouped by kind in the fixed order and with the order
  within a kind kept; and sorting again changes nothing.
\<close>

theorem sort_tx_extra_correct:
  assumes "well_formed fs"
  shows "\<exists>out. sort_tx_extra (fields_bytes fs) partial = Some out \<and>
    parse_tx_extra out = (True, by_tags sort_order fs) \<and> mset (by_tags sort_order fs) = mset fs \<and>
    sort_tx_extra out partial = Some out"
proof -
  note sort = sort_fields_bytes
  have idem: "by_tags sort_order (by_tags sort_order fs) = by_tags sort_order fs"
    by (simp add: by_tags_def sort_order_def filter_filter conj_commute cong: conj_cong)
  have "mset (by_tags sort_order fs) = mset fs"
    by (simp add: mset_by_tags sort_order_complete)
  with sort [OF assms] sort [OF by_tags_well_formed [OF assms]] parse_tx_extra_bytes [OF by_tags_well_formed [OF assms]] idem
  show ?thesis by simp
qed

text \<open>
  \<open>add_extra_nonce_to_tx_extra\<close> writes the length of the nonce as one byte where the parser
  reads a varint. Nonces of fewer than 128 bytes come out as encoded by the serializer, but for
  128 zero bytes, within the announced limit of 255, the function succeeds and the result
  cannot be parsed.
\<close>

theorem add_extra_nonce_length_byte:
  "(length n < 128 \<longrightarrow> add_extra_nonce_to_tx_extra (fields_bytes fs) n = Some (fields_bytes (fs @ [extra_nonce n]))) \<and>
   (\<exists>e. add_extra_nonce_to_tx_extra [] (replicate 128 0) = Some e \<and> parse_tx_extra e = (False, []))"
proof
  show "length n < 128 \<longrightarrow> add_extra_nonce_to_tx_extra (fields_bytes fs) n = Some (fields_bytes (fs @ [extra_nonce n]))"
    by (simp add: add_short_nonce fields_bytes_snoc)
  have "load_field ([0x02, 0x80, 0] @ bs) = None" for bs
    by (simp add: load_field_def load_uint_def load_tagged_def wrap_def load_nonce_def load_string_def load_varint_def read_varint_def)
  moreover have "replicate 128 (0 :: u8) = 0 # replicate 127 0" by (simp flip: replicate_Suc)
  ultimately have "load_field ([0x02, 0x80] @ replicate 128 0) = None" by simp
  then show "\<exists>e. add_extra_nonce_to_tx_extra [] (replicate 128 0) = Some e \<and> parse_tx_extra e = (False, [])"
    by (simp add: add_extra_nonce_to_tx_extra_def parse_tx_extra_def parse_fields.simps)
qed

definition example_fields :: "tx_extra_field list" where
  "example_fields =
    [extra_nonce [1, 2, 3], extra_pub_key (replicate 32 7),
     extra_service_node_state_change \<lparr>sc_state = decommission, sc_block_height = 1000, sc_service_node_index = 3,
       sc_votes = [\<lparr>ev_signature = replicate 64 5, ev_validator_index = 2\<rparr>]\<rparr>]"

lemma example_fields_well_formed: "well_formed example_fields" "well_formed (example_fields @ [extra_burn 5])"
  by (simp_all add: well_formed_def example_fields_def sized_def valid_extra_vote_def)

theorem tx_extra_round_trip_witness:
  "well_formed example_fields \<and> parse_tx_extra (fields_bytes example_fields) = (True, example_fields) \<and>
    parse_tx_extra (fields_bytes (example_fields @ [extra_burn 5])) = (True, example_fields @ [extra_burn 5])"
  using tx_extra_round_trip [OF example_fields_well_formed(1)] example_fields_well_formed by blast

theorem sort_tx_extra_correct_witness:
  "well_formed example_fields \<and>
    (\<exists>out. sort_tx_extra (fields_bytes example_fields) False = Some out \<and> sort_tx_extra out False = Some out)"
  using sort_tx_extra_correct [OF example_fields_well_formed(1), of False] example_fields_well_formed by blast

theorem add_extra_nonce_length_byte_witness:
  "length [1, 2, 3 :: u8] < 128 \<and>
    add_extra_nonce_to_tx_extra (fields_bytes []) [1, 2, 3] = Some (fields_bytes [extra_nonce [1, 2, 3]])"
  using add_extra_nonce_length_byte [of "[1, 2, 3]" "[]"] by simp

end
