(* ===== verification/Voting.thy ===== *)
theory Voting
  imports Sn_Rules Tx_Extra
begin

text \<open>
  Votes of the service node quorums, \<open>cryptonote_core/service_node_voting.{h,cpp}\<close>: what is signed,
  the verification of state changes, checkpoints and single votes, and the pool in which votes
  wait. The signature scheme and the hash are parameters, gathered in a record; \<open>time(nullptr)\<close>
  is an argument of the operations that read the clock.
\<close>

section \<open>Data\<close>

text \<open>The operations of the crypto layer the service node code calls.\<close>

record crypto_ops =
  cn_fast_hash :: "bytes \<Rightarrow> hash"
  check_signature :: "hash \<Rightarrow> public_key \<Rightarrow> signature \<Rightarrow> bool"
  generate_signature :: "hash \<Rightarrow> public_key \<Rightarrow> secret_key \<Rightarrow> signature"

record service_node_keys =
  sn_key :: secret_key
  sn_pub :: public_key

record quorum =
  validators :: "public_key list"
  workers :: "public_key list"

record vote_verification_context =
  vvc_verification_failed :: bool
  vvc_invalid_block_height :: bool
  vvc_duplicate_voters :: bool
  vvc_validator_index_out_of_bounds :: bool
  vvc_worker_index_out_of_bounds :: bool
  vvc_signature_not_valid :: bool
  vvc_added_to_pool :: bool
  vvc_not_enough_votes :: bool
  vvc_incorrect_voting_group :: bool
  vvc_invalid_vote_type :: bool
  vvc_votes_not_sorted :: bool

record tx_verification_context =
  tvc_should_be_relayed :: bool
  tvc_verification_failed :: bool
  tvc_verification_impossible :: bool
  tvc_added_to_pool :: bool
  tvc_low_mixin :: bool
  tvc_double_spend :: bool
  tvc_invalid_input :: bool
  tvc_invalid_output :: bool
  tvc_too_big :: bool
  tvc_overspend :: bool
  tvc_fee_too_low :: bool
  tvc_not_rct :: bool
  tvc_too_few_outputs :: bool
  tvc_invalid_version :: bool
  tvc_invalid_type :: bool
  tvc_key_image_locked_by_snode :: bool
  tvc_key_image_blacklisted :: bool
  tvc_vote_ctx :: vote_verification_context

record checkpoint_vote =
  cv_block_hash :: hash

record state_change_vote =
  sv_worker_index :: u16
  sv_state :: new_state

text \<open>\<open>quorum_group\<close>, an 8-bit enumeration from the network.\<close>

datatype quorum_group = group_invalid | validator | worker | unknown_group u8

text \<open>The union of the vote's two payloads is selected by the type of the vote.\<close>

record quorum_vote_t =
  qv_version :: u8
  qv_type :: quorum_type
  qv_block_height :: u64
  qv_group :: quorum_group
  qv_index_in_group :: u16
  qv_signature :: signature
  qv_state_change :: state_change_vote
  qv_checkpoint :: checkpoint_vote

record voter_to_signature =
  vs_voter_index :: u16
  vs_signature :: signature

datatype checkpoint_type = hardcoded | service_node

record checkpoint_t =
  cp_version :: u8
  cp_type :: checkpoint_type
  cp_height :: u64
  cp_block_hash :: hash
  cp_signatures :: "voter_to_signature list"
  cp_prev_height :: u64

section \<open>What is signed\<close>

definition make_state_change_vote_hash :: "crypto_ops \<Rightarrow> u64 \<Rightarrow> u32 \<Rightarrow> new_state \<Rightarrow> hash" where
  "make_state_change_vote_hash C block_height service_node_index state =
    (let state_int = new_state_value state;
         buf = save_uint block_height @ save_uint service_node_index @ save_uint state_int;
         size = (if state = deregister then length buf - 2 else length buf)
     in cn_fast_hash C (take size buf))"

text \<open>A vote of an unhandled type gets the all-zero signature.\<close>

definition make_signature_from_vote :: "crypto_ops \<Rightarrow> quorum_vote_t \<Rightarrow> service_node_keys \<Rightarrow> signature" where
  "make_signature_from_vote C vote keys =
    (case qv_type vote of
       obligations \<Rightarrow>
         generate_signature C
           (make_state_change_vote_hash C (qv_block_height vote) (ucast (sv_worker_index (qv_state_change vote)))
             (sv_state (qv_state_change vote))) (sn_pub keys) (sn_key keys)
     | checkpointing \<Rightarrow>
         generate_signature C (cv_block_hash (qv_checkpoint vote)) (sn_pub keys) (sn_key keys)
     | unknown_quorum _ \<Rightarrow> null_bytes 64)"

definition make_signature_from_tx_state_change ::
  "crypto_ops \<Rightarrow> tx_extra_service_node_state_change \<Rightarrow> service_node_keys \<Rightarrow> signature" where
  "make_signature_from_tx_state_change C state_change keys =
    generate_signature C
      (make_state_change_vote_hash C (sc_block_height state_change) (sc_service_node_index state_change)
        (sc_state state_change)) (sn_pub keys) (sn_key keys)"

section \<open>Verifying a state change\<close>

definition bounds_check_worker_index ::
  "quorum \<Rightarrow> u32 \<Rightarrow> vote_verification_context \<Rightarrow> bool \<times> vote_verification_context" where
  "bounds_check_worker_index q worker_index vvc =
    (if length (workers q) \<le> unat worker_index then (False, vvc\<lparr>vvc_worker_index_out_of_bounds := True\<rparr>)
     else (True, vvc))"

definition bounds_check_validator_index ::
  "quorum \<Rightarrow> u32 \<Rightarrow> vote_verification_context \<Rightarrow> bool \<times> vote_verification_context" where
  "bounds_check_validator_index q validator_index vvc =
    (if length (validators q) \<le> unat validator_index then (False, vvc\<lparr>vvc_validator_index_out_of_bounds := True\<rparr>)
     else (True, vvc))"

definition bad_tx :: "tx_verification_context \<Rightarrow> bool \<times> tx_verification_context" where
  "bad_tx tvc = (False, tvc\<lparr>tvc_verification_failed := True\<rparr>)"

text \<open>
  The loop over the votes: the counters of \<open>validator_set\<close> and the tracker of the last index. The
  counters are an array of \<open>STATE_CHANGE_QUORUM_SIZE\<close> elements; an index beyond it is undefined.
\<close>

fun check_state_change_votes ::
  "crypto_ops \<Rightarrow> hash \<Rightarrow> quorum \<Rightarrow> u8 \<Rightarrow> tx_extra_vote list \<Rightarrow> nat list \<Rightarrow> int \<Rightarrow> tx_verification_context \<Rightarrow>
    (bool \<times> tx_verification_context) outcome" where
  "check_state_change_votes C h q hf [] validator_set tracker tvc = Inr (True, tvc)"
| "check_state_change_votes C h q hf (vote # votes) validator_set tracker tvc =
    (let index = ev_validator_index vote;
         vvc = tvc_vote_ctx tvc
     in if 17 \<le> hf \<and> sint index \<le> tracker
        then Inr (bad_tx (tvc\<lparr>tvc_vote_ctx := vvc\<lparr>vvc_votes_not_sorted := True\<rparr>\<rparr>))
        else
          let tracker = (if 17 \<le> hf then sint index else tracker);
              (ok, vvc) = bounds_check_validator_index q index vvc
          in if \<not> ok then Inr (bad_tx (tvc\<lparr>tvc_vote_ctx := vvc\<rparr>))
             else
               bindE (at_ub validator_set (unat index)) (\<lambda>n.
               if 1 < n + 1 then Inr (bad_tx (tvc\<lparr>tvc_vote_ctx := vvc\<lparr>vvc_duplicate_voters := True\<rparr>\<rparr>))
               else if \<not> check_signature C h (validators q ! unat index) (ev_signature vote)
               then Inr (bad_tx (tvc\<lparr>tvc_vote_ctx := vvc\<lparr>vvc_signature_not_valid := True\<rparr>\<rparr>))
               else check_state_change_votes C h q hf votes (validator_set[unat index := n + 1]) tracker tvc))"

definition verify_tx_state_change ::
  "crypto_ops \<Rightarrow> tx_extra_service_node_state_change \<Rightarrow> u64 \<Rightarrow> tx_verification_context \<Rightarrow> quorum \<Rightarrow> u8 \<Rightarrow>
    (bool \<times> tx_verification_context) outcome" where
  "verify_tx_state_change C state_change latest_height tvc q hard_fork_version =
    (let vvc = tvc_vote_ctx tvc;
         height = sc_block_height state_change
     in if length (sc_votes state_change) < STATE_CHANGE_MIN_VOTES_TO_CHANGE_STATE
        then Inr (bad_tx (tvc\<lparr>tvc_vote_ctx := vvc\<lparr>vvc_not_enough_votes := True\<rparr>\<rparr>))
        else if STATE_CHANGE_QUORUM_SIZE < length (sc_votes state_change) then Inr (bad_tx tvc)
        else
          let (ok, vvc) = bounds_check_worker_index q (sc_service_node_index state_change) vvc
          in if \<not> ok then Inr (bad_tx (tvc\<lparr>tvc_vote_ctx := vvc\<rparr>))
             else if latest_height \<le> height then
               Inr (False, tvc\<lparr>tvc_vote_ctx := vvc\<lparr>vvc_invalid_block_height := True\<rparr>,
                 tvc_verification_failed :=
                   (if latest_height + VOTE_OR_TX_VERIFY_HEIGHT_BUFFER \<le> height then True
                    else tvc_verification_failed tvc)\<rparr>)
             else if height + STATE_CHANGE_TX_LIFETIME_IN_BLOCKS \<le> latest_height then
               Inr (False, tvc\<lparr>tvc_vote_ctx := vvc\<lparr>vvc_invalid_block_height := True\<rparr>,
                 tvc_verification_failed :=
                   (if height + (STATE_CHANGE_TX_LIFETIME_IN_BLOCKS + VOTE_OR_TX_VERIFY_HEIGHT_BUFFER) \<le> latest_height
                    then True else tvc_verification_failed tvc)\<rparr>)
             else
               let h = make_state_change_vote_hash C height (sc_service_node_index state_change) (sc_state state_change)
               in check_state_change_votes C h q hard_fork_version (sc_votes state_change)
                    (replicate STATE_CHANGE_QUORUM_SIZE 0) (- 1) tvc)"

section \<open>Verifying a checkpoint\<close>

fun check_checkpoint_votes ::
  "crypto_ops \<Rightarrow> hash \<Rightarrow> quorum \<Rightarrow> u8 \<Rightarrow> voter_to_signature list \<Rightarrow> nat list \<Rightarrow> bool outcome" where
  "check_checkpoint_votes C h q hf [] unique_vote_set = Inr True"
| "check_checkpoint_votes C h q hf (v # vs) unique_vote_set =
    (if 17 \<le> hf \<and> vs \<noteq> [] \<and> vs_voter_index (hd vs) \<le> vs_voter_index v then Inr False
     else if length (validators q) \<le> unat (vs_voter_index v) then Inr False
     else
       bindE (at_ub unique_vote_set (unat (vs_voter_index v))) (\<lambda>n.
       if n \<noteq> 0 then Inr False
       else if \<not> check_signature C h (validators q ! unat (vs_voter_index v)) (vs_signature v) then Inr False
       else check_checkpoint_votes C h q hf vs (unique_vote_set[unat (vs_voter_index v) := n + 1])))"

definition verify_checkpoint :: "crypto_ops \<Rightarrow> u8 \<Rightarrow> checkpoint_t \<Rightarrow> quorum \<Rightarrow> bool outcome" where
  "verify_checkpoint C hard_fork_version checkpoint q =
    (if cp_type checkpoint = service_node then
       if cp_height checkpoint mod CHECKPOINT_INTERVAL \<noteq> 0 then Inr False
       else if length (cp_signatures checkpoint) < CHECKPOINT_MIN_VOTES then Inr False
       else if CHECKPOINT_QUORUM_SIZE < length (cp_signatures checkpoint) then Inr False
       else check_checkpoint_votes C (cp_block_hash checkpoint) q hard_fork_version (cp_signatures checkpoint)
              (replicate CHECKPOINT_QUORUM_SIZE 0)
     else Inr (cp_signatures checkpoint = []))"

section \<open>Making votes\<close>

definition null_vote :: quorum_vote_t where
  "null_vote = \<lparr>qv_version = 0, qv_type = obligations, qv_block_height = 0, qv_group = group_invalid,
    qv_index_in_group = 0, qv_signature = null_bytes 64,
    qv_state_change = \<lparr>sv_worker_index = 0, sv_state = deregister\<rparr>,
    qv_checkpoint = \<lparr>cv_block_hash = null_hash\<rparr>\<rparr>"

definition make_state_change_vote :: "crypto_ops \<Rightarrow> u64 \<Rightarrow> u16 \<Rightarrow> u16 \<Rightarrow> new_state \<Rightarrow> service_node_keys \<Rightarrow> quorum_vote_t" where
  "make_state_change_vote C block_height validator_index worker_index state keys =
    (let result = null_vote\<lparr>qv_type := obligations, qv_block_height := block_height, qv_group := validator,
           qv_index_in_group := validator_index,
           qv_state_change := \<lparr>sv_worker_index = worker_index, sv_state = state\<rparr>\<rparr>
     in result\<lparr>qv_signature := make_signature_from_vote C result keys\<rparr>)"

definition make_checkpointing_vote :: "crypto_ops \<Rightarrow> u8 \<Rightarrow> hash \<Rightarrow> u64 \<Rightarrow> u16 \<Rightarrow> service_node_keys \<Rightarrow> quorum_vote_t" where
  "make_checkpointing_vote C hard_fork_version block_hash block_height index_in_quorum keys =
    (let result = null_vote\<lparr>qv_type := checkpointing, qv_checkpoint := \<lparr>cv_block_hash = block_hash\<rparr>,
           qv_block_height := block_height, qv_group := validator, qv_index_in_group := index_in_quorum\<rparr>
     in result\<lparr>qv_signature := make_signature_from_vote C result keys\<rparr>)"

definition make_empty_service_node_checkpoint :: "hash \<Rightarrow> u64 \<Rightarrow> checkpoint_t" where
  "make_empty_service_node_checkpoint block_hash height =
    \<lparr>cp_version = 0, cp_type = service_node, cp_height = height, cp_block_hash = block_hash,
     cp_signatures = [], cp_prev_height = 0\<rparr>"

section \<open>Verifying a vote\<close>

definition verify_vote_age ::
  "quorum_vote_t \<Rightarrow> u64 \<Rightarrow> vote_verification_context \<Rightarrow> bool \<times> vote_verification_context" where
  "verify_vote_age vote latest_height vvc =
    (let height = qv_block_height vote;
         (height_in_buffer, vvc) =
           (if height + VOTE_LIFETIME < latest_height
            then (latest_height \<le> height + (VOTE_LIFETIME + VOTE_OR_TX_VERIFY_HEIGHT_BUFFER),
                  vvc\<lparr>vvc_invalid_block_height := True\<rparr>)
            else if latest_height < height
            then (height \<le> latest_height + VOTE_OR_TX_VERIFY_HEIGHT_BUFFER, vvc\<lparr>vvc_invalid_block_height := True\<rparr>)
            else (False, vvc))
     in if vvc_invalid_block_height vvc then (False, vvc\<lparr>vvc_verification_failed := \<not> height_in_buffer\<rparr>)
        else (True, vvc))"

text \<open>
  The first two checks both run; then the bounds, the payload and the signature, in the code's
  order.
\<close>

definition verify_vote_signature ::
  "crypto_ops \<Rightarrow> u8 \<Rightarrow> quorum_vote_t \<Rightarrow> vote_verification_context \<Rightarrow> quorum \<Rightarrow> bool \<times> vote_verification_context" where
  "verify_vote_signature C hard_fork_version vote vvc q =
    (let bad_type = (case qv_type vote of unknown_quorum _ \<Rightarrow> True | _ \<Rightarrow> False);
         vvc = (if bad_type then vvc\<lparr>vvc_invalid_vote_type := True\<rparr> else vvc);
         bad_group = (qv_group vote \<noteq> validator \<and> qv_group vote \<noteq> worker);
         vvc = (if bad_group then vvc\<lparr>vvc_incorrect_voting_group := True\<rparr> else vvc)
     in if bad_type \<or> bad_group then (False, vvc)
        else
          let (ok, vvc) = (if qv_group vote = validator
                           then bounds_check_validator_index q (ucast (qv_index_in_group vote)) vvc
                           else bounds_check_worker_index q (ucast (qv_index_in_group vote)) vvc)
          in if \<not> ok then (False, vvc)
             else if qv_group vote \<noteq> validator then (False, vvc\<lparr>vvc_incorrect_voting_group := True\<rparr>)
             else
               let key = validators q ! unat (qv_index_in_group vote);
                   (h, ok, vvc) =
                     (if qv_type vote = obligations then
                        let (ok, vvc) = bounds_check_worker_index q (ucast (sv_worker_index (qv_state_change vote))) vvc
                        in (make_state_change_vote_hash C (qv_block_height vote)
                              (ucast (sv_worker_index (qv_state_change vote))) (sv_state (qv_state_change vote)), ok, vvc)
                      else (cv_block_hash (qv_checkpoint vote), True, vvc))
               in if \<not> ok then (False, vvc)
                  else if check_signature C h key (qv_signature vote) then (True, vvc)
                  else (False, vvc\<lparr>vvc_signature_not_valid := True\<rparr>))"

section \<open>The pool\<close>

record pool_vote_entry =
  pe_vote :: quorum_vote_t
  pe_time_last_sent_p2p :: u64

record obligations_pool_entry =
  oe_height :: u64
  oe_worker_index :: u32
  oe_state :: new_state
  oe_votes :: "pool_vote_entry list"

record checkpoint_pool_entry =
  ce_height :: u64
  ce_hash :: hash
  ce_votes :: "pool_vote_entry list"

record voting_pool =
  obligations_pool :: "obligations_pool_entry list"
  checkpoint_pool :: "checkpoint_pool_entry list"

text \<open>The constructors from a vote and from a state change, and the equality of entries.\<close>

definition obligations_entry_of_vote :: "quorum_vote_t \<Rightarrow> obligations_pool_entry" where
  "obligations_entry_of_vote vote =
    \<lparr>oe_height = qv_block_height vote, oe_worker_index = ucast (sv_worker_index (qv_state_change vote)),
     oe_state = sv_state (qv_state_change vote), oe_votes = []\<rparr>"

definition obligations_entry_of_change :: "tx_extra_service_node_state_change \<Rightarrow> obligations_pool_entry" where
  "obligations_entry_of_change sc =
    \<lparr>oe_height = sc_block_height sc, oe_worker_index = sc_service_node_index sc, oe_state = sc_state sc, oe_votes = []\<rparr>"

definition same_obligation :: "obligations_pool_entry \<Rightarrow> obligations_pool_entry \<Rightarrow> bool" where
  "same_obligation a b \<longleftrightarrow> oe_height a = oe_height b \<and> oe_worker_index a = oe_worker_index b \<and> oe_state a = oe_state b"

definition checkpoint_entry_of_vote :: "quorum_vote_t \<Rightarrow> checkpoint_pool_entry" where
  "checkpoint_entry_of_vote vote =
    \<lparr>ce_height = qv_block_height vote, ce_hash = cv_block_hash (qv_checkpoint vote), ce_votes = []\<rparr>"

definition same_checkpoint :: "checkpoint_pool_entry \<Rightarrow> checkpoint_pool_entry \<Rightarrow> bool" where
  "same_checkpoint a b \<longleftrightarrow> ce_height a = ce_height b \<and> ce_hash a = ce_hash b"

text \<open>
  \<open>find_vote_in_pool\<close>, as an index: the entry of the vote, created at the end when asked for. The
  equality and the new entry are arguments, for the template's two uses.
\<close>

fun index_where :: "('a \<Rightarrow> bool) \<Rightarrow> 'a list \<Rightarrow> nat option" where
  "index_where P [] = None"
| "index_where P (x # xs) = (if P x then Some 0 else map_option Suc (index_where P xs))"

definition find_vote_in_pool :: "('e \<Rightarrow> 'e \<Rightarrow> bool) \<Rightarrow> 'e \<Rightarrow> bool \<Rightarrow> 'e list \<Rightarrow> nat option \<times> 'e list" where
  "find_vote_in_pool same typed_vote create pool =
    (case index_where (\<lambda>e. same e typed_vote) pool of
       Some i \<Rightarrow> (Some i, pool)
     | None \<Rightarrow> if create then (Some (length pool), pool @ [typed_vote]) else (None, pool))"

text \<open>
  \<open>find_vote_pool\<close> followed by an update of the votes it points to: the votes before the update
  and the new pool, or \<open>None\<close> where the code gets a null pointer.
\<close>

definition update_obligations_votes ::
  "quorum_vote_t \<Rightarrow> bool \<Rightarrow> (pool_vote_entry list \<Rightarrow> pool_vote_entry list) \<Rightarrow> obligations_pool_entry list \<Rightarrow>
    pool_vote_entry list option \<times> obligations_pool_entry list" where
  "update_obligations_votes vote create f pool =
    (case find_vote_in_pool same_obligation (obligations_entry_of_vote vote) create pool of
       (None, pool) \<Rightarrow> (None, pool)
     | (Some i, pool) \<Rightarrow>
         (Some (oe_votes (pool ! i)), pool[i := (pool ! i)\<lparr>oe_votes := f (oe_votes (pool ! i))\<rparr>]))"

definition update_checkpoint_votes ::
  "quorum_vote_t \<Rightarrow> bool \<Rightarrow> (pool_vote_entry list \<Rightarrow> pool_vote_entry list) \<Rightarrow> checkpoint_pool_entry list \<Rightarrow>
    pool_vote_entry list option \<times> checkpoint_pool_entry list" where
  "update_checkpoint_votes vote create f pool =
    (case find_vote_in_pool same_checkpoint (checkpoint_entry_of_vote vote) create pool of
       (None, pool) \<Rightarrow> (None, pool)
     | (Some i, pool) \<Rightarrow>
         (Some (ce_votes (pool ! i)), pool[i := (pool ! i)\<lparr>ce_votes := f (ce_votes (pool ! i))\<rparr>]))"

definition update_vote_pool ::
  "quorum_vote_t \<Rightarrow> bool \<Rightarrow> (pool_vote_entry list \<Rightarrow> pool_vote_entry list) \<Rightarrow> voting_pool \<Rightarrow>
    pool_vote_entry list option \<times> voting_pool" where
  "update_vote_pool vote create f vp =
    (case qv_type vote of
       obligations \<Rightarrow>
         let (old, p) = update_obligations_votes vote create f (obligations_pool vp)
         in (old, vp\<lparr>obligations_pool := p\<rparr>)
     | checkpointing \<Rightarrow>
         let (old, p) = update_checkpoint_votes vote create f (checkpoint_pool vp)
         in (old, vp\<lparr>checkpoint_pool := p\<rparr>)
     | unknown_quorum _ \<Rightarrow> (None, vp))"

fun mark_sent :: "u64 \<Rightarrow> u16 \<Rightarrow> pool_vote_entry list \<Rightarrow> pool_vote_entry list" where
  "mark_sent now index [] = []"
| "mark_sent now index (e # es) =
    (if index = qv_index_in_group (pe_vote e) then e\<lparr>pe_time_last_sent_p2p := now\<rparr> # es
     else e # mark_sent now index es)"

definition set_relayed :: "u64 \<Rightarrow> quorum_vote_t list \<Rightarrow> voting_pool \<Rightarrow> voting_pool" where
  "set_relayed now votes vp =
    fold (\<lambda>vote vp. snd (update_vote_pool vote False (mark_sent now (qv_index_in_group vote)) vp)) votes vp"

definition append_relayable_votes :: "('e \<Rightarrow> pool_vote_entry list) \<Rightarrow> 'e list \<Rightarrow> u64 \<Rightarrow> u64 \<Rightarrow> quorum_vote_t list" where
  "append_relayable_votes votes pool max_last_sent min_height =
    concat (map (\<lambda>e. map pe_vote (filter (\<lambda>v. min_height \<le> qv_block_height (pe_vote v) \<and>
      pe_time_last_sent_p2p v \<le> max_last_sent) (votes e))) pool)"

definition get_relayable_votes :: "u64 \<Rightarrow> voting_pool \<Rightarrow> u64 \<Rightarrow> u8 \<Rightarrow> bool \<Rightarrow> quorum_vote_t list" where
  "get_relayable_votes now vp height hard_fork_version quorum_relay =
    (let max_last_sent = now - 60 * 2;
         min_height = (if VOTE_LIFETIME < height then height - VOTE_LIFETIME else 0)
     in if quorum_relay \<and> hard_fork_version < 17 then []
        else
          (if hard_fork_version < 17 \<or> quorum_relay
           then append_relayable_votes oe_votes (obligations_pool vp) max_last_sent min_height else []) @
          (if hard_fork_version < 17 \<or> \<not> quorum_relay
           then append_relayable_votes ce_votes (checkpoint_pool vp) max_last_sent min_height else []))"

text \<open>
  \<open>std::lower_bound\<close> on votes kept in ascending order of index, and the insertion there. A new
  entry was never sent.
\<close>

fun add_vote_to_pool_if_unique :: "quorum_vote_t \<Rightarrow> pool_vote_entry list \<Rightarrow> bool \<times> pool_vote_entry list" where
  "add_vote_to_pool_if_unique vote [] = (True, [\<lparr>pe_vote = vote, pe_time_last_sent_p2p = 0\<rparr>])"
| "add_vote_to_pool_if_unique vote (e # es) =
    (if qv_index_in_group (pe_vote e) < qv_index_in_group vote then
       let (added, es) = add_vote_to_pool_if_unique vote es in (added, e # es)
     else if qv_index_in_group (pe_vote e) \<noteq> qv_index_in_group vote then
       (True, \<lparr>pe_vote = vote, pe_time_last_sent_p2p = 0\<rparr> # e # es)
     else (False, e # es))"

definition add_pool_vote_if_unique ::
  "quorum_vote_t \<Rightarrow> vote_verification_context \<Rightarrow> voting_pool \<Rightarrow>
    pool_vote_entry list \<times> vote_verification_context \<times> voting_pool" where
  "add_pool_vote_if_unique vote vvc vp =
    (case update_vote_pool vote True (\<lambda>votes. snd (add_vote_to_pool_if_unique vote votes)) vp of
       (None, vp) \<Rightarrow> ([], vvc, vp)
     | (Some old, vp) \<Rightarrow>
         let (added, votes) = add_vote_to_pool_if_unique vote old
         in (votes, vvc\<lparr>vvc_added_to_pool := added\<rparr>, vp))"

fun erase_first :: "('a \<Rightarrow> bool) \<Rightarrow> 'a list \<Rightarrow> 'a list" where
  "erase_first P [] = []"
| "erase_first P (x # xs) = (if P x then xs else x # erase_first P xs)"

definition remove_used_votes :: "'a transaction_prefix_scheme list \<Rightarrow> voting_pool \<Rightarrow> voting_pool" where
  "remove_used_votes txs vp =
    (if obligations_pool vp = [] then vp
     else
       fold (\<lambda>tx vp.
         if tx_type tx \<noteq> state_change_tx then vp
         else case get_service_node_state_change_from_tx_extra (extra tx) of
           None \<Rightarrow> vp
         | Some sc \<Rightarrow>
             vp\<lparr>obligations_pool :=
               erase_first (\<lambda>e. same_obligation e (obligations_entry_of_change sc)) (obligations_pool vp)\<rparr>)
       txs vp)"

definition cull_votes :: "('e \<Rightarrow> u64) \<Rightarrow> u64 \<Rightarrow> u64 \<Rightarrow> 'e list \<Rightarrow> 'e list" where
  "cull_votes height min_height max_height pool = filter (\<lambda>e. \<not> (height e < min_height \<or> max_height < height e)) pool"

definition remove_expired_votes :: "u64 \<Rightarrow> voting_pool \<Rightarrow> voting_pool" where
  "remove_expired_votes height vp =
    (let min_height = (if height < VOTE_LIFETIME then 0 else height - VOTE_LIFETIME)
     in vp\<lparr>obligations_pool := cull_votes oe_height min_height height (obligations_pool vp),
           checkpoint_pool := cull_votes ce_height min_height height (checkpoint_pool vp)\<rparr>)"

definition received_checkpoint_vote :: "voting_pool \<Rightarrow> u64 \<Rightarrow> nat \<Rightarrow> bool" where
  "received_checkpoint_vote vp height index_in_quorum =
    (case find (\<lambda>e. ce_height e = height) (checkpoint_pool vp) of
       None \<Rightarrow> False
     | Some e \<Rightarrow> list_ex (\<lambda>v. unat (qv_index_in_group (pe_vote v)) = index_in_quorum) (ce_votes e))"

section \<open>State changes: what is accepted\<close>

definition vote_counts :: "nat list \<Rightarrow> nat set \<Rightarrow> bool" where
  "vote_counts xs S \<longleftrightarrow> (\<forall>i < length xs. xs ! i = (if i \<in> S then 1 else 0))"

lemma vote_counts_update: "vote_counts xs S \<Longrightarrow> i < length xs \<Longrightarrow> vote_counts (xs[i := 1]) (insert i S)"
  by (auto simp: vote_counts_def nth_list_update)

lemma sint_small_u32:
  assumes "unat (i :: u32) < 2 ^ 31" shows "sint i = int (unat i)"
proof -
  have "int (unat i) < int (2 ^ 31)" using assms by (simp only: of_nat_less_iff)
  then have "uint i < 2 ^ 31" by simp
  moreover have "- (2 ^ 31) \<le> uint i" by (rule order_trans [OF _ uint_ge_0]) simp
  ultimately have "signed_take_bit 31 (uint i) = uint i" by (intro signed_take_bit_int_eq_self)
  then show ?thesis by (simp add: sint_uint)
qed

lemmas vote_limits = STATE_CHANGE_MIN_VOTES_TO_CHANGE_STATE_def STATE_CHANGE_QUORUM_SIZE_def CHECKPOINT_INTERVAL_def
  CHECKPOINT_MIN_VOTES_def CHECKPOINT_QUORUM_SIZE_def

definition signed_votes :: "crypto_ops \<Rightarrow> hash \<Rightarrow> quorum \<Rightarrow> tx_extra_vote list \<Rightarrow> bool" where
  "signed_votes C h q votes \<longleftrightarrow>
    (\<forall>v \<in> set votes. unat (ev_validator_index v) < length (validators q) \<and>
      check_signature C h (validators q ! unat (ev_validator_index v)) (ev_signature v))"

abbreviation vote_index :: "tx_extra_vote \<Rightarrow> nat" where
  "vote_index v \<equiv> unat (ev_validator_index v)"

definition acceptable_votes :: "crypto_ops \<Rightarrow> hash \<Rightarrow> quorum \<Rightarrow> u8 \<Rightarrow> nat set \<Rightarrow> int \<Rightarrow> tx_extra_vote list \<Rightarrow> bool" where
  "acceptable_votes C h q hf S tracker votes \<longleftrightarrow>
    signed_votes C h q votes \<and> distinct (map vote_index votes) \<and> (\<forall>v \<in> set votes. vote_index v \<notin> S) \<and>
    (17 \<le> hf \<longrightarrow> sorted_wrt (<) (map vote_index votes) \<and> (\<forall>v \<in> set votes. tracker < int (vote_index v)))"

lemma ascending_from:
  fixes f :: "'a \<Rightarrow> nat"
  shows "(\<forall>w \<in> set (v # votes). tracker < int (f w)) \<and> (\<forall>w \<in> set votes. f v < f w) \<longleftrightarrow>
    tracker < int (f v) \<and> (\<forall>w \<in> set votes. int (f v) < int (f w))"
  by fastforce

lemma acceptable_votes_Cons:
  "acceptable_votes C h q hf S tracker (v # votes) \<longleftrightarrow>
    vote_index v < length (validators q) \<and> check_signature C h (validators q ! vote_index v) (ev_signature v) \<and>
    vote_index v \<notin> S \<and> (17 \<le> hf \<longrightarrow> tracker < int (vote_index v)) \<and>
    acceptable_votes C h q hf (insert (vote_index v) S) (if 17 \<le> hf then int (vote_index v) else tracker) votes"
proof (cases "17 \<le> hf")
  case True
  have "signed_votes C h q (v # votes) \<longleftrightarrow> vote_index v < length (validators q) \<and>
      check_signature C h (validators q ! vote_index v) (ev_signature v) \<and> signed_votes C h q votes"
    by (simp add: signed_votes_def)
  moreover have "distinct (map vote_index (v # votes)) \<and> (\<forall>w \<in> set (v # votes). vote_index w \<notin> S) \<longleftrightarrow>
      vote_index v \<notin> S \<and> distinct (map vote_index votes) \<and> (\<forall>w \<in> set votes. vote_index w \<notin> insert (vote_index v) S)"
    by (auto simp: image_iff)
  moreover have "sorted_wrt (<) (map vote_index (v # votes)) \<longleftrightarrow>
      (\<forall>w \<in> set votes. vote_index v < vote_index w) \<and> sorted_wrt (<) (map vote_index votes)" by simp
  moreover note ascending_from [of v votes tracker vote_index]
  ultimately show ?thesis unfolding acceptable_votes_def if_P [OF True] using True by blast
next
  case False
  then show ?thesis by (auto simp: acceptable_votes_def signed_votes_def image_iff)
qed

lemma check_state_change_votes_iff:
  assumes "length (validators q) \<le> 10" and "length counts = 10" and "vote_counts counts S"
  shows "\<exists>tvc'. check_state_change_votes C h q hf votes counts tracker tvc =
      Inr (acceptable_votes C h q hf S tracker votes, tvc') \<and>
    (acceptable_votes C h q hf S tracker votes \<longrightarrow> tvc' = tvc)"
  using assms(2,3)
proof (induction votes arbitrary: counts S tracker)
  case Nil
  show ?case by (simp add: acceptable_votes_def signed_votes_def)
next
  case (Cons v votes)
  let ?i = "vote_index v"
  have idx: "sint (ev_validator_index v) = int ?i \<and> at_ub counts ?i = Inr (if ?i \<in> S then 1 else 0)"
    if "?i < length (validators q)"
    using that assms(1) Cons.prems sint_small_u32 [of "ev_validator_index v"] by (auto simp: at_ub_def vote_counts_def)
  show ?case
  proof (cases "?i < length (validators q) \<and> \<not> (17 \<le> hf \<and> int ?i \<le> tracker) \<and> ?i \<notin> S \<and>
      check_signature C h (validators q ! ?i) (ev_signature v)")
    case True
    have "check_state_change_votes C h q hf (v # votes) counts tracker tvc =
      check_state_change_votes C h q hf votes (counts[?i := 1]) (if 17 \<le> hf then int ?i else tracker) tvc"
      using True idx by (auto simp: Let_def bounds_check_validator_index_def)
    moreover have "vote_counts (counts[?i := 1]) (insert ?i S)"
      using Cons.prems True assms(1) by (intro vote_counts_update) auto
    moreover have "acceptable_votes C h q hf S tracker (v # votes) \<longleftrightarrow>
        acceptable_votes C h q hf (insert ?i S) (if 17 \<le> hf then int ?i else tracker) votes"
      using True by (auto simp: acceptable_votes_Cons not_le)
    ultimately show ?thesis
      using Cons.IH [of "counts[?i := 1]" "insert ?i S"] Cons.prems(1) by (simp only: length_list_update)
  next
    case False
    have "\<exists>tvc'. check_state_change_votes C h q hf (v # votes) counts tracker tvc = Inr (False, tvc')"
      using False idx
      by (cases "?i < length (validators q)") (auto simp: Let_def bounds_check_validator_index_def bad_tx_def)
    moreover have "\<not> acceptable_votes C h q hf S tracker (v # votes)"
      using False by (auto simp: acceptable_votes_Cons not_le)
    ultimately show ?thesis by simp
  qed
qed

definition state_change_height_ok :: "u64 \<Rightarrow> u64 \<Rightarrow> bool" where
  "state_change_height_ok height latest \<longleftrightarrow> height < latest \<and> latest < height + STATE_CHANGE_TX_LIFETIME_IN_BLOCKS"

lemma verify_tx_state_change_iff:
  assumes "length (validators q) \<le> 10"
  shows "\<exists>ok tvc'. verify_tx_state_change C sc latest tvc q hf = Inr (ok, tvc') \<and> (ok \<longrightarrow> tvc' = tvc) \<and>
    (ok \<longleftrightarrow> 4 \<le> length (sc_votes sc) \<and> length (sc_votes sc) \<le> 10 \<and>
      unat (sc_service_node_index sc) < length (workers q) \<and>
      state_change_height_ok (sc_block_height sc) latest \<and>
      signed_votes C (make_state_change_vote_hash C (sc_block_height sc) (sc_service_node_index sc) (sc_state sc))
        q (sc_votes sc) \<and>
      distinct (map vote_index (sc_votes sc)) \<and>
      (17 \<le> hf \<longrightarrow> sorted_wrt (<) (map vote_index (sc_votes sc))))"
proof -
  let ?h = "make_state_change_vote_hash C (sc_block_height sc) (sc_service_node_index sc) (sc_state sc)"
  have "vote_counts (replicate 10 0) {}" by (simp add: vote_counts_def)
  with check_state_change_votes_iff [OF assms, of "replicate 10 0" "{}"] obtain tvc' where loop:
    "check_state_change_votes C ?h q hf (sc_votes sc) (replicate 10 0) (- 1) tvc =
      Inr (acceptable_votes C ?h q hf {} (- 1) (sc_votes sc), tvc')"
    "acceptable_votes C ?h q hf {} (- 1) (sc_votes sc) \<longrightarrow> tvc' = tvc"
    by fastforce
  have acc: "acceptable_votes C ?h q hf {} (- 1) (sc_votes sc) \<longleftrightarrow> signed_votes C ?h q (sc_votes sc) \<and>
      distinct (map vote_index (sc_votes sc)) \<and> (17 \<le> hf \<longrightarrow> sorted_wrt (<) (map vote_index (sc_votes sc)))"
    by (auto simp: acceptable_votes_def intro: less_le_trans [OF _ uint_ge_0])
  let ?pre = "4 \<le> length (sc_votes sc) \<and> length (sc_votes sc) \<le> 10 \<and>
    unat (sc_service_node_index sc) < length (workers q) \<and> state_change_height_ok (sc_block_height sc) latest"
  have "verify_tx_state_change C sc latest tvc q hf = Inr (acceptable_votes C ?h q hf {} (- 1) (sc_votes sc), tvc')" if ?pre
    using that loop(1)
    by (simp add: verify_tx_state_change_def Let_def bounds_check_worker_index_def bad_tx_def vote_limits
        state_change_height_ok_def not_less [symmetric])
  moreover have "\<exists>tvc'. verify_tx_state_change C sc latest tvc q hf = Inr (False, tvc')" if "\<not> ?pre"
    using that
    by (simp add: verify_tx_state_change_def Let_def bounds_check_worker_index_def bad_tx_def vote_limits
        state_change_height_ok_def not_less) auto
  ultimately show ?thesis using loop(2) acc by (cases ?pre) blast+
qed

section \<open>Checkpoints: what is accepted\<close>

abbreviation signer :: "voter_to_signature \<Rightarrow> nat" where
  "signer v \<equiv> unat (vs_voter_index v)"

definition signed_checkpoint :: "crypto_ops \<Rightarrow> hash \<Rightarrow> quorum \<Rightarrow> voter_to_signature list \<Rightarrow> bool" where
  "signed_checkpoint C h q vs \<longleftrightarrow>
    (\<forall>v \<in> set vs. signer v < length (validators q) \<and> check_signature C h (validators q ! signer v) (vs_signature v))"

lemma check_checkpoint_votes_iff:
  assumes "length (validators q) \<le> 20" and "length counts = 20" and "vote_counts counts S"
  shows "check_checkpoint_votes C h q hf vs counts =
    Inr (signed_checkpoint C h q vs \<and> distinct (map signer vs) \<and> (\<forall>v \<in> set vs. signer v \<notin> S) \<and>
      (17 \<le> hf \<longrightarrow> sorted_wrt (<) (map signer vs)))"
  using assms(2,3)
proof (induction vs arbitrary: counts S)
  case Nil
  then show ?case by (simp add: signed_checkpoint_def)
next
  case (Cons v vs)
  let ?i = "signer v"
  have ub: "at_ub counts ?i = Inr (counts ! ?i)" if "?i < length (validators q)"
    using that Cons.prems(1) assms(1) by (simp add: at_ub_def)
  have cnt: "counts ! ?i = (if ?i \<in> S then 1 else 0)" if "?i < length (validators q)"
    using that Cons.prems assms(1) by (simp add: vote_counts_def)
  have IH: "check_checkpoint_votes C h q hf vs (counts[?i := 1]) =
    Inr (signed_checkpoint C h q vs \<and> distinct (map signer vs) \<and> (\<forall>v \<in> set vs. signer v \<notin> insert ?i S) \<and>
      (17 \<le> hf \<longrightarrow> sorted_wrt (<) (map signer vs)))" if "?i < length (validators q)"
    using that Cons.prems assms(1) by (intro Cons.IH vote_counts_update) auto
  have sorted: "sorted_wrt (<) (map signer (v # vs)) \<longleftrightarrow>
      \<not> (vs \<noteq> [] \<and> vs_voter_index (hd vs) \<le> vs_voter_index v) \<and> sorted_wrt (<) (map signer vs)"
    by (cases vs) (auto simp: word_le_nat_alt not_le intro: less_trans)
  show ?case
  proof (cases "?i < length (validators q)")
    case True
    have parts: "signed_checkpoint C h q (v # vs) \<longleftrightarrow>
        check_signature C h (validators q ! ?i) (vs_signature v) \<and> signed_checkpoint C h q vs"
      "distinct (map signer (v # vs)) \<and> (\<forall>w \<in> set (v # vs). signer w \<notin> S) \<longleftrightarrow>
        ?i \<notin> S \<and> distinct (map signer vs) \<and> (\<forall>w \<in> set vs. signer w \<notin> insert ?i S)"
      using True by (auto simp: signed_checkpoint_def image_iff)
    show ?thesis
      by (simp only: check_checkpoint_votes.simps ub [OF True] cnt [OF True] bindE_Inr) (use parts sorted IH [OF True] True in \<open>simp, blast\<close>)
  next
    case False
    then show ?thesis by (simp add: signed_checkpoint_def)
  qed
qed

lemma verify_checkpoint_iff:
  assumes "length (validators q) \<le> 20"
  shows "verify_checkpoint C hf cp q =
    Inr (if cp_type cp = service_node then
           cp_height cp mod 4 = 0 \<and> 5 \<le> length (cp_signatures cp) \<and> length (cp_signatures cp) \<le> 20 \<and>
           signed_checkpoint C (cp_block_hash cp) q (cp_signatures cp) \<and> distinct (map signer (cp_signatures cp)) \<and>
           (17 \<le> hf \<longrightarrow> sorted_wrt (<) (map signer (cp_signatures cp)))
         else cp_signatures cp = [])"
proof -
  have "vote_counts (replicate 20 0) {}" by (simp add: vote_counts_def)
  from check_checkpoint_votes_iff [OF assms _ this] show ?thesis
    by (simp add: verify_checkpoint_def vote_limits not_less)
qed

section \<open>The votes a node makes verify\<close>

definition key_pair :: "crypto_ops \<Rightarrow> service_node_keys \<Rightarrow> bool" where
  "key_pair C keys \<longleftrightarrow> (\<forall>h. check_signature C h (sn_pub keys) (generate_signature C h (sn_pub keys) (sn_key keys)))"

lemma ucast_u16_u32: "unat (ucast (i :: u16) :: u32) = unat i"
  using unsigned_less [of i, where ?'a = nat] by (simp add: unsigned_ucast_eq take_bit_nat_eq_self)

lemma make_state_change_vote_verifies:
  assumes "key_pair C keys" and "unat i < length (validators q)" and "validators q ! unat i = sn_pub keys"
    and "unat w < length (workers q)"
  shows "verify_vote_signature C hf (make_state_change_vote C height i w state keys) vvc q = (True, vvc)"
  using assms
  by (simp add: verify_vote_signature_def make_state_change_vote_def null_vote_def make_signature_from_vote_def key_pair_def
      bounds_check_validator_index_def bounds_check_worker_index_def ucast_u16_u32)

lemma make_checkpointing_vote_verifies:
  assumes "key_pair C keys" and "unat i < length (validators q)" and "validators q ! unat i = sn_pub keys"
  shows "verify_vote_signature C hf (make_checkpointing_vote C hf' h height i keys) vvc q = (True, vvc)"
  using assms
  by (simp add: verify_vote_signature_def make_checkpointing_vote_def null_vote_def make_signature_from_vote_def key_pair_def
      bounds_check_validator_index_def ucast_u16_u32)

section \<open>The pool as a map from subjects to votes\<close>

text \<open>
  An entry of either pool is a subject (a state change of a node at a height, a block at a height)
  with the votes on it. The abstract pool maps a subject to the votes on it. The invariant: one entry
  per subject, votes in strictly ascending order of the voter's index, each vote on its entry's
  subject.
\<close>

abbreviation voter :: "pool_vote_entry \<Rightarrow> nat" where
  "voter e \<equiv> unat (qv_index_in_group (pe_vote e))"

definition votes_on :: "('k \<Rightarrow> quorum_vote_t \<Rightarrow> bool) \<Rightarrow> 'k \<Rightarrow> pool_vote_entry list \<Rightarrow> bool" where
  "votes_on on k vs \<longleftrightarrow> sorted_wrt (<) (map voter vs) \<and> (\<forall>v \<in> set vs. on k (pe_vote v))"

definition store_inv ::
  "('e \<Rightarrow> 'k) \<Rightarrow> ('e \<Rightarrow> pool_vote_entry list) \<Rightarrow> ('k \<Rightarrow> quorum_vote_t \<Rightarrow> bool) \<Rightarrow> 'e list \<Rightarrow> bool" where
  "store_inv key votes_of on pool \<longleftrightarrow> distinct (map key pool) \<and> (\<forall>e \<in> set pool. votes_on on (key e) (votes_of e))"

fun votes_for :: "('e \<Rightarrow> 'k) \<Rightarrow> ('e \<Rightarrow> pool_vote_entry list) \<Rightarrow> 'e list \<Rightarrow> 'k \<Rightarrow> pool_vote_entry list" where
  "votes_for key votes_of [] k = []"
| "votes_for key votes_of (e # es) k = (if key e = k then votes_of e else votes_for key votes_of es k)"

lemma index_where_None: "index_where P xs = None \<longleftrightarrow> (\<forall>x \<in> set xs. \<not> P x)"
  by (induction xs) auto

lemma index_where_Some: "index_where P xs = Some i \<Longrightarrow> i < length xs \<and> P (xs ! i) \<and> (\<forall>j < i. \<not> P (xs ! j))"
  by (induction xs arbitrary: i) (auto simp: less_Suc_eq_0_disj split: if_splits)

lemma votes_for_none: "k \<notin> key ` set pool \<Longrightarrow> votes_for key votes_of pool k = []"
  by (induction pool) auto

lemma votes_for_append:
  "votes_for key votes_of (p @ q) k = (if k \<in> key ` set p then votes_for key votes_of p k else votes_for key votes_of q k)"
  by (induction p) auto

lemma votes_for_nth: "distinct (map key pool) \<Longrightarrow> i < length pool \<Longrightarrow> votes_for key votes_of pool (key (pool ! i)) = votes_of (pool ! i)"
proof (induction pool arbitrary: i)
  case (Cons e es)
  then show ?case by (cases i) (auto simp: image_iff)
qed simp

lemma votes_for_update:
  assumes "distinct (map key pool)" and "i < length pool" and "key e = key (pool ! i)"
  shows "votes_for key votes_of (pool[i := e]) k = (if k = key e then votes_of e else votes_for key votes_of pool k)"
  using assms
proof (induction pool arbitrary: i)
  case (Cons x xs)
  then show ?case by (cases i) (auto simp: image_iff)
qed simp

lemma map_update_same: "i < length xs \<Longrightarrow> f e = f (xs ! i) \<Longrightarrow> map f (xs[i := e]) = map f xs"
  by (metis list_update_id map_update nth_map)

text \<open>The contract of a pool: the two updates of \<open>find_vote_pool\<close> are its instances.\<close>

locale vote_store =
  fixes same :: "'e \<Rightarrow> 'e \<Rightarrow> bool" and key :: "'e \<Rightarrow> 'k" and votes_of :: "'e \<Rightarrow> pool_vote_entry list"
    and set_votes :: "pool_vote_entry list \<Rightarrow> 'e \<Rightarrow> 'e" and entry_of :: "quorum_vote_t \<Rightarrow> 'e"
    and on :: "'k \<Rightarrow> quorum_vote_t \<Rightarrow> bool"
    and update :: "quorum_vote_t \<Rightarrow> bool \<Rightarrow> (pool_vote_entry list \<Rightarrow> pool_vote_entry list) \<Rightarrow> 'e list \<Rightarrow>
      pool_vote_entry list option \<times> 'e list"
  assumes same_iff: "same a b \<longleftrightarrow> key a = key b"
    and key_set_votes: "key (set_votes vs e) = key e"
    and votes_set_votes: "votes_of (set_votes vs e) = vs"
    and votes_entry_of: "votes_of (entry_of v) = []"
    and update_eq: "update v create f pool =
      (case find_vote_in_pool same (entry_of v) create pool of
         (None, pool) \<Rightarrow> (None, pool)
       | (Some i, pool) \<Rightarrow> (Some (votes_of (pool ! i)), pool[i := set_votes (f (votes_of (pool ! i))) (pool ! i)]))"
begin

lemma found:
  assumes "store_inv key votes_of on pool" and "find_vote_in_pool same (entry_of v) create pool = (Some i, pool')"
  shows "store_inv key votes_of on pool' \<and> i < length pool' \<and> key (pool' ! i) = key (entry_of v) \<and>
    votes_for key votes_of pool' = votes_for key votes_of pool"
proof (cases "index_where (\<lambda>e. same e (entry_of v)) pool")
  case None
  then have "pool' = pool @ [entry_of v]" "i = length pool"
    using assms(2) by (auto simp: find_vote_in_pool_def split: if_splits)
  moreover have "key (entry_of v) \<notin> key ` set pool"
    using None unfolding index_where_None same_iff by force
  ultimately show ?thesis
    using assms(1) by (auto simp: store_inv_def votes_on_def votes_entry_of votes_for_append votes_for_none)
next
  case (Some j)
  then show ?thesis
    using assms index_where_Some [OF Some] by (auto simp: find_vote_in_pool_def same_iff)
qed

lemma update_refines:
  assumes inv: "store_inv key votes_of on pool"
    and f: "\<And>vs. votes_on on (key (entry_of v)) vs \<Longrightarrow> votes_on on (key (entry_of v)) (f vs)"
    and upd: "update v create f pool = (old, pool')"
  shows "store_inv key votes_of on pool' \<and>
    (case old of
       None \<Rightarrow> pool' = pool \<and> \<not> create
     | Some vs \<Rightarrow> vs = votes_for key votes_of pool (key (entry_of v)) \<and>
         votes_for key votes_of pool' = (votes_for key votes_of pool)(key (entry_of v) := f vs))"
proof (cases "find_vote_in_pool same (entry_of v) create pool")
  case (Pair r p)
  show ?thesis
  proof (cases r)
    case None
    then show ?thesis using Pair upd inv
      by (auto simp: update_eq find_vote_in_pool_def split: option.splits if_splits)
  next
    case (Some i)
    have F: "store_inv key votes_of on p" "i < length p" "key (p ! i) = key (entry_of v)"
      "votes_for key votes_of p = votes_for key votes_of pool"
      using found [OF inv Pair [unfolded Some]] by auto
    let ?e = "set_votes (f (votes_of (p ! i))) (p ! i)"
    have old: "old = Some (votes_of (p ! i))" and pool': "pool' = p[i := ?e]"
      using Pair Some upd by (auto simp: update_eq)
    have d: "distinct (map key p)" and ok: "\<forall>e \<in> set p. votes_on on (key e) (votes_of e)"
      using F(1) by (auto simp: store_inv_def)
    have vs: "votes_of (p ! i) = votes_for key votes_of pool (key (entry_of v))"
      using votes_for_nth [OF d F(2), of votes_of] F(3,4) by simp
    have "votes_on on (key ?e) (votes_of ?e)"
      using f [of "votes_of (p ! i)"] bspec [OF ok nth_mem [OF F(2)]] F(3) by (simp add: key_set_votes votes_set_votes)
    then have "store_inv key votes_of on pool'"
      using d ok F(2) by (auto simp: store_inv_def pool' key_set_votes map_update_same dest!: set_update_subset_insert [THEN subsetD])
    moreover have "votes_for key votes_of pool' = (votes_for key votes_of pool)(key (entry_of v) := f (votes_of (p ! i)))"
      using F by (auto simp: fun_eq_iff pool' votes_for_update [OF d] key_set_votes votes_set_votes)
    ultimately show ?thesis using old vs by simp
  qed
qed

end

definition obligation_key :: "obligations_pool_entry \<Rightarrow> u64 \<times> u32 \<times> new_state" where
  "obligation_key e = (oe_height e, oe_worker_index e, oe_state e)"

definition on_obligation :: "u64 \<times> u32 \<times> new_state \<Rightarrow> quorum_vote_t \<Rightarrow> bool" where
  "on_obligation k v \<longleftrightarrow> qv_type v = obligations \<and> obligation_key (obligations_entry_of_vote v) = k"

definition checkpoint_key :: "checkpoint_pool_entry \<Rightarrow> u64 \<times> hash" where
  "checkpoint_key e = (ce_height e, ce_hash e)"

definition on_checkpoint :: "u64 \<times> hash \<Rightarrow> quorum_vote_t \<Rightarrow> bool" where
  "on_checkpoint k v \<longleftrightarrow> qv_type v = checkpointing \<and> checkpoint_key (checkpoint_entry_of_vote v) = k"

interpretation obl: vote_store same_obligation obligation_key oe_votes "\<lambda>vs e. e\<lparr>oe_votes := vs\<rparr>"
    obligations_entry_of_vote on_obligation update_obligations_votes
  by unfold_locales
    (auto simp: same_obligation_def obligation_key_def obligations_entry_of_vote_def update_obligations_votes_def)

interpretation chk: vote_store same_checkpoint checkpoint_key ce_votes "\<lambda>vs e. e\<lparr>ce_votes := vs\<rparr>"
    checkpoint_entry_of_vote on_checkpoint update_checkpoint_votes
  by unfold_locales
    (auto simp: same_checkpoint_def checkpoint_key_def checkpoint_entry_of_vote_def update_checkpoint_votes_def)

definition pool_inv :: "voting_pool \<Rightarrow> bool" where
  "pool_inv vp \<longleftrightarrow> store_inv obligation_key oe_votes on_obligation (obligations_pool vp) \<and>
    store_inv checkpoint_key ce_votes on_checkpoint (checkpoint_pool vp)"

abbreviation obligation_votes :: "voting_pool \<Rightarrow> u64 \<times> u32 \<times> new_state \<Rightarrow> pool_vote_entry list" where
  "obligation_votes vp \<equiv> votes_for obligation_key oe_votes (obligations_pool vp)"

abbreviation checkpoint_votes :: "voting_pool \<Rightarrow> u64 \<times> hash \<Rightarrow> pool_vote_entry list" where
  "checkpoint_votes vp \<equiv> votes_for checkpoint_key ce_votes (checkpoint_pool vp)"

text \<open>Insertion into the votes of a subject.\<close>

lemma add_vote_spec:
  assumes "votes_on on k vs" and "on k vote" and "add_vote_to_pool_if_unique vote vs = (added, vs')"
  shows "votes_on on k vs' \<and> (added \<longleftrightarrow> unat (qv_index_in_group vote) \<notin> voter ` set vs) \<and>
    set vs' = (if added then insert \<lparr>pe_vote = vote, pe_time_last_sent_p2p = 0\<rparr> (set vs) else set vs) \<and>
    (\<not> added \<longrightarrow> vs' = vs)"
  using assms(1,3)
proof (induction vs arbitrary: added vs')
  case Nil
  then show ?case using assms(2) by (auto simp: votes_on_def)
next
  case (Cons e es)
  have tl: "votes_on on k es" and hd: "on k (pe_vote e)" "\<forall>x \<in> set es. voter e < voter x"
    using Cons.prems(1) by (auto simp: votes_on_def)
  consider (lt) "qv_index_in_group (pe_vote e) < qv_index_in_group vote" | (eq) "qv_index_in_group (pe_vote e) = qv_index_in_group vote"
    | (gt) "qv_index_in_group vote < qv_index_in_group (pe_vote e)"
    using linorder_cases by blast
  then show ?case
  proof cases
    case lt
    obtain es' where es': "add_vote_to_pool_if_unique vote es = (added, es')" "vs' = e # es'"
      using Cons.prems(2) lt by (auto simp: case_prod_beta Let_def prod_eq_iff)
    note IH = Cons.IH [OF tl es'(1)]
    have "\<forall>x \<in> set es'. voter e < voter x" using IH hd(2) lt by (auto simp: word_less_nat_alt split: if_splits)
    then show ?thesis using IH hd lt es'(2) by (auto simp: votes_on_def word_less_nat_alt)
  next
    case eq
    then show ?thesis using Cons.prems by auto
  next
    case gt
    then have "\<not> qv_index_in_group (pe_vote e) < qv_index_in_group vote" "qv_index_in_group (pe_vote e) \<noteq> qv_index_in_group vote"
      by auto
    then have "added" "vs' = \<lparr>pe_vote = vote, pe_time_last_sent_p2p = 0\<rparr> # e # es" using Cons.prems(2) by auto
    moreover have "\<forall>x \<in> set (e # es). unat (qv_index_in_group vote) < voter x"
      using gt hd(2) by (auto simp: word_less_nat_alt intro: less_trans)
    ultimately show ?thesis using Cons.prems(1) assms(2) by (auto simp: votes_on_def)
  qed
qed

lemma mark_sent_votes: "map pe_vote (mark_sent now i vs) = map pe_vote vs"
  by (induction vs) auto

lemma mark_sent_votes_on: "votes_on on k vs \<Longrightarrow> votes_on on k (mark_sent now i vs)"
proof -
  have "votes_on on k vs \<longleftrightarrow> sorted_wrt (<) (map (\<lambda>v. unat (qv_index_in_group v)) (map pe_vote vs)) \<and>
      (\<forall>v \<in> set (map pe_vote vs). on k v)" for vs
    by (simp add: votes_on_def comp_def)
  then show "votes_on on k vs \<Longrightarrow> votes_on on k (mark_sent now i vs)" by (metis mark_sent_votes)
qed

lemma update_vote_pool_inv:
  assumes inv: "pool_inv vp"
    and fo: "\<And>k vs. on_obligation k vote \<Longrightarrow> votes_on on_obligation k vs \<Longrightarrow> votes_on on_obligation k (f vs)"
    and fc: "\<And>k vs. on_checkpoint k vote \<Longrightarrow> votes_on on_checkpoint k vs \<Longrightarrow> votes_on on_checkpoint k (f vs)"
  shows "pool_inv (snd (update_vote_pool vote create f vp))"
proof (cases "qv_type vote")
  case obligations
  obtain old p where "update_obligations_votes vote create f (obligations_pool vp) = (old, p)" by fastforce
  with obl.update_refines [of "obligations_pool vp" vote f create old p] show ?thesis
    using inv fo obligations by (simp add: update_vote_pool_def pool_inv_def on_obligation_def)
next
  case checkpointing
  obtain old p where "update_checkpoint_votes vote create f (checkpoint_pool vp) = (old, p)" by fastforce
  with chk.update_refines [of "checkpoint_pool vp" vote f create old p] show ?thesis
    using inv fc checkpointing by (simp add: update_vote_pool_def pool_inv_def on_checkpoint_def)
qed (use inv in \<open>simp add: update_vote_pool_def\<close>)

lemma add_pool_vote_inv: "pool_inv vp \<Longrightarrow> pool_inv (snd (snd (add_pool_vote_if_unique vote vvc vp)))"
proof -
  assume inv: "pool_inv vp"
  have "votes_on on k (snd (add_vote_to_pool_if_unique vote vs))" if "on k vote" "votes_on on k vs"
    for k :: 'k and on vs
    using add_vote_spec [OF that(2,1)] by (metis prod.collapse)
  note step = this
  have "snd (snd (add_pool_vote_if_unique vote vvc vp)) =
    snd (update_vote_pool vote True (\<lambda>votes. snd (add_vote_to_pool_if_unique vote votes)) vp)"
    by (simp add: add_pool_vote_if_unique_def case_prod_beta Let_def split: option.splits)
  then show ?thesis using inv by (simp add: update_vote_pool_inv step)
qed

lemma store_inv_filter: "store_inv key votes_of on pool \<Longrightarrow> store_inv key votes_of on (filter P pool)"
  by (auto simp: store_inv_def distinct_map inj_on_def)

lemma set_erase_first: "set (erase_first P xs) \<subseteq> set xs"
  by (induction xs) auto

lemma store_inv_erase_first: "store_inv key votes_of on pool \<Longrightarrow> store_inv key votes_of on (erase_first P pool)"
  by (induction pool) (auto simp: store_inv_def dest: subsetD [OF set_erase_first])

lemma set_relayed_inv: "pool_inv vp \<Longrightarrow> pool_inv (set_relayed now votes vp)"
  unfolding set_relayed_def
  by (induction votes arbitrary: vp) (simp_all add: update_vote_pool_inv mark_sent_votes_on)

lemma remove_used_votes_inv: "pool_inv vp \<Longrightarrow> pool_inv (remove_used_votes txs vp)"
proof -
  let ?step = "\<lambda>tx vp. if tx_type tx \<noteq> state_change_tx then vp
    else case get_service_node_state_change_from_tx_extra (extra tx) of None \<Rightarrow> vp
      | Some sc \<Rightarrow> vp\<lparr>obligations_pool :=
          erase_first (\<lambda>e. same_obligation e (obligations_entry_of_change sc)) (obligations_pool vp)\<rparr>"
  have "pool_inv (?step tx vp)" if "pool_inv vp" for tx :: "'a transaction_prefix_scheme" and vp
    using that by (auto simp: pool_inv_def store_inv_erase_first split: option.splits)
  then have "pool_inv (fold ?step txs vp)" if "pool_inv vp"
    using that by (induction txs arbitrary: vp) auto
  then show "pool_inv vp \<Longrightarrow> pool_inv (remove_used_votes txs vp)" by (simp add: remove_used_votes_def)
qed

lemma remove_expired_votes_inv: "pool_inv vp \<Longrightarrow> pool_inv (remove_expired_votes height vp)"
  by (simp add: pool_inv_def remove_expired_votes_def cull_votes_def store_inv_filter Let_def)

text \<open>The pools a node can have: the operations of \<open>voting_pool\<close> in any order.\<close>

inductive pool_reachable :: "voting_pool \<Rightarrow> bool" where
  reach_empty: "pool_reachable \<lparr>obligations_pool = [], checkpoint_pool = []\<rparr>"
| reach_add: "pool_reachable vp \<Longrightarrow> add_pool_vote_if_unique vote vvc vp = (votes, vvc', vp') \<Longrightarrow> pool_reachable vp'"
| reach_relayed: "pool_reachable vp \<Longrightarrow> pool_reachable (set_relayed now votes vp)"
| reach_used: "pool_reachable vp \<Longrightarrow> pool_reachable (remove_used_votes (txs :: transaction_prefix list) vp)"
| reach_expired: "pool_reachable vp \<Longrightarrow> pool_reachable (remove_expired_votes height vp)"

lemma pool_reachable_inv: "pool_reachable vp \<Longrightarrow> pool_inv vp"
proof (induction rule: pool_reachable.induct)
  case reach_empty
  show ?case by (simp add: pool_inv_def store_inv_def)
next
  case (reach_add vp vote vvc votes vvc' vp')
  then show ?case using add_pool_vote_inv [of vp vote vvc] by simp
qed (simp_all add: set_relayed_inv remove_used_votes_inv remove_expired_votes_inv)

lemma votes_on_length: "votes_on on k vs \<Longrightarrow> length vs = card (voter ` set vs)"
proof -
  assume "votes_on on k vs"
  then have "distinct (map voter vs)"
    by (auto simp: votes_on_def strict_sorted_iff)
  from distinct_card [OF this] show ?thesis by simp
qed

lemma store_votes_on: "store_inv key votes_of on pool \<Longrightarrow> votes_on on k (votes_for key votes_of pool k)"
  by (induction pool) (auto simp: store_inv_def votes_on_def)

lemma add_vote_fst_snd:
  assumes "votes_on on k vs" and "on k vote"
  shows "votes_on on k (snd (add_vote_to_pool_if_unique vote vs))"
    and "fst (add_vote_to_pool_if_unique vote vs) \<longleftrightarrow> unat (qv_index_in_group vote) \<notin> voter ` set vs"
    and "voter ` set (snd (add_vote_to_pool_if_unique vote vs)) = insert (unat (qv_index_in_group vote)) (voter ` set vs)"
    and "\<not> fst (add_vote_to_pool_if_unique vote vs) \<Longrightarrow> snd (add_vote_to_pool_if_unique vote vs) = vs"
  using add_vote_spec [OF assms prod.collapse [symmetric]] by auto

definition vote_recorded ::
  "quorum_vote_t \<Rightarrow> pool_vote_entry list \<Rightarrow> pool_vote_entry list \<Rightarrow> vote_verification_context \<Rightarrow> bool" where
  "vote_recorded vote old votes vvc \<longleftrightarrow>
    voter ` set votes = insert (unat (qv_index_in_group vote)) (voter ` set old) \<and> length votes = card (voter ` set votes) \<and>
    (vvc_added_to_pool vvc \<longleftrightarrow> unat (qv_index_in_group vote) \<notin> voter ` set old) \<and>
    (\<not> vvc_added_to_pool vvc \<longrightarrow> votes = old)"

lemma vote_recordedI:
  assumes "votes_on on k old" and "on k vote" and "add_vote_to_pool_if_unique vote old = (added, votes)"
  shows "vote_recorded vote old votes (vvc\<lparr>vvc_added_to_pool := added\<rparr>)"
  using add_vote_fst_snd [OF assms(1,2)] votes_on_length [of on k votes] assms(3)
  by (simp add: vote_recorded_def)

context vote_store
begin

lemma add_refines:
  assumes inv: "store_inv key votes_of on pool" and on: "on (key (entry_of vote)) vote"
  defines "k \<equiv> key (entry_of vote)" and "old \<equiv> votes_for key votes_of pool (key (entry_of vote))"
  shows "\<exists>p. update vote True (\<lambda>votes. snd (add_vote_to_pool_if_unique vote votes)) pool = (Some old, p) \<and>
    votes_for key votes_of p = (votes_for key votes_of pool)(k := snd (add_vote_to_pool_if_unique vote old)) \<and>
    vote_recorded vote old (snd (add_vote_to_pool_if_unique vote old))
      (vvc\<lparr>vvc_added_to_pool := fst (add_vote_to_pool_if_unique vote old)\<rparr>)"
proof -
  let ?f = "\<lambda>votes. snd (add_vote_to_pool_if_unique vote votes)"
  obtain r p where upd: "update vote True ?f pool = (r, p)" by fastforce
  have "votes_on on k vs \<Longrightarrow> votes_on on k (?f vs)" for vs
    using on by (simp add: k_def add_vote_fst_snd(1))
  from update_refines [OF inv this [unfolded k_def] upd]
  have "r = Some old" "votes_for key votes_of p = (votes_for key votes_of pool)(k := ?f old)"
    by (auto simp: k_def old_def split: option.splits)
  moreover have "votes_on on (key (entry_of vote)) old" unfolding old_def by (rule store_votes_on [OF inv])
  from vote_recordedI [where vote = vote, OF this on, of "fst (add_vote_to_pool_if_unique vote old)" "?f old" vvc]
  have "vote_recorded vote old (?f old) (vvc\<lparr>vvc_added_to_pool := fst (add_vote_to_pool_if_unique vote old)\<rparr>)" by simp
  ultimately show ?thesis using upd by blast
qed

end

text \<open>A signature scheme and a quorum for concrete runs.\<close>

definition plain_crypto :: crypto_ops where
  "plain_crypto = \<lparr>cn_fast_hash = (\<lambda>b. take 32 (b @ null_hash)), check_signature = (\<lambda>h p s. s = p @ h),
    generate_signature = (\<lambda>h p k. p @ h)\<rparr>"

definition sample_quorum :: quorum where
  "sample_quorum = \<lparr>validators = map (\<lambda>i. replicate 32 (word_of_nat i)) [0..<10], workers = [replicate 32 77]\<rparr>"

definition clean_vvc :: vote_verification_context where
  "clean_vvc = \<lparr>vvc_verification_failed = False, vvc_invalid_block_height = False, vvc_duplicate_voters = False,
    vvc_validator_index_out_of_bounds = False, vvc_worker_index_out_of_bounds = False, vvc_signature_not_valid = False,
    vvc_added_to_pool = False, vvc_not_enough_votes = False, vvc_incorrect_voting_group = False,
    vvc_invalid_vote_type = False, vvc_votes_not_sorted = False\<rparr>"

definition clean_tvc :: tx_verification_context where
  "clean_tvc = \<lparr>tvc_should_be_relayed = False, tvc_verification_failed = False,
    tvc_verification_impossible = False, tvc_added_to_pool = False, tvc_low_mixin = False,
    tvc_double_spend = False, tvc_invalid_input = False, tvc_invalid_output = False, tvc_too_big = False,
    tvc_overspend = False, tvc_fee_too_low = False, tvc_not_rct = False, tvc_too_few_outputs = False,
    tvc_invalid_version = False, tvc_invalid_type = False, tvc_key_image_locked_by_snode = False,
    tvc_key_image_blacklisted = False, tvc_vote_ctx = clean_vvc\<rparr>"

definition sample_keys :: service_node_keys where
  "sample_keys = \<lparr>sn_key = null_hash, sn_pub = replicate 32 3\<rparr>"

text \<open>
  (C12) A vote added to the voting pool lands under its subject only: for a pool reached by the pool's
  operations, the abstract pool of the vote's type is updated at the vote's subject and nowhere else,
  and the other pool is untouched. The votes handed back are one per voter, those already there and
  the new voter's, so that their number is the number of distinct voters the thresholds are compared
  with. The vote is reported as added exactly when its voter had none on this subject, and a second
  one changes nothing. A vote of an unknown type changes nothing.
\<close>

theorem add_pool_vote_refines:
  assumes "pool_reachable vp" and "add_pool_vote_if_unique vote vvc vp = (votes, vvc', vp')"
  shows "case qv_type vote of
      obligations \<Rightarrow>
        (let k = obligation_key (obligations_entry_of_vote vote)
         in obligation_votes vp' = (obligation_votes vp)(k := votes) \<and> checkpoint_pool vp' = checkpoint_pool vp \<and>
            vote_recorded vote (obligation_votes vp k) votes vvc')
    | checkpointing \<Rightarrow>
        (let k = checkpoint_key (checkpoint_entry_of_vote vote)
         in checkpoint_votes vp' = (checkpoint_votes vp)(k := votes) \<and> obligations_pool vp' = obligations_pool vp \<and>
            vote_recorded vote (checkpoint_votes vp k) votes vvc')
    | unknown_quorum _ \<Rightarrow> votes = [] \<and> vp' = vp \<and> vvc' = vvc"
proof (cases "qv_type vote")
  case obligations
  have inv: "store_inv obligation_key oe_votes on_obligation (obligations_pool vp)"
    using pool_reachable_inv [OF assms(1)] by (simp add: pool_inv_def)
  have on: "on_obligation (obligation_key (obligations_entry_of_vote vote)) vote"
    using obligations by (simp add: on_obligation_def)
  from obl.add_refines [OF inv on, of vvc] assms(2) obligations show ?thesis
    by (auto simp: add_pool_vote_if_unique_def update_vote_pool_def case_prod_beta Let_def)
next
  case checkpointing
  have inv: "store_inv checkpoint_key ce_votes on_checkpoint (checkpoint_pool vp)"
    using pool_reachable_inv [OF assms(1)] by (simp add: pool_inv_def)
  have on: "on_checkpoint (checkpoint_key (checkpoint_entry_of_vote vote)) vote"
    using checkpointing by (simp add: on_checkpoint_def)
  from chk.add_refines [OF inv on, of vvc] assms(2) checkpointing show ?thesis
    by (auto simp: add_pool_vote_if_unique_def update_vote_pool_def case_prod_beta Let_def)
next
  case (unknown_quorum t)
  then show ?thesis using assms(2) by (simp add: add_pool_vote_if_unique_def update_vote_pool_def)
qed

theorem add_pool_vote_refines_witness:
  "case add_pool_vote_if_unique (make_checkpointing_vote plain_crypto 17 null_hash 8 3 sample_keys) clean_vvc
     \<lparr>obligations_pool = [], checkpoint_pool = []\<rparr> of (votes, vvc, vp) \<Rightarrow>
   vote_recorded (make_checkpointing_vote plain_crypto 17 null_hash 8 3 sample_keys) [] votes vvc"
proof -
  let ?v = "make_checkpointing_vote plain_crypto 17 null_hash 8 3 sample_keys"
  let ?r = "add_pool_vote_if_unique ?v clean_vvc \<lparr>obligations_pool = [], checkpoint_pool = []\<rparr>"
  have "qv_type ?v = checkpointing" by (simp add: make_checkpointing_vote_def Let_def)
  then show ?thesis
    using add_pool_vote_refines [OF reach_empty, of ?v clean_vvc "fst ?r" "fst (snd ?r)" "snd (snd ?r)"]
    by (simp add: Let_def case_prod_beta)
qed

section \<open>Properties of verification\<close>

text \<open>
  (C11) A state change is accepted exactly when it carries between four and ten votes of distinct
  validators of the quorum, each with a valid signature of that validator on the hash of this very
  change, names an existing worker, and is neither from the future nor older than the lifetime; from
  hard fork 17 the votes also ascend. For a quorum of at most ten validators the verification always
  returns, with the context untouched when it accepts. The bound is needed: the counters of the
  voters are an array of ten elements, so that an index that is in bounds of a larger quorum is
  undefined behaviour.
\<close>

theorem verify_tx_state_change_correct:
  assumes "length (validators q) \<le> STATE_CHANGE_QUORUM_SIZE"
  shows "\<exists>ok tvc'. verify_tx_state_change C sc latest tvc q hf = Inr (ok, tvc') \<and> (ok \<longrightarrow> tvc' = tvc) \<and>
    (ok \<longleftrightarrow> STATE_CHANGE_MIN_VOTES_TO_CHANGE_STATE \<le> length (sc_votes sc) \<and>
      length (sc_votes sc) \<le> STATE_CHANGE_QUORUM_SIZE \<and>
      unat (sc_service_node_index sc) < length (workers q) \<and>
      state_change_height_ok (sc_block_height sc) latest \<and>
      signed_votes C (make_state_change_vote_hash C (sc_block_height sc) (sc_service_node_index sc) (sc_state sc))
        q (sc_votes sc) \<and>
      distinct (map vote_index (sc_votes sc)) \<and>
      (17 \<le> hf \<longrightarrow> sorted_wrt (<) (map vote_index (sc_votes sc))))"
  using verify_tx_state_change_iff [of q C sc latest tvc hf] assms by (simp add: vote_limits)

definition sample_change :: tx_extra_service_node_state_change where
  "sample_change = \<lparr>sc_state = decommission, sc_block_height = 100, sc_service_node_index = 0,
    sc_votes = map (\<lambda>i. \<lparr>ev_signature = replicate 32 (word_of_nat i) @
        make_state_change_vote_hash plain_crypto 100 0 decommission, ev_validator_index = word_of_nat i\<rparr>) [2, 3, 5, 7]\<rparr>"

theorem verify_tx_state_change_correct_witness:
  "\<exists>tvc'. verify_tx_state_change plain_crypto sample_change 110 clean_tvc
     sample_quorum 17 = Inr (True, tvc')"
proof -
  have "length (validators sample_quorum) \<le> STATE_CHANGE_QUORUM_SIZE"
    by (simp add: sample_quorum_def vote_limits)
  from verify_tx_state_change_correct [OF this, of plain_crypto sample_change 110
      clean_tvc 17]
  show ?thesis
    by (auto simp: sample_change_def sample_quorum_def plain_crypto_def signed_votes_def state_change_height_ok_def vote_limits
        STATE_CHANGE_TX_LIFETIME_IN_BLOCKS_def VOTE_LIFETIME_def BLOCKS_EXPECTED_IN_HOURS_def
        DIFFICULTY_TARGET_V16_def DIFFICULTY_TARGET_V11_def)
qed

text \<open>
  (C23) A service node checkpoint verifies exactly when its height is a multiple of the checkpoint
  interval and it carries between five and twenty valid signatures of its block hash by distinct
  validators of the quorum, in ascending order from hard fork 17; any other checkpoint exactly when
  it has no signature. For a quorum of at most twenty validators the verification always returns.
\<close>

theorem verify_checkpoint_correct:
  assumes "length (validators q) \<le> CHECKPOINT_QUORUM_SIZE"
  shows "verify_checkpoint C hf cp q =
    Inr (if cp_type cp = service_node then
           cp_height cp mod CHECKPOINT_INTERVAL = 0 \<and> CHECKPOINT_MIN_VOTES \<le> length (cp_signatures cp) \<and>
           length (cp_signatures cp) \<le> CHECKPOINT_QUORUM_SIZE \<and>
           signed_checkpoint C (cp_block_hash cp) q (cp_signatures cp) \<and> distinct (map signer (cp_signatures cp)) \<and>
           (17 \<le> hf \<longrightarrow> sorted_wrt (<) (map signer (cp_signatures cp)))
         else cp_signatures cp = [])"
  using verify_checkpoint_iff [of q C hf cp] assms by (simp add: vote_limits)

theorem verify_checkpoint_correct_witness:
  "verify_checkpoint plain_crypto 17 ((make_empty_service_node_checkpoint null_hash 8)\<lparr>cp_signatures :=
     map (\<lambda>i. \<lparr>vs_voter_index = word_of_nat i, vs_signature = replicate 32 (word_of_nat i) @ null_hash\<rparr>) [0, 2, 4, 6, 8]\<rparr>)
     sample_quorum = Inr True"
proof -
  have "length (validators sample_quorum) \<le> CHECKPOINT_QUORUM_SIZE"
    by (simp add: sample_quorum_def vote_limits)
  from verify_checkpoint_correct [OF this] show ?thesis
    by (simp add: make_empty_service_node_checkpoint_def sample_quorum_def plain_crypto_def signed_checkpoint_def vote_limits)
qed

text \<open>
  The votes a node makes pass verification: when the node's keys form a key pair of the signature
  scheme, it is the validator at the index it votes with and the worker it votes on exists, a state
  change vote and a checkpoint vote both verify against the quorum and leave the context as it was.
\<close>

theorem made_votes_verify:
  assumes "key_pair C keys" and "unat i < length (validators q)" and "validators q ! unat i = sn_pub keys"
    and "unat w < length (workers q)"
  shows "verify_vote_signature C hf (make_state_change_vote C height i w state keys) vvc q = (True, vvc) \<and>
    verify_vote_signature C hf (make_checkpointing_vote C hf h height i keys) vvc q = (True, vvc)"
  using assms by (simp add: make_state_change_vote_verifies make_checkpointing_vote_verifies)

theorem made_votes_verify_witness:
  "verify_vote_signature plain_crypto 17 (make_state_change_vote plain_crypto 100 3 0 decommission sample_keys)
     clean_vvc sample_quorum = (True, clean_vvc)"
proof -
  have "key_pair plain_crypto sample_keys" by (simp add: key_pair_def plain_crypto_def)
  from made_votes_verify [OF this, of 3 sample_quorum 0 17 100 decommission clean_vvc] show ?thesis
    by (simp add: sample_quorum_def sample_keys_def)
qed

text \<open>
  (C24) Every pool reached by adding votes, marking them as relayed, dropping the votes of included
  state changes and expiring old ones keeps one entry per subject, with the votes on that subject in
  strictly ascending order of the voters. Expiring at a height leaves, in both pools and in their order,
  exactly the entries at most the lifetime of a vote below that height and not above it.
\<close>

theorem voting_pool_reachable:
  assumes "pool_reachable vp"
  shows "distinct (map obligation_key (obligations_pool vp)) \<and> distinct (map checkpoint_key (checkpoint_pool vp)) \<and>
    list_all (\<lambda>e. votes_on on_obligation (obligation_key e) (oe_votes e)) (obligations_pool vp) \<and>
    list_all (\<lambda>e. votes_on on_checkpoint (checkpoint_key e) (ce_votes e)) (checkpoint_pool vp) \<and>
    obligations_pool (remove_expired_votes height vp) =
      filter (\<lambda>e. unat (oe_height e) \<le> unat height \<and> unat height \<le> unat (oe_height e) + unat VOTE_LIFETIME) (obligations_pool vp) \<and>
    checkpoint_pool (remove_expired_votes height vp) =
      filter (\<lambda>e. unat (ce_height e) \<le> unat height \<and> unat height \<le> unat (ce_height e) + unat VOTE_LIFETIME) (checkpoint_pool vp)"
proof -
  have "\<not> (x < (if height < VOTE_LIFETIME then 0 else height - VOTE_LIFETIME) \<or> height < x) \<longleftrightarrow>
      unat x \<le> unat height \<and> unat height \<le> unat x + unat VOTE_LIFETIME" for x
    by (auto simp: word_le_nat_alt word_less_nat_alt unat_sub)
  then show ?thesis
    using pool_reachable_inv [OF assms]
    by (simp add: pool_inv_def store_inv_def remove_expired_votes_def cull_votes_def Let_def list_all_iff)
qed

theorem voting_pool_reachable_witness:
  "list_all (\<lambda>e. votes_on on_checkpoint (checkpoint_key e) (ce_votes e))
     (checkpoint_pool (snd (snd (add_pool_vote_if_unique
       (make_checkpointing_vote plain_crypto 17 null_hash 8 3 sample_keys) clean_vvc
       \<lparr>obligations_pool = [], checkpoint_pool = []\<rparr>))))"
proof -
  let ?r = "add_pool_vote_if_unique (make_checkpointing_vote plain_crypto 17 null_hash 8 3 sample_keys) clean_vvc
    \<lparr>obligations_pool = [], checkpoint_pool = []\<rparr>"
  have "pool_reachable (snd (snd ?r))"
    by (rule reach_add [OF reach_empty, of _ _ "fst ?r" "fst (snd ?r)"]) simp
  from voting_pool_reachable [OF this] show ?thesis by simp
qed

text \<open>
  \<open>received_checkpoint_vote\<close> asks only the first entry of a height. When two blocks have been
  voted on at height 8, the vote of validator 1 on the second is in the pool, under its subject, but
  is reported as not received.
\<close>

theorem received_checkpoint_vote_first_block:
  "let v0 = make_checkpointing_vote plain_crypto 17 (replicate 32 1) 8 0 sample_keys;
       v1 = make_checkpointing_vote plain_crypto 17 (replicate 32 2) 8 1 sample_keys;
       (_, _, vp) = add_pool_vote_if_unique v0 clean_vvc \<lparr>obligations_pool = [], checkpoint_pool = []\<rparr>;
       (_, vvc, vp) = add_pool_vote_if_unique v1 clean_vvc vp
   in vvc_added_to_pool vvc \<and> map pe_vote (checkpoint_votes vp (8, replicate 32 2)) = [v1] \<and>
      \<not> received_checkpoint_vote vp 8 1"
  by code_simp

end
