(* ===== verification/Pulse.thy ===== *)
theory Pulse
  imports Voting
begin

text \<open>
  Pulse rounds, \<open>cryptonote_core/pulse.{h,cpp}\<close>: the quorum of a height and round, the hash its
  members sign, the verification of a round and of a majority certificate, the packed vote of the
  network and the collector of votes. Sizes and indices of vectors (\<open>size_t\<close>) are natural numbers.
  The collector is a process-wide object in the code and an explicit state here; the relay hook is
  a flag that tells whether it is set, and the operations return the votes they hand to it.
\<close>

section \<open>Modes\<close>

definition k_hf_hybrid :: u8 where "k_hf_hybrid = 20"
definition k_hf_exclusive :: u8 where "k_hf_exclusive = 21"
definition k_quorum_size :: nat where "k_quorum_size = 11"
definition k_round_window_seconds :: u64 where "k_round_window_seconds = 15"
definition k_max_round :: u8 where "k_max_round = 7"

datatype sn_mode = Legacy | Hybrid | Exclusive

definition sn_operating_mode :: "u8 \<Rightarrow> sn_mode" where
  "sn_operating_mode hard_fork_version =
    (if k_hf_exclusive \<le> hard_fork_version then Exclusive
     else if k_hf_hybrid \<le> hard_fork_version then Hybrid
     else Legacy)"

definition hybrid_sn_permitted :: "u8 \<Rightarrow> bool" where
  "hybrid_sn_permitted hard_fork_version \<longleftrightarrow> k_hf_hybrid \<le> hard_fork_version"

definition exclusive_sn_required :: "u8 \<Rightarrow> bool" where
  "exclusive_sn_required hard_fork_version \<longleftrightarrow> k_hf_exclusive \<le> hard_fork_version"

section \<open>The quorum of a round\<close>

text \<open>The seed is read from the first eight bytes of the hash of the height.\<close>

definition leader_index :: "crypto_ops \<Rightarrow> u64 \<Rightarrow> nat \<Rightarrow> u8 \<Rightarrow> nat" where
  "leader_index C height sn_count round =
    (if sn_count = 0 then 0
     else
       let hashed = cn_fast_hash C (save_uint height);
           seed = (case load_uint hashed of Some (s :: u64, _) \<Rightarrow> unat s | None \<Rightarrow> 0)
       in (seed mod sn_count + unat round mod sn_count) mod sn_count)"

definition round_from_timestamps :: "u64 \<Rightarrow> u64 \<Rightarrow> u8" where
  "round_from_timestamps parent_timestamp now =
    (if parent_timestamp = 0 \<or> now \<le> parent_timestamp then 0
     else
       let elapsed = now - parent_timestamp;
           r = elapsed div k_round_window_seconds
       in if ucast k_max_round < r then k_max_round else ucast r)"

definition extra_round_matches_timestamps :: "u64 \<Rightarrow> u64 \<Rightarrow> u8 \<Rightarrow> bool" where
  "extra_round_matches_timestamps parent_timestamp block_timestamp extra_round \<longleftrightarrow>
    extra_round = round_from_timestamps parent_timestamp block_timestamp"

definition min_signatures_for_quorum :: "nat \<Rightarrow> nat" where
  "min_signatures_for_quorum quorum_size =
    (if quorum_size = 0 then 0
     else let two_thirds = (quorum_size * 2) div 3 in if two_thirds < 1 then 1 else two_thirds)"

definition majority_reached :: "nat \<Rightarrow> nat \<Rightarrow> bool" where
  "majority_reached signatures quorum_size \<longleftrightarrow> min_signatures_for_quorum quorum_size \<le> signatures"

definition quorum_indices :: "crypto_ops \<Rightarrow> u64 \<Rightarrow> nat \<Rightarrow> u8 \<Rightarrow> nat \<Rightarrow> nat list" where
  "quorum_indices C height sn_count round quorum_size =
    (if sn_count = 0 \<or> quorum_size = 0 then []
     else
       let n = (if sn_count < quorum_size then sn_count else quorum_size);
           lead = leader_index C height sn_count round
       in map (\<lambda>i. (lead + i) mod sn_count) [0..<n])"

text \<open>\<open>k_not_in_quorum\<close> is \<open>None\<close>.\<close>

definition validator_slot :: "crypto_ops \<Rightarrow> u64 \<Rightarrow> public_key list \<Rightarrow> public_key \<Rightarrow> u8 \<Rightarrow> nat option" where
  "validator_slot C height active_pubs pub round =
    (let q = quorum_indices C height (length active_pubs) round k_quorum_size
     in index_where (\<lambda>x. x < length active_pubs \<and> active_pubs ! x = pub) q)"

definition quorum_pubkeys :: "crypto_ops \<Rightarrow> u64 \<Rightarrow> public_key list \<Rightarrow> u8 \<Rightarrow> public_key list" where
  "quorum_pubkeys C height active_pubs round =
    map (\<lambda>x. active_pubs ! x)
      (filter (\<lambda>x. x < length active_pubs) (quorum_indices C height (length active_pubs) round k_quorum_size))"

definition round_hash :: "crypto_ops \<Rightarrow> u64 \<Rightarrow> hash \<Rightarrow> u8 \<Rightarrow> hash \<Rightarrow> hash" where
  "round_hash C height prev_id round payload_hash =
    cn_fast_hash C (save_uint height @ save_uint round @ prev_id @ payload_hash)"

definition miner_payload_hash :: "crypto_ops \<Rightarrow> u64 \<Rightarrow> hash list \<Rightarrow> public_key \<Rightarrow> hash" where
  "miner_payload_hash C timestamp tx_hashes miner_out_key =
    cn_fast_hash C (save_uint timestamp @ save_uint (word_of_nat (length tx_hashes) :: u64) @ concat tx_hashes @ miner_out_key)"

section \<open>Rounds and certificates\<close>

definition null_round :: tx_extra_pulse_round where
  "null_round = \<lparr>pr_height = 0, pr_round = 0, pr_leader_index = 0, pr_payload_hash = null_hash, pr_votes = []\<rparr>"

definition try_local_round ::
  "crypto_ops \<Rightarrow> u64 \<Rightarrow> hash \<Rightarrow> u8 \<Rightarrow> public_key \<Rightarrow> secret_key \<Rightarrow> public_key list \<Rightarrow> hash \<Rightarrow> tx_extra_pulse_round option" where
  "try_local_round C height prev_id round pub sec active_pubs payload_hash =
    (case validator_slot C height active_pubs pub round of
       None \<Rightarrow> None
     | Some slot \<Rightarrow>
         let hashed = round_hash C height prev_id round payload_hash
         in Some \<lparr>pr_height = height, pr_round = round,
              pr_leader_index = word_of_nat (leader_index C height (length active_pubs) round),
              pr_payload_hash = payload_hash,
              pr_votes = [\<lparr>ev_signature = generate_signature C hashed pub sec, ev_validator_index = word_of_nat slot\<rparr>]\<rparr>)"

text \<open>The loop over the votes: \<open>prev_index\<close> is \<open>None\<close> while \<open>first\<close> is set.\<close>

fun check_round_votes :: "crypto_ops \<Rightarrow> hash \<Rightarrow> public_key list \<Rightarrow> u32 option \<Rightarrow> tx_extra_vote list \<Rightarrow> bool" where
  "check_round_votes C hashed quorum_keys prev_index [] = True"
| "check_round_votes C hashed quorum_keys prev_index (vote # votes) =
    (if length quorum_keys \<le> unat (ev_validator_index vote) then False
     else if (case prev_index of None \<Rightarrow> False | Some p \<Rightarrow> ev_validator_index vote \<le> p) then False
     else if \<not> check_signature C hashed (quorum_keys ! unat (ev_validator_index vote)) (ev_signature vote) then False
     else check_round_votes C hashed quorum_keys (Some (ev_validator_index vote)) votes)"

definition verify_round ::
  "crypto_ops \<Rightarrow> tx_extra_pulse_round \<Rightarrow> u64 \<Rightarrow> hash \<Rightarrow> nat \<Rightarrow> public_key list \<Rightarrow> nat \<Rightarrow> bool" where
  "verify_round C extra_round height prev_id active_sn_count quorum_keys min_signatures =
    (if pr_height extra_round \<noteq> height then False
     else if k_max_round < pr_round extra_round then False
     else if active_sn_count = 0 then False
     else if unat (pr_leader_index extra_round) \<noteq> leader_index C height active_sn_count (pr_round extra_round) then False
     else if quorum_keys = [] then False
     else if length (pr_votes extra_round) < min_signatures then False
     else
       let hashed = round_hash C height prev_id (pr_round extra_round) (pr_payload_hash extra_round)
       in check_round_votes C hashed quorum_keys None (pr_votes extra_round))"

definition verify_majority_certificate ::
  "crypto_ops \<Rightarrow> tx_extra_pulse_round \<Rightarrow> u64 \<Rightarrow> hash \<Rightarrow> nat \<Rightarrow> public_key list \<Rightarrow> bool" where
  "verify_majority_certificate C extra_round height prev_id active_sn_count quorum_keys =
    (let min_sigs = min_signatures_for_quorum (length quorum_keys)
     in if min_sigs = 0 \<or> length (pr_votes extra_round) \<noteq> min_sigs then False
        else if pr_payload_hash extra_round = null_hash then False
        else verify_round C extra_round height prev_id active_sn_count quorum_keys min_sigs)"

definition majority_certificate_blob_size :: nat where
  "majority_certificate_blob_size =
    (let votes = map (\<lambda>i. \<lparr>ev_signature = null_bytes 64, ev_validator_index = word_of_nat i\<rparr>)
           [0..<min_signatures_for_quorum k_quorum_size];
         p = \<lparr>pr_height = 0xffffffffffffffff, pr_round = k_max_round, pr_leader_index = 0xffffffff,
              pr_payload_hash = null_hash, pr_votes = votes\<rparr>
     in case add_pulse_round_to_tx_extra [] p of None \<Rightarrow> 0 | Some blob \<Rightarrow> length blob)"

text \<open>\<open>None\<close> where the code returns \<open>false\<close> and leaves \<open>extra\<close> alone.\<close>

definition splice_majority_certificate :: "bytes \<Rightarrow> nat \<Rightarrow> tx_extra_pulse_round \<Rightarrow> bytes option" where
  "splice_majority_certificate tx_extra extra_before_padding cert =
    (case add_pulse_round_to_tx_extra [] cert of
       None \<Rightarrow> None
     | Some blob \<Rightarrow>
         if blob = [] \<or> length tx_extra < extra_before_padding then None
         else
           let padding = length tx_extra - extra_before_padding
           in if padding < length blob then None
              else
                let leftover = padding - length blob
                in Some (take extra_before_padding tx_extra @ blob @ replicate leftover 0))"

record miner_extra_summary =
  ms_present :: bool
  ms_round :: u8
  ms_leader_index :: u32
  ms_signature_count :: nat
  ms_payload_hash :: hash

definition summarize_miner_pulse_extra :: "bytes \<Rightarrow> bool \<times> miner_extra_summary" where
  "summarize_miner_pulse_extra tx_extra =
    (let out = \<lparr>ms_present = False, ms_round = 0, ms_leader_index = 0, ms_signature_count = 0, ms_payload_hash = null_hash\<rparr>
     in case get_pulse_round_from_tx_extra tx_extra of
          None \<Rightarrow> (False, out)
        | Some p \<Rightarrow>
            (True, \<lparr>ms_present = True, ms_round = pr_round p, ms_leader_index = pr_leader_index p,
               ms_signature_count = length (pr_votes p), ms_payload_hash = pr_payload_hash p\<rparr>))"

section \<open>The packed vote\<close>

record relay_vote =
  rv_height :: u64
  rv_round :: u8
  rv_leader_index :: u32
  rv_validator_index :: u32
  rv_prev_id :: hash
  rv_payload_hash :: hash
  rv_signature :: signature

definition k_relay_vote_version :: u8 where "k_relay_vote_version = 2"

definition k_relay_vote_bytes :: nat where
  "k_relay_vote_bytes = 1 + 8 + 1 + 4 + 4 + 32 + 32 + 64"

definition encode_relay_vote :: "relay_vote \<Rightarrow> bytes" where
  "encode_relay_vote vote =
    k_relay_vote_version # save_uint (rv_height vote) @ save_uint (rv_round vote) @ save_uint (rv_leader_index vote) @
    save_uint (rv_validator_index vote) @ rv_prev_id vote @ rv_payload_hash vote @ rv_signature vote"

definition decode_relay_vote :: "bytes \<Rightarrow> relay_vote option" where
  "decode_relay_vote blob =
    (if length blob \<noteq> k_relay_vote_bytes then None
     else if blob ! 0 \<noteq> k_relay_vote_version then None
     else do {
       (height, bs) \<leftarrow> load_uint (drop 1 blob);
       (round, bs) \<leftarrow> load_uint bs;
       (leader, bs) \<leftarrow> load_uint bs;
       (index, bs) \<leftarrow> load_uint bs;
       (prev, bs) \<leftarrow> load_blob 32 bs;
       (payload, bs) \<leftarrow> load_blob 32 bs;
       (sig, bs) \<leftarrow> load_blob 64 bs;
       Some \<lparr>rv_height = height, rv_round = round, rv_leader_index = leader, rv_validator_index = index,
         rv_prev_id = prev, rv_payload_hash = payload, rv_signature = sig\<rparr>
     })"

section \<open>The collector\<close>

record round_collector =
  rc_extra :: tx_extra_pulse_round
  rc_prev_id :: hash
  rc_payload_hash :: hash
  rc_quorum_size :: nat

definition clear :: "round_collector \<Rightarrow> round_collector" where
  "clear c = c\<lparr>rc_extra := null_round, rc_prev_id := null_hash, rc_payload_hash := null_hash, rc_quorum_size := 0\<rparr>"

definition new_collector :: round_collector where
  "new_collector = \<lparr>rc_extra = null_round, rc_prev_id = null_hash, rc_payload_hash = null_hash, rc_quorum_size = 0\<rparr>"

definition prepare :: "u64 \<Rightarrow> hash \<Rightarrow> u8 \<Rightarrow> u32 \<Rightarrow> round_collector \<Rightarrow> round_collector" where
  "prepare height prev_id round leader c =
    (if pr_height (rc_extra c) = height \<and> pr_round (rc_extra c) = round \<and> rc_prev_id c = prev_id \<and>
        pr_leader_index (rc_extra c) = leader then c
     else c\<lparr>rc_extra := null_round\<lparr>pr_height := height, pr_round := round, pr_leader_index := leader\<rparr>,
       rc_prev_id := prev_id, rc_payload_hash := null_hash, rc_quorum_size := 0\<rparr>)"

text \<open>\<open>std::lower_bound\<close> on votes in ascending order, and the insertion there.\<close>

fun insert_sorted_vote :: "tx_extra_vote \<Rightarrow> tx_extra_vote list \<Rightarrow> tx_extra_vote list" where
  "insert_sorted_vote vote [] = [vote]"
| "insert_sorted_vote vote (v # vs) =
    (if ev_validator_index v < ev_validator_index vote then v # insert_sorted_vote vote vs else vote # v # vs)"

definition add_vote ::
  "crypto_ops \<Rightarrow> bool \<Rightarrow> relay_vote \<Rightarrow> public_key list \<Rightarrow> nat \<Rightarrow> bool \<Rightarrow> round_collector \<Rightarrow>
    bool \<times> relay_vote list \<times> round_collector" where
  "add_vote C hooked vote quorum_keys active_sn_count relay_if_new c =
    (if quorum_keys = [] \<or> length quorum_keys \<le> unat (rv_validator_index vote) then (False, [], c)
     else
       let same_block = (pr_height (rc_extra c) = rv_height vote \<and> rc_prev_id c = rv_prev_id vote)
       in if same_block \<and> rv_round vote < pr_round (rc_extra c) then (False, [], c)
          else
            let same_round = (same_block \<and> pr_round (rc_extra c) = rv_round vote);
                switch = (\<not> same_round \<or> rc_payload_hash c \<noteq> rv_payload_hash vote)
            in if switch \<and> same_round \<and> rv_payload_hash vote = null_hash \<and> rc_payload_hash c \<noteq> null_hash
               then (False, [], c)
               else if switch \<and> same_round \<and> rc_payload_hash c \<noteq> null_hash \<and> rv_payload_hash vote \<noteq> rc_payload_hash c
               then (False, [], c)
               else
                 let c = (if switch
                          then c\<lparr>rc_extra := null_round\<lparr>pr_height := rv_height vote, pr_round := rv_round vote,
                                   pr_leader_index := rv_leader_index vote, pr_payload_hash := rv_payload_hash vote\<rparr>,
                                 rc_prev_id := rv_prev_id vote, rc_payload_hash := rv_payload_hash vote\<rparr>
                          else c);
                     c = c\<lparr>rc_quorum_size := length quorum_keys,
                           rc_extra := (rc_extra c)\<lparr>pr_payload_hash := rv_payload_hash vote\<rparr>\<rparr>
                 in if pr_leader_index (rc_extra c) \<noteq> rv_leader_index vote then (False, [], c)
                    else if list_ex (\<lambda>e. ev_validator_index e = rv_validator_index vote) (pr_votes (rc_extra c))
                    then (False, [], c)
                    else
                      let probe = (rc_extra c)\<lparr>pr_votes := insert_sorted_vote
                            \<lparr>ev_signature = rv_signature vote, ev_validator_index = rv_validator_index vote\<rparr>
                            (pr_votes (rc_extra c))\<rparr>
                      in if \<not> verify_round C probe (rv_height vote) (rv_prev_id vote) active_sn_count quorum_keys
                               (length (pr_votes probe))
                         then (False, [], c)
                         else (True, if relay_if_new \<and> hooked then [vote] else [],
                           c\<lparr>rc_extra := (rc_extra c)\<lparr>pr_votes := pr_votes probe\<rparr>\<rparr>))"

definition collector_quorum :: "round_collector \<Rightarrow> nat" where
  "collector_quorum c = (if rc_quorum_size c \<noteq> 0 then rc_quorum_size c else k_quorum_size)"

definition snapshot :: "round_collector \<Rightarrow> tx_extra_pulse_round option" where
  "snapshot c =
    (let q = collector_quorum c
     in if pr_payload_hash (rc_extra c) = null_hash \<or> \<not> majority_reached (length (pr_votes (rc_extra c))) q then None
        else
          let keep = min_signatures_for_quorum q
          in Some ((rc_extra c)\<lparr>pr_votes := take keep (pr_votes (rc_extra c))\<rparr>))"

definition has_vote :: "u32 \<Rightarrow> round_collector \<Rightarrow> bool" where
  "has_vote validator_index c \<longleftrightarrow> list_ex (\<lambda>e. ev_validator_index e = validator_index) (pr_votes (rc_extra c))"

definition signature_count :: "round_collector \<Rightarrow> nat" where
  "signature_count c = length (pr_votes (rc_extra c))"

definition majority_ok :: "round_collector \<Rightarrow> bool" where
  "majority_ok c = majority_reached (signature_count c) (collector_quorum c)"

definition discard_below :: "u64 \<Rightarrow> round_collector \<Rightarrow> round_collector" where
  "discard_below height c =
    (if pr_height (rc_extra c) \<noteq> 0 \<and> pr_height (rc_extra c) < height then clear c else c)"

definition participate_round ::
  "crypto_ops \<Rightarrow> bool \<Rightarrow> u64 \<Rightarrow> hash \<Rightarrow> u8 \<Rightarrow> public_key \<Rightarrow> secret_key \<Rightarrow> public_key list \<Rightarrow> bool \<Rightarrow> hash \<Rightarrow> round_collector \<Rightarrow>
    bool \<times> relay_vote list \<times> round_collector" where
  "participate_round C hooked height prev_id round pub sec active_pubs relay payload_hash c =
    (if active_pubs = [] then (False, [], c)
     else
       let lead = word_of_nat (leader_index C height (length active_pubs) round);
           c = prepare height prev_id round lead c
       in case try_local_round C height prev_id round pub sec active_pubs payload_hash of
            None \<Rightarrow> (False, [], c)
          | Some local \<Rightarrow>
              if pr_votes local = [] then (False, [], c)
              else
                let vote = \<lparr>rv_height = pr_height local, rv_round = pr_round local, rv_leader_index = pr_leader_index local,
                      rv_validator_index = ev_validator_index (hd (pr_votes local)), rv_prev_id = prev_id,
                      rv_payload_hash = payload_hash, rv_signature = ev_signature (hd (pr_votes local))\<rparr>;
                    (added, relayed, c) =
                      add_vote C hooked vote (quorum_pubkeys C height active_pubs round) (length active_pubs) False c
                in if \<not> added \<and> \<not> has_vote (rv_validator_index vote) c then (False, [], c)
                   else (added, if relay \<and> hooked \<and> rc_payload_hash c = payload_hash then [vote] else [], c))"

section \<open>Verified rounds\<close>

definition round_signed :: "crypto_ops \<Rightarrow> hash \<Rightarrow> public_key list \<Rightarrow> tx_extra_vote list \<Rightarrow> bool" where
  "round_signed C h keys votes \<longleftrightarrow>
    (\<forall>v \<in> set votes. vote_index v < length keys \<and> check_signature C h (keys ! vote_index v) (ev_signature v)) \<and>
    sorted_wrt (<) (map ev_validator_index votes)"

lemma check_round_votes_iff:
  "check_round_votes C h keys p votes \<longleftrightarrow> round_signed C h keys votes \<and>
    (case p of None \<Rightarrow> True | Some i \<Rightarrow> \<forall>v \<in> set votes. i < ev_validator_index v)"
proof (induction votes arbitrary: p)
  case Nil
  then show ?case by (simp add: round_signed_def split: option.split)
next
  case (Cons v votes)
  show ?case
    by (cases p) (auto simp: Cons.IH round_signed_def not_le dest: less_trans)
qed

lemma verify_round_iff:
  "verify_round C r height prev n keys k \<longleftrightarrow>
    pr_height r = height \<and> pr_round r \<le> k_max_round \<and> n \<noteq> 0 \<and>
    unat (pr_leader_index r) = leader_index C height n (pr_round r) \<and> keys \<noteq> [] \<and> k \<le> length (pr_votes r) \<and>
    round_signed C (round_hash C height prev (pr_round r) (pr_payload_hash r)) keys (pr_votes r)"
  by (auto simp: verify_round_def check_round_votes_iff Let_def not_less)

lemma verify_majority_certificate_iff:
  "verify_majority_certificate C r height prev n keys \<longleftrightarrow>
    pr_payload_hash r \<noteq> null_hash \<and> length (pr_votes r) = min_signatures_for_quorum (length keys) \<and>
    verify_round C r height prev n keys (length (pr_votes r))"
  by (auto simp: verify_majority_certificate_def verify_round_iff min_signatures_for_quorum_def Let_def)

lemma round_signed_take: "round_signed C h keys votes \<Longrightarrow> round_signed C h keys (take k votes)"
  unfolding round_signed_def by (metis in_set_takeD sorted_wrt_take take_map)

lemma round_signed_distinct: "round_signed C h keys votes \<Longrightarrow> distinct (map vote_index votes)"
  by (auto simp: round_signed_def distinct_conv_nth sorted_wrt_iff_nth_less word_less_nat_alt nat_neq_iff)

lemma set_insert_sorted_vote: "set (insert_sorted_vote v vs) = insert v (set vs)"
  by (induction vs) auto

lemma length_insert_sorted_vote [simp]: "length (insert_sorted_vote v vs) = Suc (length vs)"
  by (induction vs) auto

lemma sorted_insert_sorted_vote:
  assumes "sorted_wrt (<) (map ev_validator_index vs)" and "\<forall>e \<in> set vs. ev_validator_index e \<noteq> ev_validator_index v"
  shows "sorted_wrt (<) (map ev_validator_index (insert_sorted_vote v vs))"
  using assms
proof (induction vs)
  case (Cons e vs)
  then show ?case by (auto simp: set_insert_sorted_vote not_less intro: less_trans order.not_eq_order_implies_strict)
qed simp

section \<open>Quorum intersection\<close>

lemma min_signatures_majority: "q \<notin> {0, 2, 4} \<Longrightarrow> q < 2 * min_signatures_for_quorum q"
  by (auto simp: min_signatures_for_quorum_def Let_def) arith

lemma common_signer:
  assumes "round_signed C h keys vs" and "round_signed C h' keys ws" and "length keys < length vs + length ws"
  shows "\<exists>i < length keys. i \<in> vote_index ` set vs \<and> i \<in> vote_index ` set ws"
proof (rule ccontr)
  let ?V = "vote_index ` set vs" and ?W = "vote_index ` set ws"
  have card: "card ?V = length vs" "card ?W = length ws"
    using distinct_card [OF round_signed_distinct [OF assms(1)]] distinct_card [OF round_signed_distinct [OF assms(2)]]
    by simp_all
  have sub: "?V \<union> ?W \<subseteq> {..<length keys}" using assms(1,2) by (auto simp: round_signed_def)
  assume "\<not> ?thesis"
  with sub have "?V \<inter> ?W = {}" by auto
  then have "card (?V \<union> ?W) = length vs + length ws" using card by (simp add: card_Un_disjoint)
  with card_mono [OF _ sub] assms(3) show False by simp
qed

section \<open>The collector's invariant\<close>

text \<open>
  Both callers pass the quorum of the height and round the vote is for, drawn from the service nodes that are
  active at the tip of the chain. \<open>active\<close> gives these nodes for the block the vote is on top of: the lemmas are
  about votes on top of blocks that were the tip when the votes came, and not about a vote for some other previous
  block, which is checked with the nodes of the tip all the same.
\<close>

abbreviation round_keys :: "crypto_ops \<Rightarrow> (hash \<Rightarrow> public_key list) \<Rightarrow> u64 \<Rightarrow> hash \<Rightarrow> u8 \<Rightarrow> public_key list" where
  "round_keys C active height prev round \<equiv> quorum_pubkeys C height (active prev) round"

definition collector_inv :: "crypto_ops \<Rightarrow> (hash \<Rightarrow> public_key list) \<Rightarrow> round_collector \<Rightarrow> bool" where
  "collector_inv C active c \<longleftrightarrow>
    (let r = rc_extra c; prev = rc_prev_id c; keys = round_keys C active (pr_height r) prev (pr_round r)
     in pr_payload_hash r = rc_payload_hash c \<and>
        (rc_quorum_size c = 0 \<or> rc_quorum_size c = length keys) \<and>
        (pr_votes r \<noteq> [] \<longrightarrow> rc_quorum_size c \<noteq> 0 \<and>
          verify_round C r (pr_height r) prev (length (active prev)) keys (length (pr_votes r))))"

inductive collector_reachable :: "crypto_ops \<Rightarrow> (hash \<Rightarrow> public_key list) \<Rightarrow> round_collector \<Rightarrow> bool"
  for C active where
  rc_new: "collector_reachable C active new_collector"
| rc_prepare: "collector_reachable C active c \<Longrightarrow> collector_reachable C active (prepare height prev_id round leader c)"
| rc_add: "collector_reachable C active c \<Longrightarrow>
    add_vote C hooked vote (round_keys C active (rv_height vote) (rv_prev_id vote) (rv_round vote))
      (length (active (rv_prev_id vote))) relay_if_new c = (added, relayed, c') \<Longrightarrow>
    collector_reachable C active c'"
| rc_participate: "collector_reachable C active c \<Longrightarrow>
    participate_round C hooked height prev_id round pub sec (active prev_id) relay payload_hash c = (added, relayed, c') \<Longrightarrow>
    collector_reachable C active c'"
| rc_discard: "collector_reachable C active c \<Longrightarrow> collector_reachable C active (discard_below height c)"
| rc_clear: "collector_reachable C active c \<Longrightarrow> collector_reachable C active (clear c)"

lemma null_round_votes [simp]: "pr_votes null_round = []"
  by (simp add: null_round_def)

lemma empty_collector_inv: "pr_votes (rc_extra c) = [] \<Longrightarrow> rc_quorum_size c = 0 \<Longrightarrow>
    pr_payload_hash (rc_extra c) = rc_payload_hash c \<Longrightarrow> collector_inv C active c"
  by (simp add: collector_inv_def Let_def)

lemma prepare_inv: "collector_inv C active c \<Longrightarrow> collector_inv C active (prepare height prev_id round leader c)"
  by (auto simp: prepare_def null_round_def intro: empty_collector_inv)

lemma clear_inv: "collector_inv C active (clear c)"
  by (rule empty_collector_inv) (simp_all add: clear_def null_round_def)

text \<open>
  What \<open>add_vote\<close> does, without the nesting: it rejects early and keeps the collector, or moves to
  the state for the vote's round and then keeps or extends the votes there.
\<close>

definition switch_round :: "relay_vote \<Rightarrow> nat \<Rightarrow> round_collector \<Rightarrow> round_collector" where
  "switch_round vote n c =
    (let same_round = (pr_height (rc_extra c) = rv_height vote \<and> rc_prev_id c = rv_prev_id vote \<and> pr_round (rc_extra c) = rv_round vote);
         c = (if same_round \<and> rc_payload_hash c = rv_payload_hash vote then c
              else c\<lparr>rc_extra := null_round\<lparr>pr_height := rv_height vote, pr_round := rv_round vote,
                       pr_leader_index := rv_leader_index vote, pr_payload_hash := rv_payload_hash vote\<rparr>,
                     rc_prev_id := rv_prev_id vote, rc_payload_hash := rv_payload_hash vote\<rparr>)
     in c\<lparr>rc_quorum_size := n, rc_extra := (rc_extra c)\<lparr>pr_payload_hash := rv_payload_hash vote\<rparr>\<rparr>)"

definition early_reject :: "relay_vote \<Rightarrow> public_key list \<Rightarrow> round_collector \<Rightarrow> bool" where
  "early_reject vote keys c \<longleftrightarrow>
    length keys \<le> unat (rv_validator_index vote) \<or>
    pr_height (rc_extra c) = rv_height vote \<and> rc_prev_id c = rv_prev_id vote \<and>
      (rv_round vote < pr_round (rc_extra c) \<or>
       pr_round (rc_extra c) = rv_round vote \<and> rc_payload_hash c \<noteq> null_hash \<and> rv_payload_hash vote \<noteq> rc_payload_hash c)"

abbreviation vote_of :: "relay_vote \<Rightarrow> tx_extra_vote" where
  "vote_of v \<equiv> \<lparr>ev_signature = rv_signature v, ev_validator_index = rv_validator_index v\<rparr>"

definition extend_votes :: "relay_vote \<Rightarrow> round_collector \<Rightarrow> round_collector" where
  "extend_votes vote c =
    c\<lparr>rc_extra := (rc_extra c)\<lparr>pr_votes := insert_sorted_vote (vote_of vote) (pr_votes (rc_extra c))\<rparr>\<rparr>"

definition acceptable :: "crypto_ops \<Rightarrow> relay_vote \<Rightarrow> public_key list \<Rightarrow> nat \<Rightarrow> round_collector \<Rightarrow> bool" where
  "acceptable C vote keys n c \<longleftrightarrow>
    pr_leader_index (rc_extra c) = rv_leader_index vote \<and> \<not> has_vote (rv_validator_index vote) c \<and>
    verify_round C (rc_extra (extend_votes vote c)) (rv_height vote) (rv_prev_id vote) n keys
      (Suc (length (pr_votes (rc_extra c))))"

lemma add_vote_cases:
  "add_vote C hooked vote keys n relay c =
    (if early_reject vote keys c then (False, [], c)
     else
       let c' = switch_round vote (length keys) c
       in if acceptable C vote keys n c' then (True, if relay \<and> hooked then [vote] else [], extend_votes vote c')
          else (False, [], c'))"
proof (cases "early_reject vote keys c")
  case True
  then show ?thesis by (auto simp: add_vote_def early_reject_def Let_def)
next
  case False
  then have "keys \<noteq> []" by (auto simp: early_reject_def)
  have flip: "(if \<not> b then x else y) = (if b then y else x)" for b and x y :: "bool \<times> relay_vote list \<times> round_collector" by simp
  let ?same = "pr_height (rc_extra c) = rv_height vote \<and> rc_prev_id c = rv_prev_id vote \<and> pr_round (rc_extra c) = rv_round vote"
  show ?thesis
  proof (cases "?same \<and> rc_payload_hash c = rv_payload_hash vote")
    case True
    with False \<open>keys \<noteq> []\<close> show ?thesis
      by (simp add: add_vote_def early_reject_def switch_round_def acceptable_def extend_votes_def has_vote_def Let_def)
  next
    case other: False
    then consider "pr_height (rc_extra c) \<noteq> rv_height vote" | "rc_prev_id c \<noteq> rv_prev_id vote"
      | "pr_height (rc_extra c) = rv_height vote" "rc_prev_id c = rv_prev_id vote" "pr_round (rc_extra c) \<noteq> rv_round vote"
      | "pr_height (rc_extra c) = rv_height vote" "rc_prev_id c = rv_prev_id vote" "pr_round (rc_extra c) = rv_round vote"
        "rc_payload_hash c \<noteq> rv_payload_hash vote"
      by blast
    then show ?thesis
      using False \<open>keys \<noteq> []\<close>
      by cases (simp_all add: add_vote_def early_reject_def switch_round_def acceptable_def extend_votes_def has_vote_def Let_def
          flip split del: if_split cong: if_cong)
  qed
qed

lemma switch_round_fields:
  fixes vote c n
  defines "c' \<equiv> switch_round vote n c"
  shows "pr_height (rc_extra c') = rv_height vote" "pr_round (rc_extra c') = rv_round vote" "rc_prev_id c' = rv_prev_id vote"
    "rc_quorum_size c' = n" "rc_payload_hash c' = rv_payload_hash vote" "pr_payload_hash (rc_extra c') = rv_payload_hash vote"
    "pr_votes (rc_extra c') = [] \<or> c' = c\<lparr>rc_quorum_size := n, rc_extra := (rc_extra c)\<lparr>pr_payload_hash := rv_payload_hash vote\<rparr>\<rparr>
      \<and> rc_payload_hash c = rv_payload_hash vote"
  by (auto simp: c'_def switch_round_def Let_def)

lemma switch_round_inv:
  assumes "collector_inv C active c" and "keys = round_keys C active (rv_height vote) (rv_prev_id vote) (rv_round vote)" and "keys \<noteq> []"
  shows "collector_inv C active (switch_round vote (length keys) c)"
proof -
  let ?c = "switch_round vote (length keys) c"
  note F = switch_round_fields [of vote "length keys" c]
  have "verify_round C (rc_extra ?c) (rv_height vote) (rv_prev_id vote) (length (active (rv_prev_id vote))) keys
      (length (pr_votes (rc_extra ?c)))" if "pr_votes (rc_extra ?c) \<noteq> []"
  proof -
    have eq: "?c = c\<lparr>rc_quorum_size := length keys, rc_extra := (rc_extra c)\<lparr>pr_payload_hash := rv_payload_hash vote\<rparr>\<rparr>"
      and pay: "rc_payload_hash c = rv_payload_hash vote" using F(7) that by auto
    have "pr_payload_hash (rc_extra c) = rv_payload_hash vote"
      using assms(1) pay by (simp add: collector_inv_def Let_def)
    then have "rc_extra ?c = rc_extra c" unfolding eq by simp
    moreover have "rc_prev_id ?c = rc_prev_id c" unfolding eq by simp
    ultimately show ?thesis using that assms(1,2) F(1-3) by (simp add: collector_inv_def Let_def)
  qed
  then show ?thesis using F assms(2,3) by (simp add: collector_inv_def Let_def)
qed

lemma extend_votes_inv:
  assumes "collector_inv C active c" and "acceptable C vote keys (length (active (rc_prev_id c))) c"
    and "keys = round_keys C active (pr_height (rc_extra c)) (rc_prev_id c) (pr_round (rc_extra c))"
    and "rv_height vote = pr_height (rc_extra c)" "rv_prev_id vote = rc_prev_id c" "rc_quorum_size c \<noteq> 0"
  shows "collector_inv C active (extend_votes vote c)"
  using assms by (simp add: collector_inv_def acceptable_def extend_votes_def Let_def)

lemma add_vote_inv:
  assumes "collector_inv C active c"
    and "add_vote C hooked vote (round_keys C active (rv_height vote) (rv_prev_id vote) (rv_round vote))
      (length (active (rv_prev_id vote))) relay c = (added, relayed, c')"
  shows "collector_inv C active c'"
proof -
  let ?keys = "round_keys C active (rv_height vote) (rv_prev_id vote) (rv_round vote)"
  let ?s = "switch_round vote (length ?keys) c"
  show ?thesis
  proof (cases "early_reject vote ?keys c")
    case True
    then show ?thesis using assms by (simp add: add_vote_cases)
  next
    case False
    then have ne: "?keys \<noteq> []" by (auto simp: early_reject_def)
    note inv = switch_round_inv [OF assms(1) refl ne]
    note F = switch_round_fields [of vote "length ?keys" c]
    have "collector_inv C active (extend_votes vote ?s)" if "acceptable C vote ?keys (length (active (rv_prev_id vote))) ?s"
      using that ne F by (intro extend_votes_inv [OF inv]) simp_all
    with False inv assms(2) show ?thesis by (auto simp: add_vote_cases Let_def split: if_splits)
  qed
qed

lemma try_local_round_Some:
  assumes "try_local_round C height prev_id round pub sec actives payload_hash = Some r"
  obtains slot where "validator_slot C height actives pub round = Some slot"
    and "r = \<lparr>pr_height = height, pr_round = round, pr_leader_index = word_of_nat (leader_index C height (length actives) round),
      pr_payload_hash = payload_hash, pr_votes = [\<lparr>ev_signature =
        generate_signature C (round_hash C height prev_id round payload_hash) pub sec, ev_validator_index = word_of_nat slot\<rparr>]\<rparr>"
  using assms by (auto simp: try_local_round_def Let_def split: option.splits)

lemma participate_inv:
  assumes "collector_inv C active c"
    and "participate_round C hooked height prev_id round pub sec (active prev_id) relay payload_hash c = (added, relayed, c')"
  shows "collector_inv C active c'"
proof -
  let ?c = "prepare height prev_id round (word_of_nat (leader_index C height (length (active prev_id)) round)) c"
  have inv: "collector_inv C active ?c" using assms(1) by (rule prepare_inv)
  show ?thesis
  proof (cases "active prev_id = [] \<or> try_local_round C height prev_id round pub sec (active prev_id) payload_hash = None")
    case True
    then show ?thesis using assms inv by (cases "active prev_id = []") (auto simp: participate_round_def Let_def)
  next
    case False
    then obtain r where "try_local_round C height prev_id round pub sec (active prev_id) payload_hash = Some r" by auto
    then obtain slot where r: "try_local_round C height prev_id round pub sec (active prev_id) payload_hash = Some
        \<lparr>pr_height = height, pr_round = round, pr_leader_index = word_of_nat (leader_index C height (length (active prev_id)) round),
         pr_payload_hash = payload_hash, pr_votes = [\<lparr>ev_signature =
           generate_signature C (round_hash C height prev_id round payload_hash) pub sec, ev_validator_index = word_of_nat slot\<rparr>]\<rparr>"
      by (metis try_local_round_Some)
    let ?v = "\<lparr>rv_height = height, rv_round = round, rv_leader_index = word_of_nat (leader_index C height (length (active prev_id)) round),
      rv_validator_index = word_of_nat slot, rv_prev_id = prev_id, rv_payload_hash = payload_hash,
      rv_signature = generate_signature C (round_hash C height prev_id round payload_hash) pub sec\<rparr>"
    obtain added' relayed' c'' where a: "add_vote C hooked ?v (quorum_pubkeys C height (active prev_id) round)
        (length (active prev_id)) False ?c = (added', relayed', c'')" by (metis prod_cases3)
    then have "collector_inv C active c''" using add_vote_inv [OF inv, of hooked ?v False added' relayed' c''] by simp
    moreover have "c' = c''" using False r a assms(2) by (auto simp: participate_round_def Let_def split: if_splits)
    ultimately show ?thesis by simp
  qed
qed

lemma collector_reachable_inv: "collector_reachable C active c \<Longrightarrow> collector_inv C active c"
proof (induction rule: collector_reachable.induct)
  case rc_new
  show ?case by (rule empty_collector_inv) (simp_all add: new_collector_def null_round_def)
next
  case (rc_discard c height)
  then show ?case by (simp add: discard_below_def clear_inv)
qed (auto intro: prepare_inv add_vote_inv participate_inv clear_inv)

section \<open>The quorum\<close>

lemma leader_index_less: "0 < n \<Longrightarrow> leader_index C height n round < n"
  by (simp add: leader_index_def Let_def)

lemma mod_offsets_distinct: "m \<le> n \<Longrightarrow> distinct (map (\<lambda>i. (a + i) mod n) [0..<m])" for a n :: nat
proof -
  assume "m \<le> n"
  have le: "i = j" if "(a + j) mod n = (a + i) mod n" "j < m" "i \<le> j" for i j
  proof -
    have "n dvd (a + j) - (a + i)" using that by (intro mod_eq_dvd_iff_nat [THEN iffD1]) auto
    then have "n dvd j - i" by simp
    with that \<open>m \<le> n\<close> show ?thesis by (auto dest: dvd_imp_le)
  qed
  have "i = j" if "(a + i) mod n = (a + j) mod n" "i < m" "j < m" for i j
    using le that nat_le_linear by metis
  then have "inj_on (\<lambda>i. (a + i) mod n) {0..<m}" by (intro inj_onI) (simp only: atLeastLessThan_iff)
  then show ?thesis by (simp add: distinct_map)
qed

lemma quorum_indices_props:
  "length (quorum_indices C height n round k) = min n k"
  "distinct (quorum_indices C height n round k)"
  "x \<in> set (quorum_indices C height n round k) \<Longrightarrow> x < n"
  by (auto simp: quorum_indices_def Let_def mod_offsets_distinct split: if_splits)

lemma quorum_pubkeys_eq:
  "quorum_pubkeys C height actives round = map ((!) actives) (quorum_indices C height (length actives) round k_quorum_size)"
  using quorum_indices_props(3) [of _ C height "length actives" round k_quorum_size]
  by (simp add: quorum_pubkeys_def filter_id_conv)

lemma validator_slot_Some:
  assumes "validator_slot C height actives pub round = Some slot"
  shows "slot < length (quorum_pubkeys C height actives round)" and "quorum_pubkeys C height actives round ! slot = pub"
    and "slot < k_quorum_size"
  using index_where_Some [OF assms [unfolded validator_slot_def Let_def]]
    quorum_indices_props(1) [of C height "length actives" round k_quorum_size]
  by (auto simp: quorum_pubkeys_eq)

section \<open>Properties\<close>

text \<open>A run with one service node, which is its own quorum.\<close>

definition lone_collector :: round_collector where
  "lone_collector = snd (snd (participate_round plain_crypto True 100 (replicate 32 1) 0 (sn_pub sample_keys) (sn_key sample_keys)
     [sn_pub sample_keys] True (replicate 32 2) new_collector))"

lemma lone_collector_reachable: "collector_reachable plain_crypto (\<lambda>_. [sn_pub sample_keys]) lone_collector"
  unfolding lone_collector_def
  by (rule rc_participate [OF rc_new, where active = "\<lambda>_. [sn_pub sample_keys]" and prev_id = "replicate 32 1"
        and added = "fst (participate_round plain_crypto True 100 (replicate 32 1) 0 (sn_pub sample_keys) (sn_key sample_keys)
          [sn_pub sample_keys] True (replicate 32 2) new_collector)"
        and relayed = "fst (snd (participate_round plain_crypto True 100 (replicate 32 1) 0 (sn_pub sample_keys) (sn_key sample_keys)
          [sn_pub sample_keys] True (replicate 32 2) new_collector))"]) simp

lemma lone_round:
  "leader_index C height 1 round = 0" "quorum_pubkeys C height [k] round = [k]" "validator_slot C height [k] k round = Some 0"
  by (simp_all add: leader_index_def quorum_pubkeys_def validator_slot_def quorum_indices_def k_quorum_size_def Let_def)

lemma lone_collector_eq:
  "lone_collector =
    \<lparr>rc_extra = \<lparr>pr_height = 100, pr_round = 0, pr_leader_index = 0, pr_payload_hash = replicate 32 2,
       pr_votes = [\<lparr>ev_signature = sn_pub sample_keys @ round_hash plain_crypto 100 (replicate 32 1) 0 (replicate 32 2),
         ev_validator_index = 0\<rparr>]\<rparr>,
     rc_prev_id = replicate 32 1, rc_payload_hash = replicate 32 2, rc_quorum_size = 1\<rparr>"
  by (simp add: lone_collector_def participate_round_def add_vote_cases early_reject_def switch_round_def acceptable_def
      extend_votes_def verify_round_iff round_signed_def try_local_round_def prepare_def new_collector_def null_round_def
      has_vote_def lone_round [simplified] null_bytes_def plain_crypto_def k_max_round_def Let_def)

text \<open>
  (C13) Whatever the collector hands out as a certificate verifies as one. For a collector reached by
  any sequence of preparing, adding received votes, participating, discarding and clearing, where
  every vote comes with the quorum of its own round over the nodes active on its previous block, a
  snapshot is a majority certificate for the collector's height, previous block and round: exactly the
  threshold number of votes, by distinct quorum members in ascending order, all signatures valid, on a
  payload that is not null.
\<close>

theorem snapshot_certificate:
  assumes "collector_reachable C active c" and "snapshot c = Some cert"
  shows "verify_majority_certificate C cert (pr_height (rc_extra c)) (rc_prev_id c) (length (active (rc_prev_id c)))
    (quorum_pubkeys C (pr_height (rc_extra c)) (active (rc_prev_id c)) (pr_round (rc_extra c)))"
proof -
  let ?r = "rc_extra c" and ?n = "length (active (rc_prev_id c))"
  let ?keys = "quorum_pubkeys C (pr_height ?r) (active (rc_prev_id c)) (pr_round ?r)"
  have cert: "pr_payload_hash ?r \<noteq> null_hash" "min_signatures_for_quorum (collector_quorum c) \<le> length (pr_votes ?r)"
    "cert = ?r\<lparr>pr_votes := take (min_signatures_for_quorum (collector_quorum c)) (pr_votes ?r)\<rparr>"
    using assms(2) by (auto simp: snapshot_def majority_reached_def Let_def split: if_splits)
  have "0 < min_signatures_for_quorum (collector_quorum c)"
    by (simp add: collector_quorum_def min_signatures_for_quorum_def k_quorum_size_def Let_def)
  with cert(2) have "pr_votes ?r \<noteq> []" by auto
  with collector_reachable_inv [OF assms(1)]
  have "collector_quorum c = length ?keys"
    and v: "verify_round C ?r (pr_height ?r) (rc_prev_id c) ?n ?keys (length (pr_votes ?r))"
    by (auto simp: collector_inv_def collector_quorum_def Let_def)
  then show ?thesis
    using cert by (auto simp: verify_majority_certificate_iff verify_round_iff round_signed_take)
qed

theorem snapshot_certificate_witness:
  "\<exists>cert. snapshot lone_collector = Some cert \<and>
    verify_majority_certificate plain_crypto cert 100 (replicate 32 1) 1 [sn_pub sample_keys]"
proof -
  have "snapshot lone_collector \<noteq> None"
    by (simp add: lone_collector_eq snapshot_def collector_quorum_def majority_reached_def min_signatures_for_quorum_def null_bytes_def)
  then obtain cert where "snapshot lone_collector = Some cert" by blast
  with snapshot_certificate [OF lone_collector_reachable this]
  have "verify_majority_certificate plain_crypto cert (pr_height (rc_extra lone_collector)) (rc_prev_id lone_collector) 1
    (quorum_pubkeys plain_crypto (pr_height (rc_extra lone_collector)) [sn_pub sample_keys] (pr_round (rc_extra lone_collector)))"
    by simp
  moreover have "pr_height (rc_extra lone_collector) = 100 \<and> rc_prev_id lone_collector = replicate 32 1 \<and>
    quorum_pubkeys plain_crypto 100 [sn_pub sample_keys] (pr_round (rc_extra lone_collector)) = [sn_pub sample_keys]"
    by (simp add: lone_collector_eq lone_round)
  ultimately show ?thesis using \<open>snapshot lone_collector = Some cert\<close> by auto
qed

text \<open>Four service nodes, and a certificate of the first round at height 100 by two of them.\<close>

definition four_keys :: "public_key list" where
  "four_keys = map (\<lambda>i. replicate 32 (word_of_nat i)) [0..<4]"

definition pair_certificate :: "hash \<Rightarrow> nat list \<Rightarrow> tx_extra_pulse_round" where
  "pair_certificate payload is =
    \<lparr>pr_height = 100, pr_round = 0, pr_leader_index = word_of_nat (leader_index plain_crypto 100 4 0), pr_payload_hash = payload,
     pr_votes = map (\<lambda>i. \<lparr>ev_signature = four_keys ! i @ round_hash plain_crypto 100 null_hash 0 payload,
       ev_validator_index = word_of_nat i\<rparr>) is\<rparr>"

lemma pair_certificates_verify:
  "verify_majority_certificate plain_crypto (pair_certificate (replicate 32 1) [0, 1]) 100 null_hash 4 four_keys"
  "verify_majority_certificate plain_crypto (pair_certificate (replicate 32 2) [2, 3]) 100 null_hash 4 four_keys"
  by code_simp+

text \<open>
  (C14) Two majority certificates of one round cannot come from disjoint sets of signers: some member of
  the quorum signed both, whatever their payloads, so that two conflicting certificates need a member
  that signs twice. This holds for every size of the quorum except two and four, where two thirds
  rounded down is only a half: four nodes can split into two pairs that certify two payloads.
\<close>

theorem certificates_share_signer:
  "(\<forall>C a b height prev n keys. verify_majority_certificate C a height prev n keys \<longrightarrow>
      verify_majority_certificate C b height prev n keys \<longrightarrow> length keys \<noteq> 2 \<longrightarrow> length keys \<noteq> 4 \<longrightarrow>
      (\<exists>i < length keys. \<exists>s t.
         check_signature C (round_hash C height prev (pr_round a) (pr_payload_hash a)) (keys ! i) s \<and>
         check_signature C (round_hash C height prev (pr_round b) (pr_payload_hash b)) (keys ! i) t)) \<and>
   (\<exists>C a b height prev n keys. length keys = 4 \<and> verify_majority_certificate C a height prev n keys \<and>
      verify_majority_certificate C b height prev n keys \<and> pr_payload_hash a \<noteq> pr_payload_hash b \<and>
      vote_index ` set (pr_votes a) \<inter> vote_index ` set (pr_votes b) = {})"
proof (intro conjI allI impI)
  fix C a b height prev n keys
  assume a: "verify_majority_certificate C a height prev n keys" and b: "verify_majority_certificate C b height prev n keys"
    and size: "length keys \<noteq> 2" "length keys \<noteq> 4"
  let ?ha = "round_hash C height prev (pr_round a) (pr_payload_hash a)"
    and ?hb = "round_hash C height prev (pr_round b) (pr_payload_hash b)"
  have signed: "round_signed C ?ha keys (pr_votes a)" "round_signed C ?hb keys (pr_votes b)"
    using a b by (auto simp: verify_majority_certificate_iff verify_round_iff)
  have "length keys < length (pr_votes a) + length (pr_votes b)"
    using min_signatures_majority [of "length keys"] a b size by (auto simp: verify_majority_certificate_iff verify_round_iff)
  then obtain i where i: "i < length keys" "i \<in> vote_index ` set (pr_votes a)" "i \<in> vote_index ` set (pr_votes b)"
    using common_signer [OF signed] by blast
  then obtain v w where "v \<in> set (pr_votes a)" "w \<in> set (pr_votes b)" "vote_index v = i" "vote_index w = i" by auto
  with signed have "check_signature C ?ha (keys ! i) (ev_signature v)" "check_signature C ?hb (keys ! i) (ev_signature w)"
    by (auto simp: round_signed_def)
  with i(1) show "\<exists>i < length keys. \<exists>s t. check_signature C ?ha (keys ! i) s \<and> check_signature C ?hb (keys ! i) t" by blast
next
  let ?a = "pair_certificate (replicate 32 1) [0, 1]" and ?b = "pair_certificate (replicate 32 2) [2, 3]"
  have "length four_keys = 4 \<and> pr_payload_hash ?a \<noteq> pr_payload_hash ?b \<and>
    vote_index ` set (pr_votes ?a) \<inter> vote_index ` set (pr_votes ?b) = {}"
    by (simp add: four_keys_def pair_certificate_def)
  with pair_certificates_verify have "length four_keys = 4 \<and>
      verify_majority_certificate plain_crypto ?a 100 null_hash 4 four_keys \<and> verify_majority_certificate plain_crypto ?b 100 null_hash 4 four_keys \<and>
      pr_payload_hash ?a \<noteq> pr_payload_hash ?b \<and> vote_index ` set (pr_votes ?a) \<inter> vote_index ` set (pr_votes ?b) = {}"
    by (simp only: simp_thms)
  then show "\<exists>C a b height prev n keys. length keys = 4 \<and>
      verify_majority_certificate C a height prev n keys \<and> verify_majority_certificate C b height prev n keys \<and>
      pr_payload_hash a \<noteq> pr_payload_hash b \<and> vote_index ` set (pr_votes a) \<inter> vote_index ` set (pr_votes b) = {}"
    by (intro exI)
qed

theorem certificates_share_signer_witness:
  "let cert = the (snapshot lone_collector); h = round_hash plain_crypto 100 (replicate 32 1) (pr_round cert) (pr_payload_hash cert)
   in verify_majority_certificate plain_crypto cert 100 (replicate 32 1) 1 [sn_pub sample_keys] \<and>
      (\<exists>i < length [sn_pub sample_keys]. \<exists>s t. check_signature plain_crypto h ([sn_pub sample_keys] ! i) s \<and>
         check_signature plain_crypto h ([sn_pub sample_keys] ! i) t)"
proof -
  have v: "verify_majority_certificate plain_crypto (the (snapshot lone_collector)) 100 (replicate 32 1) 1 [sn_pub sample_keys]"
    by (simp add: lone_collector_eq snapshot_def collector_quorum_def majority_reached_def min_signatures_for_quorum_def null_bytes_def
        verify_majority_certificate_iff verify_round_iff round_signed_def lone_round [simplified] plain_crypto_def k_max_round_def)
  have "length [sn_pub sample_keys] \<noteq> 2" "length [sn_pub sample_keys] \<noteq> 4" by simp_all
  from certificates_share_signer [THEN conjunct1, rule_format, OF v v this] v show ?thesis by (simp add: Let_def)
qed

text \<open>
  A vote that carries no valid signature still empties the collector. When it names a later round
  of the block the collector is working on, \<open>add_vote\<close> moves to that round before it verifies
  anything: it returns false, but the votes collected so far are gone and no certificate can be taken.
\<close>

theorem unverified_vote_empties_collector:
  assumes "unat (rv_validator_index vote) < length keys"
    and "pr_height (rc_extra c) = rv_height vote" and "rc_prev_id c = rv_prev_id vote" and "pr_round (rc_extra c) < rv_round vote"
    and "\<not> check_signature C (round_hash C (rv_height vote) (rv_prev_id vote) (rv_round vote) (rv_payload_hash vote))
      (keys ! unat (rv_validator_index vote)) (rv_signature vote)"
  shows "\<exists>c'. add_vote C hooked vote keys n relay c = (False, [], c') \<and> signature_count c' = 0 \<and> snapshot c' = None"
proof -
  let ?c = "switch_round vote (length keys) c"
  have ne: "pr_round (rc_extra c) \<noteq> rv_round vote" "\<not> rv_round vote < pr_round (rc_extra c)" using assms(4) by auto
  then have "\<not> early_reject vote keys c" using assms(1) by (auto simp: early_reject_def)
  moreover have votes: "pr_votes (rc_extra ?c) = []" using ne by (simp add: switch_round_def Let_def)
  moreover have "\<not> acceptable C vote keys n ?c"
    using assms(5) votes switch_round_fields [of vote "length keys" c]
    by (auto simp: acceptable_def verify_round_iff extend_votes_def round_signed_def)
  ultimately show ?thesis
    by (simp add: add_vote_cases Let_def signature_count_def snapshot_def majority_reached_def min_signatures_for_quorum_def
        collector_quorum_def k_quorum_size_def)
qed

theorem unverified_vote_empties_collector_witness:
  "\<exists>c'. add_vote plain_crypto True
      \<lparr>rv_height = 100, rv_round = 1, rv_leader_index = 9, rv_validator_index = 0, rv_prev_id = replicate 32 1,
       rv_payload_hash = null_hash, rv_signature = null_bytes 64\<rparr> [sn_pub sample_keys] 1 True lone_collector = (False, [], c') \<and>
    signature_count c' = 0 \<and> snapshot c' = None"
proof -
  have "pr_height (rc_extra lone_collector) = 100 \<and> rc_prev_id lone_collector = replicate 32 1 \<and>
    pr_round (rc_extra lone_collector) < 1 \<and>
    \<not> check_signature plain_crypto (round_hash plain_crypto 100 (replicate 32 1) 1 null_hash)
      ([sn_pub sample_keys] ! 0) (null_bytes 64)"
    by (auto simp: lone_collector_eq plain_crypto_def sample_keys_def null_bytes_def dest: arg_cong [where f = hd])
  then show ?thesis by (intro unverified_vote_empties_collector) simp_all
qed

lemma acceptable_honest:
  assumes inv: "collector_inv C active c"
    and at: "pr_height (rc_extra c) = rv_height vote" "rc_prev_id c = rv_prev_id vote" "pr_round (rc_extra c) = rv_round vote"
      "rc_payload_hash c = rv_payload_hash vote" "pr_leader_index (rc_extra c) = rv_leader_index vote"
    and keys: "keys = round_keys C active (rv_height vote) (rv_prev_id vote) (rv_round vote)"
    and ok: "unat (rv_validator_index vote) < length keys" "rv_round vote \<le> k_max_round" "active (rv_prev_id vote) \<noteq> []"
      "unat (rv_leader_index vote) = leader_index C (rv_height vote) (length (active (rv_prev_id vote))) (rv_round vote)"
      "\<not> has_vote (rv_validator_index vote) c"
      "check_signature C (round_hash C (rv_height vote) (rv_prev_id vote) (rv_round vote) (rv_payload_hash vote))
        (keys ! unat (rv_validator_index vote)) (rv_signature vote)"
  shows "acceptable C vote keys (length (active (rv_prev_id vote))) c"
proof -
  let ?h = "round_hash C (rv_height vote) (rv_prev_id vote) (rv_round vote) (rv_payload_hash vote)"
  have pay: "pr_payload_hash (rc_extra c) = rv_payload_hash vote" using inv at(4) by (simp add: collector_inv_def Let_def)
  have "round_signed C ?h keys (pr_votes (rc_extra c))"
  proof (cases "pr_votes (rc_extra c) = []")
    case True
    then show ?thesis by (simp add: round_signed_def)
  next
    case False
    then show ?thesis using inv at pay keys by (simp add: collector_inv_def verify_round_iff Let_def)
  qed
  moreover have "\<forall>e \<in> set (pr_votes (rc_extra c)). ev_validator_index e \<noteq> rv_validator_index vote"
    using ok(5) by (auto simp: has_vote_def list_ex_iff)
  ultimately have "round_signed C ?h keys (insert_sorted_vote (vote_of vote) (pr_votes (rc_extra c)))"
    using ok(1,6) sorted_insert_sorted_vote [of "pr_votes (rc_extra c)" "vote_of vote"]
    by (auto simp: round_signed_def set_insert_sorted_vote)
  moreover have "keys \<noteq> []" using ok(1) by auto
  ultimately show ?thesis
    using at pay ok by (simp add: acceptable_def verify_round_iff extend_votes_def)
qed

lemma prepare_fields:
  fixes c height prev_id round leader
  defines "c' \<equiv> prepare height prev_id round leader c"
  shows "pr_height (rc_extra c') = height" "rc_prev_id c' = prev_id" "pr_round (rc_extra c') = round"
    "pr_leader_index (rc_extra c') = leader"
    "c' = c \<and> pr_height (rc_extra c) = height \<and> rc_prev_id c = prev_id \<and> pr_round (rc_extra c) = round \<or>
      pr_votes (rc_extra c') = [] \<and> rc_payload_hash c' = null_hash"
  by (auto simp: c'_def prepare_def)

lemma has_vote_extend: "has_vote (rv_validator_index vote) (extend_votes vote c)"
  by (simp add: has_vote_def extend_votes_def list_ex_iff set_insert_sorted_vote)

lemma honest_vote_added:
  assumes inv: "collector_inv C active c"
    and at: "pr_height (rc_extra c) = rv_height vote" "rc_prev_id c = rv_prev_id vote" "pr_round (rc_extra c) = rv_round vote"
      "pr_leader_index (rc_extra c) = rv_leader_index vote"
    and pay: "rc_payload_hash c = null_hash \<or> rc_payload_hash c = rv_payload_hash vote"
    and keys: "keys = round_keys C active (rv_height vote) (rv_prev_id vote) (rv_round vote)"
    and ok: "unat (rv_validator_index vote) < length keys" "rv_round vote \<le> k_max_round" "active (rv_prev_id vote) \<noteq> []"
      "unat (rv_leader_index vote) = leader_index C (rv_height vote) (length (active (rv_prev_id vote))) (rv_round vote)"
      "\<not> has_vote (rv_validator_index vote) c"
      "check_signature C (round_hash C (rv_height vote) (rv_prev_id vote) (rv_round vote) (rv_payload_hash vote))
        (keys ! unat (rv_validator_index vote)) (rv_signature vote)"
  shows "\<exists>c'. add_vote C hooked vote keys (length (active (rv_prev_id vote))) relay c =
      (True, if relay \<and> hooked then [vote] else [], c') \<and>
    has_vote (rv_validator_index vote) c' \<and> rc_payload_hash c' = rv_payload_hash vote"
proof -
  let ?c = "switch_round vote (length keys) c"
  note F = switch_round_fields [of vote "length keys" c]
  have ne: "keys \<noteq> []" using ok(1) by auto
  have "pr_leader_index (rc_extra ?c) = rv_leader_index vote \<and> \<not> has_vote (rv_validator_index vote) ?c"
    using at(4) ok(5) by (auto simp: switch_round_def has_vote_def Let_def)
  then have "acceptable C vote keys (length (active (rv_prev_id vote))) ?c"
    using F ok by (intro acceptable_honest [OF switch_round_inv [OF inv keys ne] _ _ _ _ _ keys]) simp_all
  moreover have "\<not> early_reject vote keys c" using at pay ok(1) by (auto simp: early_reject_def)
  ultimately show ?thesis
    using F(5) by (simp add: add_vote_cases Let_def has_vote_extend) (simp add: extend_votes_def)
qed

text \<open>
  (C34) A node that is in the quorum gets its vote in. When its keys form a key pair, the round is one
  of the eight of a block and the collector, as far as it is at this round at all, is on the same
  payload or on none and does not hold its vote already, then \<open>participate_round\<close> accepts: it reports
  the vote as added, the collector holds it under the node's slot, and when relaying is asked for and
  the hook is set exactly this vote is relayed.
\<close>

theorem participate_round_accepted:
  assumes "collector_reachable C active c" and "key_pair C \<lparr>sn_key = sec, sn_pub = pub\<rparr>"
    and "validator_slot C height (active prev_id) pub round = Some slot"
    and "round \<le> k_max_round" and "length (active prev_id) < 2 ^ 32"
    and "pr_height (rc_extra c) = height \<and> rc_prev_id c = prev_id \<and> pr_round (rc_extra c) = round \<longrightarrow>
      (rc_payload_hash c = null_hash \<or> rc_payload_hash c = payload) \<and> \<not> has_vote (word_of_nat slot) c"
  shows "\<exists>vote c'. participate_round C hooked height prev_id round pub sec (active prev_id) relay payload c =
      (True, if relay \<and> hooked then [vote] else [], c') \<and>
    has_vote (word_of_nat slot) c' \<and> rc_payload_hash c' = payload \<and> rv_height vote = height \<and> rv_round vote = round \<and>
    unat (rv_validator_index vote) = slot"
proof -
  let ?n = "length (active prev_id)" and ?keys = "quorum_pubkeys C height (active prev_id) round"
  define lead :: u32 where "lead = word_of_nat (leader_index C height ?n round)"
  define vote where "vote = \<lparr>rv_height = height, rv_round = round, rv_leader_index = lead, rv_validator_index = word_of_nat slot,
    rv_prev_id = prev_id, rv_payload_hash = payload,
    rv_signature = generate_signature C (round_hash C height prev_id round payload) pub sec\<rparr>"
  define c1 where "c1 = prepare height prev_id round lead c"
  note slot = validator_slot_Some [OF assms(3)]
  have "active prev_id \<noteq> []" using slot(1) by (auto simp: quorum_pubkeys_def quorum_indices_def)
  then have lead: "unat lead = leader_index C height ?n round"
    using leader_index_less [of ?n C height round] assms(5) by (simp add: lead_def unat_of_nat)
  have index: "unat (word_of_nat slot :: u32) = slot" using slot(3) by (simp add: unat_of_nat k_quorum_size_def)
  note P = prepare_fields [of height prev_id round lead c, folded c1_def]
  have "collector_inv C active c1"
    unfolding c1_def by (rule prepare_inv [OF collector_reachable_inv [OF assms(1)]])
  moreover have "(rc_payload_hash c1 = null_hash \<or> rc_payload_hash c1 = payload) \<and> \<not> has_vote (word_of_nat slot) c1"
    using P(5) assms(6) by (auto simp: has_vote_def)
  moreover have "check_signature C (round_hash C height prev_id round payload) (?keys ! slot) (rv_signature vote)"
    using assms(2) slot(2) by (simp add: key_pair_def vote_def)
  ultimately obtain c' where add: "add_vote C hooked vote ?keys ?n False c1 = (True, [], c')"
    "has_vote (word_of_nat slot) c'" "rc_payload_hash c' = payload"
    using honest_vote_added [of C active c1 vote ?keys hooked False] P slot(1) index lead assms(4) \<open>active prev_id \<noteq> []\<close>
    by (auto simp: vote_def)
  have "participate_round C hooked height prev_id round pub sec (active prev_id) relay payload c =
    (True, if relay \<and> hooked then [vote] else [], c')"
    using add \<open>active prev_id \<noteq> []\<close> assms(3)
    by (simp add: participate_round_def try_local_round_def Let_def flip: lead_def c1_def vote_def)
  then show ?thesis using add index by (intro exI [of _ vote] exI [of _ c']) (simp add: vote_def)
qed

theorem participate_round_accepted_witness:
  "\<exists>vote c'. participate_round plain_crypto True 100 (replicate 32 1) 0 (sn_pub sample_keys) (sn_key sample_keys)
      [sn_pub sample_keys] True (replicate 32 2) new_collector = (True, [vote], c') \<and> has_vote 0 c'"
proof -
  have "key_pair plain_crypto \<lparr>sn_key = sn_key sample_keys, sn_pub = sn_pub sample_keys\<rparr>"
    by (simp add: key_pair_def plain_crypto_def)
  from participate_round_accepted [OF rc_new this, of 100 "\<lambda>_. [sn_pub sample_keys]" "replicate 32 1" 0 0 "replicate 32 2" True True]
  show ?thesis by (auto simp: lone_round k_max_round_def new_collector_def null_round_def)
qed

definition valid_relay_vote :: "relay_vote \<Rightarrow> bool" where
  "valid_relay_vote v \<longleftrightarrow> length (rv_prev_id v) = 32 \<and> length (rv_payload_hash v) = 32 \<and> length (rv_signature v) = 64"

lemma card_bytes: "card {bs :: bytes. length bs = n} = 256 ^ n"
  using card_lists_length_eq [of "UNIV :: u8 set" n] by (simp add: card_word)

lemma length_save_uint_bytes: "length (save_uint_bytes n v) = n"
  by (induction n arbitrary: v) simp_all

lemma save_uint_surj:
  assumes "8 * (LENGTH('a) div 8) = LENGTH('a)" and "length bs = LENGTH('a) div 8"
  shows "\<exists>v :: 'a::len word. save_uint v = bs"
proof -
  let ?S = "{bs :: bytes. length bs = LENGTH('a) div 8}"
  have "inj (save_uint :: 'a word \<Rightarrow> bytes)"
    using load_save_uint [OF assms(1), of _ "[]"] by (intro injI) (metis append_Nil2 fst_conv option.inject)
  moreover have "(2 :: nat) ^ LENGTH('a) = 256 ^ (LENGTH('a) div 8)"
    using power_mult [of "2 :: nat" 8 "LENGTH('a) div 8"] assms(1) by simp
  ultimately have "card (range (save_uint :: 'a word \<Rightarrow> bytes)) = 256 ^ (LENGTH('a) div 8)"
    by (simp add: card_image card_word)
  moreover have "range (save_uint :: 'a word \<Rightarrow> bytes) \<subseteq> ?S" by (auto simp: save_uint_def length_save_uint_bytes)
  moreover have "finite ?S" using finite_lists_length_eq [of "UNIV :: u8 set"] by simp
  ultimately have "range (save_uint :: 'a word \<Rightarrow> bytes) = ?S" by (intro card_subset_eq) (simp_all add: card_bytes)
  then show ?thesis using assms(2) by (metis (mono_tags) mem_Collect_eq rangeE)
qed

lemma length_save_uint: "length (save_uint (v :: 'a::len word)) = LENGTH('a) div 8"
  by (simp add: save_uint_def length_save_uint_bytes)

lemma decode_encode:
  assumes "valid_relay_vote v"
  shows "decode_relay_vote (encode_relay_vote v) = Some v"
  using assms
  by (simp add: decode_relay_vote_def encode_relay_vote_def valid_relay_vote_def k_relay_vote_bytes_def codec_laws
      load_save_uint length_save_uint load_blob_def)

lemma encode_surj:
  assumes "length blob = k_relay_vote_bytes" and "blob ! 0 = k_relay_vote_version"
  shows "\<exists>v. valid_relay_vote v \<and> encode_relay_vote v = blob"
proof -
  obtain bs where blob: "blob = k_relay_vote_version # bs" and len: "length bs = 145"
    using assms by (cases blob) (auto simp: k_relay_vote_bytes_def)
  let ?s = "\<lambda>i n. take n (drop i bs)"
  have join: "?s i n @ drop (i + n) bs = drop i bs" for i n
    using append_take_drop_id [of n "drop i bs"] by (simp add: add.commute)
  have "bs = ?s 0 8 @ ?s 8 1 @ ?s 9 4 @ ?s 13 4 @ ?s 17 32 @ ?s 49 32 @ ?s 81 64"
    using len join [of 32 49, simplified] join [of 32 17, simplified] join [of 4 13, simplified] join [of 4 9, simplified]
      join [of 1 8, simplified] by simp
  moreover obtain h :: u64 where "save_uint h = ?s 0 8" using save_uint_surj [of "?s 0 8", where 'a = 64] len by auto
  moreover obtain r :: u8 where "save_uint r = ?s 8 1" using save_uint_surj [of "?s 8 1", where 'a = 8] len by auto
  moreover obtain l :: u32 where "save_uint l = ?s 9 4" using save_uint_surj [of "?s 9 4", where 'a = 32] len by auto
  moreover obtain i :: u32 where "save_uint i = ?s 13 4" using save_uint_surj [of "?s 13 4", where 'a = 32] len by auto
  ultimately show ?thesis
    using len
    by (intro exI [of _ "\<lparr>rv_height = h, rv_round = r, rv_leader_index = l, rv_validator_index = i, rv_prev_id = ?s 17 32,
        rv_payload_hash = ?s 49 32, rv_signature = ?s 81 64\<rparr>"])
      (simp add: valid_relay_vote_def encode_relay_vote_def blob)
qed

text \<open>
  The packed vote of the network is a bijection: every vote with a hash, a payload and a signature
  of their size is decoded from its encoding, and a blob that decodes is the encoding of what it
  decodes to, so that no two blobs carry the same vote. Exactly the blobs of 146 bytes with the
  version byte decode.
\<close>

theorem relay_vote_round_trip:
  "(valid_relay_vote v \<longrightarrow> decode_relay_vote (encode_relay_vote v) = Some v) \<and>
   (decode_relay_vote blob = Some v \<longrightarrow> valid_relay_vote v \<and> encode_relay_vote v = blob) \<and>
   (decode_relay_vote blob \<noteq> None \<longleftrightarrow> length blob = 146 \<and> blob ! 0 = 2)"
proof (cases "length blob = k_relay_vote_bytes \<and> blob ! 0 = k_relay_vote_version")
  case True
  then obtain w where "valid_relay_vote w" "encode_relay_vote w = blob" using encode_surj by blast
  with decode_encode [of w] decode_encode [of v] True show ?thesis
    by (auto simp: k_relay_vote_bytes_def k_relay_vote_version_def)
next
  case False
  then have "decode_relay_vote blob = None" by (auto simp: decode_relay_vote_def)
  with decode_encode [of v] False show ?thesis by (auto simp: k_relay_vote_bytes_def k_relay_vote_version_def)
qed

theorem relay_vote_round_trip_witness:
  "decode_relay_vote (encode_relay_vote \<lparr>rv_height = 100, rv_round = 1, rv_leader_index = 9, rv_validator_index = 3,
     rv_prev_id = replicate 32 1, rv_payload_hash = replicate 32 2, rv_signature = replicate 64 3\<rparr>) =
   Some \<lparr>rv_height = 100, rv_round = 1, rv_leader_index = 9, rv_validator_index = 3,
     rv_prev_id = replicate 32 1, rv_payload_hash = replicate 32 2, rv_signature = replicate 64 3\<rparr>"
  by (rule relay_vote_round_trip [THEN conjunct1, rule_format]) (simp add: valid_relay_vote_def)

lemma field_bytes_padding: "0 < k \<Longrightarrow> k \<le> 255 \<Longrightarrow> field_bytes (extra_padding k) = replicate k 0"
  by (cases k) (simp_all add: field_bytes_def save_field_def save_padding_zeros save_uint_def)

text \<open>
  A certificate spliced into the extra data of a miner transaction is read back from it. When the
  part before the padding encodes well-formed fields without a Pulse round or padding, the certificate
  fits, and what is left of the padding is at most 255 bytes, the new extra data has the same length
  and the same fields in front, \<open>get_pulse_round_from_tx_extra\<close> finds exactly the certificate and the
  summary reports its round, leader and number of signatures.
\<close>

theorem spliced_certificate_read_back:
  assumes "\<forall>f \<in> set fs. valid_field f \<and> field_tag f \<noteq> 0 \<and> sel_pulse f = None"
    and "valid_field (extra_pulse_round cert)"
    and "extra_data = fields_bytes fs @ padding" and "length (field_bytes (extra_pulse_round cert)) \<le> length padding"
    and "length padding \<le> length (field_bytes (extra_pulse_round cert)) + 255"
  shows "\<exists>out. splice_majority_certificate extra_data (length (fields_bytes fs)) cert = Some out \<and>
    length out = length extra_data \<and> take (length (fields_bytes fs)) out = fields_bytes fs \<and>
    get_pulse_round_from_tx_extra out = Some cert \<and>
    summarize_miner_pulse_extra out = (True, \<lparr>ms_present = True, ms_round = pr_round cert, ms_leader_index = pr_leader_index cert,
      ms_signature_count = length (pr_votes cert), ms_payload_hash = pr_payload_hash cert\<rparr>)"
proof -
  let ?blob = "field_bytes (extra_pulse_round cert)" and ?k = "length padding - length (field_bytes (extra_pulse_round cert))"
  define gs where "gs = fs @ extra_pulse_round cert # (if ?k = 0 then [] else [extra_padding ?k])"
  have "add_pulse_round_to_tx_extra [] cert = Some ?blob"
    using save_field_valid [OF assms(2)] by (simp add: add_pulse_round_to_tx_extra_def add_tx_extra_field_to_tx_extra_def)
  moreover have "?blob \<noteq> []" using field_bytes_nonempty assms(2) by blast
  ultimately have out: "splice_majority_certificate extra_data (length (fields_bytes fs)) cert =
      Some (fields_bytes fs @ ?blob @ replicate ?k 0)"
    using assms(3,4) by (simp add: splice_majority_certificate_def)
  have "fields_bytes gs = fields_bytes fs @ ?blob @ replicate ?k 0"
    using assms(5) field_bytes_padding [of ?k] by (simp add: gs_def fields_bytes_def)
  moreover have "well_formed gs"
    using assms(1,2,5) by (auto simp: well_formed_def gs_def butlast_append)
  ultimately have "parse_tx_extra (fields_bytes fs @ ?blob @ replicate ?k 0) = (True, gs)"
    using parse_tx_extra_bytes [of gs] by simp
  then have "get_pulse_round_from_tx_extra (fields_bytes fs @ ?blob @ replicate ?k 0) = Some cert"
    using assms(1)
    by (simp add: get_pulse_round_from_tx_extra_def find_tx_extra_field_by_type_def gs_def nth_match_snoc)
  then show ?thesis using out assms(3,4) by (simp add: summarize_miner_pulse_extra_def)
qed

definition small_certificate :: tx_extra_pulse_round where
  "small_certificate = \<lparr>pr_height = 100, pr_round = 0, pr_leader_index = 0, pr_payload_hash = replicate 32 1,
    pr_votes = [\<lparr>ev_signature = replicate 64 3, ev_validator_index = 0\<rparr>]\<rparr>"

theorem spliced_certificate_read_back_witness:
  "\<exists>out. splice_majority_certificate (fields_bytes [extra_pub_key (replicate 32 7)] @ replicate 300 0)
      (length (fields_bytes [extra_pub_key (replicate 32 7)])) small_certificate = Some out \<and>
    get_pulse_round_from_tx_extra out = Some small_certificate"
proof -
  have "length (field_bytes (extra_pulse_round small_certificate)) = 102" by code_simp
  moreover have "valid_field (extra_pulse_round small_certificate)"
    by (simp add: small_certificate_def sized_def valid_extra_vote_def)
  ultimately show ?thesis
    using spliced_certificate_read_back [of "[extra_pub_key (replicate 32 7)]" small_certificate _ "replicate 300 0", OF _ _ refl]
    by auto
qed

end
