(* ===== verification/Sn_List.thy ===== *)
theory Sn_List
  imports Swarm Pulse
begin

text \<open>
  The service node list, \<open>cryptonote_core/service_node_list.{h,cpp}\<close>: the records of the nodes and
  their contributors, and the transactions that change them (registration, contribution, state
  change, unlock). The key derivations, the ring signature and the decoding of a confidential amount
  are parameters, gathered in a record. \<open>std::shared_ptr<const service_node_info>\<close> with
  \<open>duplicate_info\<close> is copy on write, so that an entry of the map is simply the record.
\<close>

section \<open>Data\<close>

type_synonym account_public_address = "public_key \<times> public_key"

record checkpoint_vote_record =
  cvr_height :: u64
  cvr_voted :: bool

definition null_vote_record :: checkpoint_vote_record where
  "null_vote_record = \<lparr>cvr_height = UINT64_MAX, cvr_voted = True\<rparr>"

record proof_info =
  pi_timestamp :: u64
  pi_effective_timestamp :: u64
  pi_votes :: "checkpoint_vote_record list"
  pi_vote_index :: u8
  pi_public_ips :: "(u32 \<times> u64) list"
  pi_storage_server_reachable :: bool
  pi_storage_server_reachable_timestamp :: u64
  pi_public_ip :: u32
  pi_storage_port :: u16
  pi_arqnet_port :: u16
  pi_version :: "u16 list"
  pi_pubkey_ed25519 :: bytes
  pi_pubkey_x25519 :: bytes

definition null_proof_info :: proof_info where
  "null_proof_info = \<lparr>pi_timestamp = 0, pi_effective_timestamp = 0,
    pi_votes = replicate CHECKPOINT_NUM_QUORUMS_TO_PARTICIPATE_IN null_vote_record, pi_vote_index = 0,
    pi_public_ips = [(0, 0), (0, 0)], pi_storage_server_reachable = True, pi_storage_server_reachable_timestamp = 0,
    pi_public_ip = 0, pi_storage_port = 0, pi_arqnet_port = 0, pi_version = [0, 0, 0],
    pi_pubkey_ed25519 = null_bytes 32, pi_pubkey_x25519 = null_bytes 32\<rparr>"

record contribution_t =
  cb_version :: u8
  cb_key_image_pub_key :: public_key
  cb_key_image :: key_image
  cb_amount :: u64

record contributor_t =
  ctr_version :: u8
  ctr_amount :: u64
  ctr_reserved :: u64
  ctr_address :: account_public_address
  ctr_locked_contributions :: "contribution_t list"

definition null_contributor :: contributor_t where
  "null_contributor = \<lparr>ctr_version = 0, ctr_amount = 0, ctr_reserved = 0, ctr_address = (null_pkey, null_pkey),
    ctr_locked_contributions = []\<rparr>"

record service_node_info =
  si_registration_height :: u64
  si_requested_unlock_height :: u64
  si_last_reward_block_height :: u64
  si_last_reward_transaction_index :: u32
  si_decommission_count :: u32
  si_active_since_height :: i64
  si_last_decommission_height :: u64
  si_contributors :: "contributor_t list"
  si_total_contributed :: u64
  si_total_reserved :: u64
  si_staking_requirement :: u64
  si_portions_for_operator :: u64
  si_swarm_id :: u64
  si_operator_address :: account_public_address
  si_last_ip_change_height :: u64
  si_version :: u8

definition null_service_node_info :: service_node_info where
  "null_service_node_info = \<lparr>si_registration_height = 0, si_requested_unlock_height = 0, si_last_reward_block_height = 0,
    si_last_reward_transaction_index = 0, si_decommission_count = 0, si_active_since_height = 0,
    si_last_decommission_height = 0, si_contributors = [], si_total_contributed = 0, si_total_reserved = 0,
    si_staking_requirement = 0, si_portions_for_operator = 0, si_swarm_id = 0,
    si_operator_address = (null_pkey, null_pkey), si_last_ip_change_height = 0, si_version = 1\<rparr>"

definition is_fully_funded :: "service_node_info \<Rightarrow> bool" where
  "is_fully_funded info \<longleftrightarrow> si_staking_requirement info \<le> si_total_contributed info"

definition is_decommissioned :: "service_node_info \<Rightarrow> bool" where
  "is_decommissioned info \<longleftrightarrow> sint (si_active_since_height info) < 0"

definition is_active :: "service_node_info \<Rightarrow> bool" where
  "is_active info \<longleftrightarrow> is_fully_funded info \<and> \<not> is_decommissioned info"

definition total_num_locked_contributions :: "service_node_info \<Rightarrow> nat" where
  "total_num_locked_contributions info =
    fold (\<lambda>c result. result + length (ctr_locked_contributions c)) (si_contributors info) 0"

text \<open>Both comparisons with the height of activation are signed.\<close>

definition can_be_voted_on :: "u64 \<Rightarrow> service_node_info \<Rightarrow> bool" where
  "can_be_voted_on height info =
    (if \<not> is_fully_funded info \<or> height \<le> si_registration_height info then False
     else if \<not> is_decommissioned info \<and> height \<le> si_last_decommission_height info then False
     else if is_active info \<and> sint height \<le> sint (si_active_since_height info) then False
     else True)"

definition can_transition_to_state :: "u8 \<Rightarrow> u64 \<Rightarrow> new_state \<Rightarrow> service_node_info \<Rightarrow> bool" where
  "can_transition_to_state hard_fork_version height proposed_state info =
    (if 16 \<le> hard_fork_version then
       if \<not> can_be_voted_on height info then False
       else if proposed_state = deregister \<and> height \<le> si_registration_height info then False
       else if proposed_state = ip_change_penalty \<and> height \<le> si_last_ip_change_height info then False
       else if is_decommissioned info then proposed_state \<noteq> decommission \<and> proposed_state \<noteq> ip_change_penalty
       else proposed_state \<noteq> recommission
     else
       if proposed_state = deregister \<and> height < si_registration_height info then False
       else if is_decommissioned info then proposed_state \<noteq> decommission \<and> proposed_state \<noteq> ip_change_penalty
       else proposed_state \<noteq> recommission)"

record key_image_blacklist_entry =
  bl_version :: u8
  bl_key_image :: key_image
  bl_unlock_height :: u64
  bl_amount :: u64

record quorum_manager =
  qm_obligations :: "quorum option"
  qm_checkpointing :: "quorum option"

definition no_quorums :: quorum_manager where
  "no_quorums = \<lparr>qm_obligations = None, qm_checkpointing = None\<rparr>"

text \<open>\<open>state_t\<close>. The pointer to the list is an argument of the operations that use it.\<close>

record sn_state =
  st_block_hash :: hash
  st_only_loaded_quorums :: bool
  st_service_nodes_infos :: "(public_key \<times> service_node_info) list"
  st_key_image_blacklist :: "key_image_blacklist_entry list"
  st_height :: u64
  st_quorums :: quorum_manager

type_synonym proofs_map = "(public_key \<times> proof_info) list"

record payout_entry =
  po_address :: account_public_address
  po_portions :: u64

record block_winner =
  bw_key :: public_key
  bw_payouts :: "payout_entry list"

definition null_block_winner :: block_winner where
  "null_block_winner = \<lparr>bw_key = null_pkey,
    bw_payouts = [\<lparr>po_address = (null_pkey, null_pkey), po_portions = STAKING_SHARE_PARTS\<rparr>]\<rparr>"

text \<open>A transaction with its confidential part, and a block.\<close>

record 'r transaction = transaction_prefix +
  rct_type :: u8
  rct_signatures :: 'r

record block = block_header +
  miner_tx :: transaction_prefix
  tx_hashes :: "hash list"

definition get_block_height :: "'b block_scheme \<Rightarrow> u64" where
  "get_block_height b = (case vin (miner_tx b) of [txin_gen h] \<Rightarrow> h | _ \<Rightarrow> 0)"

text \<open>
  The operations of the crypto layer a stake needs. \<open>derive_public_key\<close> and
  \<open>generate_key_derivation\<close> can fail; the decoding of an amount can throw, which is \<open>None\<close>.
\<close>

record 'r stake_ops =
  check_key :: "public_key \<Rightarrow> bool"
  generate_key_derivation :: "public_key \<Rightarrow> secret_key \<Rightarrow> bytes option"
  derivation_to_scalar :: "bytes \<Rightarrow> nat \<Rightarrow> bytes"
  derive_public_key :: "bytes \<Rightarrow> nat \<Rightarrow> public_key \<Rightarrow> public_key option"
  check_ring_signature :: "hash \<Rightarrow> key_image \<Rightarrow> public_key list \<Rightarrow> signature list \<Rightarrow> bool"
  decodeRctSimple :: "'r \<Rightarrow> bytes \<Rightarrow> nat \<Rightarrow> u64 option"
  decodeRct :: "'r \<Rightarrow> bytes \<Rightarrow> nat \<Rightarrow> u64 option"

section \<open>Registrations\<close>

record registration_fields =
  rf_addresses :: "account_public_address list"
  rf_portions_for_operator :: u64
  rf_portions :: "u64 list"
  rf_expiration_timestamp :: u64
  rf_service_node_key :: public_key
  rf_signature :: signature

text \<open>The lists of spend and view keys have the same length, or the getter fails.\<close>

definition reg_tx_extract_fields :: "'r transaction \<Rightarrow> registration_fields option" where
  "reg_tx_extract_fields tx = do {
     registration \<leftarrow> get_service_node_register_from_tx_extra (extra tx);
     service_node_key \<leftarrow> get_service_node_pubkey_from_tx_extra (extra tx);
     Some \<lparr>rf_addresses = map (\<lambda>i. (reg_public_spend_keys registration ! i, reg_public_view_keys registration ! i))
             [0..<length (reg_public_spend_keys registration)],
           rf_portions_for_operator = reg_portions_for_operator registration,
           rf_portions = reg_portions registration,
           rf_expiration_timestamp = reg_expiration_timestamp registration,
           rf_service_node_key = service_node_key,
           rf_signature = reg_service_node_signature registration\<rparr>
   }"

fun portions_fit :: "u64 \<Rightarrow> u64 list \<Rightarrow> bool" where
  "portions_fit portions_left [] = True"
| "portions_fit portions_left (portion # ps) =
    (if portions_left < portion then False else portions_fit (portions_left - portion) ps)"

definition get_registration_hash ::
  "crypto_ops \<Rightarrow> account_public_address list \<Rightarrow> u64 \<Rightarrow> u64 list \<Rightarrow> u64 \<Rightarrow> hash option" where
  "get_registration_hash C addresses operator_portions portions expiration_timestamp =
    (if length addresses \<noteq> length portions then None
     else if \<not> portions_fit STAKING_SHARE_PARTS portions then None
     else Some (cn_fast_hash C (save_uint operator_portions @
       concat (map (\<lambda>i. fst (addresses ! i) @ snd (addresses ! i) @ save_uint (portions ! i)) [0..<length addresses]) @
       save_uint expiration_timestamp)))"

record parsed_tx_contribution =
  pc_address :: account_public_address
  pc_transferred :: u64
  pc_tx_key :: secret_key
  pc_locked_contributions :: "contribution_t list"

definition get_reg_tx_staking_output_contribution ::
  "'r stake_ops \<Rightarrow> 'r transaction \<Rightarrow> nat \<Rightarrow> bytes \<Rightarrow> u64" where
  "get_reg_tx_staking_output_contribution K tx i derivation =
    (case out_target (vout tx ! i) of
       target_key _ \<Rightarrow>
         let scalar1 = derivation_to_scalar K derivation i
         in if rct_type tx \<in> {2, 5, 6, 7} then
              (case decodeRctSimple K (rct_signatures tx) scalar1 i of None \<Rightarrow> 0 | Some money_transferred \<Rightarrow> money_transferred)
            else if rct_type tx = 1 then
              (case decodeRct K (rct_signatures tx) scalar1 i of None \<Rightarrow> 0 | Some money_transferred \<Rightarrow> money_transferred)
            else 0
     | _ \<Rightarrow> 0)"

text \<open>The loop over the outputs. A proof that matches an output is used up.\<close>

definition contribution_output ::
  "'r stake_ops \<Rightarrow> 'r transaction \<Rightarrow> bytes \<Rightarrow> nat \<Rightarrow> parsed_tx_contribution \<times> key_image_proof list \<Rightarrow>
    parsed_tx_contribution \<times> key_image_proof list" where
  "contribution_output K tx derivation output_index = (\<lambda>(parsed, proofs).
    let transferred = get_reg_tx_staking_output_contribution K tx output_index derivation
    in if transferred = 0 then (parsed, proofs)
       else case derive_public_key K derivation output_index (fst (pc_address parsed)) of
         None \<Rightarrow> (parsed, proofs)
       | Some ephemeral_pub_key \<Rightarrow>
           if out_target (vout tx ! output_index) \<noteq> target_key ephemeral_pub_key then (parsed, proofs)
           else case find (\<lambda>proof. check_ring_signature K (kp_key_image proof) (kp_key_image proof) [ephemeral_pub_key]
                              [kp_signature proof]) proofs of
             None \<Rightarrow> (parsed, proofs)
           | Some proof \<Rightarrow>
               (parsed\<lparr>pc_locked_contributions := pc_locked_contributions parsed @
                   [\<lparr>cb_version = 0, cb_key_image_pub_key = ephemeral_pub_key, cb_key_image = kp_key_image proof,
                     cb_amount = transferred\<rparr>],
                 pc_transferred := pc_transferred parsed + transferred\<rparr>,
                remove1 proof proofs))"

definition get_contribution :: "'r stake_ops \<Rightarrow> 'r transaction \<Rightarrow> parsed_tx_contribution option" where
  "get_contribution K tx = do {
     address \<leftarrow> get_service_node_contributor_from_tx_extra (extra tx);
     tx_key \<leftarrow> get_tx_secret_key_from_tx_extra (extra tx);
     derivation \<leftarrow> generate_key_derivation K (snd address) tx_key;
     key_image_proofs \<leftarrow> get_tx_key_image_proofs_from_tx_extra (extra tx);
     Some (fst (fold (contribution_output K tx derivation) [0..<length (vout tx)]
       (\<lparr>pc_address = address, pc_transferred = 0, pc_tx_key = tx_key, pc_locked_contributions = []\<rparr>, key_image_proofs)))
   }"

text \<open>The last loop of \<open>is_registration_tx\<close>: contributor \<open>i\<close> on.\<close>

fun add_reserved_contributors ::
  "account_public_address list \<Rightarrow> (account_public_address \<times> u64) list \<Rightarrow> service_node_info \<Rightarrow> service_node_info option" where
  "add_reserved_contributors seen [] info = Some info"
| "add_reserved_contributors seen ((address, portion) # rest) info =
    (if address \<in> set seen then None
     else
       let resultlo = mul_div (si_staking_requirement info) portion STAKING_SHARE_PARTS
       in add_reserved_contributors (seen @ [address]) rest
            (info\<lparr>si_contributors := si_contributors info @ [null_contributor\<lparr>ctr_reserved := resultlo, ctr_address := address\<rparr>],
                  si_total_reserved := si_total_reserved info + resultlo\<rparr>))"

definition get_minimum_sn_info_version :: "u8 \<Rightarrow> u8" where
  "get_minimum_sn_info_version hard_fork_version = (if hard_fork_version < 17 then 0 else 1)"

definition is_registration_tx ::
  "crypto_ops \<Rightarrow> 'r stake_ops \<Rightarrow> network_type \<Rightarrow> u8 \<Rightarrow> 'r transaction \<Rightarrow> u64 \<Rightarrow> u64 \<Rightarrow> u32 \<Rightarrow>
    (public_key \<times> service_node_info) option" where
  "is_registration_tx C K nettype hard_fork_version tx block_timestamp block_height index =
    (case reg_tx_extract_fields tx of
       None \<Rightarrow> None
     | Some reg \<Rightarrow>
         if length (rf_portions reg) \<noteq> length (rf_addresses reg) \<or> rf_portions reg = [] then None
         else if \<not> check_service_node_portions (rf_portions reg) then None
         else if STAKING_SHARE_PARTS < rf_portions_for_operator reg then None
         else case get_registration_hash C (rf_addresses reg) (rf_portions_for_operator reg) (rf_portions reg)
                     (rf_expiration_timestamp reg) of
           None \<Rightarrow> None
         | Some h \<Rightarrow>
             if \<not> check_key K (rf_service_node_key reg) \<or> \<not> check_signature C h (rf_service_node_key reg) (rf_signature reg)
             then None
             else if rf_expiration_timestamp reg < block_timestamp then None
             else
               let staking_requirement = get_staking_requirement nettype block_height;
                   info = null_service_node_info
               in case get_contribution K tx of
                    None \<Rightarrow> None
                  | Some parsed \<Rightarrow>
                      let min_transfer = get_min_node_contribution staking_requirement (si_total_reserved info)
                            (total_num_locked_contributions info)
                      in if pc_transferred parsed < min_transfer then None
                         else
                           let total_num_of_addr = length (rf_addresses reg) +
                                 (if pc_address parsed \<in> set (rf_addresses reg) then 0 else 1)
                           in if MAX_NUMBER_OF_CONTRIBUTORS < total_num_of_addr then None
                              else map_option (Pair (rf_service_node_key reg))
                                (add_reserved_contributors [] (zip (rf_addresses reg) (rf_portions reg))
                                  (info\<lparr>si_staking_requirement := staking_requirement,
                                        si_operator_address := rf_addresses reg ! 0,
                                        si_portions_for_operator := rf_portions_for_operator reg,
                                        si_registration_height := block_height,
                                        si_last_reward_block_height := block_height,
                                        si_last_reward_transaction_index := index,
                                        si_swarm_id := UNASSIGNED_SWARM_ID,
                                        si_last_ip_change_height := block_height,
                                        si_version := get_minimum_sn_info_version hard_fork_version\<rparr>)))"

text \<open>
  \<open>linked\<close> tells whether the state points to its list and \<open>rescanning\<close> whether that is
  replaying the chain. The proofs are the list's; writing one to the database is left out.
\<close>

definition process_registration_tx ::
  "crypto_ops \<Rightarrow> 'r stake_ops \<Rightarrow> network_type \<Rightarrow> bool \<Rightarrow> bool \<Rightarrow> 'b block_scheme \<Rightarrow> 'r transaction \<Rightarrow> u32 \<Rightarrow>
    sn_state \<times> proofs_map \<Rightarrow> bool \<times> sn_state \<times> proofs_map" where
  "process_registration_tx C K nettype linked rescanning blk tx index = (\<lambda>(st, proofs).
    case is_registration_tx C K nettype (hdr_major_version blk) tx (hdr_timestamp blk) (get_block_height blk) index of
      None \<Rightarrow> (False, st, proofs)
    | Some (key, info) \<Rightarrow>
        if map_of (st_service_nodes_infos st) key \<noteq> None then (False, st, proofs)
        else
          let proofs = (if linked \<and> \<not> rescanning then umap_set key null_proof_info proofs else proofs)
          in (True, st\<lparr>st_service_nodes_infos := umap_set key info (st_service_nodes_infos st)\<rparr>, proofs))"

section \<open>Contributions\<close>

text \<open>The update of the node and of the contributor at \<open>position\<close>.\<close>

definition apply_contribution ::
  "u64 \<Rightarrow> u32 \<Rightarrow> parsed_tx_contribution \<Rightarrow> nat \<Rightarrow> service_node_info \<Rightarrow> service_node_info" where
  "apply_contribution block_height index parsed position info =
    (let contributor = si_contributors info ! position;
         can_increase_reserved_by = si_staking_requirement info - si_total_reserved info;
         max_amount = ctr_reserved contributor + can_increase_reserved_by;
         transferred = min (max_amount - ctr_amount contributor) (pc_transferred parsed);
         contributor = contributor\<lparr>ctr_amount := ctr_amount contributor + transferred\<rparr>;
         info = info\<lparr>si_total_contributed := si_total_contributed info + transferred\<rparr>;
         (info, contributor) =
           (if ctr_reserved contributor < ctr_amount contributor then
              (info\<lparr>si_total_reserved := si_total_reserved info + (ctr_amount contributor - ctr_reserved contributor)\<rparr>,
               contributor\<lparr>ctr_reserved := ctr_amount contributor\<rparr>)
            else (info, contributor));
         contributor = contributor\<lparr>ctr_locked_contributions :=
           ctr_locked_contributions contributor @ pc_locked_contributions parsed\<rparr>
     in info\<lparr>si_contributors := (si_contributors info)[position := contributor],
             si_last_reward_block_height := block_height,
             si_last_reward_transaction_index := index\<rparr>)"

definition process_contribution_tx ::
  "'r stake_ops \<Rightarrow> 'b block_scheme \<Rightarrow> 'r transaction \<Rightarrow> u32 \<Rightarrow> sn_state \<Rightarrow> bool \<times> sn_state" where
  "process_contribution_tx K blk tx index st =
    (let block_height = get_block_height blk
     in case get_service_node_pubkey_from_tx_extra (extra tx) of
          None \<Rightarrow> (False, st)
        | Some pubkey \<Rightarrow>
            (case get_contribution K tx of
               None \<Rightarrow> (False, st)
             | Some parsed \<Rightarrow>
                 (case map_of (st_service_nodes_infos st) pubkey of
                    None \<Rightarrow> (False, st)
                  | Some curinfo \<Rightarrow>
                      if is_fully_funded curinfo then (False, st)
                      else if get_tx_secret_key_from_tx_extra (extra tx) = None then (False, st)
                      else
                        let known = index_where (\<lambda>c. ctr_address c = pc_address parsed) (si_contributors curinfo)
                        in if MAX_NUMBER_OF_CONTRIBUTORS <
                              total_num_locked_contributions curinfo + length (pc_locked_contributions parsed) then (False, st)
                           else if pc_transferred parsed <
                              get_min_node_contribution (si_staking_requirement curinfo) (si_total_reserved curinfo)
                                (total_num_locked_contributions curinfo) then (False, st)
                           else
                             let (info, position) =
                                   (case known of
                                      Some i \<Rightarrow> (curinfo, i)
                                    | None \<Rightarrow>
                                        (curinfo\<lparr>si_contributors := si_contributors curinfo @
                                           [null_contributor\<lparr>ctr_address := pc_address parsed\<rparr>]\<rparr>,
                                         length (si_contributors curinfo)));
                                 info = apply_contribution block_height index parsed position info;
                                 (funded, info) =
                                   (if is_fully_funded info then (True, info\<lparr>si_active_since_height := block_height\<rparr>)
                                    else (False, info))
                             in (funded, st\<lparr>st_service_nodes_infos := umap_set pubkey info (st_service_nodes_infos st)\<rparr>))))"

section \<open>State changes\<close>

definition get_pubkey_from_quorum :: "quorum \<Rightarrow> quorum_group \<Rightarrow> nat \<Rightarrow> public_key option" where
  "get_pubkey_from_quorum q grp quorum_index =
    (case (if grp = validator then Some (validators q) else if grp = worker then Some (workers q) else None) of
       None \<Rightarrow> None
     | Some array \<Rightarrow> if length array \<le> quorum_index then None else Some (array ! quorum_index))"

text \<open>Verification against \<open>*quorums->obligations\<close>, which is undefined when the pointer is null.\<close>

definition verify_against ::
  "crypto_ops \<Rightarrow> tx_extra_service_node_state_change \<Rightarrow> u64 \<Rightarrow> u8 \<Rightarrow> quorum_manager \<Rightarrow> tx_verification_context \<Rightarrow>
    (bool \<times> tx_verification_context) outcome" where
  "verify_against C state_change block_height hard_fork_version quorums tvc =
    (case qm_obligations quorums of
       None \<Rightarrow> Inl Undefined
     | Some q \<Rightarrow> verify_tx_state_change C state_change block_height tvc q hard_fork_version)"

text \<open>
  The loop over the alternative states: it goes on after a match, so that a later state of the same
  height decides again.
\<close>

fun try_alt_states ::
  "crypto_ops \<Rightarrow> tx_extra_service_node_state_change \<Rightarrow> u64 \<Rightarrow> u8 \<Rightarrow> (hash \<times> sn_state) list \<Rightarrow>
    quorum_manager option \<Rightarrow> tx_verification_context \<Rightarrow> quorum_manager option outcome" where
  "try_alt_states C state_change block_height hard_fork_version [] quorums tvc = Inr quorums"
| "try_alt_states C state_change block_height hard_fork_version ((_, alt_state) # alt_states) quorums tvc =
    (if st_height alt_state \<noteq> sc_block_height state_change
     then try_alt_states C state_change block_height hard_fork_version alt_states quorums tvc
     else bindE (verify_against C state_change block_height hard_fork_version (st_quorums alt_state) tvc) (\<lambda>(ok, tvc).
       try_alt_states C state_change block_height hard_fork_version alt_states
         (if ok then Some (st_quorums alt_state) else None) tvc))"

definition blacklist_contributions :: "network_type \<Rightarrow> u64 \<Rightarrow> service_node_info \<Rightarrow> key_image_blacklist_entry list" where
  "blacklist_contributions nettype block_height info =
    concat (map (\<lambda>contributor. map (\<lambda>contribution.
        \<lparr>bl_version = 1, bl_key_image = cb_key_image contribution,
         bl_unlock_height = block_height + staking_num_lock_blocks nettype, bl_amount = cb_amount contribution\<rparr>)
      (ctr_locked_contributions contributor)) (si_contributors info))"

definition proof_of :: "public_key \<Rightarrow> proofs_map \<Rightarrow> proof_info" where
  "proof_of key proofs = (case map_of proofs key of None \<Rightarrow> null_proof_info | Some p \<Rightarrow> p)"

text \<open>The effect of an accepted change on the node \<open>key\<close>.\<close>

definition apply_state_change ::
  "network_type \<Rightarrow> bool \<Rightarrow> bool \<Rightarrow> 'b block_scheme \<Rightarrow> public_key \<Rightarrow> service_node_info \<Rightarrow> new_state \<Rightarrow>
    sn_state \<times> proofs_map \<Rightarrow> bool \<times> sn_state \<times> proofs_map" where
  "apply_state_change nettype linked rescanning blk key info state = (\<lambda>(st, proofs).
    let block_height = get_block_height blk;
        put = (\<lambda>info. st\<lparr>st_service_nodes_infos := umap_set key info (st_service_nodes_infos st)\<rparr>)
    in case state of
      deregister \<Rightarrow>
        (True, st\<lparr>st_key_image_blacklist := st_key_image_blacklist st @
             (if 16 \<le> hdr_major_version blk then blacklist_contributions nettype block_height info else []),
           st_service_nodes_infos := map_erase key (st_service_nodes_infos st)\<rparr>, proofs)
    | decommission \<Rightarrow>
        if is_decommissioned info then (False, st, proofs)
        else
          (True, put (info\<lparr>si_active_since_height := - si_active_since_height info, si_last_decommission_height := block_height,
               si_decommission_count := si_decommission_count info + 1, si_swarm_id := UNASSIGNED_SWARM_ID\<rparr>),
           if linked \<and> \<not> rescanning
           then umap_set key ((proof_of key proofs)\<lparr>pi_timestamp := 0, pi_effective_timestamp := 0\<rparr>) proofs else proofs)
    | recommission \<Rightarrow>
        if \<not> is_decommissioned info then (False, st, proofs)
        else
          (True, put (info\<lparr>si_active_since_height := block_height, si_last_reward_block_height := block_height,
               si_last_reward_transaction_index := UINT32_MAX\<rparr>),
           if linked
           then umap_set key ((proof_of key proofs)\<lparr>pi_effective_timestamp := hdr_timestamp blk,
                  pi_votes := replicate CHECKPOINT_NUM_QUORUMS_TO_PARTICIPATE_IN null_vote_record\<rparr>) proofs else proofs)
    | ip_change_penalty \<Rightarrow>
        if is_decommissioned info then (False, st, proofs)
        else
          (True, put (info\<lparr>si_last_reward_block_height := block_height, si_last_reward_transaction_index := UINT32_MAX,
               si_last_ip_change_height := block_height\<rparr>), proofs)
    | unknown_state _ \<Rightarrow> (False, st, proofs))"

definition process_state_change_tx ::
  "crypto_ops \<Rightarrow> sn_state list \<Rightarrow> (hash \<times> sn_state) list \<Rightarrow> network_type \<Rightarrow> bool \<Rightarrow> bool \<Rightarrow> 'b block_scheme \<Rightarrow>
    'a transaction_prefix_scheme \<Rightarrow> sn_state \<times> proofs_map \<Rightarrow> (bool \<times> sn_state \<times> proofs_map) outcome" where
  "process_state_change_tx C state_history alt_states nettype linked rescanning blk tx = (\<lambda>(st, proofs).
    if tx_type tx \<noteq> state_change_tx then Inr (False, st, proofs)
    else case get_service_node_state_change_from_tx_extra (extra tx) of
      None \<Rightarrow> Inr (False, st, proofs)
    | Some state_change \<Rightarrow>
        (case find (\<lambda>s. st_height s = sc_block_height state_change) state_history of
           None \<Rightarrow> Inr (False, st, proofs)
         | Some it \<Rightarrow>
             let block_height = get_block_height blk; hf = hdr_major_version blk
             in bindE (verify_against C state_change block_height hf (st_quorums it) clean_tvc) (\<lambda>(ok, tvc).
                bindE (if ok then Inr (Some (st_quorums it))
                       else try_alt_states C state_change block_height hf alt_states None tvc) (\<lambda>quorums.
                case quorums of
                  None \<Rightarrow> Inr (False, st, proofs)
                | Some quorums \<Rightarrow>
                    (case qm_obligations quorums of
                       None \<Rightarrow> Inl Undefined
                     | Some q \<Rightarrow>
                         (case get_pubkey_from_quorum q worker (unat (sc_service_node_index state_change)) of
                            None \<Rightarrow> Inr (False, st, proofs)
                          | Some key \<Rightarrow>
                              (case map_of (st_service_nodes_infos st) key of
                                 None \<Rightarrow> Inr (False, st, proofs)
                               | Some info \<Rightarrow>
                                   Inr (apply_state_change nettype linked rescanning blk key info (sc_state state_change)
                                     (st, proofs)))))))))"

section \<open>Unlocks\<close>

text \<open>The first contributor with a contribution of the key image decides.\<close>

fun find_locked :: "key_image \<Rightarrow> contributor_t list \<Rightarrow> contribution_t option" where
  "find_locked img [] = None"
| "find_locked img (c # cs) =
    (case find (\<lambda>contribution. img = cb_key_image contribution) (ctr_locked_contributions c) of
       Some contribution \<Rightarrow> Some contribution
     | None \<Rightarrow> find_locked img cs)"

definition process_key_image_unlock_tx ::
  "crypto_ops \<Rightarrow> network_type \<Rightarrow> u64 \<Rightarrow> 'a transaction_prefix_scheme \<Rightarrow> sn_state \<Rightarrow> bool \<times> sn_state" where
  "process_key_image_unlock_tx C nettype block_height tx st =
    (case get_service_node_pubkey_from_tx_extra (extra tx) of
       None \<Rightarrow> (False, st)
     | Some snode_key \<Rightarrow>
         (case map_of (st_service_nodes_infos st) snode_key of
            None \<Rightarrow> (False, st)
          | Some node_info \<Rightarrow>
              if si_requested_unlock_height node_info \<noteq> KEY_IMAGE_AWAITING_UNLOCK_HEIGHT then (False, st)
              else case get_tx_key_image_unlock_from_tx_extra (extra tx) of
                None \<Rightarrow> (False, st)
              | Some unlock \<Rightarrow>
                  let unlock_height = get_locked_key_image_unlock_height nettype (si_registration_height node_info) block_height
                  in case find_locked (ku_key_image unlock) (si_contributors node_info) of
                       None \<Rightarrow> (False, st)
                     | Some contribution \<Rightarrow>
                         if check_signature C (generate_request_stake_unlock_hash (ku_nonce unlock))
                              (cb_key_image_pub_key contribution) (ku_signature unlock)
                         then (True, st\<lparr>st_service_nodes_infos := umap_set snode_key
                                (node_info\<lparr>si_requested_unlock_height := unlock_height\<rparr>) (st_service_nodes_infos st)\<rparr>)
                         else (False, st)))"

definition is_service_node :: "public_key \<Rightarrow> bool \<Rightarrow> sn_state \<Rightarrow> bool" where
  "is_service_node pubkey require_active st =
    (case map_of (st_service_nodes_infos st) pubkey of
       None \<Rightarrow> False
     | Some info \<Rightarrow> \<not> require_active \<or> is_active info)"

fun find_image_lock :: "key_image \<Rightarrow> (public_key \<times> service_node_info) list \<Rightarrow> (u64 \<times> contribution_t) option" where
  "find_image_lock img [] = None"
| "find_image_lock img ((_, info) # rest) =
    (case find_locked img (si_contributors info) of
       Some contribution \<Rightarrow> Some (si_requested_unlock_height info, contribution)
     | None \<Rightarrow> find_image_lock img rest)"

definition is_key_image_locked :: "key_image \<Rightarrow> sn_state \<Rightarrow> (u64 \<times> contribution_t) option" where
  "is_key_image_locked check_image st = find_image_lock check_image (st_service_nodes_infos st)"

section \<open>The accounts of a node\<close>

text \<open>
  What holds of every node of the list: one entry per contributor, the totals are the sums over the
  contributors, nobody has put in more than is reserved for them, no more is reserved than the stake
  needs, at most twelve contributions are locked, and the operator, who is the first contributor, keeps
  at most all of the reward.
\<close>

definition amounts :: "contributor_t list \<Rightarrow> nat" where
  "amounts cs = sum_list (map (\<lambda>c. unat (ctr_amount c)) cs)"

definition reserves :: "contributor_t list \<Rightarrow> nat" where
  "reserves cs = sum_list (map (\<lambda>c. unat (ctr_reserved c)) cs)"

definition locks :: "contributor_t list \<Rightarrow> nat" where
  "locks cs = sum_list (map (\<lambda>c. length (ctr_locked_contributions c)) cs)"

definition info_ok :: "service_node_info \<Rightarrow> bool" where
  "info_ok info \<longleftrightarrow>
    si_contributors info \<noteq> [] \<and> ctr_address (hd (si_contributors info)) = si_operator_address info \<and>
    distinct (map ctr_address (si_contributors info)) \<and>
    list_all (\<lambda>c. ctr_amount c \<le> ctr_reserved c) (si_contributors info) \<and>
    unat (si_total_contributed info) = amounts (si_contributors info) \<and>
    unat (si_total_reserved info) = reserves (si_contributors info) \<and>
    si_total_reserved info \<le> si_staking_requirement info \<and>
    0 < si_staking_requirement info \<and> unat (si_staking_requirement info) \<le> 100000000000000 \<and>
    locks (si_contributors info) \<le> MAX_NUMBER_OF_CONTRIBUTORS \<and>
    si_portions_for_operator info \<le> STAKING_SHARE_PARTS"

definition nodes_ok :: "sn_state \<Rightarrow> bool" where
  "nodes_ok st \<longleftrightarrow> umap_inv (st_service_nodes_infos st) \<and> (\<forall>(_, info) \<in> set (st_service_nodes_infos st). info_ok info)"

lemma total_num_locked_contributions_eq: "total_num_locked_contributions info = locks (si_contributors info)"
proof -
  have "fold (\<lambda>c result. result + length (ctr_locked_contributions c)) cs n = n + locks cs" for cs n
    by (induction cs arbitrary: n) (simp_all add: locks_def)
  then show ?thesis by (simp add: total_num_locked_contributions_def)
qed

lemma get_staking_requirement_bounds:
  "0 < get_staking_requirement nettype h" "unat (get_staking_requirement nettype h) \<le> 100000000000000"
  by (simp_all add: get_staking_requirement_def ARQMA_def)

lemma portions_fit_sum: "portions_fit left ps \<Longrightarrow> sum_list (map unat ps) \<le> unat left"
proof (induction ps arbitrary: left)
  case (Cons p ps)
  then have "p \<le> left" "portions_fit (left - p) ps" by (auto split: if_splits)
  with Cons.IH [of "left - p"] show ?case by (simp add: unat_sub word_le_nat_alt)
qed simp

lemma sum_shares_le:
  assumes "sum_list ps \<le> (S :: nat)" and "0 < S"
  shows "sum_list (map (\<lambda>p. r * p div S) ps) \<le> r"
proof -
  have "sum_list (map (\<lambda>p. r * p div S) ps) * S \<le> r * sum_list ps"
  proof (induction ps)
    case (Cons p ps)
    have "r * p div S * S \<le> r * p" by (rule div_times_less_eq_dividend)
    from add_mono [OF this Cons] show ?case by (simp add: distrib_left distrib_right)
  qed simp
  also have "\<dots> \<le> r * S" using assms(1) by simp
  finally show ?thesis using assms(2) by simp
qed

definition reserved_contributor :: "u64 \<Rightarrow> account_public_address \<times> u64 \<Rightarrow> contributor_t" where
  "reserved_contributor S = (\<lambda>(a, p). null_contributor\<lparr>ctr_reserved := mul_div S p STAKING_SHARE_PARTS, ctr_address := a\<rparr>)"

lemma add_reserved_contributors_Some:
  assumes "add_reserved_contributors seen xs info = Some info'" and "distinct seen"
  shows "info' = info\<lparr>si_contributors := si_contributors info @ map (reserved_contributor (si_staking_requirement info)) xs,
      si_total_reserved := si_total_reserved info + sum_list (map (\<lambda>x. mul_div (si_staking_requirement info) (snd x) STAKING_SHARE_PARTS) xs)\<rparr> \<and>
    distinct (seen @ map fst xs)"
  using assms
proof (induction seen xs info rule: add_reserved_contributors.induct)
  case (2 seen address portion rest info)
  then have "address \<notin> set seen" by (auto split: if_splits)
  with 2 show ?case by (auto simp: Let_def reserved_contributor_def add.assoc)
qed simp

lemma share_nat:
  assumes "p \<le> STAKING_SHARE_PARTS"
  shows "unat (mul_div S p STAKING_SHARE_PARTS) = unat S * unat p div 18446744073709551612"
  using portions_to_amount_nat [OF assms, of S] by (simp add: portions_to_amount_mul_div)

lemma unat_sum_list:
  "sum_list (map (\<lambda>x. unat (f x)) xs) < 2 ^ 64 \<Longrightarrow> unat (sum_list (map f xs) :: u64) = sum_list (map (\<lambda>x. unat (f x)) xs)"
proof (induction xs)
  case (Cons x xs)
  then have "unat (sum_list (map f xs)) = sum_list (map (\<lambda>x. unat (f x)) xs)" by simp
  with Cons.prems show ?case by (simp add: unat_add_less)
qed simp

lemma registration_shares:
  assumes "portions_fit STAKING_SHARE_PARTS (map snd xs)" and "unat S \<le> 100000000000000"
  shows "reserves (map (reserved_contributor S) xs) \<le> unat S"
    and "unat (sum_list (map (\<lambda>x. mul_div S (snd x) STAKING_SHARE_PARTS) xs)) = reserves (map (reserved_contributor S) xs)"
proof -
  have sum: "sum_list (map (\<lambda>x. unat (snd x)) xs) \<le> 18446744073709551612"
    using portions_fit_sum [OF assms(1)] by (simp add: unat_STAKING_SHARE_PARTS comp_def)
  have each: "unat (mul_div S (snd x) STAKING_SHARE_PARTS) = unat S * unat (snd x) div 18446744073709551612" if "x \<in> set xs" for x
  proof (rule share_nat)
    have "unat (snd x) \<le> sum_list (map (\<lambda>x. unat (snd x)) xs)" using that by (intro member_le_sum_list) auto
    with sum show "snd x \<le> STAKING_SHARE_PARTS" by (simp add: word_le_nat_alt unat_STAKING_SHARE_PARTS)
  qed
  have "sum_list (map (\<lambda>x. unat (mul_div S (snd x) STAKING_SHARE_PARTS)) xs) =
      sum_list (map (\<lambda>p. unat S * p div 18446744073709551612) (map (\<lambda>x. unat (snd x)) xs))"
    using each by (simp add: comp_def cong: map_cong)
  also have "\<dots> \<le> unat S" by (rule sum_shares_le) (use sum in simp_all)
  finally have le: "sum_list (map (\<lambda>x. unat (mul_div S (snd x) STAKING_SHARE_PARTS)) xs) \<le> unat S" .
  have res: "reserves (map (reserved_contributor S) xs) = sum_list (map (\<lambda>x. unat (mul_div S (snd x) STAKING_SHARE_PARTS)) xs)"
    by (simp add: reserves_def reserved_contributor_def comp_def case_prod_beta)
  show "reserves (map (reserved_contributor S) xs) \<le> unat S" using le res by simp
  show "unat (sum_list (map (\<lambda>x. mul_div S (snd x) STAKING_SHARE_PARTS) xs)) = reserves (map (reserved_contributor S) xs)"
    unfolding res by (rule unat_sum_list) (use le assms(2) in simp)
qed

lemma is_registration_tx_ok:
  assumes "is_registration_tx C K nettype hf tx ts height index = Some (key, info)"
  shows "info_ok info" and "si_total_contributed info = 0" and "si_staking_requirement info = get_staking_requirement nettype height"
proof -
  obtain reg :: registration_fields and h where reg: "length (rf_portions reg) = length (rf_addresses reg)" "rf_portions reg \<noteq> []"
    "rf_portions_for_operator reg \<le> STAKING_SHARE_PARTS"
    "get_registration_hash C (rf_addresses reg) (rf_portions_for_operator reg) (rf_portions reg) (rf_expiration_timestamp reg) = Some h"
    "add_reserved_contributors [] (zip (rf_addresses reg) (rf_portions reg))
      (null_service_node_info\<lparr>si_staking_requirement := get_staking_requirement nettype height,
         si_operator_address := rf_addresses reg ! 0, si_portions_for_operator := rf_portions_for_operator reg,
         si_registration_height := height, si_last_reward_block_height := height, si_last_reward_transaction_index := index,
         si_swarm_id := UNASSIGNED_SWARM_ID, si_last_ip_change_height := height,
         si_version := get_minimum_sn_info_version hf\<rparr>) = Some info"
    using assms by (auto simp: is_registration_tx_def Let_def not_less split: option.splits if_splits)
  let ?xs = "zip (rf_addresses reg) (rf_portions reg)" and ?S = "get_staking_requirement nettype height"
  have fit: "portions_fit STAKING_SHARE_PARTS (map snd ?xs)"
    using reg(1,4) by (simp add: get_registration_hash_def split: if_splits)
  note info = add_reserved_contributors_Some [OF reg(5), simplified]
  note shares = registration_shares [OF fit get_staking_requirement_bounds(2)]
  have ctr: "si_contributors info = map (reserved_contributor ?S) ?xs"
    and tot: "si_total_reserved info = sum_list (map (\<lambda>x. mul_div ?S (snd x) STAKING_SHARE_PARTS) ?xs)"
    and req: "si_staking_requirement info = ?S" and op: "si_operator_address info = rf_addresses reg ! 0"
    and con: "si_total_contributed info = 0" and por: "si_portions_for_operator info = rf_portions_for_operator reg"
    using info by (simp_all add: null_service_node_info_def)
  have addr: "map ctr_address (si_contributors info) = rf_addresses reg"
    using reg(1) by (simp add: ctr reserved_contributor_def comp_def case_prod_beta)
  moreover have "distinct (rf_addresses reg)" using info reg(1) by simp
  moreover have "amounts (si_contributors info) = 0" "locks (si_contributors info) = 0"
    "list_all (\<lambda>c. ctr_amount c \<le> ctr_reserved c) (si_contributors info)"
    by (auto simp: ctr amounts_def locks_def reserved_contributor_def null_contributor_def comp_def case_prod_beta list_all_iff)
  moreover have ne: "rf_addresses reg \<noteq> []" using reg(1,2) by auto
  moreover have "si_contributors info \<noteq> []" using addr ne by auto
  moreover from this have "ctr_address (hd (si_contributors info)) = rf_addresses reg ! 0"
    using addr ne by (metis hd_conv_nth hd_map)
  moreover have "unat (si_total_reserved info) = reserves (si_contributors info)" "si_total_reserved info \<le> ?S"
    using shares by (simp_all add: tot ctr word_le_nat_alt)
  ultimately show "info_ok info"
    using get_staking_requirement_bounds [of nettype height] reg(3)
    unfolding info_ok_def req con por op addr by simp
  show "si_total_contributed info = 0" "si_staking_requirement info = ?S" by (rule con, rule req)
qed

text \<open>Contributions keep the accounts.\<close>

lemma sum_map_update:
  fixes f :: "'a \<Rightarrow> nat"
  shows "i < length xs \<Longrightarrow> sum_list (map f (xs[i := y])) + f (xs ! i) = sum_list (map f xs) + f y"
  by (induction xs arbitrary: i) (auto split: nat.splits)

lemma contributor_le_sum:
  assumes "i < length cs"
  shows "unat (ctr_amount (cs ! i)) \<le> amounts cs" and "unat (ctr_reserved (cs ! i)) \<le> reserves cs"
  unfolding amounts_def reserves_def
  by (rule member_le_sum_list; use assms in auto)+

lemma amounts_le_reserves: "list_all (\<lambda>c. ctr_amount c \<le> ctr_reserved c) cs \<Longrightarrow> amounts cs \<le> reserves cs"
  by (induction cs) (auto simp: amounts_def reserves_def word_le_nat_alt)

lemma append_contributor_ok:
  assumes "info_ok info" and "address \<notin> set (map ctr_address (si_contributors info))"
  shows "info_ok (info\<lparr>si_contributors := si_contributors info @ [null_contributor\<lparr>ctr_address := address\<rparr>]\<rparr>)"
  using assms by (auto simp: info_ok_def null_contributor_def amounts_def reserves_def locks_def)

lemma apply_contribution_ok:
  assumes ok: "info_ok info" and i: "i < length (si_contributors info)"
    and few: "locks (si_contributors info) + length (pc_locked_contributions parsed) \<le> MAX_NUMBER_OF_CONTRIBUTORS"
  shows "info_ok (apply_contribution h index parsed i info)"
proof -
  let ?cs = "si_contributors info"
  define c where "c = ?cs ! i"
  define S TR where "S = si_staking_requirement info" and "TR = si_total_reserved info"
  define t where "t = min (ctr_reserved c + (S - TR) - ctr_amount c) (pc_transferred parsed)"
  define r where "r = (if ctr_reserved c < ctr_amount c + t then ctr_amount c + t else ctr_reserved c)"
  define c' where "c' = c\<lparr>ctr_amount := ctr_amount c + t, ctr_reserved := r,
    ctr_locked_contributions := ctr_locked_contributions c @ pc_locked_contributions parsed\<rparr>"
  have b: "unat TR \<le> unat S" "unat S \<le> 100000000000000" "unat (ctr_reserved c) \<le> unat TR" "unat (ctr_amount c) \<le> unat (ctr_reserved c)"
    using ok contributor_le_sum(2) [OF i] i
    by (auto simp: info_ok_def S_def TR_def c_def word_le_nat_alt list_all_length)
  have room: "unat (ctr_reserved c + (S - TR) - ctr_amount c) = unat (ctr_reserved c) + (unat S - unat TR) - unat (ctr_amount c)"
    using b by (simp add: unat_sub unat_add_less word_le_nat_alt)
  have t: "unat t \<le> unat (ctr_reserved c) + (unat S - unat TR) - unat (ctr_amount c)"
    using room by (simp add: t_def min_def word_le_nat_alt)
  have a': "unat (ctr_amount c + t) = unat (ctr_amount c) + unat t" using b t by (simp add: unat_add_less)
  have r': "unat r = max (unat (ctr_reserved c)) (unat (ctr_amount c) + unat t)"
    by (simp add: r_def a' word_less_nat_alt max_def)
  have TC: "unat (si_total_contributed info) \<le> unat S"
    using ok amounts_le_reserves [of ?cs] b(1) by (simp add: info_ok_def S_def TR_def)
  have eq: "apply_contribution h index parsed i info =
      info\<lparr>si_contributors := ?cs[i := c'], si_total_contributed := si_total_contributed info + t,
        si_total_reserved := TR + (r - ctr_reserved c), si_last_reward_block_height := h, si_last_reward_transaction_index := index\<rparr>"
    by (simp add: apply_contribution_def c'_def c_def [symmetric] r_def t_def S_def TR_def Let_def)
  have sums: "amounts (?cs[i := c']) + unat (ctr_amount c) = amounts ?cs + unat (ctr_amount c + t)"
    "reserves (?cs[i := c']) + unat (ctr_reserved c) = reserves ?cs + unat r"
    "locks (?cs[i := c']) + length (ctr_locked_contributions c) = locks ?cs + length (ctr_locked_contributions c')"
    unfolding amounts_def reserves_def locks_def
    using sum_map_update [OF i, of "unat \<circ> ctr_amount" c'] sum_map_update [OF i, of "unat \<circ> ctr_reserved" c']
      sum_map_update [OF i, of "length \<circ> ctr_locked_contributions" c']
    by (simp_all add: c_def c'_def comp_def)
  have "unat (si_total_contributed info + t) = amounts (?cs[i := c'])"
    using sums(1) a' ok TC t b by (simp add: unat_add_less info_ok_def)
  moreover have "unat (TR + (r - ctr_reserved c)) = unat TR + (unat r - unat (ctr_reserved c))"
    using r' b t by (simp add: unat_sub unat_add_less word_le_nat_alt)
  then have "unat (TR + (r - ctr_reserved c)) = reserves (?cs[i := c'])" "TR + (r - ctr_reserved c) \<le> S"
    using sums(2) ok r' b t by (simp_all add: info_ok_def TR_def word_le_nat_alt)
  moreover have "map ctr_address (?cs[i := c']) = map ctr_address ?cs"
    using i by (simp add: map_update_same c'_def c_def)
  moreover have "ctr_address (hd (?cs[i := c'])) = ctr_address (hd ?cs)"
    using i by (cases ?cs) (auto simp: c'_def c_def split: nat.splits)
  moreover have "list_all (\<lambda>c. ctr_amount c \<le> ctr_reserved c) (?cs[i := c'])"
    using ok r' a' by (auto simp: info_ok_def list_all_iff c'_def word_le_nat_alt dest!: set_update_subset_insert [THEN subsetD])
  moreover have "locks (?cs[i := c']) \<le> MAX_NUMBER_OF_CONTRIBUTORS" using sums(3) few by (simp add: c'_def)
  ultimately show ?thesis using ok by (simp add: eq info_ok_def S_def [symmetric])
qed

lemma nodes_ok_set: "nodes_ok st \<Longrightarrow> info_ok info \<Longrightarrow> nodes_ok (st\<lparr>st_service_nodes_infos := umap_set k info (st_service_nodes_infos st)\<rparr>)"
  by (auto simp: nodes_ok_def umap_inv_set umap.entries_upd)

lemma nodes_ok_erase: "nodes_ok st \<Longrightarrow> nodes_ok (st\<lparr>st_service_nodes_infos := map_erase k (st_service_nodes_infos st)\<rparr>)"
  by (auto simp: nodes_ok_def umap_inv_erase umap.entries_del)

lemma nodes_ok_lookup: "nodes_ok st \<Longrightarrow> map_of (st_service_nodes_infos st) k = Some info \<Longrightarrow> info_ok info"
  by (auto simp: nodes_ok_def dest!: map_of_SomeD)

lemma locks_append_null: "locks (cs @ [null_contributor\<lparr>ctr_address := a\<rparr>]) = locks cs"
  by (simp add: locks_def null_contributor_def)

lemma funded_ok: "info_ok (info\<lparr>si_active_since_height := h\<rparr>) = info_ok info"
  by (simp add: info_ok_def)

lemma process_contribution_tx_cases:
  assumes "nodes_ok st"
  obtains "process_contribution_tx K blk tx index st = (False, st)"
  | key info info' funded where "map_of (st_service_nodes_infos st) key = Some info" "info_ok info'" "funded = is_fully_funded info'"
      "process_contribution_tx K blk tx index st = (funded, st\<lparr>st_service_nodes_infos := umap_set key info' (st_service_nodes_infos st)\<rparr>)"
proof (cases "snd (process_contribution_tx K blk tx index st) = st \<and> \<not> fst (process_contribution_tx K blk tx index st)")
  case True
  then show thesis by (cases "process_contribution_tx K blk tx index st") (auto intro: that(1))
next
  case False
  then obtain key parsed info where key: "get_service_node_pubkey_from_tx_extra (extra tx) = Some key"
    "get_contribution K tx = Some parsed" "map_of (st_service_nodes_infos st) key = Some info"
    by (auto simp: process_contribution_tx_def Let_def split: option.splits)
  define known where "known = index_where (\<lambda>c. ctr_address c = pc_address parsed) (si_contributors info)"
  define info2 where "info2 = (case known of Some i \<Rightarrow> info
    | None \<Rightarrow> info\<lparr>si_contributors := si_contributors info @ [null_contributor\<lparr>ctr_address := pc_address parsed\<rparr>]\<rparr>)"
  define i where "i = (case known of Some i \<Rightarrow> i | None \<Rightarrow> length (si_contributors info))"
  define info3 where "info3 = apply_contribution (get_block_height blk) index parsed i info2"
  have few: "locks (si_contributors info) + length (pc_locked_contributions parsed) \<le> MAX_NUMBER_OF_CONTRIBUTORS"
    and eq: "process_contribution_tx K blk tx index st = (is_fully_funded info3, st\<lparr>st_service_nodes_infos := umap_set key
      (if is_fully_funded info3 then info3\<lparr>si_active_since_height := get_block_height blk\<rparr> else info3) (st_service_nodes_infos st)\<rparr>)"
    using False by (auto simp: process_contribution_tx_def Let_def key known_def [symmetric] info3_def info2_def i_def
        total_num_locked_contributions_eq split: if_splits option.splits)
  have "info_ok info" using nodes_ok_lookup [OF assms key(3)] .
  then have "info_ok info2" "i < length (si_contributors info2)" "locks (si_contributors info2) = locks (si_contributors info)"
    using append_contributor_ok [of info "pc_address parsed"]
      index_where_None [of "\<lambda>c. ctr_address c = pc_address parsed" "si_contributors info"]
      index_where_Some [of "\<lambda>c. ctr_address c = pc_address parsed" "si_contributors info" i]
    by (cases known; force simp: info2_def i_def known_def locks_append_null)+
  then have "info_ok info3" using apply_contribution_ok few by (simp add: info3_def)
  then show thesis using that(2) [OF key(3) _ _ eq] by (simp add: funded_ok is_fully_funded_def)
qed

lemma process_contribution_tx_ok:
  assumes "nodes_ok st"
  shows "nodes_ok (snd (process_contribution_tx K blk tx index st))"
  using assms nodes_ok_set by (cases rule: process_contribution_tx_cases [OF assms, of K blk tx index]) simp_all

lemma process_registration_tx_ok:
  "nodes_ok st \<Longrightarrow> process_registration_tx C K nettype linked rescanning blk tx index (st, proofs) = (ok, st', proofs') \<Longrightarrow> nodes_ok st'"
  using is_registration_tx_ok(1) nodes_ok_set
  by (fastforce simp: process_registration_tx_def Let_def split: option.splits prod.splits if_splits)

lemma apply_state_change_ok:
  assumes ok: "nodes_ok st" "info_ok info"
    and run: "apply_state_change nettype linked rescanning blk key info state (st, proofs) = (done', st', proofs')"
  shows "nodes_ok st'"
proof (cases "state = deregister")
  case True
  then have "st_service_nodes_infos st' = map_erase key (st_service_nodes_infos st)"
    using run by (auto simp: apply_state_change_def Let_def)
  then show ?thesis using nodes_ok_erase [OF ok(1), of key] by (simp add: nodes_ok_def)
next
  case False
  have put: "nodes_ok (st\<lparr>st_service_nodes_infos := umap_set key info' (st_service_nodes_infos st)\<rparr>)"
    if "si_contributors info' = si_contributors info" "si_operator_address info' = si_operator_address info"
      "si_total_contributed info' = si_total_contributed info" "si_total_reserved info' = si_total_reserved info"
      "si_staking_requirement info' = si_staking_requirement info"
      "si_portions_for_operator info' = si_portions_for_operator info" for info'
    using nodes_ok_set [OF ok(1), of info' key] ok(2) that by (simp add: info_ok_def)
  show ?thesis using False run ok(1)
    by (cases state) (auto simp: apply_state_change_def Let_def split: if_splits intro!: put)
qed

lemma process_state_change_tx_cases:
  assumes "process_state_change_tx C hist alts nettype linked rescanning blk tx (st, proofs) = Inr (done', st', proofs')"
  obtains "done' = False" "st' = st" "proofs' = proofs"
  | key info state where "map_of (st_service_nodes_infos st) key = Some info"
      "apply_state_change nettype linked rescanning blk key info state (st, proofs) = (done', st', proofs')"
  using assms
  by (auto simp: process_state_change_tx_def Let_def bindE_def split: if_splits option.splits sum.splits prod.splits)

lemma process_state_change_tx_ok:
  assumes "nodes_ok st"
    and "process_state_change_tx C hist alts nettype linked rescanning blk tx (st, proofs) = Inr (done', st', proofs')"
  shows "nodes_ok st'"
  using assms(2)
proof (cases rule: process_state_change_tx_cases)
  case 1
  with assms(1) show ?thesis by simp
next
  case (2 key info state)
  show ?thesis by (rule apply_state_change_ok [OF assms(1) nodes_ok_lookup [OF assms(1) 2(1)] 2(2)])
qed

lemma process_key_image_unlock_tx_ok:
  assumes "nodes_ok st"
  shows "nodes_ok (snd (process_key_image_unlock_tx C nettype height tx st))"
proof -
  have "info_ok (info\<lparr>si_requested_unlock_height := h\<rparr>)" if "info_ok info" for info h using that by (simp add: info_ok_def)
  then show ?thesis
    using assms nodes_ok_set [OF assms] nodes_ok_lookup [OF assms]
    by (simp add: process_key_image_unlock_tx_def Let_def split: option.splits)
qed

text \<open>
  A contribution of nothing. Once the whole stake is reserved, the minimum contribution is zero, so
  that a stake without a matching output adds a contributor without an amount. Nothing bounds how
  many: the limit of twelve counts locked contributions, of which such a stake has none.
\<close>

lemma empty_contribution_accepted:
  assumes "get_service_node_pubkey_from_tx_extra (extra tx) = Some key"
    and parsed: "get_contribution K tx = Some parsed" "pc_transferred parsed = 0" "pc_locked_contributions parsed = []"
    and node: "map_of (st_service_nodes_infos st) key = Some info" "\<not> is_fully_funded info" "locks (si_contributors info) < MAX_NUMBER_OF_CONTRIBUTORS"
    and reserved: "si_total_reserved info = si_staking_requirement info"
    and fresh: "pc_address parsed \<notin> set (map ctr_address (si_contributors info))"
  shows "process_contribution_tx K blk tx index st = (False, st\<lparr>st_service_nodes_infos := umap_set key
    (info\<lparr>si_contributors := si_contributors info @ [null_contributor\<lparr>ctr_address := pc_address parsed\<rparr>],
      si_last_reward_block_height := get_block_height blk, si_last_reward_transaction_index := index\<rparr>) (st_service_nodes_infos st)\<rparr>)"
proof -
  have key: "\<exists>k. get_tx_secret_key_from_tx_extra (extra tx) = Some k"
    using parsed(1) by (auto simp: get_contribution_def split: option.splits bind_splits)
  have known: "index_where (\<lambda>c. ctr_address c = pc_address parsed) (si_contributors info) = None"
    using fresh by (force simp: index_where_None)
  have none: "get_min_node_contribution (si_staking_requirement info) (si_staking_requirement info) (locks (si_contributors info)) = 0"
    using node(3) by (simp add: get_min_node_contribution_def)
  show ?thesis
    using node assms(1) parsed key
    by (auto simp add: process_contribution_tx_def Let_def known none total_num_locked_contributions_eq parsed apply_contribution_def
        reserved null_contributor_def is_fully_funded_def)
qed

end
