(* ===== verification/Sn_Update.thy ===== *)
theory Sn_Update
  imports Sn_List "HOL-Library.List_Lexorder" "HOL-Library.Product_Lexorder"
begin

text \<open>
  The state of the service nodes moving from block to block,
  \<open>cryptonote_core/service_node_list.cpp\<close>: the quorums drawn from a block hash, the update of the
  state by a block, and the winner of the next reward. The order of public keys is that of
  \<open>memcmp\<close>, the lexicographic order of the bytes. The hash of a block is a parameter.
\<close>

section \<open>The sorted lists\<close>

text \<open>
  The comparison reads a pair of key and pointer as bytes; the keys of a map are distinct, so that
  the keys, which come first, decide.
\<close>

definition sort_and_filter ::
  "(service_node_info \<Rightarrow> bool) \<Rightarrow> (public_key \<times> service_node_info) list \<Rightarrow> (public_key \<times> service_node_info) list" where
  "sort_and_filter p sns_infos = sort_key fst (filter (\<lambda>key_info. p (snd key_info)) sns_infos)"

definition active_service_nodes_infos :: "sn_state \<Rightarrow> (public_key \<times> service_node_info) list" where
  "active_service_nodes_infos st = sort_and_filter is_active (st_service_nodes_infos st)"

definition decommissioned_service_nodes_infos :: "sn_state \<Rightarrow> (public_key \<times> service_node_info) list" where
  "decommissioned_service_nodes_infos st =
    sort_and_filter (\<lambda>info. is_decommissioned info \<and> is_fully_funded info) (st_service_nodes_infos st)"

section \<open>Quorums\<close>

text \<open>The first eight bytes of a hash as a number of the (little endian) machine.\<close>

definition hash_seed :: "hash \<Rightarrow> u64" where
  "hash_seed h = (case load_uint h of Some (s, _) \<Rightarrow> s | None \<Rightarrow> 0)"

definition quorum_type_value :: "quorum_type \<Rightarrow> u64" where
  "quorum_type_value type = (case type of obligations \<Rightarrow> 0 | checkpointing \<Rightarrow> 1 | unknown_quorum n \<Rightarrow> ucast n)"

definition generate_shuffled_service_node_index_list ::
  "'g rng \<Rightarrow> nat \<Rightarrow> hash \<Rightarrow> quorum_type \<Rightarrow> nat \<Rightarrow> nat \<Rightarrow> nat list outcome" where
  "generate_shuffled_service_node_index_list R list_size block_hash type sublist_size sublist_up_to =
    (let result = [0..<list_size];
         seed = hash_seed block_hash + quorum_type_value type
     in if (0 < sublist_size \<and> sublist_size < list_size) \<and> (0 < sublist_up_to \<and> sublist_up_to < list_size) then
          bindE (shuffle_portable R (take sublist_up_to result) seed) (\<lambda>front.
          let result = front @ drop sublist_up_to result
          in bindE (shuffle_portable R (drop sublist_size result) seed) (\<lambda>back.
             Inr (take sublist_size result @ back)))
        else shuffle_portable R result seed)"

text \<open>The two loops that turn indexes into keys.\<close>

definition push_validator ::
  "(public_key \<times> service_node_info) list \<Rightarrow> nat list \<Rightarrow> nat \<Rightarrow> public_key list \<Rightarrow> public_key list outcome" where
  "push_validator active pub_keys_indexes i keys =
    bindE (at_ub pub_keys_indexes i) (\<lambda>j. bindE (at_ub active j) (\<lambda>node. Inr (keys @ [fst node])))"

definition push_worker ::
  "(public_key \<times> service_node_info) list \<Rightarrow> (public_key \<times> service_node_info) list \<Rightarrow> nat list \<Rightarrow> nat \<Rightarrow>
    public_key list \<Rightarrow> public_key list outcome" where
  "push_worker active decomm pub_keys_indexes i keys =
    bindE (at_ub pub_keys_indexes i) (\<lambda>j.
      bindE (if j < length active then at_ub active j else at_ub decomm (j - length active)) (\<lambda>node.
        Inr (keys @ [fst node])))"

definition fill_quorum ::
  "(public_key \<times> service_node_info) list \<Rightarrow> (public_key \<times> service_node_info) list \<Rightarrow> nat list \<Rightarrow> nat \<Rightarrow> nat \<Rightarrow> quorum outcome" where
  "fill_quorum active decomm pub_keys_indexes num_validators num_workers =
    bindE (foldE (push_validator active pub_keys_indexes) [0..<num_validators] []) (\<lambda>vs.
    bindE (foldE (push_worker active decomm pub_keys_indexes) [num_validators..<num_validators + num_workers] []) (\<lambda>ws.
    Inr \<lparr>validators = vs, workers = ws\<rparr>))"

text \<open>The body of the loop over the types of quorums.\<close>

definition generate_obligations_quorum :: "'g rng \<Rightarrow> sn_state \<Rightarrow> quorum outcome" where
  "generate_obligations_quorum R st =
    (let active = active_service_nodes_infos st;
         decomm = decommissioned_service_nodes_infos st;
         total_nodes = length active + length decomm;
         num_validators = min (length active) STATE_CHANGE_QUORUM_SIZE
     in bindE (generate_shuffled_service_node_index_list R total_nodes (st_block_hash st) obligations num_validators
          (length active)) (\<lambda>pub_keys_indexes.
        let num_remaining_nodes = total_nodes - num_validators;
            num_workers = min num_remaining_nodes (max STATE_CHANGE_MIN_NODES_TO_TEST
              (num_remaining_nodes div STATE_CHANGE_NTH_OF_THE_NETWORK_TO_TEST))
        in fill_quorum active decomm pub_keys_indexes num_validators num_workers))"

definition generate_checkpointing_quorum :: "'g rng \<Rightarrow> sn_state \<Rightarrow> quorum option outcome" where
  "generate_checkpointing_quorum R st =
    (if (st_height st + REORG_SAFETY_BUFFER_IN_BLOCKS) mod CHECKPOINT_INTERVAL \<noteq> 0 then Inr None
     else
       let active = active_service_nodes_infos st;
           decomm = decommissioned_service_nodes_infos st
       in bindE (generate_shuffled_service_node_index_list R (length active) (st_block_hash st) checkpointing 0 0)
            (\<lambda>pub_keys_indexes.
          bindE (fill_quorum active decomm pub_keys_indexes (min (length pub_keys_indexes) CHECKPOINT_QUORUM_SIZE) 0) (\<lambda>q.
          Inr (Some q))))"

definition generate_quorums :: "'g rng \<Rightarrow> u8 \<Rightarrow> sn_state \<Rightarrow> quorum_manager outcome" where
  "generate_quorums R hard_fork_version st =
    (let max_quorum_type = max_quorum_type_for_hf hard_fork_version
     in bindE (generate_obligations_quorum R st) (\<lambda>obligations_quorum.
        bindE (if max_quorum_type = checkpointing then generate_checkpointing_quorum R st else Inr None) (\<lambda>checkpointing_quorum.
        Inr \<lparr>qm_obligations = Some obligations_quorum, qm_checkpointing = checkpointing_quorum\<rparr>)))"

section \<open>The update by a block\<close>

definition get_expired_nodes :: "u64 \<Rightarrow> sn_state \<Rightarrow> public_key list" where
  "get_expired_nodes block_height st =
    map fst (filter (\<lambda>(snode_key, info). si_requested_unlock_height info \<noteq> KEY_IMAGE_AWAITING_UNLOCK_HEIGHT \<and>
      si_requested_unlock_height info < block_height) (st_service_nodes_infos st))"

text \<open>The loop that expires nodes, with \<open>need_swarm_update\<close>.\<close>

definition expire_node :: "public_key \<Rightarrow> bool \<times> sn_state \<Rightarrow> bool \<times> sn_state" where
  "expire_node pubkey = (\<lambda>(need_swarm_update, st).
    case map_of (st_service_nodes_infos st) pubkey of
      None \<Rightarrow> (need_swarm_update, st)
    | Some info \<Rightarrow> (need_swarm_update \<or> is_active info,
        st\<lparr>st_service_nodes_infos := map_erase pubkey (st_service_nodes_infos st)\<rparr>))"

text \<open>Advancing the list to the next candidate for a reward.\<close>

definition advance_reward :: "u64 \<Rightarrow> public_key \<Rightarrow> sn_state \<Rightarrow> sn_state" where
  "advance_reward block_height winner_pubkey st =
    (case map_of (st_service_nodes_infos st) winner_pubkey of
       None \<Rightarrow> st
     | Some info \<Rightarrow> st\<lparr>st_service_nodes_infos := umap_set winner_pubkey
         (info\<lparr>si_last_reward_block_height := block_height, si_last_reward_transaction_index := UINT32_MAX\<rparr>)
         (st_service_nodes_infos st)\<rparr>)"

text \<open>Everything before the transactions.\<close>

definition begin_block :: "('b block_scheme \<Rightarrow> hash) \<Rightarrow> 'b block_scheme \<Rightarrow> sn_state \<Rightarrow> bool \<times> sn_state" where
  "begin_block block_hash_of blk st =
    (let block_height = get_block_height blk;
         st = st\<lparr>st_height := st_height st + 1, st_quorums := no_quorums, st_block_hash := block_hash_of blk,
           st_key_image_blacklist := filter (\<lambda>entry. \<not> bl_unlock_height entry \<le> block_height) (st_key_image_blacklist st)\<rparr>;
         (need_swarm_update, st) = fold expire_node (get_expired_nodes block_height st) (False, st)
     in (need_swarm_update, advance_reward block_height (get_service_node_winner_from_tx_extra (extra (miner_tx blk))) st))"

definition process_tx ::
  "crypto_ops \<Rightarrow> 'r stake_ops \<Rightarrow> sn_state list \<Rightarrow> (hash \<times> sn_state) list \<Rightarrow> network_type \<Rightarrow> bool \<Rightarrow> bool \<Rightarrow> 'b block_scheme \<Rightarrow>
    u32 \<times> 'r transaction \<Rightarrow> bool \<times> sn_state \<times> proofs_map \<Rightarrow> (bool \<times> sn_state \<times> proofs_map) outcome" where
  "process_tx C K state_history alt_states nettype linked rescanning blk = (\<lambda>(index, tx) (need_swarm_update, st, proofs).
    if is_transfer tx then
      (let (_, st, proofs) = process_registration_tx C K nettype linked rescanning blk tx index (st, proofs);
           (funded, st) = process_contribution_tx K blk tx index st
       in Inr (need_swarm_update \<or> funded, st, proofs))
    else if tx_type tx = state_change_tx then
      bindE (process_state_change_tx C state_history alt_states nettype linked rescanning blk tx (st, proofs))
        (\<lambda>(changed, st, proofs). Inr (need_swarm_update \<or> changed, st, proofs))
    else if tx_type tx = key_image_unlock_tx then
      Inr (need_swarm_update, snd (process_key_image_unlock_tx C nettype (get_block_height blk) tx st), proofs)
    else Inr (need_swarm_update, st, proofs))"

text \<open>The map of the swarms of the active nodes, and the swarm ids written back.\<close>

definition existing_swarms :: "sn_state \<Rightarrow> swarm_map" where
  "existing_swarms st = fold (\<lambda>(key, info) m.
      omap_set (si_swarm_id info) ((case map_of m (si_swarm_id info) of None \<Rightarrow> [] | Some snodes \<Rightarrow> snodes) @ [key]) m)
    (active_service_nodes_infos st) []"

definition set_swarm_id :: "u64 \<Rightarrow> public_key \<Rightarrow> sn_state \<Rightarrow> sn_state outcome" where
  "set_swarm_id swarm_id snode st =
    (case map_of (st_service_nodes_infos st) snode of
       None \<Rightarrow> Inl Out_of_range
     | Some info \<Rightarrow>
         if si_swarm_id info = swarm_id then Inr st
         else Inr (st\<lparr>st_service_nodes_infos := umap_set snode (info\<lparr>si_swarm_id := swarm_id\<rparr>) (st_service_nodes_infos st)\<rparr>))"

definition update_swarms ::
  "'g rng \<Rightarrow> (swarm_size list \<Rightarrow> swarm_size list) \<Rightarrow> ('b block_scheme \<Rightarrow> hash) \<Rightarrow> 'b block_scheme \<Rightarrow> sn_state \<Rightarrow> sn_state outcome" where
  "update_swarms R srt block_hash_of blk st =
    bindE (calc_swarm_changes R srt (existing_swarms st) (hash_seed (block_hash_of blk))) (\<lambda>swarms.
      foldE (\<lambda>(swarm_id, snodes). foldE (set_swarm_id swarm_id) snodes) swarms st)"

definition update_from_block ::
  "'g rng \<Rightarrow> (swarm_size list \<Rightarrow> swarm_size list) \<Rightarrow> crypto_ops \<Rightarrow> 'r stake_ops \<Rightarrow> ('b block_scheme \<Rightarrow> hash) \<Rightarrow> network_type \<Rightarrow>
    bool \<Rightarrow> bool \<Rightarrow> sn_state list \<Rightarrow> (hash \<times> sn_state) list \<Rightarrow> 'b block_scheme \<Rightarrow> 'r transaction list \<Rightarrow>
    sn_state \<times> proofs_map \<Rightarrow> (sn_state \<times> proofs_map) outcome" where
  "update_from_block R srt C K block_hash_of nettype linked rescanning state_history alt_states blk txs = (\<lambda>(st, proofs).
    let (need_swarm_update, st) = begin_block block_hash_of blk st
    in bindE (foldE (process_tx C K state_history alt_states nettype linked rescanning blk)
         (map (\<lambda>index. (word_of_nat index, txs ! index)) [0..<length txs]) (need_swarm_update, st, proofs))
         (\<lambda>(need_swarm_update, st, proofs).
       bindE (if need_swarm_update then update_swarms R srt block_hash_of blk st else Inr st) (\<lambda>st.
       bindE (generate_quorums R (hdr_major_version blk) st) (\<lambda>quorums.
       Inr (st\<lparr>st_quorums := quorums\<rparr>, proofs)))))"

section \<open>The winner of the next reward\<close>

definition waiting_since :: "public_key \<times> service_node_info \<Rightarrow> u64 \<times> u32 \<times> public_key" where
  "waiting_since = (\<lambda>(key, info). (si_last_reward_block_height info, si_last_reward_transaction_index info, key))"

text \<open>The loop over the nodes, with \<open>oldest_waiting\<close> and the pointer \<open>info\<close>.\<close>

fun check_waiting ::
  "public_key \<times> service_node_info \<Rightarrow> (u64 \<times> u32 \<times> public_key) \<times> service_node_info option \<Rightarrow>
    (u64 \<times> u32 \<times> public_key) \<times> service_node_info option" where
  "check_waiting info_it (oldest_waiting, info) =
    (if is_active (snd info_it) \<and> waiting_since info_it < oldest_waiting
     then (waiting_since info_it, Some (snd info_it)) else (oldest_waiting, info))"

definition find_oldest_waiting ::
  "(public_key \<times> service_node_info) list \<Rightarrow> (u64 \<times> u32 \<times> public_key) \<times> service_node_info option" where
  "find_oldest_waiting infos = fold check_waiting infos ((UINT64_MAX, UINT32_MAX, null_pkey), None)"

definition get_payouts :: "service_node_info \<Rightarrow> payout_entry list" where
  "get_payouts info =
    (let remaining_portions = STAKING_SHARE_PARTS - si_portions_for_operator info
     in map (\<lambda>contributor.
          let resultlo = mul_div (ctr_amount contributor) remaining_portions (si_staking_requirement info)
          in \<lparr>po_address = ctr_address contributor,
              po_portions = (if ctr_address contributor = si_operator_address info
                then resultlo + si_portions_for_operator info else resultlo)\<rparr>) (si_contributors info))"

text \<open>The pointer is null only when the key is.\<close>

definition get_block_winner :: "sn_state \<Rightarrow> block_winner" where
  "get_block_winner st =
    (let (oldest_waiting, info) = find_oldest_waiting (st_service_nodes_infos st);
         key = snd (snd oldest_waiting)
     in case info of
          None \<Rightarrow> null_block_winner
        | Some info \<Rightarrow> if key = null_pkey then null_block_winner else \<lparr>bw_key = key, bw_payouts = get_payouts info\<rparr>)"

section \<open>Quorums are drawn from the nodes\<close>

lemma sort_and_filter_set: "set (sort_and_filter p infos) = {(k, i) \<in> set infos. p i}"
  by (auto simp: sort_and_filter_def)

lemma sort_and_filter_distinct: "umap_inv infos \<Longrightarrow> distinct (map fst (sort_and_filter p infos))"
  by (auto simp: sort_and_filter_def distinct_map intro: inj_on_subset)

lemma active_decommissioned_keys:
  assumes "umap_inv (st_service_nodes_infos st)"
  shows "distinct (map fst (active_service_nodes_infos st @ decommissioned_service_nodes_infos st))"
proof -
  have "fst ` set (active_service_nodes_infos st) \<inter> fst ` set (decommissioned_service_nodes_infos st) = {}"
  proof -
    have "is_active i \<Longrightarrow> \<not> is_decommissioned i" for i by (simp add: is_active_def)
    then show ?thesis
      using eq_key_imp_eq_value [OF assms]
      by (fastforce simp: active_service_nodes_infos_def decommissioned_service_nodes_infos_def sort_and_filter_set)
  qed
  then show ?thesis
    using sort_and_filter_distinct [OF assms] by (auto simp: active_service_nodes_infos_def decommissioned_service_nodes_infos_def)
qed

text \<open>What a quorum filled from a shuffled list of indexes looks like.\<close>

lemma push_validators:
  "\<forall>i \<in> set is. i < length idx \<and> idx ! i < length active \<Longrightarrow>
    foldE (push_validator active idx) is keys = Inr (keys @ map (\<lambda>i. map fst active ! (idx ! i)) is)"
  by (induction "is" arbitrary: keys) (simp_all add: push_validator_def at_ub_def)

lemma push_workers:
  "\<forall>i \<in> set is. i < length idx \<and> idx ! i < length active + length decomm \<Longrightarrow>
    foldE (push_worker active decomm idx) is keys = Inr (keys @ map (\<lambda>i. map fst (active @ decomm) ! (idx ! i)) is)"
  by (induction "is" arbitrary: keys) (auto simp: push_worker_def at_ub_def nth_append)

lemma fill_quorum_returns:
  assumes perm: "mset idx = mset [0..<length active + length decomm]"
    and front: "\<And>i. i < nv \<Longrightarrow> idx ! i < length active" and le: "nv + nw \<le> length active + length decomm"
    and dist: "distinct (map fst (active @ decomm))"
  obtains q where "fill_quorum active decomm idx nv nw = Inr q" "length (validators q) = nv" "length (workers q) = nw"
    "distinct (validators q @ workers q)" "set (validators q) \<subseteq> fst ` set active"
    "set (workers q) \<subseteq> fst ` set (active @ decomm)"
proof
  let ?ks = "map fst (active @ decomm)"
  let ?q = "\<lparr>validators = map (\<lambda>i. map fst active ! (idx ! i)) [0..<nv], workers = map (\<lambda>i. ?ks ! (idx ! i)) [nv..<nv + nw]\<rparr>"
  have len: "length idx = length active + length decomm" using mset_eq_length [OF perm] by simp
  have bound: "idx ! i < length ?ks" if "i < length idx" for i
    using nth_mem [OF that] mset_eq_setD [OF perm] by simp
  show "fill_quorum active decomm idx nv nw = Inr ?q"
    using front le len bound by (simp add: fill_quorum_def push_validators push_workers)
  have vs: "map (\<lambda>i. map fst active ! (idx ! i)) [0..<nv] = map (\<lambda>i. ?ks ! (idx ! i)) [0..<nv]"
    using front by (simp add: nth_append)
  have "validators ?q @ workers ?q = map (\<lambda>i. ?ks ! (idx ! i)) [0..<nv + nw]"
    unfolding vs quorum.simps by (metis map_append upt_add_eq_append zero_le)
  moreover have "inj_on (\<lambda>i. ?ks ! (idx ! i)) {0..<nv + nw}"
  proof (rule inj_onI)
    fix i j assume ij: "i \<in> {0..<nv + nw}" "j \<in> {0..<nv + nw}" "?ks ! (idx ! i) = ?ks ! (idx ! j)"
    then have "idx ! i = idx ! j" using nth_eq_iff_index_eq [OF dist] bound le len by simp
    moreover have "distinct idx" using perm by (metis distinct_upt mset_eq_imp_distinct_iff)
    ultimately show "i = j" using ij le len by (simp add: nth_eq_iff_index_eq)
  qed
  ultimately show "distinct (validators ?q @ workers ?q)" by (simp add: distinct_map)
  show "set (validators ?q) \<subseteq> fst ` set active" using front by auto
  show "set (workers ?q) \<subseteq> fst ` set (active @ decomm)"
  proof -
    have "?ks ! (idx ! i) \<in> fst ` set (active @ decomm)" if "i < nv + nw" for i
      using nth_mem [OF bound [of i]] that le len by (simp add: image_Un)
    then show ?thesis by auto
  qed
qed simp_all

lemma generate_shuffled_returns:
  assumes "fair R" and "n < 2 ^ 64" and "k \<le> u" and "u \<le> n"
  obtains r where "generate_shuffled_service_node_index_list R n h type k u = Inr r" "mset r = mset [0..<n]"
    "\<And>i. i < k \<Longrightarrow> r ! i < u"
proof (cases "(0 < k \<and> k < n) \<and> (0 < u \<and> u < n)")
  case True
  let ?seed = "hash_seed h + quorum_type_value type"
  obtain f where f: "shuffle_portable R (take u [0..<n]) ?seed = Inr f" "mset f = mset (take u [0..<n])"
    using shuffle_returns [OF assms(1), of "take u [0..<n]" ?seed] assms by auto
  then have len: "length f = u" and set_f: "set f = {0..<u}"
    using assms(4) mset_eq_length [OF f(2)] mset_eq_setD [OF f(2)] by (auto simp: take_upt)
  define result where "result = f @ drop u [0..<n]"
  have res: "mset result = mset [0..<n]" unfolding result_def mset_append f(2) mset_append [symmetric] append_take_drop_id ..
  obtain b where b: "shuffle_portable R (drop k result) ?seed = Inr b" "mset b = mset (drop k result)"
    by (rule shuffle_returns [OF assms(1), of "drop k result" ?seed]) (use assms(2) mset_eq_length [OF res] in auto)
  show thesis
  proof
    show "generate_shuffled_service_node_index_list R n h type k u = Inr (take k result @ b)"
      using True f(1) b(1) by (simp add: generate_shuffled_service_node_index_list_def Let_def result_def add.commute)
    show "mset (take k result @ b) = mset [0..<n]"
      unfolding mset_append b(2) mset_append [symmetric] append_take_drop_id by (rule res)
    show "(take k result @ b) ! i < u" if "i < k" for i
    proof -
      have "(take k result @ b) ! i = f ! i" using that len assms(3) by (simp add: result_def nth_append)
      moreover have "f ! i \<in> set f" using that len assms(3) by (intro nth_mem) simp
      ultimately show ?thesis using set_f by simp
    qed
  qed
next
  case False
  obtain r where r: "shuffle_portable R [0..<n] (hash_seed h + quorum_type_value type) = Inr r" "mset r = mset [0..<n]"
    using shuffle_returns [OF assms(1), of "[0..<n]" "hash_seed h + quorum_type_value type"] assms by auto
  show thesis
  proof
    show "generate_shuffled_service_node_index_list R n h type k u = Inr r"
      using False r(1) by (auto simp: generate_shuffled_service_node_index_list_def Let_def)
    show "mset r = mset [0..<n]" by (rule r)
    show "r ! i < u" if "i < k" for i
    proof -
      have "u = n" using False that assms(3,4) by auto
      moreover have "r ! i \<in> set r" using that assms(3,4) mset_eq_length [OF r(2)] by (intro nth_mem) simp
      ultimately show ?thesis using mset_eq_setD [OF r(2)] by simp
    qed
  qed
qed

text \<open>
  A manager whose quorums the verification of votes can be given: its arrays have the expected bounds. The workers are
  those left over, up to fifty or a hundredth of them; the checkpointing quorum is there at every fourth height from hard fork 17 on.
\<close>

definition quorums_ok :: "u8 \<Rightarrow> sn_state \<Rightarrow> quorum_manager \<Rightarrow> bool" where
  "quorums_ok hf st qs \<longleftrightarrow> (\<exists>q. qm_obligations qs = Some q \<and>
      length (validators q) = min (length (active_service_nodes_infos st)) STATE_CHANGE_QUORUM_SIZE \<and>
      (let rest = length (active_service_nodes_infos st) + length (decommissioned_service_nodes_infos st) - length (validators q)
       in length (workers q) = min rest (max 50 (rest div 100))) \<and>
      distinct (validators q @ workers q) \<and> set (validators q) \<subseteq> fst ` set (active_service_nodes_infos st) \<and>
      set (workers q) \<subseteq> fst ` set (active_service_nodes_infos st @ decommissioned_service_nodes_infos st)) \<and>
    (qm_checkpointing qs \<noteq> None \<longleftrightarrow> 17 \<le> hf \<and> unat (st_height st) mod 4 = 1) \<and>
    (\<forall>q. qm_checkpointing qs = Some q \<longrightarrow>
      length (validators q) = min (length (active_service_nodes_infos st)) CHECKPOINT_QUORUM_SIZE \<and> workers q = [] \<and>
      distinct (validators q) \<and> set (validators q) \<subseteq> fst ` set (active_service_nodes_infos st))"

lemma generate_obligations_quorum_returns:
  assumes "fair R" and "umap_inv (st_service_nodes_infos st)"
    and "length (active_service_nodes_infos st) + length (decommissioned_service_nodes_infos st) < 2 ^ 64"
  obtains q where "generate_obligations_quorum R st = Inr q"
    "length (validators q) = min (length (active_service_nodes_infos st)) STATE_CHANGE_QUORUM_SIZE"
    "let rest = length (active_service_nodes_infos st) + length (decommissioned_service_nodes_infos st) - length (validators q)
     in length (workers q) = min rest (max 50 (rest div 100))"
    "distinct (validators q @ workers q)" "set (validators q) \<subseteq> fst ` set (active_service_nodes_infos st)"
    "set (workers q) \<subseteq> fst ` set (active_service_nodes_infos st @ decommissioned_service_nodes_infos st)"
proof -
  let ?a = "active_service_nodes_infos st" and ?d = "decommissioned_service_nodes_infos st"
  let ?nv = "min (length ?a) STATE_CHANGE_QUORUM_SIZE"
  obtain idx where idx: "generate_shuffled_service_node_index_list R (length ?a + length ?d) (st_block_hash st) obligations ?nv
      (length ?a) = Inr idx" "mset idx = mset [0..<length ?a + length ?d]" "\<And>i. i < ?nv \<Longrightarrow> idx ! i < length ?a"
    by (rule generate_shuffled_returns [OF assms(1,3), of ?nv "length ?a" "st_block_hash st" obligations]) auto
  let ?rest = "length ?a + length ?d - ?nv"
  let ?nw = "min ?rest (max STATE_CHANGE_MIN_NODES_TO_TEST (?rest div STATE_CHANGE_NTH_OF_THE_NETWORK_TO_TEST))"
  obtain q where q: "fill_quorum ?a ?d idx ?nv ?nw = Inr q" "length (validators q) = ?nv" "length (workers q) = ?nw"
    "distinct (validators q @ workers q)" "set (validators q) \<subseteq> fst ` set ?a" "set (workers q) \<subseteq> fst ` set (?a @ ?d)"
  proof (rule fill_quorum_returns [OF idx(2) idx(3) _ active_decommissioned_keys [OF assms(2)], of ?nv ?nw])
    show "?nv + ?nw \<le> length ?a + length ?d" by linarith
  qed
  have "let rest = length ?a + length ?d - length (validators q) in length (workers q) = min rest (max 50 (rest div 100))"
    unfolding Let_def q(2,3) by (simp add: STATE_CHANGE_MIN_NODES_TO_TEST_def STATE_CHANGE_NTH_OF_THE_NETWORK_TO_TEST_def)
  moreover have "generate_obligations_quorum R st = Inr q"
    using idx(1) q(1) by (simp add: generate_obligations_quorum_def Let_def)
  ultimately show thesis using that q by blast
qed

lemma checkpoint_heights: "(h + REORG_SAFETY_BUFFER_IN_BLOCKS) mod CHECKPOINT_INTERVAL = 0 \<longleftrightarrow> unat h mod 4 = 1"
proof -
  have "unat (h + 11) mod 4 = (unat h + 11) mod 4"
    by (simp add: unat_word_ariths(1) mod_mod_cancel)
  then have "unat ((h + 11) mod 4) = (unat h + 11) mod 4" by (simp add: unat_mod)
  moreover have "(unat h + 11) mod 4 = 0 \<longleftrightarrow> unat h mod 4 = 1" by presburger
  ultimately show ?thesis
    by (simp add: word_unat_eq_iff REORG_SAFETY_BUFFER_IN_BLOCKS_def CHECKPOINT_INTERVAL_def CHECKPOINT_NUM_CHECKPOINTS_FOR_CHAIN_FINALITY_def)
qed

lemma generate_checkpointing_quorum_returns:
  assumes "fair R" and "umap_inv (st_service_nodes_infos st)" and "length (active_service_nodes_infos st) < 2 ^ 64"
  obtains "generate_checkpointing_quorum R st = Inr None" "unat (st_height st) mod 4 \<noteq> 1"
  | q where "generate_checkpointing_quorum R st = Inr (Some q)" "unat (st_height st) mod 4 = 1"
    "length (validators q) = min (length (active_service_nodes_infos st)) CHECKPOINT_QUORUM_SIZE" "workers q = []"
    "distinct (validators q)" "set (validators q) \<subseteq> fst ` set (active_service_nodes_infos st)"
proof (cases "(st_height st + REORG_SAFETY_BUFFER_IN_BLOCKS) mod CHECKPOINT_INTERVAL = 0")
  case True
  then have h: "unat (st_height st) mod 4 = 1" by (simp add: checkpoint_heights)
  let ?a = "active_service_nodes_infos st" and ?d = "decommissioned_service_nodes_infos st"
  obtain idx where idx: "generate_shuffled_service_node_index_list R (length ?a) (st_block_hash st) checkpointing 0 0 = Inr idx"
    "mset idx = mset [0..<length ?a]"
    by (rule generate_shuffled_returns [OF assms(1,3), of 0 0 "st_block_hash st" checkpointing]) auto
  let ?nv = "min (length idx) CHECKPOINT_QUORUM_SIZE"
  have len: "length idx = length ?a" using mset_eq_length [OF idx(2)] by simp
  have bound: "idx ! i < length ?a" if "i < ?nv" for i
    using mset_eq_setD [OF idx(2)] nth_mem [of i idx] that by auto
  have dist: "distinct (map fst (?a @ []))"
    using sort_and_filter_distinct [OF assms(2)] by (simp add: active_service_nodes_infos_def)
  obtain q where q: "fill_quorum ?a [] idx ?nv 0 = Inr q" "length (validators q) = ?nv" "length (workers q) = 0"
    "distinct (validators q @ workers q)" "set (validators q) \<subseteq> fst ` set ?a"
    by (rule fill_quorum_returns [OF _ bound _ dist, of ?nv 0]) (use idx(2) len in auto)
  have "fill_quorum ?a ?d idx ?nv 0 = Inr q" using q(1) by (simp add: fill_quorum_def)
  then show thesis
    using True h idx(1) q(2-5) len by (intro that(2) [of q]) (simp_all add: generate_checkpointing_quorum_def Let_def)
next
  case False
  then show thesis by (intro that(1)) (simp_all add: generate_checkpointing_quorum_def checkpoint_heights)
qed

lemma generate_quorums_returns:
  assumes "fair R" and "umap_inv (st_service_nodes_infos st)" and "length (st_service_nodes_infos st) < 2 ^ 64"
  shows "\<exists>qs. generate_quorums R hf st = Inr qs \<and> quorums_ok hf st qs"
proof -
  have "length (active_service_nodes_infos st @ decommissioned_service_nodes_infos st) \<le> length (st_service_nodes_infos st)"
    (is "length ?l \<le> _")
  proof -
    have "set ?l \<subseteq> set (st_service_nodes_infos st)"
      by (auto simp: active_service_nodes_infos_def decommissioned_service_nodes_infos_def sort_and_filter_set)
    then have "card (set ?l) \<le> length (st_service_nodes_infos st)"
      by (rule le_trans [OF card_mono [OF finite_set] card_length])
    then show ?thesis
      using distinct_card [OF distinct_map [THEN iffD1, THEN conjunct1, OF active_decommissioned_keys [OF assms(2)]]] by simp
  qed
  then have n: "length (active_service_nodes_infos st) + length (decommissioned_service_nodes_infos st) < 2 ^ 64"
    using assms(3) by simp
  obtain q where q: "generate_obligations_quorum R st = Inr q"
    "length (validators q) = min (length (active_service_nodes_infos st)) STATE_CHANGE_QUORUM_SIZE"
    "let rest = length (active_service_nodes_infos st) + length (decommissioned_service_nodes_infos st) - length (validators q)
     in length (workers q) = min rest (max 50 (rest div 100))"
    "distinct (validators q @ workers q)" "set (validators q) \<subseteq> fst ` set (active_service_nodes_infos st)"
    "set (workers q) \<subseteq> fst ` set (active_service_nodes_infos st @ decommissioned_service_nodes_infos st)"
    by (rule generate_obligations_quorum_returns [OF assms(1,2) n])
  have n': "length (active_service_nodes_infos st) < 2 ^ 64" using n by simp
  let ?ok = "\<lambda>c. (c \<noteq> None \<longleftrightarrow> unat (st_height st) mod 4 = 1) \<and> (\<forall>q. c = Some q \<longrightarrow>
    length (validators q) = min (length (active_service_nodes_infos st)) CHECKPOINT_QUORUM_SIZE \<and> workers q = [] \<and>
    distinct (validators q) \<and> set (validators q) \<subseteq> fst ` set (active_service_nodes_infos st))"
  obtain c where c: "generate_checkpointing_quorum R st = Inr c" "?ok c"
    by (cases rule: generate_checkpointing_quorum_returns [OF assms(1,2) n']) auto
  let ?qs = "\<lparr>qm_obligations = Some q, qm_checkpointing = (if hf < 17 then None else c)\<rparr>"
  have "generate_quorums R hf st = Inr ?qs"
    using q(1) c(1) by (simp add: generate_quorums_def Let_def max_quorum_type_for_hf_def)
  moreover have "quorums_ok hf st ?qs"
    unfolding quorums_ok_def using q(2-6) c(2) by (cases "hf < 17") (simp_all add: not_less)
  ultimately show ?thesis by blast
qed

section \<open>The nodes through a block\<close>

text \<open>The states that votes can refer to: their quorum is there and has at most ten validators.\<close>

definition history_ok :: "sn_state list \<Rightarrow> (hash \<times> sn_state) list \<Rightarrow> bool" where
  "history_ok state_history alt_states \<longleftrightarrow> (\<forall>s \<in> set state_history \<union> snd ` set alt_states.
    \<exists>q. qm_obligations (st_quorums s) = Some q \<and> length (validators q) \<le> STATE_CHANGE_QUORUM_SIZE)"

lemma verify_against_returns:
  assumes "qm_obligations qs = Some q" and "length (validators q) \<le> STATE_CHANGE_QUORUM_SIZE"
  shows "\<exists>ok tvc'. verify_against C sc h hf qs tvc = Inr (ok, tvc')"
  using verify_tx_state_change_iff [of q C sc h tvc hf] assms by (auto simp: verify_against_def vote_limits)

lemma try_alt_states_returns:
  assumes "\<forall>s \<in> snd ` set alts. \<exists>q. qm_obligations (st_quorums s) = Some q \<and> length (validators q) \<le> STATE_CHANGE_QUORUM_SIZE"
    and "\<forall>q. qs = Some q \<longrightarrow> qm_obligations q \<noteq> None"
  shows "\<exists>qs'. try_alt_states C sc h hf alts qs tvc = Inr qs' \<and> (\<forall>q. qs' = Some q \<longrightarrow> qm_obligations q \<noteq> None)"
  using assms
proof (induction alts arbitrary: qs tvc)
  case (Cons a alts)
  obtain k s where a: "a = (k, s)" by force
  then obtain q where q: "qm_obligations (st_quorums s) = Some q" "length (validators q) \<le> STATE_CHANGE_QUORUM_SIZE"
    using Cons.prems(1) by auto
  obtain ok tvc' where "verify_against C sc h hf (st_quorums s) tvc = Inr (ok, tvc')"
    using verify_against_returns [OF q] by blast
  then show ?case
    using Cons.IH [of qs tvc] Cons.IH [of "if ok then Some (st_quorums s) else None" tvc'] Cons.prems q(1) by (simp add: a)
qed simp

lemma process_state_change_tx_returns:
  assumes "history_ok hist alts"
  shows "\<not> isl (process_state_change_tx C hist alts nettype linked rescanning blk tx s)"
proof -
  obtain st proofs where s: "s = (st, proofs)" by force
  show ?thesis
  proof (cases "get_service_node_state_change_from_tx_extra (extra tx)")
    case None
    then show ?thesis by (auto simp: process_state_change_tx_def s)
  next
    case (Some sc)
    show ?thesis
    proof (cases "find (\<lambda>s. st_height s = sc_block_height sc) hist")
      case None
      then show ?thesis using Some by (auto simp: process_state_change_tx_def s)
    next
      case it: (Some it)
      then have "it \<in> set hist" by (auto simp: find_Some_iff)
      then obtain q where q: "qm_obligations (st_quorums it) = Some q" "length (validators q) \<le> STATE_CHANGE_QUORUM_SIZE"
        using assms by (auto simp: history_ok_def)
      obtain ok tvc where v: "verify_against C sc (get_block_height blk) (hdr_major_version blk) (st_quorums it) clean_tvc = Inr (ok, tvc)"
        using verify_against_returns [OF q] by blast
      obtain qs where "try_alt_states C sc (get_block_height blk) (hdr_major_version blk) alts None tvc = Inr qs"
        "\<forall>q. qs = Some q \<longrightarrow> qm_obligations q \<noteq> None"
        using try_alt_states_returns [of alts None C sc "get_block_height blk" "hdr_major_version blk" tvc] assms
        by (auto simp: history_ok_def)
      then show ?thesis
        using v Some it q(1)
        by (cases ok) (auto simp: process_state_change_tx_def s Let_def split: option.splits)
    qed
  qed
qed

lemma expire_nodes_ok:
  "nodes_ok st \<Longrightarrow> fold expire_node ks (b, st) = (b', st') \<Longrightarrow> nodes_ok st' \<and> st_height st' = st_height st"
proof (induction ks arbitrary: b st)
  case (Cons k ks)
  obtain c s where c: "expire_node k (b, st) = (c, s)" by force
  then have "nodes_ok s" "st_height s = st_height st"
    using Cons.prems(1) nodes_ok_erase by (auto simp: expire_node_def split: option.splits)
  then show ?case using Cons.IH [of s c] Cons.prems(2) c by simp
qed simp

lemma begin_block_ok:
  assumes "nodes_ok st" and "begin_block H blk st = (need, st')"
  shows "nodes_ok st'" and "st_height st' = st_height st + 1"
proof -
  let ?s = "st\<lparr>st_height := st_height st + 1, st_quorums := no_quorums, st_block_hash := H blk,
    st_key_image_blacklist := filter (\<lambda>entry. \<not> bl_unlock_height entry \<le> get_block_height blk) (st_key_image_blacklist st)\<rparr>"
  obtain b s where s: "fold expire_node (get_expired_nodes (get_block_height blk) ?s) (False, ?s) = (b, s)" by force
  have "nodes_ok ?s" using assms(1) by (simp add: nodes_ok_def)
  from expire_nodes_ok [OF this s] have "nodes_ok s" "st_height s = st_height st + 1" by simp_all
  moreover have "st' = advance_reward (get_block_height blk) (get_service_node_winner_from_tx_extra (extra (miner_tx blk))) s"
    using assms(2) s by (simp add: begin_block_def Let_def)
  moreover have "info_ok (info\<lparr>si_last_reward_block_height := h, si_last_reward_transaction_index := i\<rparr>) = info_ok info" for info h i
    by (simp add: info_ok_def)
  ultimately show "nodes_ok st'" "st_height st' = st_height st + 1"
    using nodes_ok_set nodes_ok_lookup by (auto simp: advance_reward_def split: option.splits)
qed

lemma process_contribution_tx_height:
  assumes "nodes_ok st"
  shows "st_height (snd (process_contribution_tx K blk tx index st)) = st_height st"
  by (cases rule: process_contribution_tx_cases [OF assms, of K blk tx index]) simp_all

lemma process_state_change_tx_height:
  assumes "process_state_change_tx C hist alts nettype linked rescanning blk tx (st, proofs) = Inr (done', st', proofs')"
  shows "st_height st' = st_height st"
  using assms
proof (cases rule: process_state_change_tx_cases)
  case (2 key info state)
  then show ?thesis by (cases state) (auto simp: apply_state_change_def Let_def split: if_splits)
qed simp

lemma process_tx_ok:
  assumes "history_ok hist alts" and "nodes_ok st"
  shows "\<exists>need' st' proofs'. process_tx C K hist alts nettype linked rescanning blk itx (need, st, proofs) = Inr (need', st', proofs') \<and>
    nodes_ok st' \<and> st_height st' = st_height st"
proof -
  obtain index tx where itx: "itx = (index, tx)" by force
  consider "is_transfer tx" | "\<not> is_transfer tx" "tx_type tx = state_change_tx" | "\<not> is_transfer tx" "tx_type tx = key_image_unlock_tx"
    | "\<not> is_transfer tx" "tx_type tx \<noteq> state_change_tx" "tx_type tx \<noteq> key_image_unlock_tx" by blast
  then show ?thesis
  proof cases
    case 1
    obtain ok s p where r: "process_registration_tx C K nettype linked rescanning blk tx index (st, proofs) = (ok, s, p)"
      by (metis prod_cases3)
    have "nodes_ok s" "st_height s = st_height st"
      using process_registration_tx_ok [OF assms(2) r] r
      by (auto simp: process_registration_tx_def Let_def split: option.splits prod.splits if_splits)
    then show ?thesis
      using 1 by (simp add: process_tx_def itx r case_prod_beta process_contribution_tx_ok process_contribution_tx_height)
  next
    case 2
    obtain d s p where r: "process_state_change_tx C hist alts nettype linked rescanning blk tx (st, proofs) = Inr (d, s, p)"
      using process_state_change_tx_returns [OF assms(1), of C nettype linked rescanning blk tx "(st, proofs)"]
      by (cases "process_state_change_tx C hist alts nettype linked rescanning blk tx (st, proofs)") auto
    then show ?thesis
      using 2 process_state_change_tx_ok [OF assms(2) r] process_state_change_tx_height [OF r] by (simp add: process_tx_def itx)
  next
    case 3
    have "st_height (snd (process_key_image_unlock_tx C nettype (get_block_height blk) tx st)) = st_height st"
      by (simp add: process_key_image_unlock_tx_def Let_def split: option.splits)
    then show ?thesis using 3 process_key_image_unlock_tx_ok [OF assms(2)] by (simp add: process_tx_def itx)
  next
    case 4
    then show ?thesis using assms(2) by (simp add: process_tx_def itx)
  qed
qed

text \<open>
  No active node is without a swarm. The operations on a node keep this, or report that the swarms have to be rebuilt.
\<close>

definition in_swarm :: "service_node_info \<Rightarrow> bool" where
  "in_swarm info \<longleftrightarrow> (is_active info \<longrightarrow> si_swarm_id info \<noteq> UNASSIGNED_SWARM_ID)"

definition all_in_swarms :: "sn_state \<Rightarrow> bool" where
  "all_in_swarms st \<longleftrightarrow> (\<forall>(_, info) \<in> set (st_service_nodes_infos st). in_swarm info)"

lemma all_in_swarms_set:
  "nodes_ok st \<Longrightarrow> all_in_swarms st \<Longrightarrow> in_swarm info \<Longrightarrow>
    all_in_swarms (st\<lparr>st_service_nodes_infos := umap_set k info (st_service_nodes_infos st)\<rparr>)"
  by (auto simp: all_in_swarms_def nodes_ok_def umap.entries_upd)

lemma all_in_swarms_subset:
  "all_in_swarms st \<Longrightarrow> set (st_service_nodes_infos st') \<subseteq> set (st_service_nodes_infos st) \<Longrightarrow> all_in_swarms st'"
  by (auto simp: all_in_swarms_def)

lemma all_in_swarms_lookup: "all_in_swarms st \<Longrightarrow> map_of (st_service_nodes_infos st) k = Some info \<Longrightarrow> in_swarm info"
  by (auto simp: all_in_swarms_def dest!: map_of_SomeD)

lemma in_swarm_same:
  "in_swarm info \<Longrightarrow> si_swarm_id info' = si_swarm_id info \<Longrightarrow> si_active_since_height info' = si_active_since_height info \<Longrightarrow>
    si_staking_requirement info' = si_staking_requirement info \<Longrightarrow> si_total_contributed info' = si_total_contributed info \<Longrightarrow>
    in_swarm info'"
  by (simp add: in_swarm_def is_active_def is_fully_funded_def is_decommissioned_def)

lemma set_map_erase: "set (map_erase k m) \<subseteq> set m"
  by (auto simp: map_erase_def)

lemma expire_nodes_swarms:
  "all_in_swarms st \<Longrightarrow> fold expire_node ks (b, st) = (b', st') \<Longrightarrow> all_in_swarms st'"
proof (induction ks arbitrary: b st)
  case (Cons k ks)
  obtain c s where c: "expire_node k (b, st) = (c, s)" by force
  then have "set (st_service_nodes_infos s) \<subseteq> set (st_service_nodes_infos st)"
    using set_map_erase by (fastforce simp: expire_node_def split: option.splits)
  then show ?case using Cons.IH [of s c] Cons.prems c all_in_swarms_subset by auto
qed simp

lemma begin_block_swarms:
  assumes "nodes_ok st" and "all_in_swarms st" and "begin_block H blk st = (need, st')"
  shows "all_in_swarms st'"
proof -
  let ?s = "st\<lparr>st_height := st_height st + 1, st_quorums := no_quorums, st_block_hash := H blk,
    st_key_image_blacklist := filter (\<lambda>entry. \<not> bl_unlock_height entry \<le> get_block_height blk) (st_key_image_blacklist st)\<rparr>"
  obtain b s where s: "fold expire_node (get_expired_nodes (get_block_height blk) ?s) (False, ?s) = (b, s)" by force
  have "nodes_ok ?s" "all_in_swarms ?s" using assms(1,2) by (simp_all add: nodes_ok_def all_in_swarms_def)
  then have ok: "nodes_ok s" "all_in_swarms s" using expire_nodes_ok [OF _ s] expire_nodes_swarms [OF _ s] by simp_all
  have "st' = advance_reward (get_block_height blk) (get_service_node_winner_from_tx_extra (extra (miner_tx blk))) s"
    using assms(3) s by (simp add: begin_block_def Let_def)
  then show ?thesis
    using ok all_in_swarms_set [OF ok in_swarm_same [OF all_in_swarms_lookup [OF ok(2)]]]
    by (auto simp: advance_reward_def split: option.splits)
qed

lemma process_registration_tx_swarms:
  assumes "nodes_ok st" and "all_in_swarms st"
    and "process_registration_tx C K nettype linked rescanning blk tx index (st, proofs) = (ok, st', proofs')"
  shows "all_in_swarms st'"
proof (cases "is_registration_tx C K nettype (hdr_major_version blk) tx (hdr_timestamp blk) (get_block_height blk) index")
  case None
  then show ?thesis using assms(2,3) by (simp add: process_registration_tx_def)
next
  case (Some r)
  obtain key info where r: "r = (key, info)" by force
  have "\<not> is_fully_funded info"
    using is_registration_tx_ok [OF Some [unfolded r]] by (auto simp: is_fully_funded_def info_ok_def)
  then have "in_swarm info" by (simp add: in_swarm_def is_active_def)
  then show ?thesis using assms(2,3) all_in_swarms_set [OF assms(1,2)] Some r
    by (auto simp: process_registration_tx_def Let_def split: if_splits)
qed

lemma process_contribution_tx_swarms:
  assumes "nodes_ok st" and "all_in_swarms st" and "process_contribution_tx K blk tx index st = (funded, st')"
  shows "funded \<or> all_in_swarms st'"
proof (cases rule: process_contribution_tx_cases [OF assms(1), of K blk tx index])
  case 1
  then show ?thesis using assms by simp
next
  case (2 key info info' b)
  then show ?thesis
    using all_in_swarms_set [OF assms(1,2), of info' key] assms(3) by (auto simp: in_swarm_def is_active_def)
qed

lemma process_state_change_tx_swarms:
  assumes "nodes_ok st" and "all_in_swarms st"
    and "process_state_change_tx C hist alts nettype linked rescanning blk tx (st, proofs) = Inr (changed, st', proofs')"
  shows "changed \<or> all_in_swarms st'"
  using assms(3)
proof (cases rule: process_state_change_tx_cases)
  case (2 key info state)
  then show ?thesis using assms(2) by (cases state) (auto simp: apply_state_change_def Let_def split: if_splits)
qed (simp add: assms(2))

lemma process_key_image_unlock_tx_swarms:
  assumes "nodes_ok st" and "all_in_swarms st"
  shows "all_in_swarms (snd (process_key_image_unlock_tx C nettype height tx st))"
  using assms all_in_swarms_set [OF assms in_swarm_same [OF all_in_swarms_lookup [OF assms(2)]]]
  by (auto simp: process_key_image_unlock_tx_def Let_def split: option.splits)

lemma process_tx_swarms:
  assumes "nodes_ok st" and "need \<or> all_in_swarms st"
    and "process_tx C K hist alts nettype linked rescanning blk itx (need, st, proofs) = Inr (need', st', proofs')"
  shows "need' \<or> all_in_swarms st'"
proof (cases need)
  case True
  then show ?thesis
    using assms(3) by (cases itx) (auto simp: process_tx_def Let_def bindE_eq_Inr split: if_splits prod.splits)
next
  case False
  then have sw: "all_in_swarms st" using assms(2) by simp
  obtain index tx where itx: "itx = (index, tx)" by force
  consider "is_transfer tx" | "\<not> is_transfer tx" "tx_type tx = state_change_tx" | "\<not> is_transfer tx" "tx_type tx = key_image_unlock_tx"
    | "\<not> is_transfer tx" "tx_type tx \<noteq> state_change_tx" "tx_type tx \<noteq> key_image_unlock_tx" by blast
  then show ?thesis
  proof cases
    case 1
    obtain ok s p where r: "process_registration_tx C K nettype linked rescanning blk tx index (st, proofs) = (ok, s, p)"
      by (metis prod_cases3)
    obtain f s' where c: "process_contribution_tx K blk tx index s = (f, s')" by force
    have "f \<or> all_in_swarms s'"
      by (rule process_contribution_tx_swarms [OF process_registration_tx_ok [OF assms(1) r] process_registration_tx_swarms [OF assms(1) sw r] c])
    then show ?thesis using 1 assms(3) by (auto simp: process_tx_def itx r c)
  next
    case 2
    then obtain changed where c: "process_state_change_tx C hist alts nettype linked rescanning blk tx (st, proofs) = Inr (changed, st', proofs')"
      "need' = (need \<or> changed)"
      using assms(3) by (auto simp: process_tx_def itx bindE_eq_Inr)
    then show ?thesis using process_state_change_tx_swarms [OF assms(1) sw c(1)] by blast
  next
    case 3
    then show ?thesis using assms(3) process_key_image_unlock_tx_swarms [OF assms(1) sw] by (auto simp: process_tx_def itx)
  next
    case 4
    then show ?thesis using assms(3) sw by (auto simp: process_tx_def itx)
  qed
qed

text \<open>The state after the transactions of a block, where the swarms and the quorums are made.\<close>

definition after_transactions ::
  "crypto_ops \<Rightarrow> 'r stake_ops \<Rightarrow> ('b block_scheme \<Rightarrow> hash) \<Rightarrow> network_type \<Rightarrow> bool \<Rightarrow> bool \<Rightarrow> sn_state list \<Rightarrow>
    (hash \<times> sn_state) list \<Rightarrow> 'b block_scheme \<Rightarrow> 'r transaction list \<Rightarrow> sn_state \<times> proofs_map \<Rightarrow> (bool \<times> sn_state \<times> proofs_map) outcome" where
  "after_transactions C K H nettype linked rescanning hist alts blk txs = (\<lambda>(st, proofs).
    let (need, st) = begin_block H blk st
    in foldE (process_tx C K hist alts nettype linked rescanning blk)
         (map (\<lambda>index. (word_of_nat index, txs ! index)) [0..<length txs]) (need, st, proofs))"

lemma update_from_block_split:
  "update_from_block R srt C K H nettype linked rescanning hist alts blk txs s =
    bindE (after_transactions C K H nettype linked rescanning hist alts blk txs s) (\<lambda>(need, st, proofs).
      bindE (if need then update_swarms R srt H blk st else Inr st) (\<lambda>st.
      bindE (generate_quorums R (hdr_major_version blk) st) (\<lambda>quorums. Inr (st\<lparr>st_quorums := quorums\<rparr>, proofs))))"
  by (simp add: update_from_block_def after_transactions_def case_prod_beta Let_def)

lemma after_transactions_ok:
  assumes "history_ok hist alts" and "nodes_ok st" and "all_in_swarms st"
  obtains need st' proofs' where "after_transactions C K H nettype linked rescanning hist alts blk txs (st, proofs) = Inr (need, st', proofs')"
    "nodes_ok st'" "st_height st' = st_height st + 1" "need \<or> all_in_swarms st'"
proof -
  obtain need s where s: "begin_block H blk st = (need, s)" by force
  let ?P = "\<lambda>(need, st', _). nodes_ok st' \<and> st_height st' = st_height st + 1 \<and> (need \<or> all_in_swarms st')"
  have "\<exists>t. foldE (process_tx C K hist alts nettype linked rescanning blk)
         (map (\<lambda>index. (word_of_nat index, txs ! index)) [0..<length txs]) (need, s, proofs) = Inr t \<and> ?P t"
  proof (rule foldE_total)
    show "?P (need, s, proofs)" using begin_block_ok [OF assms(2) s] begin_block_swarms [OF assms(2,3) s] by simp
    show "\<exists>s'. process_tx C K hist alts nettype linked rescanning blk x q = Inr s' \<and> ?P s'" if P: "?P q" for x q
    proof -
      obtain n s1 p where q: "q = (n, s1, p)" by (metis prod_cases3)
      obtain n' s2 p' where r: "process_tx C K hist alts nettype linked rescanning blk x (n, s1, p) = Inr (n', s2, p')"
        "nodes_ok s2" "st_height s2 = st_height s1"
        using process_tx_ok [OF assms(1), of s1 C K nettype linked rescanning blk x n p] P by (auto simp: q)
      have "n' \<or> all_in_swarms s2" using process_tx_swarms [OF _ _ r(1)] P by (simp add: q)
      then show ?thesis using r P by (simp add: q)
    qed
  qed
  then show thesis using that s by (auto simp: after_transactions_def)
qed

section \<open>The swarms of the nodes\<close>

lemma foldE_nested:
  "foldE (\<lambda>(i, ks). foldE (f i) ks) m s = foldE (\<lambda>(i, k). f i k) (concat (map (\<lambda>(i, ks). map (Pair i) ks) m)) s"
proof (induction m arbitrary: s)
  case (Cons e m)
  obtain i ks where e: "e = (i, ks)" by force
  have "foldE (f i) ks s = foldE (\<lambda>(i, k). f i k) (map (Pair i) ks) s"
    by (induction ks arbitrary: s) (simp_all add: bindE_def split: sum.splits)
  with Cons show ?case by (simp add: e foldE_append bindE_def split: sum.splits)
qed simp

text \<open>The pairs of swarm id and node of a swarm map, and their effect on the list.\<close>

definition placements :: "swarm_map \<Rightarrow> (u64 \<times> public_key) list" where
  "placements m = concat (map (\<lambda>(i, ks). map (Pair i) ks) m)"

definition placed :: "(u64 \<times> public_key) list \<Rightarrow> public_key \<Rightarrow> service_node_info \<Rightarrow> service_node_info" where
  "placed ps k info = (case map_of (map prod.swap ps) k of None \<Rightarrow> info | Some i \<Rightarrow> info\<lparr>si_swarm_id := i\<rparr>)"

lemma set_swarm_ids:
  assumes "umap_inv (st_service_nodes_infos st)" and "snd ` set ps \<subseteq> fst ` set (st_service_nodes_infos st)" and "distinct (map snd ps)"
  obtains infos where "foldE (\<lambda>(i, k). set_swarm_id i k) ps st = Inr (st\<lparr>st_service_nodes_infos := infos\<rparr>)"
    "umap_inv infos" "\<And>k. map_of infos k = map_option (placed ps k) (map_of (st_service_nodes_infos st) k)"
  using assms
proof (induction ps arbitrary: st thesis)
  case Nil
  show ?case
    by (rule Nil(1) [of "st_service_nodes_infos st"]) (use Nil in \<open>simp_all add: placed_def option.map_ident\<close>)
next
  case (Cons p ps)
  obtain i k where p: "p = (i, k)" by force
  have "k \<in> fst ` set (st_service_nodes_infos st)" using Cons.prems(3) by (simp add: p)
  then obtain info where info: "map_of (st_service_nodes_infos st) k = Some info"
    using map_of_eq_None_iff [of "st_service_nodes_infos st" k] by (cases "map_of (st_service_nodes_infos st) k") auto
  define infos0 where "infos0 = (if si_swarm_id info = i then st_service_nodes_infos st
    else umap_set k (info\<lparr>si_swarm_id := i\<rparr>) (st_service_nodes_infos st))"
  let ?st = "st\<lparr>st_service_nodes_infos := infos0\<rparr>"
  have step: "set_swarm_id i k st = Inr ?st" by (simp add: set_swarm_id_def info infos0_def)
  have inv: "umap_inv infos0" using Cons.prems(2) by (simp add: infos0_def umap_inv_set)
  have upd: "map_of infos0 = (map_of (st_service_nodes_infos st))(k \<mapsto> info\<lparr>si_swarm_id := i\<rparr>)"
    using info by (auto simp: infos0_def map_of_umap_set fun_upd_idem)
  have "dom (map_of infos0) = dom (map_of (st_service_nodes_infos st))" using info by (auto simp: upd)
  then have keys: "fst ` set infos0 = fst ` set (st_service_nodes_infos st)" by (simp add: dom_map_of_conv_image_fst)
  obtain infos where infos: "foldE (\<lambda>(i, k). set_swarm_id i k) ps ?st = Inr (st\<lparr>st_service_nodes_infos := infos\<rparr>)"
    "umap_inv infos" "\<And>k'. map_of infos k' = map_option (placed ps k') (map_of infos0 k')"
    using Cons.IH [of ?st] Cons.prems inv keys by (auto simp: p)
  have "map_of infos k' = map_option (placed (p # ps) k') (map_of (st_service_nodes_infos st) k')" for k'
  proof (cases "k' = k")
    case True
    moreover have "map_of (map prod.swap ps) k = None"
      using Cons.prems(4) by (auto simp: p map_of_eq_None_iff image_image)
    ultimately show ?thesis using info by (simp add: infos(3) upd p placed_def)
  qed (simp add: infos(3) upd p placed_def [abs_def])
  then show ?case using Cons.prems(1) infos(1,2) step by (simp add: p)
qed

lemma nodes_placements: "nodes m = mset (map snd (placements m))"
  by (induction m) (auto simp: nodes_def placements_def image_mset.compositionality comp_def)

lemma existing_swarms_step:
  assumes "omap_inv m"
  shows "nodes (omap_set i ((case map_of m i of None \<Rightarrow> [] | Some ks \<Rightarrow> ks) @ [k]) m) = add_mset k (nodes m)"
proof (cases "map_of m i")
  case None
  then show ?thesis
    using omap.mset_upd [OF assms] omap.del_fresh [OF assms None] by (simp add: nodes_def)
next
  case (Some ks)
  show ?thesis
    unfolding nodes_def omap.mset_upd [OF assms] omap.mset_split [OF assms Some] by (simp add: Some)
qed

lemma existing_swarms_nodes:
  "omap_inv (existing_swarms st) \<and> nodes (existing_swarms st) = mset (map fst (active_service_nodes_infos st))"
proof -
  define f where "f = (\<lambda>(key, info :: service_node_info) m.
      omap_set (si_swarm_id info) ((case map_of m (si_swarm_id info) of None \<Rightarrow> [] | Some snodes \<Rightarrow> snodes) @ [key]) m :: swarm_map)"
  have "omap_inv (fold f xs m) \<and> nodes (fold f xs m) = mset (map fst xs) + nodes m" if "omap_inv m" for xs m
    using that
  proof (induction xs arbitrary: m)
    case (Cons x xs)
    obtain key info where x: "x = (key, info)" by force
    have "omap_inv (f x m)" "nodes (f x m) = add_mset key (nodes m)"
      unfolding f_def x prod.case by (rule omap_inv_set [OF Cons.prems], rule existing_swarms_step [OF Cons.prems])
    then show ?case using Cons.IH [of "f x m"] by (simp add: x)
  qed simp
  from this [of "[]" "active_service_nodes_infos st"] show ?thesis by (simp add: existing_swarms_def f_def nodes_def)
qed

lemma update_swarms_ok:
  assumes "fair R" "sorts_by_size srt" and ok: "nodes_ok st"
    and round: "existing_swarms st = [] \<or> round_ok (existing_swarms st)"
  obtains infos where "update_swarms R srt H blk st = Inr (st\<lparr>st_service_nodes_infos := infos\<rparr>)"
    "nodes_ok (st\<lparr>st_service_nodes_infos := infos\<rparr>)"
    "\<And>k. map_option is_active (map_of infos k) = map_option is_active (map_of (st_service_nodes_infos st) k)"
    "\<And>k info. map_of infos k = Some info \<Longrightarrow> is_active info \<Longrightarrow> si_swarm_id info \<noteq> UNASSIGNED_SWARM_ID"
proof -
  let ?m = "existing_swarms st" and ?infos = "st_service_nodes_infos st"
  have inv: "umap_inv ?infos" using ok by (simp add: nodes_ok_def)
  obtain m' where m': "calc_swarm_changes R srt ?m (hash_seed (H blk)) = Inr m'" "nodes m' = nodes ?m"
    "UNASSIGNED_SWARM_ID \<notin> fst ` set m'"
  proof (cases "?m = []")
    case True
    then show thesis using that [of "[]"] by (simp add: calc_swarm_changes_def)
  next
    case False
    then show thesis using that calc_swarm_round [OF assms(1,2) _ False, of "hash_seed (H blk)"] round by blast
  qed
  define ps where "ps = placements m'"
  have mset: "mset (map snd ps) = mset (map fst (active_service_nodes_infos st))"
    using m'(2) existing_swarms_nodes by (simp add: ps_def nodes_placements)
  have active: "set (map snd ps) = {k. \<exists>info. map_of ?infos k = Some info \<and> is_active info}"
    unfolding mset_eq_setD [OF mset]
    using inv by (force simp: active_service_nodes_infos_def sort_and_filter_set)
  have dist: "distinct (map snd ps)"
    using mset_eq_imp_distinct_iff [OF mset] sort_and_filter_distinct [OF inv] by (simp add: active_service_nodes_infos_def)
  have sub: "snd ` set ps \<subseteq> fst ` set ?infos" using active by (force dest: map_of_SomeD)
  obtain infos where infos: "foldE (\<lambda>(i, k). set_swarm_id i k) ps st = Inr (st\<lparr>st_service_nodes_infos := infos\<rparr>)"
    "umap_inv infos" "\<And>k. map_of infos k = map_option (placed ps k) (map_of ?infos k)"
    using set_swarm_ids [OF inv sub dist] by blast
  have placed: "is_active (placed ps k info) = is_active info" "info_ok (placed ps k info) = info_ok info" for k info
    by (auto simp: placed_def is_active_def is_decommissioned_def is_fully_funded_def info_ok_def split: option.splits)
  show thesis
  proof
    show "update_swarms R srt H blk st = Inr (st\<lparr>st_service_nodes_infos := infos\<rparr>)"
      using m'(1) infos(1) by (simp add: update_swarms_def foldE_nested ps_def placements_def)
    show "nodes_ok (st\<lparr>st_service_nodes_infos := infos\<rparr>)"
    proof -
      have "info_ok info" if "(k, info) \<in> set infos" for k info
      proof -
        have "map_of infos k = Some info" using that infos(2) by simp
        then obtain info0 where "map_of ?infos k = Some info0" "info = placed ps k info0" using infos(3) [of k] by auto
        then show ?thesis using nodes_ok_lookup [OF ok] placed(2) by simp
      qed
      then show ?thesis using infos(2) by (auto simp: nodes_ok_def)
    qed
    show "map_option is_active (map_of infos k) = map_option is_active (map_of ?infos k)" for k
      by (simp add: infos(3) option.map_comp comp_def placed(1))
    show "si_swarm_id info \<noteq> UNASSIGNED_SWARM_ID" if i1: "map_of infos k = Some info" "is_active info" for k info
    proof -
      obtain info0 where i0: "map_of ?infos k = Some info0" "info = placed ps k info0" using i1(1) infos(3) [of k] by auto
      then have "k \<in> set (map snd ps)" using that(2) active placed(1) by auto
      then have "k \<in> fst ` set (map prod.swap ps)" by (simp add: image_image)
      then obtain i where i: "map_of (map prod.swap ps) k = Some i"
        using map_of_eq_None_iff [of "map prod.swap ps" k] by (cases "map_of (map prod.swap ps) k") auto
      then have "(i, k) \<in> set ps" by (auto dest: map_of_SomeD)
      then have "i \<in> fst ` set m'" by (force simp: ps_def placements_def)
      then have "i \<noteq> UNASSIGNED_SWARM_ID" using m'(3) by metis
      then show ?thesis using i0(2) i by (simp add: placed_def)
    qed
  qed
qed

section \<open>A block\<close>

lemma quorums_ok_state: "quorums_ok hf (st\<lparr>st_quorums := q\<rparr>) qs = quorums_ok hf st qs"
  by (simp add: quorums_ok_def active_service_nodes_infos_def decommissioned_service_nodes_infos_def)

lemma history_ok_Cons:
  "quorums_ok hf st (st_quorums st) \<Longrightarrow> history_ok hist alts \<Longrightarrow> history_ok (st # hist) alts"
  by (auto simp: history_ok_def quorums_ok_def)

lemma after_swarms_ok:
  assumes "fair R" "sorts_by_size srt" and ok: "nodes_ok st"
    and round: "need \<longrightarrow> existing_swarms st = [] \<or> round_ok (existing_swarms st)" and kept: "need \<or> all_in_swarms st"
  obtains infos where "(if need then update_swarms R srt H blk st else Inr st) = Inr (st\<lparr>st_service_nodes_infos := infos\<rparr>)"
    "nodes_ok (st\<lparr>st_service_nodes_infos := infos\<rparr>)"
    "\<And>k. map_option is_active (map_of infos k) = map_option is_active (map_of (st_service_nodes_infos st) k)"
    "all_in_swarms (st\<lparr>st_service_nodes_infos := infos\<rparr>)"
proof (cases need)
  case True
  then obtain infos where i: "update_swarms R srt H blk st = Inr (st\<lparr>st_service_nodes_infos := infos\<rparr>)"
    "nodes_ok (st\<lparr>st_service_nodes_infos := infos\<rparr>)"
    "\<And>k. map_option is_active (map_of infos k) = map_option is_active (map_of (st_service_nodes_infos st) k)"
    "\<And>k info. map_of infos k = Some info \<Longrightarrow> is_active info \<Longrightarrow> si_swarm_id info \<noteq> UNASSIGNED_SWARM_ID"
    using update_swarms_ok [OF assms(1,2) ok, of H blk] round by blast
  moreover have "umap_inv infos" using i(2) by (simp add: nodes_ok_def)
  ultimately have "all_in_swarms (st\<lparr>st_service_nodes_infos := infos\<rparr>)" by (auto simp: all_in_swarms_def in_swarm_def)
  then show thesis using that [of infos] i True by simp
next
  case False
  then show thesis using that [of "st_service_nodes_infos st"] ok kept by simp
qed

lemma same_active_length:
  assumes "umap_inv a" "umap_inv b" "\<And>k. map_option is_active (map_of a k) = map_option is_active (map_of b k)"
  shows "length a = length b"
proof -
  have "dom (map_of a) = dom (map_of b)"
    using assms(3) by (auto simp: dom_def) (metis not_None_eq option.map_disc_iff)+
  then have "fst ` set a = fst ` set b" by (simp add: dom_map_of_conv_image_fst)
  then show ?thesis using distinct_card [OF assms(1)] distinct_card [OF assms(2)] by simp
qed

text \<open>
  (C1) A block on a sound list. The transactions of the block never fault and keep the accounts of
  every node. Unless the swarms have to be rebuilt and cannot be (the bounds of a round of swarm changes), the
  update returns: the accounts hold, the obligations quorum has the validators the verification of
  votes expects (as many as there are active nodes, ten at most, distinct, active, and disjoint from
  the workers, who are active or decommissioned nodes and as many as the rules ask for), the checkpointing
  quorum exists exactly at every fourth height from hard fork 17 on and has at most twenty
  active nodes, the new state can join the history that later votes refer to, and every active node is in
  a swarm, as it was before the block: a node that becomes active makes the update rebuild the swarms.
\<close>

theorem update_from_block_correct:
  assumes "fair R" and "sorts_by_size srt" and "nodes_ok st" and "history_ok hist alts" and "all_in_swarms st"
  shows "\<exists>need st1 proofs'. after_transactions C K H nettype linked rescanning hist alts blk txs (st, proofs) = Inr (need, st1, proofs') \<and>
    nodes_ok st1 \<and>
    (length (st_service_nodes_infos st1) < 2 ^ 64 \<and> (need \<longrightarrow> existing_swarms st1 = [] \<or> round_ok (existing_swarms st1)) \<longrightarrow>
      (\<exists>st'. update_from_block R srt C K H nettype linked rescanning hist alts blk txs (st, proofs) = Inr (st', proofs') \<and>
        nodes_ok st' \<and> quorums_ok (hdr_major_version blk) st' (st_quorums st') \<and> history_ok (st' # hist) alts \<and>
        st_height st' = st_height st + 1 \<and> all_in_swarms st'))"
proof -
  obtain need st1 proofs' where t: "after_transactions C K H nettype linked rescanning hist alts blk txs (st, proofs) = Inr (need, st1, proofs')"
    "nodes_ok st1" "st_height st1 = st_height st + 1" "need \<or> all_in_swarms st1"
    by (rule after_transactions_ok [OF assms(4,3,5)])
  have "\<exists>st'. update_from_block R srt C K H nettype linked rescanning hist alts blk txs (st, proofs) = Inr (st', proofs') \<and>
        nodes_ok st' \<and> quorums_ok (hdr_major_version blk) st' (st_quorums st') \<and> history_ok (st' # hist) alts \<and>
        st_height st' = st_height st + 1 \<and> all_in_swarms st'"
    if n: "length (st_service_nodes_infos st1) < 2 ^ 64" and r: "need \<longrightarrow> existing_swarms st1 = [] \<or> round_ok (existing_swarms st1)"
  proof -
    obtain infos where i: "(if need then update_swarms R srt H blk st1 else Inr st1) = Inr (st1\<lparr>st_service_nodes_infos := infos\<rparr>)"
      "nodes_ok (st1\<lparr>st_service_nodes_infos := infos\<rparr>)"
      "\<And>k. map_option is_active (map_of infos k) = map_option is_active (map_of (st_service_nodes_infos st1) k)"
      "all_in_swarms (st1\<lparr>st_service_nodes_infos := infos\<rparr>)"
      using after_swarms_ok [OF assms(1,2) t(2) r t(4), of H blk] by blast
    let ?s = "st1\<lparr>st_service_nodes_infos := infos\<rparr>"
    have inv: "umap_inv infos" "umap_inv (st_service_nodes_infos st1)" using i(2) t(2) by (simp_all add: nodes_ok_def)
    have "length infos < 2 ^ 64" using same_active_length [OF inv i(3)] n by simp
    then obtain qs where q: "generate_quorums R (hdr_major_version blk) ?s = Inr qs" "quorums_ok (hdr_major_version blk) ?s qs"
      using generate_quorums_returns [OF assms(1), of ?s "hdr_major_version blk"] inv by auto
    let ?s' = "?s\<lparr>st_quorums := qs\<rparr>"
    have "update_from_block R srt C K H nettype linked rescanning hist alts blk txs (st, proofs) = Inr (?s', proofs')"
      using q(1) by (simp add: update_from_block_split t(1) i(1))
    moreover have "nodes_ok ?s'" using i(2) by (simp add: nodes_ok_def)
    moreover have "quorums_ok (hdr_major_version blk) ?s' (st_quorums ?s')" using q(2) by (simp add: quorums_ok_state)
    moreover from this have "history_ok (?s' # hist) alts" by (rule history_ok_Cons [OF _ assms(4)])
    moreover have "all_in_swarms ?s'" using i(4) by (simp add: all_in_swarms_def)
    ultimately show ?thesis using t(3) by (intro exI [of _ ?s']) simp
  qed
  with t show ?thesis by blast
qed

section \<open>The order of rewards\<close>

text \<open>The active nodes in the order in which they wait, and the queue of their keys.\<close>

definition waiting :: "(public_key \<times> service_node_info) list \<Rightarrow> (u64 \<times> u32 \<times> public_key) list" where
  "waiting infos = sort (map waiting_since (filter (\<lambda>e. is_active (snd e)) infos))"

definition reward_queue :: "sn_state \<Rightarrow> public_key list" where
  "reward_queue st = map (\<lambda>(_, _, key). key) (waiting (st_service_nodes_infos st))"

text \<open>Every active node has a key and a time of waiting below the starting value of the search.\<close>

definition payable :: "sn_state \<Rightarrow> bool" where
  "payable st \<longleftrightarrow> (\<forall>(key, info) \<in> set (st_service_nodes_infos st). is_active info \<longrightarrow>
    key \<noteq> null_pkey \<and> si_last_reward_block_height info < UINT64_MAX)"

lemma oldest_waiting_fold:
  assumes "fold check_waiting xs (w, i) = (w', i')"
  shows "w' \<le> w \<and> (\<forall>e \<in> set xs. is_active (snd e) \<longrightarrow> w' \<le> waiting_since e) \<and>
    ((w' = w \<and> i' = i) \<or> (\<exists>e \<in> set xs. is_active (snd e) \<and> w' = waiting_since e \<and> i' = Some (snd e)))"
  using assms
proof (induction xs arbitrary: w i)
  case (Cons e xs)
  show ?case
  proof (cases "is_active (snd e) \<and> waiting_since e < w")
    case True
    then have "fold check_waiting xs (waiting_since e, Some (snd e)) = (w', i')" using Cons.prems by simp
    from Cons.IH [OF this] True show ?thesis by auto
  next
    case False
    then have "check_waiting e (w, i) = (w, i)" by auto
    then have "fold check_waiting xs (w, i) = (w', i')" using Cons.prems by (simp del: check_waiting.simps)
    from Cons.IH [OF this] False show ?thesis by (auto simp: not_less)
  qed
qed simp

lemma get_block_winner_queue:
  assumes "umap_inv (st_service_nodes_infos st)" and "payable st"
  shows "if reward_queue st = [] then get_block_winner st = null_block_winner
    else \<exists>info. map_of (st_service_nodes_infos st) (hd (reward_queue st)) = Some info \<and> is_active info \<and>
      get_block_winner st = \<lparr>bw_key = hd (reward_queue st), bw_payouts = get_payouts info\<rparr>"
proof -
  let ?infos = "st_service_nodes_infos st" and ?w = "(UINT64_MAX, UINT32_MAX, null_pkey)"
  obtain w i where fold: "find_oldest_waiting ?infos = (w, i)" by (cases "find_oldest_waiting ?infos")
  note f = oldest_waiting_fold [OF fold [unfolded find_oldest_waiting_def]]
  have mem: "x \<in> set (waiting ?infos) \<longleftrightarrow> (\<exists>e \<in> set ?infos. is_active (snd e) \<and> x = waiting_since e)" for x
    by (auto simp: waiting_def)
  show ?thesis
  proof (cases "reward_queue st = []")
    case True
    moreover have "set (waiting ?infos) = waiting_since ` set (filter (\<lambda>e. is_active (snd e)) ?infos)" by (simp add: waiting_def)
    ultimately have "\<not> (\<exists>e \<in> set ?infos. is_active (snd e))" by (auto simp: reward_queue_def)
    then have "i = None" using f by auto
    then show ?thesis using True fold by (simp add: get_block_winner_def)
  next
    case False
    then have ne: "waiting ?infos \<noteq> []" by (simp add: reward_queue_def)
    let ?h = "hd (waiting ?infos)"
    have least: "?h \<le> x" if "x \<in> set (waiting ?infos)" for x
    proof -
      have "sorted (waiting ?infos)" by (simp add: waiting_def)
      then show ?thesis using ne that by (cases "waiting ?infos") auto
    qed
    obtain e where e: "e \<in> set ?infos" "is_active (snd e)" "?h = waiting_since e" using mem [of ?h] ne by auto
    have "waiting_since e < ?w" using assms(2) e by (auto simp: payable_def waiting_since_def less_prod_simp split: prod.splits)
    then have "w \<noteq> ?w" using f e by auto
    then obtain e' where e': "e' \<in> set ?infos" "is_active (snd e')" "w = waiting_since e'" "i = Some (snd e')"
      using f by auto
    have "w \<le> ?h" using f e by auto
    moreover have "?h \<le> w" using least [of w] mem [of w] e' by blast
    ultimately have "w = ?h" by simp
    then have "fst e' = hd (reward_queue st)"
      using e'(3) ne by (cases e'; cases ?h) (auto simp: reward_queue_def hd_map waiting_since_def)
    moreover have "map_of ?infos (fst e') = Some (snd e')" using assms(1) e'(1) by simp
    moreover have "fst e' \<noteq> null_pkey" using assms(2) e'(1,2) by (auto simp: payable_def)
    moreover have "snd (snd w) = fst e'" using e'(3) by (simp add: waiting_since_def split: prod.splits)
    ultimately show ?thesis using False fold e'(2,4) by (auto simp: get_block_winner_def)
  qed
qed

lemma advance_reward_queue:
  assumes "umap_inv (st_service_nodes_infos st)" and "reward_queue st \<noteq> []"
    and "\<forall>(key, info) \<in> set (st_service_nodes_infos st). si_last_reward_block_height info < h"
  shows "reward_queue (advance_reward h (hd (reward_queue st)) st) = rotate1 (reward_queue st)"
proof -
  let ?infos = "st_service_nodes_infos st" and ?active = "\<lambda>e :: public_key \<times> service_node_info. is_active (snd e)"
  obtain w ws where ws: "waiting ?infos = w # ws" using assms(2) by (cases "waiting ?infos") (auto simp: reward_queue_def)
  have "w \<in> set (waiting ?infos)" by (simp add: ws)
  then obtain k info where k: "(k, info) \<in> set ?infos" "is_active info" "w = waiting_since (k, info)"
    by (auto simp: waiting_def)
  have hd: "hd (reward_queue st) = k" by (simp add: reward_queue_def ws k waiting_since_def)
  have m: "map_of ?infos k = Some info" using assms(1) k(1) by simp
  define info' where "info' = info\<lparr>si_last_reward_block_height := h, si_last_reward_transaction_index := UINT32_MAX\<rparr>"
  define infos' where "infos' = umap_set k info' ?infos"
  have act: "is_active info'" using k(2) by (simp add: info'_def is_active_def is_decommissioned_def is_fully_funded_def)
  have split: "mset ?infos = add_mset (k, info) (mset (map_erase k ?infos))" by (rule umap.mset_split [OF assms(1) m])
  have upd: "mset infos' = add_mset (k, info') (mset (map_erase k ?infos))" unfolding infos'_def by (rule umap.mset_upd [OF assms(1)])
  have "mset (w # ws) = image_mset waiting_since (filter_mset ?active (mset ?infos))"
    unfolding ws [symmetric] by (simp add: waiting_def)
  then have rest: "mset ws = image_mset waiting_since (filter_mset ?active (mset (map_erase k ?infos)))"
    using k(2,3) by (simp add: split)
  have "mset (map waiting_since (filter ?active infos')) = image_mset waiting_since (filter_mset ?active (mset infos'))" by simp
  also have "\<dots> = add_mset (waiting_since (k, info')) (mset ws)" using act by (simp add: upd rest)
  finally have "mset (ws @ [waiting_since (k, info')]) = mset (map waiting_since (filter ?active infos'))" by simp
  moreover have "sorted (ws @ [waiting_since (k, info')])"
  proof -
    have "sorted (w # ws)" unfolding ws [symmetric] by (simp add: waiting_def)
    moreover have "x \<le> waiting_since (k, info')" if "x \<in> set ws" for x
    proof -
      have "x \<in> set (waiting ?infos)" using that by (simp add: ws)
      then obtain j i where "(j, i) \<in> set ?infos" "x = waiting_since (j, i)" by (auto simp: waiting_def)
      then show ?thesis using assms(3) by (auto simp: waiting_since_def info'_def less_eq_prod_simp)
    qed
    ultimately show ?thesis by (simp add: sorted_append)
  qed
  ultimately have "waiting infos' = ws @ [waiting_since (k, info')]" unfolding waiting_def by (rule properties_for_sort)
  then show ?thesis
    using k(3) by (simp add: hd advance_reward_def m reward_queue_def ws infos'_def info'_def waiting_since_def)
qed

text \<open>
  A stretch of the chain without transactions. The miner of each block follows the rule:
  \<open>mk\<close> makes the block on top of a state. The keys that are paid, block after block:
\<close>

fun paid_nodes ::
  "(sn_state \<Rightarrow> sn_state outcome) \<Rightarrow> nat \<Rightarrow> sn_state \<Rightarrow> public_key list outcome" where
  "paid_nodes update 0 st = Inr []"
| "paid_nodes update (Suc n) st =
    bindE (update st) (\<lambda>st'. bindE (paid_nodes update n st') (\<lambda>keys. Inr (bw_key (get_block_winner st) # keys)))"

text \<open>No node is about to expire and no reward lies in the future.\<close>

definition calm :: "sn_state \<Rightarrow> bool" where
  "calm st \<longleftrightarrow> nodes_ok st \<and> length (st_service_nodes_infos st) < 2 ^ 64 \<and>
    (\<forall>(key, info) \<in> set (st_service_nodes_infos st). length key = 32 \<and> key \<noteq> null_pkey \<and>
      si_requested_unlock_height info = KEY_IMAGE_AWAITING_UNLOCK_HEIGHT \<and> si_last_reward_block_height info \<le> st_height st)"

lemma calm_payable: "calm st \<Longrightarrow> st_height st < UINT64_MAX \<Longrightarrow> payable st"
  by (fastforce simp: calm_def payable_def)

lemma calm_begin_block:
  assumes "calm st" and "get_block_height blk = st_height st + 1"
  shows "begin_block H blk st = (False, advance_reward (st_height st + 1) (get_service_node_winner_from_tx_extra (extra (miner_tx blk)))
    (st\<lparr>st_height := st_height st + 1, st_quorums := no_quorums, st_block_hash := H blk,
       st_key_image_blacklist := filter (\<lambda>entry. \<not> bl_unlock_height entry \<le> get_block_height blk) (st_key_image_blacklist st)\<rparr>))"
proof -
  have "get_expired_nodes h (st\<lparr>st_height := a, st_quorums := b, st_block_hash := c, st_key_image_blacklist := d\<rparr>) = []" for h a b c d
    using assms(1) by (auto simp: get_expired_nodes_def calm_def filter_empty_conv)
  then show ?thesis by (simp add: begin_block_def Let_def assms(2))
qed

lemma reward_queue_infos: "st_service_nodes_infos s = st_service_nodes_infos t \<Longrightarrow> reward_queue s = reward_queue t"
  by (simp add: reward_queue_def)

lemma calm_advance:
  assumes calm: "calm st" and h: "st_height st < UINT64_MAX"
  defines "s \<equiv> advance_reward (st_height st + 1) (bw_key (get_block_winner st)) st"
  shows "reward_queue s = rotate1 (reward_queue st)" and "umap_inv (st_service_nodes_infos s)"
    and "length (st_service_nodes_infos s) < 2 ^ 64"
    and "\<forall>(key, info) \<in> set (st_service_nodes_infos s). length key = 32 \<and> key \<noteq> null_pkey \<and>
      si_requested_unlock_height info = KEY_IMAGE_AWAITING_UNLOCK_HEIGHT \<and> si_last_reward_block_height info \<le> st_height st + 1"
proof -
  have inv: "umap_inv (st_service_nodes_infos st)" using calm by (simp add: calm_def nodes_ok_def)
  have lt: "x < st_height st + 1" if "x \<le> st_height st" for x
    using that h by (simp add: word_less_nat_alt word_le_nat_alt unat_add_less)
  note w = get_block_winner_queue [OF inv calm_payable [OF calm h]]
  show "reward_queue s = rotate1 (reward_queue st)"
  proof (cases "reward_queue st = []")
    case True
    have "map_of (st_service_nodes_infos st) null_pkey = None"
      using calm by (auto simp: calm_def map_of_eq_None_iff)
    then show ?thesis using w True by (simp add: s_def advance_reward_def null_block_winner_def)
  next
    case False
    have "\<forall>(key, info) \<in> set (st_service_nodes_infos st). si_last_reward_block_height info < st_height st + 1"
      using calm lt by (auto simp: calm_def)
    then show ?thesis
      using w False advance_reward_queue [OF inv False, of "st_height st + 1"] by (auto simp: s_def)
  qed
  show "umap_inv (st_service_nodes_infos s)"
    using umap_inv_set [OF inv] inv by (auto simp: s_def advance_reward_def split: option.splits)
  show "length (st_service_nodes_infos s) < 2 ^ 64"
    using calm umap.length_upd [OF inv] map_of_eq_None_iff [of "st_service_nodes_infos st" "bw_key (get_block_winner st)"]
    by (auto simp: s_def advance_reward_def calm_def split: option.splits)
  have le: "si_last_reward_block_height info \<le> st_height st + 1" if "(key, info) \<in> set (st_service_nodes_infos st)" for key info
    using that calm less_imp_le [OF lt] by (auto simp: calm_def)
  show "\<forall>(key, info) \<in> set (st_service_nodes_infos s). length key = 32 \<and> key \<noteq> null_pkey \<and>
      si_requested_unlock_height info = KEY_IMAGE_AWAITING_UNLOCK_HEIGHT \<and> si_last_reward_block_height info \<le> st_height st + 1"
  proof (cases "map_of (st_service_nodes_infos st) (bw_key (get_block_winner st))")
    case None
    then show ?thesis using calm le by (auto simp: s_def advance_reward_def calm_def)
  next
    case (Some info)
    then have "(bw_key (get_block_winner st), info) \<in> set (st_service_nodes_infos st)" by (rule map_of_SomeD)
    then show ?thesis using calm le Some by (auto simp: s_def advance_reward_def calm_def umap.entries_upd [OF inv])
  qed
qed

lemma get_block_winner_infos:
  "st_service_nodes_infos s = st_service_nodes_infos t \<Longrightarrow> get_block_winner s = get_block_winner t"
  by (simp add: get_block_winner_def)

lemma empty_block:
  assumes "fair R" and calm: "calm st" and h: "st_height st < UINT64_MAX"
    and blk: "get_block_height blk = st_height st + 1"
      "get_service_node_winner_from_tx_extra (extra (miner_tx blk)) = bw_key (get_block_winner st)"
  obtains st' where "update_from_block R srt C K H nettype linked rescanning hist alts blk [] (st, proofs) = Inr (st', proofs)"
    "calm st'" "st_height st' = st_height st + 1" "reward_queue st' = rotate1 (reward_queue st)"
proof -
  let ?k = "bw_key (get_block_winner st)"
  obtain s where s: "begin_block H blk st = (False, s)" "st_service_nodes_infos s = st_service_nodes_infos (advance_reward (st_height st + 1) ?k st)"
    using calm_begin_block [OF calm blk(1), of H] by (auto simp: blk(2) advance_reward_def split: option.splits)
  note ok = begin_block_ok [OF _ s(1)] and adv = calm_advance [OF calm h, folded s(2)]
  have nodes: "nodes_ok s" "st_height s = st_height st + 1" using ok calm by (simp_all add: calm_def)
  obtain qs where q: "generate_quorums R (hdr_major_version blk) s = Inr qs"
    using generate_quorums_returns [OF assms(1) adv(2,3), of "hdr_major_version blk"] by blast
  show thesis
  proof
    show "update_from_block R srt C K H nettype linked rescanning hist alts blk [] (st, proofs) = Inr (s\<lparr>st_quorums := qs\<rparr>, proofs)"
      by (simp add: update_from_block_split after_transactions_def s(1) q)
    show "calm (s\<lparr>st_quorums := qs\<rparr>)" using nodes adv(3,4) by (simp add: calm_def nodes_ok_def)
    show "reward_queue (s\<lparr>st_quorums := qs\<rparr>) = rotate1 (reward_queue st)"
      using adv(1) s(2) by (simp add: reward_queue_def)
  qed (simp add: nodes(2))
qed

text \<open>
  (C9) Rewards go round. While the list is calm and every miner names the winner the list computes, any
  number of blocks is processed without a fault and the nodes paid are the active nodes in the order
  of the queue, over and over: each active node is paid exactly once in every stretch of as many
  blocks as there are active nodes.
\<close>

theorem rewards_in_turn:
  assumes "fair R" and "calm st" and "unat (st_height st) + n < 2 ^ 64" and "reward_queue st \<noteq> []"
    and mk: "\<And>s. calm s \<Longrightarrow> get_block_height (mk s) = st_height s + 1 \<and>
      get_service_node_winner_from_tx_extra (extra (miner_tx (mk s))) = bw_key (get_block_winner s)"
    and update: "update = (\<lambda>s. map_sum (\<lambda>e. e) fst
      (update_from_block R srt C K H nettype linked rescanning hist alts (mk s) [] (s, proofs)))"
  shows "paid_nodes update n st = Inr (map (\<lambda>i. reward_queue st ! (i mod length (reward_queue st))) [0..<n])"
  using assms(4,2,3)
proof (induction n arbitrary: st)
  case (Suc n)
  have h: "st_height st < UINT64_MAX" using Suc.prems(3) by (simp add: word_less_nat_alt)
  obtain st' where st': "update st = Inr st'" "calm st'" "st_height st' = st_height st + 1" "reward_queue st' = rotate1 (reward_queue st)"
  proof -
    from mk [OF Suc.prems(2)] have m: "get_block_height (mk st) = st_height st + 1"
      "get_service_node_winner_from_tx_extra (extra (miner_tx (mk st))) = bw_key (get_block_winner st)" by simp_all
    show thesis
      by (rule empty_block [OF assms(1) Suc.prems(2) h m, of srt C K H nettype linked rescanning hist alts proofs])
        (use that in \<open>simp add: update\<close>)
  qed
  have "unat (st_height st') + n < 2 ^ 64" using Suc.prems(3) st'(3) by (simp add: unat_add_less)
  with Suc.IH [of st'] st'(2,4) Suc.prems(1)
  have IH: "paid_nodes update n st' = Inr (map (\<lambda>i. rotate1 (reward_queue st) ! (i mod length (reward_queue st))) [0..<n])" by simp
  let ?q = "reward_queue st"
  have "bw_key (get_block_winner st) = ?q ! 0"
    using get_block_winner_queue [OF _ calm_payable [OF Suc.prems(2) h]] Suc.prems(1,2)
    by (auto simp: calm_def nodes_ok_def hd_conv_nth)
  moreover have "rotate1 ?q ! (i mod length ?q) = ?q ! (Suc i mod length ?q)" for i
    using Suc.prems(1) by (simp add: nth_rotate1 mod_Suc_eq)
  ultimately show ?case
    using IH st'(1) by (simp add: upt_conv_Cons map_Suc_upt [symmetric] comp_def del: upt_Suc)
qed simp

section \<open>Payouts\<close>

definition portions :: "payout_entry list \<Rightarrow> nat" where
  "portions ps = sum_list (map (\<lambda>p. unat (po_portions p)) ps)"

lemma sum_div_bounds:
  fixes f :: "'a \<Rightarrow> nat"
  assumes "0 < S"
  shows "S * (\<Sum>x\<leftarrow>xs. f x * r div S) \<le> (\<Sum>x\<leftarrow>xs. f x) * r"
    and "(\<Sum>x\<leftarrow>xs. f x) * r \<le> S * (\<Sum>x\<leftarrow>xs. f x * r div S) + length xs * (S - 1)"
proof (induction xs)
  case (Cons x xs)
  have m: "f x * r mod S < S" using assms by simp
  have d: "S * (f x * r div S) \<le> f x * r" "f x * r \<le> S * (f x * r div S) + (S - 1)"
    using mult_div_mod_eq [of S "f x * r"] m by linarith+
  {
    case 1
    show ?case using Cons.IH(1) d(1) by (simp only: list.map sum_list.Cons distrib_left distrib_right)
  next
    case 2
    have "length (x # xs) * (S - 1) = (S - 1) + length xs * (S - 1)" by simp
    then show ?case using Cons.IH(2) d(2) by (simp only: list.map sum_list.Cons distrib_left distrib_right)
  }
qed simp_all

lemma get_payouts_bounds:
  assumes ok: "info_ok info" and "is_fully_funded info"
  shows "portions (get_payouts info) \<le> unat STAKING_SHARE_PARTS"
    and "unat STAKING_SHARE_PARTS < portions (get_payouts info) + length (get_payouts info)"
proof -
  let ?cs = "si_contributors info" and ?S = "unat (si_staking_requirement info)" and ?op = "si_portions_for_operator info"
  define r where "r = STAKING_SHARE_PARTS - ?op"
  have r: "unat r + unat ?op = unat STAKING_SHARE_PARTS"
    using ok by (simp add: r_def info_ok_def unat_sub_le word_le_nat_alt)
  have S: "0 < ?S" using ok by (simp add: info_ok_def word_less_nat_alt)
  have full: "amounts ?cs = ?S"
    using ok amounts_le_reserves [of ?cs] assms(2) by (auto simp: info_ok_def is_fully_funded_def word_le_nat_alt)
  have a: "unat (ctr_amount c) \<le> ?S" if "c \<in> set ?cs" for c
    using contributor_le_sum(1) full that by (metis in_set_conv_nth)
  have q: "unat (mul_div (ctr_amount c) r (si_staking_requirement info)) = unat (ctr_amount c) * unat r div ?S"
    "unat (ctr_amount c) * unat r div ?S \<le> unat r" if "c \<in> set ?cs" for c
  proof -
    have "unat (ctr_amount c) * unat r \<le> ?S * unat r" using a [OF that] by simp
    then show b: "unat (ctr_amount c) * unat r div ?S \<le> unat r"
      using div_le_mono [of _ "?S * unat r" ?S] S by fastforce
    show "unat (mul_div (ctr_amount c) r (si_staking_requirement info)) = unat (ctr_amount c) * unat r div ?S"
      using mul_div_nat [of "si_staking_requirement info" "ctr_amount c" r] b unat64_bound [of r] S by (simp add: word_less_nat_alt)
  qed
  obtain c cs where cs: "?cs = c # cs" using ok by (cases ?cs) (auto simp: info_ok_def)
  have op: "ctr_address c = si_operator_address info" "\<forall>x \<in> set cs. ctr_address x \<noteq> si_operator_address info"
    using ok by (force simp: info_ok_def cs)+
  have hd: "unat (mul_div (ctr_amount c) r (si_staking_requirement info) + ?op) = unat (ctr_amount c) * unat r div ?S + unat ?op"
    using q [of c] r unat64_bound [of STAKING_SHARE_PARTS] by (simp add: cs unat_add_less)
  have "portions (get_payouts info) = (\<Sum>c\<leftarrow>?cs. unat (ctr_amount c) * unat r div ?S) + unat ?op"
    using op hd q by (simp add: portions_def get_payouts_def Let_def r_def [symmetric] cs comp_def cong: map_cong)
  moreover define Q where "Q = (\<Sum>c\<leftarrow>?cs. unat (ctr_amount c) * unat r div ?S)"
  have "?S * Q \<le> ?S * unat r" "?S * unat r \<le> ?S * Q + length ?cs * (?S - 1)"
    using sum_div_bounds [OF S, where f = "\<lambda>c. unat (ctr_amount c)" and r = "unat r" and xs = ?cs] full by (simp_all add: amounts_def Q_def)
  then have "Q \<le> unat r" "unat r < Q + length ?cs"
  proof -
    have "length ?cs * (?S - 1) < length ?cs * ?S" by (rule mult_strict_left_mono) (use S cs in auto)
    then have "length ?cs * (?S - 1) < ?S * length ?cs" by (simp only: mult.commute)
    then show "unat r < Q + length ?cs"
      using \<open>?S * unat r \<le> _\<close> S by (metis (no_types, lifting) add_less_cancel_left distrib_left le_less_trans nat_mult_less_cancel_disj)
  qed (use S in simp)
  ultimately show "portions (get_payouts info) \<le> unat STAKING_SHARE_PARTS"
    "unat STAKING_SHARE_PARTS < portions (get_payouts info) + length (get_payouts info)"
    using r by (simp_all add: Q_def [symmetric] get_payouts_def Let_def)
qed

text \<open>
  (C20) The winner of the next block is the active node that has waited longest, by the height and the
  transaction index of its last reward and then by its key; without an active node it is the null
  winner. Its payouts are one per contributor and add up to all portions but for the rounding, which
  loses less than one portion per contributor and never creates any.
\<close>

theorem get_block_winner_correct:
  assumes "nodes_ok st" and "payable st"
  shows "case waiting (st_service_nodes_infos st) of
      [] \<Rightarrow> get_block_winner st = null_block_winner
    | (_, _, key) # _ \<Rightarrow>
        \<exists>info. map_of (st_service_nodes_infos st) key = Some info \<and> is_active info \<and> bw_key (get_block_winner st) = key \<and>
          map po_address (bw_payouts (get_block_winner st)) = map ctr_address (si_contributors info) \<and>
          portions (bw_payouts (get_block_winner st)) \<le> unat STAKING_SHARE_PARTS \<and>
          unat STAKING_SHARE_PARTS < portions (bw_payouts (get_block_winner st)) + length (si_contributors info)"
proof (cases "waiting (st_service_nodes_infos st)")
  case Nil
  then show ?thesis
    using get_block_winner_queue [OF _ assms(2)] assms(1) by (simp add: reward_queue_def nodes_ok_def)
next
  case (Cons w ws)
  obtain h i key where w: "w = (h, i, key)" by (metis prod_cases3)
  have q: "reward_queue st \<noteq> []" "hd (reward_queue st) = key" by (simp_all add: reward_queue_def Cons w)
  obtain info where info: "map_of (st_service_nodes_infos st) key = Some info" "is_active info"
    "get_block_winner st = \<lparr>bw_key = key, bw_payouts = get_payouts info\<rparr>"
    using get_block_winner_queue [OF _ assms(2)] assms(1) q by (auto simp: nodes_ok_def)
  have "info_ok info" "is_fully_funded info" using nodes_ok_lookup [OF assms(1) info(1)] info(2) by (simp_all add: is_active_def)
  moreover have "length (get_payouts info) = length (si_contributors info)"
    "map po_address (get_payouts info) = map ctr_address (si_contributors info)"
    by (simp_all add: get_payouts_def Let_def comp_def)
  ultimately show ?thesis using get_payouts_bounds [of info] info by (simp add: Cons w)
qed

section \<open>An example\<close>

text \<open>Two nodes that have been staked by their operators alone, and by an operator and two others.\<close>

definition sample_node :: "u64 \<Rightarrow> (u8 \<times> u64) list \<Rightarrow> service_node_info" where
  "sample_node waiting_since_height shares = null_service_node_info\<lparr>si_registration_height := 10,
     si_last_reward_block_height := waiting_since_height, si_active_since_height := 20,
     si_contributors := map (\<lambda>(b, a). null_contributor\<lparr>ctr_address := (replicate 32 b, replicate 32 b), ctr_amount := a, ctr_reserved := a\<rparr>) shares,
     si_total_contributed := 100, si_total_reserved := 100, si_staking_requirement := 100,
     si_portions_for_operator := 1000, si_operator_address := (replicate 32 (fst (hd shares)), replicate 32 (fst (hd shares)))\<rparr>"

definition sample_state :: sn_state where
  "sample_state = \<lparr>st_block_hash = replicate 32 7, st_only_loaded_quorums = False,
     st_service_nodes_infos = [(replicate 32 1, sample_node 90 [(1, 100)]), (replicate 32 2, sample_node 80 [(2, 34), (3, 33), (4, 33)])],
     st_key_image_blacklist = [], st_height = 100,
     st_quorums = \<lparr>qm_obligations = Some \<lparr>validators = [replicate 32 1, replicate 32 2], workers = []\<rparr>, qm_checkpointing = None\<rparr>\<rparr>"

text \<open>The block of a miner that follows the rule.\<close>

definition next_block :: "sn_state \<Rightarrow> block" where
  "next_block st = \<lparr>hdr_major_version = 17, hdr_minor_version = 17, hdr_timestamp = 0, hdr_prev_id = st_block_hash st, hdr_nonce = 0,
     miner_tx = null_transaction_prefix\<lparr>vin := [txin_gen (st_height st + 1)],
       extra := add_service_node_winner_to_tx_extra [] (bw_key (get_block_winner st))\<rparr>, tx_hashes = []\<rparr>"

lemma sample_node_ok: "info_ok (sample_node h [(1, 100)])" "info_ok (sample_node h [(2, 34), (3, 33), (4, 33)])"
  by (simp_all add: sample_node_def info_ok_def null_service_node_info_def null_contributor_def amounts_def reserves_def
      locks_def STAKING_SHARE_PARTS_def)

lemma sample_active: "is_active (sample_node h [(1, 100)])" "is_active (sample_node h [(2, 34), (3, 33), (4, 33)])"
  by (simp_all add: sample_node_def is_active_def is_decommissioned_def is_fully_funded_def null_service_node_info_def)

lemma sample_state_ok:
  shows "nodes_ok sample_state" "history_ok [sample_state] []" "calm sample_state" "payable sample_state"
    "waiting (st_service_nodes_infos sample_state) = [(80, 0, replicate 32 2), (90, 0, replicate 32 1)]"
proof -
  have keys: "replicate 32 (1 :: u8) \<noteq> replicate 32 2" "replicate 32 (1 :: u8) \<noteq> null_pkey" "replicate 32 (2 :: u8) \<noteq> null_pkey"
    by (simp_all add: null_bytes_def)
  show ok: "nodes_ok sample_state" using keys(1) sample_node_ok by (simp add: nodes_ok_def sample_state_def)
  show "history_ok [sample_state] []" by (simp add: history_ok_def sample_state_def vote_limits)
  show calm: "calm sample_state"
    using ok keys(2,3) by (simp add: calm_def sample_state_def sample_node_def null_service_node_info_def KEY_IMAGE_AWAITING_UNLOCK_HEIGHT_def)
  show "payable sample_state" by (rule calm_payable [OF calm]) (simp add: sample_state_def)
  show "waiting (st_service_nodes_infos sample_state) = [(80, 0, replicate 32 2), (90, 0, replicate 32 1)]"
    by (simp add: waiting_def sample_state_def sample_active waiting_since_def less_eq_prod_simp) (simp add: sample_node_def null_service_node_info_def)
qed

lemma winner_key_length:
  assumes "calm s"
  shows "length (bw_key (get_block_winner s)) = 32"
proof -
  obtain w i where f: "find_oldest_waiting (st_service_nodes_infos s) = (w, i)" by (cases "find_oldest_waiting (st_service_nodes_infos s)")
  have "length (snd (snd w)) = 32"
    using oldest_waiting_fold [OF f [unfolded find_oldest_waiting_def]] assms
    by (auto simp: calm_def waiting_since_def null_bytes_def)
  then show ?thesis by (simp add: get_block_winner_def f Let_def null_block_winner_def null_bytes_def split: option.splits)
qed

lemma next_block_winner:
  assumes "calm s"
  shows "get_block_height (next_block s) = st_height s + 1 \<and>
    get_service_node_winner_from_tx_extra (extra (miner_tx (next_block s))) = bw_key (get_block_winner s)"
proof -
  let ?k = "bw_key (get_block_winner s)"
  have "well_formed ([] @ [extra_service_node_winner ?k])" using winner_key_length [OF assms] by (simp add: well_formed_def)
  from field_from_extra_bytes [OF this, of sel_winner ?k] show ?thesis
    by (simp add: next_block_def get_block_height_def null_transaction_prefix_def add_raw_fields fields_bytes_def
        get_service_node_winner_from_tx_extra_def)
qed

definition plain_stake :: "unit stake_ops" where
  "plain_stake = \<lparr>check_key = (\<lambda>_. True), generate_key_derivation = (\<lambda>pk sk. Some (pk @ sk)), derivation_to_scalar = (\<lambda>d i. d),
     derive_public_key = (\<lambda>d i pk. Some pk), check_ring_signature = (\<lambda>_ _ _ _. True), decodeRctSimple = (\<lambda>_ _ _. Some 100),
     decodeRct = (\<lambda>_ _ _. Some 100)\<rparr>"

definition sample_update :: "sn_state \<Rightarrow> sn_state outcome" where
  "sample_update = (\<lambda>s. map_sum (\<lambda>e. e) fst (update_from_block counter_rng (sort_key sw_size) plain_crypto plain_stake
     (\<lambda>_. replicate 32 9) MAINNET True False [sample_state] [] (next_block s) [] (s, [])))"

theorem rewards_in_turn_witness:
  "paid_nodes sample_update 5 sample_state =
    Inr (map (replicate 32) [2, 1, 2, 1, 2])"
proof -
  have q: "reward_queue sample_state = map (replicate 32) [2, 1]" by (simp only: reward_queue_def sample_state_ok) simp
  have "paid_nodes sample_update 5 sample_state = Inr (map (\<lambda>i. reward_queue sample_state ! (i mod length (reward_queue sample_state))) [0..<5])"
    by (rule rewards_in_turn [OF fair_counter_rng sample_state_ok(3) _ _ next_block_winner sample_update_def])
      (simp_all only: q, simp_all add: sample_state_def)
  also have "map (\<lambda>i. reward_queue sample_state ! (i mod length (reward_queue sample_state))) [0..<5] = map (replicate 32) [2, 1, 2, 1, 2]"
  proof -
    have "[0..<5] = [0, 1, 2, 3, 4 :: nat]" by (simp add: upt_rec)
    moreover have "length (map (replicate 32) [2 :: u8, 1]) = 2" by simp
    ultimately show ?thesis unfolding q by (simp only:) simp
  qed
  finally show ?thesis .
qed

theorem get_block_winner_correct_witness:
  "bw_key (get_block_winner sample_state) = replicate 32 2 \<and>
    unat STAKING_SHARE_PARTS < portions (bw_payouts (get_block_winner sample_state)) + 3"
proof -
  have "st_service_nodes_infos sample_state = [(replicate 32 1, sample_node 90 [(1, 100)]), (replicate 32 2, sample_node 80 [(2, 34), (3, 33), (4, 33)])]"
    by (simp add: sample_state_def)
  then have "map_of (st_service_nodes_infos sample_state) (replicate 32 2) = Some (sample_node 80 [(2, 34), (3, 33), (4, 33)])" by simp
  moreover have "length (si_contributors (sample_node 80 [(2, 34), (3, 33), (4, 33)])) = 3" by (simp add: sample_node_def)
  ultimately show ?thesis
    using get_block_winner_correct [OF sample_state_ok(1,4)] by (simp only: sample_state_ok(5) list.case prod.case option.inject) auto
qed

theorem update_from_block_correct_witness:
  "nodes_ok sample_state \<and> history_ok [sample_state] [] \<and>
    (\<exists>st'. update_from_block counter_rng (sort_key sw_size) plain_crypto plain_stake (\<lambda>_. replicate 32 9) MAINNET True False
       [sample_state] [] (next_block sample_state) [] (sample_state, []) = Inr (st', []) \<and>
     nodes_ok st' \<and> quorums_ok 17 st' (st_quorums st') \<and> qm_checkpointing (st_quorums st') \<noteq> None \<and> all_in_swarms st')"
proof -
  let ?b = "next_block sample_state" and ?H = "\<lambda>_. replicate 32 9"
  have h: "get_block_height ?b = st_height sample_state + 1" using next_block_winner [OF sample_state_ok(3)] by simp
  obtain s where s: "begin_block ?H ?b sample_state = (False, s)"
    "st_service_nodes_infos s = st_service_nodes_infos (advance_reward (st_height sample_state + 1) (bw_key (get_block_winner sample_state)) sample_state)"
    using calm_begin_block [OF sample_state_ok(3) h, of ?H] next_block_winner [OF sample_state_ok(3)]
    by (auto simp: advance_reward_def split: option.splits)
  have n: "length (st_service_nodes_infos s) < 2 ^ 64"
    using calm_advance(3) [OF sample_state_ok(3)] by (simp add: s(2)) (simp add: sample_state_def)
  have t: "after_transactions plain_crypto plain_stake ?H MAINNET True False [sample_state] [] ?b [] (sample_state, []) = Inr (False, s, [])"
    by (simp add: after_transactions_def s(1))
  have sw: "all_in_swarms sample_state"
    by (simp add: all_in_swarms_def sample_state_def in_swarm_def sample_node_def null_service_node_info_def UNASSIGNED_SWARM_ID_def)
  have v: "hdr_major_version ?b = 17" by (simp add: next_block_def)
  obtain st' where st': "update_from_block counter_rng (sort_key sw_size) plain_crypto plain_stake ?H MAINNET True False [sample_state] [] ?b []
      (sample_state, []) = Inr (st', [])" "nodes_ok st'" "quorums_ok 17 st' (st_quorums st')" "st_height st' = st_height sample_state + 1"
    "all_in_swarms st'"
    using update_from_block_correct [OF fair_counter_rng sorts_by_size_sort_key sample_state_ok(1,2) sw, of plain_crypto plain_stake ?H
        MAINNET True False ?b "[]" "[]"] n by (auto simp: t v)
  have "unat (st_height st') mod 4 = 1" by (simp add: st'(4)) (simp add: sample_state_def)
  then have "qm_checkpointing (st_quorums st') \<noteq> None" using st'(3) by (simp add: quorums_ok_def)
  then show ?thesis using st' sample_state_ok(1,2) by blast
qed

end
