(* ===== verification/Reward.thy ===== *)
theory Reward
  imports Sn_Update
begin

text \<open>
  The reward of a block, \<open>cryptonote_basic/cryptonote_basic_impl.cpp\<close> and
  \<open>cryptonote_core/cryptonote_tx_utils.cpp\<close>, the coinbase transaction that a miner builds, and the
  checks a node makes of it, \<open>service_node_list::validate_miner_tx\<close> and
  \<open>Blockchain::validate_miner_transaction\<close>. The keys generated from a seed and the three wallet
  addresses of the configuration are parameters.
\<close>

section \<open>Constants\<close>

definition MONEY_SUPPLY :: u64 where "MONEY_SUPPLY = 50000000000000000"
definition EMISSION_SPEED_FACTOR_PER_MINUTE :: nat where "EMISSION_SPEED_FACTOR_PER_MINUTE = 22"
definition FINAL_SUBSIDY_PER_MINUTE :: u64 where "FINAL_SUBSIDY_PER_MINUTE = 300000000"
definition CRYPTONOTE_BLOCK_GRANTED_FULL_REWARD_ZONE_V5 :: u64 where "CRYPTONOTE_BLOCK_GRANTED_FULL_REWARD_ZONE_V5 = 300000"
definition PREMINE :: u64 where "PREMINE = 7500000000000000"
definition PREMINE_BURN :: u64 where "PREMINE_BURN = 5100000000000000"
definition MINIMUM_BLOCK_SIZE_LIMIT :: u64 where "MINIMUM_BLOCK_SIZE_LIMIT = 1048576"
definition ARQMA_BLOCK_UNLOCK_CONFIRMATIONS :: u64 where "ARQMA_BLOCK_UNLOCK_CONFIRMATIONS = 18"
definition HF16_BL_REWARD :: u64 where "HF16_BL_REWARD = 20 * ARQMA"
definition governance_gr :: u64 where "governance_gr = 15"
definition governance_sn :: u64 where "governance_sn = 2"

lemmas reward_constants = MONEY_SUPPLY_def EMISSION_SPEED_FACTOR_PER_MINUTE_def FINAL_SUBSIDY_PER_MINUTE_def
  CRYPTONOTE_BLOCK_GRANTED_FULL_REWARD_ZONE_V5_def ARQMA_def PREMINE_def PREMINE_BURN_def MINIMUM_BLOCK_SIZE_LIMIT_def
  ARQMA_BLOCK_UNLOCK_CONFIRMATIONS_def HF16_BL_REWARD_def governance_gr_def governance_sn_def

section \<open>The reward of a block\<close>

definition get_min_block_weight :: "u8 \<Rightarrow> u64" where
  "get_min_block_weight hard_fork_version =
    (if hard_fork_version < 13 then CRYPTONOTE_BLOCK_GRANTED_FULL_REWARD_ZONE_V5 else MINIMUM_BLOCK_SIZE_LIMIT)"

text \<open>
  \<open>target_minutes\<close> is 4. The result is \<open>None\<close> where the function returns false; the divisions
  fault on a divisor that is zero after its conversion to 32 bits.
\<close>

definition get_base_block_reward :: "u64 \<Rightarrow> u64 \<Rightarrow> u64 \<Rightarrow> u8 \<Rightarrow> u64 \<Rightarrow> u64 option outcome" where
  "get_base_block_reward median_weight current_block_weight already_generated_coins hard_fork_version height =
    (let target_minutes = 240 div 60;
         emission_speed_factor = EMISSION_SPEED_FACTOR_PER_MINUTE - (target_minutes - 3)
     in if height = 1 then Inr (Some PREMINE)
        else
          let already_generated_coins =
                (if 12 < hard_fork_version then already_generated_coins - PREMINE_BURN else already_generated_coins)
          in if 15 < hard_fork_version then Inr (Some HF16_BL_REWARD)
             else
               let base_reward = drop_bit emission_speed_factor (MONEY_SUPPLY - already_generated_coins);
                   base_reward = (if base_reward < FINAL_SUBSIDY_PER_MINUTE * of_nat target_minutes
                     then FINAL_SUBSIDY_PER_MINUTE * of_nat target_minutes else base_reward);
                   full_reward_zone = get_min_block_weight hard_fork_version;
                   median_weight = (if median_weight < full_reward_zone then full_reward_zone else median_weight)
               in if current_block_weight \<le> median_weight then Inr (Some base_reward)
                  else if 2 * median_weight < current_block_weight then Inr None
                  else
                    let multiplicand = (2 * median_weight - current_block_weight) * current_block_weight;
                        (product_lo, product_hi) = mul128 base_reward multiplicand
                    in bindE (div128_32 product_hi product_lo (ucast median_weight)) (\<lambda>(_, reward_hi, reward_lo).
                       bindE (div128_32 reward_hi reward_lo (ucast median_weight)) (\<lambda>(_, reward_hi, reward_lo).
                       Inr (Some reward_lo))))"

definition dev_reward_formula :: "u64 \<Rightarrow> u8 \<Rightarrow> u64" where
  "dev_reward_formula base_reward hard_fork_version =
    (if 16 \<le> hard_fork_version then base_reward * governance_gr div 100 else 0)"

definition service_node_reward_formula :: "u64 \<Rightarrow> u8 \<Rightarrow> u64" where
  "service_node_reward_formula base_reward hard_fork_version =
    (if 16 \<le> hard_fork_version then base_reward div governance_sn else 0)"

definition get_portion_of_reward :: "u64 \<Rightarrow> u64 \<Rightarrow> u64" where
  "get_portion_of_reward portion total_service_node_reward =
    (let (lo, hi) = mul128 total_service_node_reward portion;
         (_, rewardhi, rewardlo) = div128_64 hi lo STAKING_SHARE_PARTS
     in rewardlo)"

definition calculate_sum_of_portions :: "payout_entry list \<Rightarrow> u64 \<Rightarrow> u64" where
  "calculate_sum_of_portions payouts total_service_node_reward =
    fold (\<lambda>p reward. reward + get_portion_of_reward (po_portions p) total_service_node_reward) payouts 0"

record block_reward_parts =
  rp_service_node_total :: u64
  rp_service_node_paid :: u64
  rp_gov :: u64
  rp_dev :: u64
  rp_net :: u64
  rp_base_miner :: u64
  rp_base_miner_fee :: u64
  rp_adjusted_base_reward :: u64
  rp_original_base_reward :: u64

definition null_reward_parts :: block_reward_parts where
  "null_reward_parts = \<lparr>rp_service_node_total = 0, rp_service_node_paid = 0, rp_gov = 0, rp_dev = 0, rp_net = 0,
    rp_base_miner = 0, rp_base_miner_fee = 0, rp_adjusted_base_reward = 0, rp_original_base_reward = 0\<rparr>"

definition miner_reward :: "block_reward_parts \<Rightarrow> u64" where
  "miner_reward parts = rp_base_miner parts + rp_base_miner_fee parts"

text \<open>The context of \<open>get_arqma_block_reward\<close>: the height, the fee and the payouts.\<close>

record arqma_block_reward_context =
  rx_height :: u64
  rx_fee :: u64
  rx_service_node_payouts :: "payout_entry list"

definition get_arqma_block_reward ::
  "u64 \<Rightarrow> u64 \<Rightarrow> u64 \<Rightarrow> u8 \<Rightarrow> arqma_block_reward_context \<Rightarrow> block_reward_parts option outcome" where
  "get_arqma_block_reward median_weight current_block_weight already_generated_coins hard_fork_version context =
    bindE (get_base_block_reward median_weight current_block_weight already_generated_coins hard_fork_version (rx_height context))
      (\<lambda>r. case r of
         None \<Rightarrow> Inr None
       | Some base_reward \<Rightarrow>
           if base_reward = 0 then Inr None
           else if already_generated_coins = 0 then
             Inr (Some (null_reward_parts\<lparr>rp_original_base_reward := base_reward, rp_adjusted_base_reward := base_reward,
               rp_base_miner := base_reward\<rparr>))
           else
             let total = service_node_reward_formula base_reward hard_fork_version;
                 paid = calculate_sum_of_portions (rx_service_node_payouts context) total;
                 fund = dev_reward_formula base_reward hard_fork_version;
                 result = \<lparr>rp_service_node_total = total, rp_service_node_paid = paid, rp_gov = fund, rp_dev = fund, rp_net = fund,
                   rp_base_miner = base_reward - paid, rp_base_miner_fee = rx_fee context,
                   rp_adjusted_base_reward = base_reward + (fund + fund + fund), rp_original_base_reward = base_reward\<rparr>
             in if rx_height context = 1731482 then
                  Inr (Some (result\<lparr>rp_gov := rp_gov result + 2000000 * ARQMA, rp_dev := rp_dev result + 500000 * ARQMA,
                    rp_net := rp_net result + 500000 * ARQMA\<rparr>))
                else Inr (Some result))"

section \<open>The coinbase transaction\<close>

text \<open>
  \<open>generate_keys\<close> recovers a pair of keys from a secret. The three wallets are the addresses that
  the strings of the configuration decode to.
\<close>

record coinbase_ops =
  generate_keys :: "secret_key \<Rightarrow> public_key \<times> secret_key"
  gov_wallet_address :: "network_type \<Rightarrow> u8 \<Rightarrow> account_public_address"
  dev_wallet_address :: "network_type \<Rightarrow> u8 \<Rightarrow> account_public_address"
  net_wallet_address :: "network_type \<Rightarrow> u8 \<Rightarrow> account_public_address"

definition get_deterministic_keypair_from_height :: "coinbase_ops \<Rightarrow> u64 \<Rightarrow> public_key \<times> secret_key" where
  "get_deterministic_keypair_from_height W height =
    generate_keys W (map (\<lambda>i. ucast (drop_bit (i * 8) (height AND push_bit (i * 8) 0xFF))) [0..<8] @ replicate 24 0)"

definition get_deterministic_output_key ::
  "'r stake_ops \<Rightarrow> account_public_address \<Rightarrow> public_key \<times> secret_key \<Rightarrow> nat \<Rightarrow> public_key option" where
  "get_deterministic_output_key K address tx_key output_index =
    (case generate_key_derivation K (snd address) (snd tx_key) of
       None \<Rightarrow> None
     | Some derivation \<Rightarrow> derive_public_key K derivation output_index (fst address))"

definition validate_reward_key ::
  "'r stake_ops \<Rightarrow> coinbase_ops \<Rightarrow> u64 \<Rightarrow> account_public_address \<Rightarrow> nat \<Rightarrow> public_key \<Rightarrow> bool" where
  "validate_reward_key K W height address output_index output_key =
    (case get_deterministic_output_key K address (get_deterministic_keypair_from_height W height) output_index of
       None \<Rightarrow> False
     | Some correct_key \<Rightarrow> correct_key = output_key)"

definition validate_gov_reward_key ::
  "'r stake_ops \<Rightarrow> coinbase_ops \<Rightarrow> u64 \<Rightarrow> u8 \<Rightarrow> nat \<Rightarrow> public_key \<Rightarrow> network_type \<Rightarrow> bool" where
  "validate_gov_reward_key K W height hard_fork_version output_index output_key nettype =
    validate_reward_key K W height (gov_wallet_address W nettype hard_fork_version) output_index output_key"

definition validate_dev_reward_key ::
  "'r stake_ops \<Rightarrow> coinbase_ops \<Rightarrow> u64 \<Rightarrow> u8 \<Rightarrow> nat \<Rightarrow> public_key \<Rightarrow> network_type \<Rightarrow> bool" where
  "validate_dev_reward_key K W height hard_fork_version output_index output_key nettype =
    validate_reward_key K W height (dev_wallet_address W nettype hard_fork_version) output_index output_key"

definition validate_net_reward_key ::
  "'r stake_ops \<Rightarrow> coinbase_ops \<Rightarrow> u64 \<Rightarrow> u8 \<Rightarrow> nat \<Rightarrow> public_key \<Rightarrow> network_type \<Rightarrow> bool" where
  "validate_net_reward_key K W height hard_fork_version output_index output_key nettype =
    validate_reward_key K W height (net_wallet_address W nettype hard_fork_version) output_index output_key"

text \<open>
  What \<open>construct_miner_tx\<close> does with the extra data. \<open>txkey\<close> is the random key pair of the
  transaction.
\<close>

definition coinbase_extra ::
  "public_key \<Rightarrow> bytes \<Rightarrow> public_key \<Rightarrow> public_key \<Rightarrow> tx_extra_pulse_round option \<Rightarrow> bytes option" where
  "coinbase_extra txkey_pub nonce_bytes gov_key_pub service_node_key pulse_round = do {
     tx_extra \<leftarrow> (let e = add_tx_pub_key_to_extra [] txkey_pub
       in if nonce_bytes \<noteq> [] then add_extra_nonce_to_tx_extra e nonce_bytes else Some e);
     tx_extra \<leftarrow> sort_tx_extra tx_extra False;
     let tx_extra = add_service_node_winner_to_tx_extra (add_tx_pub_key_to_extra tx_extra gov_key_pub) service_node_key;
     case pulse_round of None \<Rightarrow> Some tx_extra | Some round \<Rightarrow> add_pulse_round_to_tx_extra tx_extra round
   }"

definition pay_to :: "u64 \<Rightarrow> public_key \<Rightarrow> tx_out" where
  "pay_to amount key = \<lparr>out_amount = amount, out_target = target_key key\<rparr>"

text \<open>The loop over the payouts of the winner.\<close>

definition service_node_outputs ::
  "'r stake_ops \<Rightarrow> public_key \<times> secret_key \<Rightarrow> u64 \<Rightarrow> payout_entry list \<Rightarrow> tx_out list option" where
  "service_node_outputs K gov_key service_node_total payouts =
    those (map (\<lambda>i. map_option (pay_to (get_portion_of_reward (po_portions (payouts ! i)) service_node_total))
      (get_deterministic_output_key K (po_address (payouts ! i)) gov_key (1 + i))) [0..<length payouts])"

text \<open>The three funds, at the index the output is going to have.\<close>

definition fund_outputs ::
  "'r stake_ops \<Rightarrow> coinbase_ops \<Rightarrow> network_type \<Rightarrow> u8 \<Rightarrow> public_key \<times> secret_key \<Rightarrow> block_reward_parts \<Rightarrow> nat \<Rightarrow> tx_out list option" where
  "fund_outputs K W nettype hard_fork_version gov_key parts n = do {
     gov \<leftarrow> get_deterministic_output_key K (gov_wallet_address W nettype hard_fork_version) gov_key n;
     dev \<leftarrow> get_deterministic_output_key K (dev_wallet_address W nettype hard_fork_version) gov_key (n + 1);
     net \<leftarrow> get_deterministic_output_key K (net_wallet_address W nettype hard_fork_version) gov_key (n + 2);
     Some [pay_to (rp_gov parts) gov, pay_to (rp_dev parts) dev, pay_to (rp_net parts) net]
   }"

definition out_amounts :: "tx_out list \<Rightarrow> u64" where
  "out_amounts outs = fold (\<lambda>out amount. amount + out_amount out) outs 0"

text \<open>\<open>unlock_blocks\<close> is the random delay of the miner's output.\<close>

definition construct_miner_tx ::
  "'r stake_ops \<Rightarrow> coinbase_ops \<Rightarrow> network_type \<Rightarrow> u64 \<Rightarrow> u64 \<Rightarrow> u64 \<Rightarrow> u64 \<Rightarrow> u64 \<Rightarrow> account_public_address \<Rightarrow> bytes \<Rightarrow> u8 \<Rightarrow>
    block_winner \<Rightarrow> tx_extra_pulse_round option \<Rightarrow> public_key \<times> secret_key \<Rightarrow> u64 \<Rightarrow> transaction_prefix option outcome" where
  "construct_miner_tx K W nettype height median_weight already_generated_coins current_block_weight fee miner_address nonce_bytes
      hard_fork_version winner pulse_round txkey unlock_blocks =
    (let gov_key = get_deterministic_keypair_from_height W height
     in case coinbase_extra (fst txkey) nonce_bytes (fst gov_key) (bw_key winner) pulse_round of
       None \<Rightarrow> Inr None
     | Some tx_extra \<Rightarrow>
         bindE (get_arqma_block_reward median_weight current_block_weight already_generated_coins hard_fork_version
           \<lparr>rx_height = height, rx_fee = fee, rx_service_node_payouts = bw_payouts winner\<rparr>) (\<lambda>r.
         Inr (do {
           parts \<leftarrow> r;
           miner_key \<leftarrow> get_deterministic_output_key K miner_address txkey 0;
           let outs = [pay_to (miner_reward parts) miner_key];
           paid \<leftarrow> (if 16 \<le> hard_fork_version
             then service_node_outputs K gov_key (rp_service_node_total parts) (bw_payouts winner) else Some []);
           let outs = outs @ paid;
           funds \<leftarrow> (if 16 \<le> hard_fork_version
             then fund_outputs K W nettype hard_fork_version gov_key parts (length outs) else Some []);
           let outs = outs @ funds;
           let expected_amount = miner_reward parts + rp_service_node_paid parts + rp_gov parts + rp_dev parts + rp_net parts;
           if out_amounts outs \<noteq> expected_amount then None
           else Some \<lparr>tx_version = get_max_version_for_hf hard_fork_version, tx_type = standard,
             unlock_time = height + ARQMA_BLOCK_UNLOCK_CONFIRMATIONS, vin = [txin_gen height], vout = outs, extra = tx_extra,
             output_unlock_times =
               (if 16 \<le> hard_fork_version then height + ARQMA_BLOCK_UNLOCK_CONFIRMATIONS + unlock_blocks
                else height + ARQMA_BLOCK_UNLOCK_CONFIRMATIONS) #
               replicate (length outs - 1) (height + ARQMA_BLOCK_UNLOCK_CONFIRMATIONS)\<rparr>
         })))"

section \<open>The checks of the service node list\<close>

definition within_one :: "u64 \<Rightarrow> u64 \<Rightarrow> bool" where
  "within_one a b \<longleftrightarrow> (if b < a then a - b else b - a) \<le> 1"

text \<open>The loop over the payouts, from payout \<open>i\<close> on. Reading beyond the outputs is undefined.\<close>

fun check_payouts ::
  "'r stake_ops \<Rightarrow> public_key \<times> secret_key \<Rightarrow> u64 \<Rightarrow> tx_out list \<Rightarrow> nat \<Rightarrow> payout_entry list \<Rightarrow> bool outcome" where
  "check_payouts K gov_key total_service_node_reward outs i [] = Inr True"
| "check_payouts K gov_key total_service_node_reward outs i (payout # payouts) =
    bindE (at_ub outs (i + 1)) (\<lambda>out.
      let reward = get_portion_of_reward (po_portions payout) total_service_node_reward
      in if \<not> within_one (out_amount out) reward then Inr False
         else case out_target out of
           target_key key \<Rightarrow>
             (case generate_key_derivation K (snd (po_address payout)) (snd gov_key) of
                None \<Rightarrow> Inr False
              | Some derivation \<Rightarrow>
                  (case derive_public_key K derivation (i + 1) (fst (po_address payout)) of
                     None \<Rightarrow> Inr False
                   | Some out_eph_public_key \<Rightarrow>
                       if key \<noteq> out_eph_public_key then Inr False
                       else check_payouts K gov_key total_service_node_reward outs (i + 1) payouts))
         | _ \<Rightarrow> Inr False)"

definition pow_replacement_ready :: bool where
  "pow_replacement_ready = False"

definition check_pulse_extra :: "crypto_ops \<Rightarrow> sn_state \<Rightarrow> hash \<Rightarrow> bytes \<Rightarrow> u64 \<Rightarrow> u8 \<Rightarrow> bool" where
  "check_pulse_extra C st prev_id tx_extra height hard_fork_version =
    (if hybrid_sn_permitted hard_fork_version then
       case get_pulse_round_from_tx_extra tx_extra of
         Some pulse \<Rightarrow>
           let active = map fst (active_service_nodes_infos st);
               quorum_keys = quorum_pubkeys C height active (pr_round pulse)
           in verify_majority_certificate C pulse height prev_id (length active) quorum_keys
       | None \<Rightarrow> \<not> (pow_replacement_ready \<and> exclusive_sn_required hard_fork_version)
     else True)"

text \<open>The number of outputs less three is computed without a sign.\<close>

definition validate_miner_tx ::
  "crypto_ops \<Rightarrow> 'r stake_ops \<Rightarrow> coinbase_ops \<Rightarrow> sn_state \<Rightarrow> hash \<Rightarrow> transaction_prefix \<Rightarrow> u64 \<Rightarrow> u8 \<Rightarrow> block_reward_parts \<Rightarrow>
    bool outcome" where
  "validate_miner_tx C K W st prev_id mtx height hard_fork_version reward_parts =
    (if hard_fork_version < 16 then Inr True
     else
       let base_reward = rp_original_base_reward reward_parts;
           total_service_node_reward = service_node_reward_formula base_reward hard_fork_version;
           winner = get_block_winner st
       in if bw_key winner \<noteq> get_service_node_winner_from_tx_extra (extra mtx) then Inr False
          else if word_of_nat (length (vout mtx)) - 3 < (word_of_nat (length (bw_payouts winner)) :: u64) then Inr False
          else
            bindE (check_payouts K (get_deterministic_keypair_from_height W height) total_service_node_reward (vout mtx) 0
              (bw_payouts winner)) (\<lambda>ok.
            if \<not> ok then Inr False
            else Inr (check_pulse_extra C st prev_id (extra mtx) height hard_fork_version)))"

section \<open>The checks of the blockchain\<close>

definition check_outs_overflow :: "tx_out list \<Rightarrow> bool" where
  "check_outs_overflow outs = fst (fold (\<lambda>out (ok, money).
     if ok then (if out_amount out + money < money then (False, money) else (True, money + out_amount out)) else (ok, money))
     outs (True, 0))"

text \<open>\<open>rct_type\<close> is the type of the confidential part of the coinbase; 0 is \<open>RCTTypeNull\<close>.\<close>

definition prevalidate_miner_transaction :: "'b block_scheme \<Rightarrow> u8 \<Rightarrow> u64 \<Rightarrow> u8 \<Rightarrow> bool" where
  "prevalidate_miner_transaction b miner_rct_type height hard_fork_version =
    (case vin (miner_tx b) of
       [txin_gen h] \<Rightarrow>
         if \<not> (2 < tx_version (miner_tx b) \<or> hard_fork_version < 16) then False
         else if 16 \<le> hard_fork_version \<and> 3 \<le> tx_version (miner_tx b) \<and> miner_rct_type \<noteq> 0 then False
         else if h \<noteq> height then False
         else if unlock_time (miner_tx b) \<noteq> height + ARQMA_BLOCK_UNLOCK_CONFIRMATIONS then False
         else check_outs_overflow (vout (miner_tx b))
     | _ \<Rightarrow> False)"

text \<open>The checks of the certificate against the block.\<close>

definition check_pulse_payload :: "crypto_ops \<Rightarrow> u64 \<Rightarrow> 'b block_scheme \<Rightarrow> u8 \<Rightarrow> bool" where
  "check_pulse_payload C parent_ts b hard_fork_version =
    (if hybrid_sn_permitted hard_fork_version then
       case get_pulse_round_from_tx_extra (extra (miner_tx b)) of
         Some pulse \<Rightarrow>
           if \<not> extra_round_matches_timestamps parent_ts (hdr_timestamp b) (pr_round pulse) then False
           else (case vout (miner_tx b) of
             [] \<Rightarrow> False
           | out # _ \<Rightarrow> (case out_target out of
               target_key miner_out \<Rightarrow> pr_payload_hash pulse = miner_payload_hash C (hdr_timestamp b) (tx_hashes b) miner_out
             | _ \<Rightarrow> False))
       | None \<Rightarrow> True
     else True)"

text \<open>One of the three funds: the amount, and the key, where \<open>boost::get\<close> throws on another target.\<close>

definition check_fund ::
  "tx_out list \<Rightarrow> u64 \<Rightarrow> u64 \<Rightarrow> (nat \<Rightarrow> public_key \<Rightarrow> bool) \<Rightarrow> bool outcome" where
  "check_fund outs index amount validate_key =
    bindE (at_ub outs (unat index)) (\<lambda>out.
      if out_amount out \<noteq> amount then Inr False
      else case out_target out of
        target_key key \<Rightarrow> Inr (validate_key (unat index) key)
      | _ \<Rightarrow> Inl Exception)"

definition check_funds ::
  "'r stake_ops \<Rightarrow> coinbase_ops \<Rightarrow> network_type \<Rightarrow> tx_out list \<Rightarrow> u64 \<Rightarrow> u8 \<Rightarrow> block_reward_parts \<Rightarrow> bool outcome" where
  "check_funds K W nettype outs height hard_fork_version parts =
    (let vout_end = word_of_nat (length outs)
     in bindE (check_fund outs (vout_end - 3) (rp_gov parts)
          (\<lambda>i key. validate_gov_reward_key K W height hard_fork_version i key nettype)) (\<lambda>ok. if \<not> ok then Inr False else
        bindE (check_fund outs (vout_end - 2) (rp_dev parts)
          (\<lambda>i key. validate_dev_reward_key K W height hard_fork_version i key nettype)) (\<lambda>ok. if \<not> ok then Inr False else
        check_fund outs (vout_end - 1) (rp_net parts)
          (\<lambda>i key. validate_net_reward_key K W height hard_fork_version i key nettype))))"

text \<open>
  \<open>median_weight\<close> is the median of the weights of the last blocks and \<open>parent_ts\<close> the timestamp of the
  parent block, or 0. The result is the base reward, or \<open>None\<close> where the function returns false. The
  names of the two version bounds are swapped in the code. The service node list is the only hook.
\<close>

definition validate_miner_transaction ::
  "crypto_ops \<Rightarrow> 'r stake_ops \<Rightarrow> coinbase_ops \<Rightarrow> network_type \<Rightarrow> sn_state \<Rightarrow> u64 \<Rightarrow> u64 \<Rightarrow> 'b block_scheme \<Rightarrow> u64 \<Rightarrow> u64 \<Rightarrow> u64 \<Rightarrow>
    u8 \<Rightarrow> u64 option outcome" where
  "validate_miner_transaction C K W nettype st median_weight parent_ts b cumulative_block_weight fee already_generated_coins
      hard_fork_version =
    (let money_in_use = out_amounts (vout (miner_tx b));
         height = get_block_height b
     in if vout (miner_tx b) = [] then Inr None
        else
          bindE (get_arqma_block_reward median_weight cumulative_block_weight already_generated_coins hard_fork_version
            \<lparr>rx_height = height, rx_fee = fee, rx_service_node_payouts = bw_payouts null_block_winner\<rparr>) (\<lambda>r.
          case r of None \<Rightarrow> Inr None | Some reward_parts \<Rightarrow>
          bindE (validate_miner_tx C K W st (hdr_prev_id b) (miner_tx b) height hard_fork_version reward_parts) (\<lambda>ok.
          if \<not> ok then Inr None
          else if \<not> check_pulse_payload C parent_ts b hard_fork_version then Inr None
          else
            bindE (if 16 \<le> hard_fork_version
                   then bindE (check_funds K W nettype (vout (miner_tx b)) height hard_fork_version reward_parts) (\<lambda>ok.
                     if \<not> ok then Inr False
                     else if tx_type (miner_tx b) \<noteq> standard then Inr False
                     else
                       let min_version = get_max_version_for_hf hard_fork_version;
                           max_version = get_min_version_for_hf hard_fork_version
                       in Inr (\<not> (tx_version (miner_tx b) < min_version \<or> max_version < tx_version (miner_tx b))))
                   else Inr True) (\<lambda>ok.
            if \<not> ok then Inr None
            else
              let max_base_reward = rp_base_miner reward_parts + rp_net reward_parts + rp_gov reward_parts + rp_dev reward_parts +
                    rp_service_node_paid reward_parts + 1;
                  max_money_in_use = max_base_reward + fee
              in if max_money_in_use < money_in_use then Inr None
                 else if \<not> fee \<le> money_in_use then Inr None
                 else Inr (Some (money_in_use - fee))))))"

section \<open>Rewards from hard fork 16 on\<close>

lemma get_portion_of_reward_mul_div: "get_portion_of_reward p t = mul_div t p STAKING_SHARE_PARTS"
  by (simp add: get_portion_of_reward_def mul_div_def)

lemma get_portion_of_reward_nat:
  "p \<le> STAKING_SHARE_PARTS \<Longrightarrow> unat (get_portion_of_reward p t) = unat t * unat p div 18446744073709551612"
  using portions_to_amount_nat [of p t] by (simp add: get_portion_of_reward_mul_div portions_to_amount_mul_div)

lemma whole_reward: "get_portion_of_reward STAKING_SHARE_PARTS t = t"
  using get_portion_of_reward_nat [of STAKING_SHARE_PARTS t] by (simp add: unat_STAKING_SHARE_PARTS word_unat_eq_iff)

text \<open>The parts of a reward of hard fork 16 on: 20 coins, of which half for the winner and 3 more for each fund.\<close>

definition hf16_parts :: "u64 \<Rightarrow> u64 \<Rightarrow> payout_entry list \<Rightarrow> block_reward_parts" where
  "hf16_parts height fee payouts =
    (let paid = calculate_sum_of_portions payouts 10000000000; bonus = (if height = 1731482 then 1 else 0)
     in \<lparr>rp_service_node_total = 10000000000, rp_service_node_paid = paid,
         rp_gov = 3000000000 + bonus * 2000000000000000, rp_dev = 3000000000 + bonus * 500000000000000,
         rp_net = 3000000000 + bonus * 500000000000000, rp_base_miner = 20000000000 - paid, rp_base_miner_fee = fee,
         rp_adjusted_base_reward = 29000000000, rp_original_base_reward = 20000000000\<rparr>)"

lemma get_arqma_block_reward_hf16:
  assumes "16 \<le> hf" and "height \<noteq> 1" and "agc \<noteq> 0"
  shows "get_arqma_block_reward m w agc hf \<lparr>rx_height = height, rx_fee = fee, rx_service_node_payouts = ps\<rparr> =
    Inr (Some (hf16_parts height fee ps))"
proof -
  have "15 < hf" using assms(1) by (simp add: word_le_nat_alt word_less_nat_alt)
  then show ?thesis
    using assms by (simp add: get_arqma_block_reward_def get_base_block_reward_def reward_constants service_node_reward_formula_def
        dev_reward_formula_def hf16_parts_def Let_def)
qed

text \<open>The extra data of a coinbase is read back.\<close>

lemma coinbase_extra_read:
  assumes keys: "length txpub = 32" "length govpub = 32" "length key = 32" and "length nonce_bytes < 128"
    and pulse: "\<forall>p. pulse = Some p \<longrightarrow> valid_field (extra_pulse_round p)"
  obtains e where "coinbase_extra txpub nonce_bytes govpub key pulse = Some e"
    "get_service_node_winner_from_tx_extra e = key" "get_pulse_round_from_tx_extra e = pulse"
proof -
  define fs where "fs = extra_pub_key txpub # (if nonce_bytes = [] then [] else [extra_nonce nonce_bytes])"
  define gs where "gs = by_tags sort_order fs @ [extra_pub_key govpub]"
  define ps where "ps = (case pulse of None \<Rightarrow> [] | Some p \<Rightarrow> [extra_pulse_round p])"
  have wf: "well_formed fs" using assms by (auto simp: fs_def well_formed_def)
  have "mset (by_tags sort_order fs) = mset fs" by (simp add: mset_by_tags sort_order_complete)
  from mset_eq_setD [OF this] have set: "set (by_tags sort_order fs) = set fs" .
  have fields: "valid_field f" "field_tag f \<noteq> 0" "sel_winner f = None" "sel_pulse f = None" if "f \<in> set gs" for f
  proof -
    have "f = extra_pub_key govpub \<or> f = extra_pub_key txpub \<or> f = extra_nonce nonce_bytes"
      using that by (auto simp: gs_def set) (auto simp: fs_def split: if_splits)
    then show "valid_field f" "field_tag f \<noteq> 0" "sel_winner f = None" "sel_pulse f = None" using assms by auto
  qed
  have tail: "valid_field f" "field_tag f \<noteq> 0" "sel_winner f = None" if "f \<in> set ps" for f
    using that pulse by (auto simp: ps_def split: option.splits)
  have wf2: "well_formed (gs @ [extra_service_node_winner key])" "well_formed (gs @ [extra_service_node_winner key] @ ps)"
    using fields tail keys(3) by (auto simp: well_formed_def dest!: in_set_butlastD)
  let ?all = "gs @ [extra_service_node_winner key] @ ps"
  have "coinbase_extra txpub nonce_bytes govpub key pulse = Some (fields_bytes ?all)"
  proof -
    have start: "(if nonce_bytes \<noteq> [] then add_extra_nonce_to_tx_extra (add_tx_pub_key_to_extra [] txpub) nonce_bytes
      else Some (add_tx_pub_key_to_extra [] txpub)) = Some (fields_bytes fs)"
      using assms(4) by (simp add: fs_def add_short_nonce add_raw_fields fields_bytes_def)
    have mid: "add_service_node_winner_to_tx_extra (add_tx_pub_key_to_extra (fields_bytes (by_tags sort_order fs)) govpub) key =
      fields_bytes (gs @ [extra_service_node_winner key])"
      by (simp add: add_raw_fields gs_def fields_bytes_def)
    have "add_pulse_round_to_tx_extra (fields_bytes (gs @ [extra_service_node_winner key])) p = Some (fields_bytes ?all)"
      if "pulse = Some p" for p
      using that wf2(2) by (simp add: add_pulse_round_to_tx_extra_def add_tx_extra_field_to_tx_extra_def ps_def save_field_valid
          well_formed_def fields_bytes_def)
    then show ?thesis
      unfolding coinbase_extra_def Let_def start sort_fields_bytes [OF wf] bind.bind_lunit mid
      by (simp add: ps_def split: option.splits)
  qed
  moreover have "get_service_node_winner_from_tx_extra (fields_bytes ?all) = key"
    using parse_tx_extra_bytes [OF wf2(2)] fields(3)
    by (simp add: get_service_node_winner_from_tx_extra_def field_from_extra_def find_tx_extra_field_by_type_def nth_match_snoc)
  moreover have "get_pulse_round_from_tx_extra (fields_bytes ?all) = pulse"
    using parse_tx_extra_bytes [OF wf2(2)] fields(4)
    by (simp add: get_pulse_round_from_tx_extra_def find_tx_extra_field_by_type_def nth_match_snoc ps_def split: option.splits)
  ultimately show thesis by (rule that)
qed

lemma those_map:
  "those (map f xs) = Some ys \<Longrightarrow> length ys = length xs \<and> (\<forall>i < length xs. f (xs ! i) = Some (ys ! i))"
  by (induction xs arbitrary: ys) (auto simp: nth_Cons split: option.splits nat.splits)

lemma fold_sum: "fold (\<lambda>x s. s + f x) xs s = s + (\<Sum>x\<leftarrow>xs. f x :: 'a::comm_monoid_add)"
  by (induction xs arbitrary: s) (simp_all add: add.assoc)

lemma out_amounts_sum: "out_amounts outs = (\<Sum>out\<leftarrow>outs. out_amount out)"
  by (simp add: out_amounts_def fold_sum)

lemma calculate_sum_of_portions_sum:
  "calculate_sum_of_portions ps t = (\<Sum>p\<leftarrow>ps. get_portion_of_reward (po_portions p) t)"
  by (simp add: calculate_sum_of_portions_def fold_sum)

lemma within_one_refl: "within_one a a"
  by (simp add: within_one_def)

lemma check_payouts_ok:
  assumes "\<forall>j < length ps. i + 1 + j < length outs \<and>
    (\<exists>k. outs ! (i + 1 + j) = pay_to (get_portion_of_reward (po_portions (ps ! j)) t) k \<and>
      get_deterministic_output_key K (po_address (ps ! j)) g (i + 1 + j) = Some k)"
  shows "check_payouts K g t outs i ps = Inr True"
  using assms
proof (induction ps arbitrary: i)
  case (Cons p ps)
  obtain k where k: "i + 1 < length outs" "outs ! (i + 1) = pay_to (get_portion_of_reward (po_portions p) t) k"
    "get_deterministic_output_key K (po_address p) g (i + 1) = Some k"
    using Cons.prems [rule_format, of 0] by auto
  have "check_payouts K g t outs (i + 1) ps = Inr True"
    by (rule Cons.IH) (use Cons.prems [rule_format, of "Suc j" for j] in auto)
  then show ?case
    using k by (auto simp: at_ub_def pay_to_def within_one_refl Let_def get_deterministic_output_key_def split: option.splits)
qed simp

lemma service_node_outputs_Some:
  assumes "service_node_outputs K g t ps = Some outs"
  shows "length outs = length ps"
    and "\<And>j. j < length ps \<Longrightarrow> \<exists>k. outs ! j = pay_to (get_portion_of_reward (po_portions (ps ! j)) t) k \<and>
      get_deterministic_output_key K (po_address (ps ! j)) g (1 + j) = Some k"
    and "map out_amount outs = map (\<lambda>p. get_portion_of_reward (po_portions p) t) ps"
    and "out_amounts outs = calculate_sum_of_portions ps t"
proof -
  note o = those_map [OF assms [unfolded service_node_outputs_def]]
  show len: "length outs = length ps" using o by simp
  show out: "\<exists>k. outs ! j = pay_to (get_portion_of_reward (po_portions (ps ! j)) t) k \<and>
      get_deterministic_output_key K (po_address (ps ! j)) g (1 + j) = Some k" if "j < length ps" for j
    using o that by auto
  show amounts: "map out_amount outs = map (\<lambda>p. get_portion_of_reward (po_portions p) t) ps"
    using len by (intro nth_equalityI) (auto simp: pay_to_def dest!: out)
  show "out_amounts outs = calculate_sum_of_portions ps t"
    unfolding out_amounts_sum calculate_sum_of_portions_sum amounts ..
qed

text \<open>What a constructed coinbase looks like from hard fork 16 on.\<close>

lemma construct_miner_tx_hf16:
  assumes hf: "16 \<le> hf" and "height \<noteq> 1" and "agc \<noteq> 0"
    and run: "construct_miner_tx K W nettype height m agc w fee addr nonce_bytes hf winner pulse txkey d = Inr (Some tx)"
  defines "g \<equiv> get_deterministic_keypair_from_height W height" and "parts \<equiv> hf16_parts height fee (bw_payouts winner)"
  obtains k paid gov dev net where "coinbase_extra (fst txkey) nonce_bytes (fst g) (bw_key winner) pulse = Some (extra tx)"
    "service_node_outputs K g 10000000000 (bw_payouts winner) = Some paid"
    "vout tx = pay_to (miner_reward parts) k # paid @ [pay_to (rp_gov parts) gov, pay_to (rp_dev parts) dev, pay_to (rp_net parts) net]"
    "get_deterministic_output_key K (gov_wallet_address W nettype hf) g (1 + length paid) = Some gov"
    "get_deterministic_output_key K (dev_wallet_address W nettype hf) g (2 + length paid) = Some dev"
    "get_deterministic_output_key K (net_wallet_address W nettype hf) g (3 + length paid) = Some net"
    "tx_type tx = standard" "tx_version tx = 3" "vin tx = [txin_gen height]" "unlock_time tx = height + 18"
proof -
  have "\<not> hf < 16" using hf by simp
  moreover have "rp_service_node_total parts = 10000000000" by (simp add: parts_def hf16_parts_def Let_def)
  ultimately obtain e k paid gov dev net where r: "coinbase_extra (fst txkey) nonce_bytes (fst g) (bw_key winner) pulse = Some e"
    "service_node_outputs K g 10000000000 (bw_payouts winner) = Some paid"
    "get_deterministic_output_key K (gov_wallet_address W nettype hf) g (Suc (length paid)) = Some gov"
    "get_deterministic_output_key K (dev_wallet_address W nettype hf) g (Suc (Suc (length paid))) = Some dev"
    "get_deterministic_output_key K (net_wallet_address W nettype hf) g (Suc (Suc (Suc (length paid)))) = Some net"
    "tx = \<lparr>tx_version = 3, tx_type = standard, unlock_time = height + 18, vin = [txin_gen height],
       vout = pay_to (miner_reward parts) k # paid @ [pay_to (rp_gov parts) gov, pay_to (rp_dev parts) dev, pay_to (rp_net parts) net],
       extra = e, output_unlock_times = (height + 18 + d) # replicate (3 + length paid) (height + 18)\<rparr>"
    using run
    by (auto simp: construct_miner_tx_def Let_def get_arqma_block_reward_hf16 [OF assms(1-3)] g_def [symmetric] parts_def [symmetric]
        hf fund_outputs_def get_max_version_for_hf_def reward_constants bind_eq_Some_conv numeral_3_eq_3 split: option.splits if_splits)
  show thesis by (rule that [of paid k gov dev net]) (use r in \<open>simp_all add: numeral_2_eq_2 numeral_3_eq_3\<close>)
qed

section \<open>Sums of amounts\<close>

definition total_amount :: "tx_out list \<Rightarrow> nat" where
  "total_amount outs = (\<Sum>out\<leftarrow>outs. unat (out_amount out))"

lemma word_add_wraps: "(a :: u64) + b < b \<longleftrightarrow> 2 ^ 64 \<le> unat a + unat b"
proof -
  have "unat (a + b) = (unat a + unat b) mod 2 ^ 64" by (simp add: unat_word_ariths)
  moreover have "unat a < 2 ^ 64" "unat b < 2 ^ 64" using unat64_bound by simp_all
  ultimately show ?thesis
    by (cases "unat a + unat b < 2 ^ 64") (auto simp: word_less_nat_alt mod_if)
qed

lemma check_outs_overflow_iff: "check_outs_overflow outs \<longleftrightarrow> total_amount outs < 2 ^ 64"
proof -
  let ?f = "\<lambda>(out :: tx_out) (ok, money). if ok then (if out_amount out + money < money then (False, money)
    else (True, money + out_amount out)) else (ok, money)"
  have stop: "fold ?f outs (False, m) = (False, m)" for outs m by (induction outs) auto
  have "fst (fold ?f outs (True, m)) \<longleftrightarrow> unat m + total_amount outs < 2 ^ 64" for m
  proof (induction outs arbitrary: m)
    case Nil
    then show ?case using unat64_bound [of m] by (simp add: total_amount_def)
  next
    case (Cons out outs)
    show ?case
    proof (cases "out_amount out + m < m")
      case True
      then show ?thesis using stop by (simp add: total_amount_def word_add_wraps)
    next
      case False
      then have "unat m + unat (out_amount out) < 2 ^ LENGTH(64)" by (simp add: word_add_wraps)
      then have "unat (m + out_amount out) = unat m + unat (out_amount out)" by (rule unat_add_less)
      then show ?thesis using Cons.IH [of "m + out_amount out"] False by (simp add: total_amount_def add.assoc)
    qed
  qed
  from this [of 0] show ?thesis by (simp add: check_outs_overflow_def)
qed

lemma unat_out_amounts: "total_amount outs < 2 ^ 64 \<Longrightarrow> unat (out_amounts outs) = total_amount outs"
  by (induction outs) (simp_all add: out_amounts_sum total_amount_def unat_add_less)

text \<open>The winner is paid at most half of the reward.\<close>

lemma paid_bound:
  assumes "portions ps \<le> unat STAKING_SHARE_PARTS"
  shows "(\<Sum>p\<leftarrow>ps. unat (get_portion_of_reward (po_portions p) t)) \<le> unat t"
    and "unat (calculate_sum_of_portions ps t) \<le> unat t"
proof -
  have "po_portions p \<le> STAKING_SHARE_PARTS" if "p \<in> set ps" for p
  proof -
    have "unat (po_portions p) \<le> portions ps" unfolding portions_def using that by (intro member_le_sum_list) auto
    then show ?thesis using assms by (simp add: word_le_nat_alt)
  qed
  then have "(\<Sum>p\<leftarrow>ps. unat (get_portion_of_reward (po_portions p) t)) = (\<Sum>p\<leftarrow>ps. unat (po_portions p) * unat t div 18446744073709551612)"
    by (intro arg_cong [where f = sum_list] map_cong) (simp_all add: get_portion_of_reward_nat mult.commute)
  moreover have "18446744073709551612 * (\<Sum>p\<leftarrow>ps. unat (po_portions p) * unat t div 18446744073709551612) \<le> portions ps * unat t"
    using sum_div_bounds(1) [of 18446744073709551612 "\<lambda>p. unat (po_portions p)" "unat t" ps] by (simp add: portions_def)
  moreover have "portions ps * unat t \<le> 18446744073709551612 * unat t"
    using assms by (intro mult_right_mono) (simp_all add: unat_STAKING_SHARE_PARTS)
  ultimately show sum: "(\<Sum>p\<leftarrow>ps. unat (get_portion_of_reward (po_portions p) t)) \<le> unat t" by linarith
  have "unat (\<Sum>p\<leftarrow>ps. get_portion_of_reward (po_portions p) t) = (\<Sum>p\<leftarrow>ps. unat (get_portion_of_reward (po_portions p) t))"
    using unat_sum_list [of "\<lambda>p. get_portion_of_reward (po_portions p) t" ps] sum unat64_bound [of t] by simp
  then show "unat (calculate_sum_of_portions ps t) \<le> unat t" using sum by (simp add: calculate_sum_of_portions_sum)
qed

lemma winner_portions:
  assumes "nodes_ok st" and "payable st"
  shows "portions (bw_payouts (get_block_winner st)) \<le> unat STAKING_SHARE_PARTS"
  using get_block_winner_queue [OF _ assms(2)] assms(1) get_payouts_bounds(1) nodes_ok_lookup [OF assms(1)]
  by (fastforce simp: nodes_ok_def null_block_winner_def portions_def is_active_def split: if_splits)

section \<open>A constructed coinbase is accepted\<close>

definition block_bonus :: "u64 \<Rightarrow> nat" where
  "block_bonus height = (if height = 1731482 then 3000000000000000 else 0)"

lemma funds_nat:
  "unat (rp_gov (hf16_parts h fee ps)) + unat (rp_dev (hf16_parts h fee ps)) + unat (rp_net (hf16_parts h fee ps)) =
    9000000000 + block_bonus h"
  by (simp add: hf16_parts_def Let_def block_bonus_def)

lemma coinbase_total:
  fixes height :: u64
  assumes fee: "unat fee < 2 ^ 63" and ps: "portions ps \<le> unat STAKING_SHARE_PARTS"
    and paid: "service_node_outputs K g 10000000000 ps = Some paid"
  defines "parts \<equiv> hf16_parts height fee ps"
  shows "total_amount (pay_to (miner_reward parts) k # paid @ [pay_to (rp_gov parts) gov, pay_to (rp_dev parts) dev, pay_to (rp_net parts) net]) =
    29000000000 + unat fee + block_bonus height"
proof -
  let ?p = "calculate_sum_of_portions ps 10000000000"
  have p: "unat ?p \<le> 10000000000" using paid_bound(2) [OF ps, of 10000000000] by simp
  have "total_amount paid = (\<Sum>p\<leftarrow>ps. unat (get_portion_of_reward (po_portions p) 10000000000))"
    using arg_cong [OF service_node_outputs_Some(3) [OF paid], of "\<lambda>xs. sum_list (map unat xs)"]
    by (simp add: total_amount_def comp_def)
  then have "total_amount paid < 2 ^ 64" using paid_bound(1) [OF ps, of 10000000000] by simp
  from unat_out_amounts [OF this] have paid': "total_amount paid = unat ?p"
    using service_node_outputs_Some(4) [OF paid] by simp
  have m: "unat (miner_reward parts) = 20000000000 - unat ?p + unat fee"
  proof -
    have "unat (20000000000 - ?p) = 20000000000 - unat ?p"
      using p by (subst unat_sub_le) (simp_all add: word_le_nat_alt)
    then show ?thesis using fee by (simp add: miner_reward_def parts_def hf16_parts_def Let_def unat_add_less)
  qed
  show ?thesis
    using m paid' p funds_nat [of height fee ps] by (simp add: total_amount_def pay_to_def parts_def [symmetric])
qed

lemma coinbase_checks:
  assumes hf: "16 \<le> hf" and "get_block_height b \<noteq> 1" and "agc \<noteq> 0" and fee: "unat fee < 2 ^ 63"
    and st: "nodes_ok st" "payable st" "length (bw_payouts (get_block_winner st)) < 2 ^ 63"
    and run: "construct_miner_tx K W nettype (get_block_height b) m agc w fee addr nonce_bytes hf (get_block_winner st) pulse txkey d =
      Inr (Some (miner_tx b))"
    and bytes: "length (fst txkey) = 32" "length (fst (get_deterministic_keypair_from_height W (get_block_height b))) = 32"
      "length (bw_key (get_block_winner st)) = 32" "length nonce_bytes < 128"
    and pulse: "\<forall>p. pulse = Some p \<longrightarrow> valid_field (extra_pulse_round p)"
    and certified: "check_pulse_extra C st (hdr_prev_id b) (extra (miner_tx b)) (get_block_height b) hf"
      "check_pulse_payload C parent_ts b hf"
  shows "prevalidate_miner_transaction b 0 (get_block_height b) hf \<and>
    validate_miner_transaction C K W nettype st m' parent_ts b w' fee agc hf =
      Inr (Some (29000000000 + word_of_nat (block_bonus (get_block_height b))))"
proof -
  let ?h = "get_block_height b" and ?tx = "miner_tx b" and ?win = "get_block_winner st"
  define g where "g = get_deterministic_keypair_from_height W ?h"
  define parts where "parts = hf16_parts ?h fee (bw_payouts ?win)"
  obtain k paid gov dev net where t: "coinbase_extra (fst txkey) nonce_bytes (fst g) (bw_key ?win) pulse = Some (extra ?tx)"
    "service_node_outputs K g 10000000000 (bw_payouts ?win) = Some paid"
    "vout ?tx = pay_to (miner_reward parts) k # paid @ [pay_to (rp_gov parts) gov, pay_to (rp_dev parts) dev, pay_to (rp_net parts) net]"
    "get_deterministic_output_key K (gov_wallet_address W nettype hf) g (1 + length paid) = Some gov"
    "get_deterministic_output_key K (dev_wallet_address W nettype hf) g (2 + length paid) = Some dev"
    "get_deterministic_output_key K (net_wallet_address W nettype hf) g (3 + length paid) = Some net"
    "tx_type ?tx = standard" "tx_version ?tx = 3" "vin ?tx = [txin_gen ?h]" "unlock_time ?tx = ?h + 18"
    unfolding g_def parts_def by (rule construct_miner_tx_hf16 [OF assms(1-3) run])
  have ex: "get_service_node_winner_from_tx_extra (extra ?tx) = bw_key ?win"
    using coinbase_extra_read [OF bytes(1) bytes(2) [folded g_def] bytes(3,4) pulse] t(1) by (metis option.inject)
  have len: "length paid = length (bw_payouts ?win)" using service_node_outputs_Some(1) [OF t(2)] .
  have vlen: "length (vout ?tx) = 4 + length paid" by (simp add: t(3))
  have n: "unat (word_of_nat (length (vout ?tx)) :: u64) = 4 + length paid"
    using st(3) len by (subst unat_of_nat_small) (simp_all add: vlen)
  then have idx: "unat (word_of_nat (length (vout ?tx)) - 3 :: u64) = 1 + length paid"
    "unat (word_of_nat (length (vout ?tx)) - 2 :: u64) = 2 + length paid"
    "unat (word_of_nat (length (vout ?tx)) - 1 :: u64) = 3 + length paid"
    by (subst unat_sub_le; simp add: word_le_nat_alt del: of_nat_add)+
  have "check_payouts K g 10000000000 (vout ?tx) 0 (bw_payouts ?win) = Inr True"
  proof (rule check_payouts_ok, intro allI impI conjI)
    fix j assume j: "j < length (bw_payouts ?win)"
    show "0 + 1 + j < length (vout ?tx)" using j len vlen by simp
    show "\<exists>k. vout ?tx ! (0 + 1 + j) = pay_to (get_portion_of_reward (po_portions (bw_payouts ?win ! j)) 10000000000) k \<and>
        get_deterministic_output_key K (po_address (bw_payouts ?win ! j)) g (0 + 1 + j) = Some k"
      using service_node_outputs_Some(2) [OF t(2) j] j len by (simp add: t(3) nth_append)
  qed
  moreover have "\<not> word_of_nat (length (vout ?tx)) - 3 < (word_of_nat (length (bw_payouts ?win)) :: u64)"
    using idx(1) st(3) len by (simp add: word_less_nat_alt unat_of_nat_small)
  ultimately have hook: "validate_miner_tx C K W st (hdr_prev_id b) ?tx ?h hf (hf16_parts ?h fee ps) = Inr True" for ps
    using hf certified(1) ex
    by (simp add: validate_miner_tx_def hf16_parts_def Let_def service_node_reward_formula_def g_def governance_sn_def not_less [symmetric])
  have funds: "check_funds K W nettype (vout ?tx) ?h hf (hf16_parts ?h fee ps) = Inr True" for ps
  proof -
    have p: "rp_gov (hf16_parts ?h fee ps) = rp_gov parts" "rp_dev (hf16_parts ?h fee ps) = rp_dev parts"
      "rp_net (hf16_parts ?h fee ps) = rp_net parts" by (simp_all add: hf16_parts_def parts_def Let_def)
    have o: "at_ub (vout ?tx) (1 + length paid) = Inr (pay_to (rp_gov parts) gov)"
      "at_ub (vout ?tx) (2 + length paid) = Inr (pay_to (rp_dev parts) dev)"
      "at_ub (vout ?tx) (3 + length paid) = Inr (pay_to (rp_net parts) net)"
      by (simp_all add: at_ub_def vlen t(3) nth_append nth_Cons')
    show ?thesis
      using t(4-6) unfolding check_funds_def check_fund_def Let_def idx p o
      by (simp add: pay_to_def validate_gov_reward_key_def validate_dev_reward_key_def validate_net_reward_key_def
          validate_reward_key_def g_def [symmetric])
  qed
  have total: "total_amount (vout ?tx) = 29000000000 + unat fee + block_bonus ?h"
    unfolding t(3) parts_def by (rule coinbase_total [OF fee winner_portions [OF st(1,2)] t(2)])
  then have amounts: "unat (out_amounts (vout ?tx)) = 29000000000 + unat fee + block_bonus ?h"
    using fee by (subst unat_out_amounts) (simp_all add: block_bonus_def)
  let ?v = "hf16_parts ?h fee (bw_payouts null_block_winner)" and ?c = "29000000000 + word_of_nat (block_bonus ?h) :: u64"
  have c: "unat ?c = 29000000000 + block_bonus ?h" "out_amounts (vout ?tx) = ?c + fee"
  proof -
    show "unat ?c = 29000000000 + block_bonus ?h" by (simp add: block_bonus_def)
    then show "out_amounts (vout ?tx) = ?c + fee"
      using amounts fee by (simp add: word_unat_eq_iff unat_add_less block_bonus_def)
  qed
  have max: "rp_base_miner ?v + rp_net ?v + rp_gov ?v + rp_dev ?v + rp_service_node_paid ?v + 1 = ?c + 1"
    by (simp add: hf16_parts_def Let_def null_block_winner_def calculate_sum_of_portions_def whole_reward block_bonus_def)
  have le: "\<not> ?c + 1 + fee < ?c + fee" "fee \<le> ?c + fee"
  proof -
    have "unat (?c + 1 + fee) = unat ?c + 1 + unat fee" "unat (?c + fee) = unat ?c + unat fee"
      using fee c(1) by (simp_all add: unat_add_less block_bonus_def)
    then show "\<not> ?c + 1 + fee < ?c + fee" "fee \<le> ?c + fee" by (simp_all add: word_less_nat_alt word_le_nat_alt)
  qed
  have nonempty: "(vout ?tx = []) = False" and late: "(hf < 16) = False" "(16 \<le> hf) = True" "(hf < 14) = False"
    using t(3) hf by (auto simp: word_le_nat_alt word_less_nat_alt)
  have "validate_miner_transaction C K W nettype st m' parent_ts b w' fee agc hf = Inr (Some ?c)"
    unfolding validate_miner_transaction_def Let_def get_arqma_block_reward_hf16 [OF assms(1-3)] nonempty bindE_Inr if_False
      option.case hook funds late c(2) get_max_version_for_hf_def get_min_version_for_hf_def t(7,8) max
    using certified(2) le by simp
  moreover have "prevalidate_miner_transaction b 0 ?h hf"
    using t(8-10) total fee by (simp add: prevalidate_miner_transaction_def check_outs_overflow_iff reward_constants block_bonus_def)
  ultimately show ?thesis by simp
qed

text \<open>
  (C3) From hard fork 16 on, the coinbase that a miner constructs for the winner the list computes passes
  every check of a node with the same list: the form and the overflow of the outputs, the winner's key
  in the extra data, the amount and the one-time key of each payout, the three funds, the version, the
  certificate where there is one, and the limit on the money created. The base reward recorded is 29
  coins (20 for the miner and the winner, 3 for each fund), and 3 million more at the one height that
  has a bonus, whatever the fee, the weight of the block and the median.
\<close>

theorem constructed_coinbase_accepted:
  assumes hf: "16 \<le> hf" and "get_block_height b \<noteq> 1" and "agc \<noteq> 0" and fee: "unat fee < 2 ^ 63"
    and st: "nodes_ok st" "payable st" "length (bw_payouts (get_block_winner st)) < 2 ^ 63"
    and run: "construct_miner_tx K W nettype (get_block_height b) m agc w fee addr nonce_bytes hf (get_block_winner st) pulse txkey d =
      Inr (Some (miner_tx b))"
    and bytes: "length (fst txkey) = 32" "length (fst (get_deterministic_keypair_from_height W (get_block_height b))) = 32"
      "length (bw_key (get_block_winner st)) = 32" "length nonce_bytes < 128"
    and pulse: "\<forall>p. pulse = Some p \<longrightarrow> valid_field (extra_pulse_round p)"
    and certified: "check_pulse_extra C st (hdr_prev_id b) (extra (miner_tx b)) (get_block_height b) hf"
      "check_pulse_payload C parent_ts b hf"
  shows "prevalidate_miner_transaction b 0 (get_block_height b) hf \<and>
    validate_miner_transaction C K W nettype st m' parent_ts b w' fee agc hf =
      Inr (Some (29000000000 + word_of_nat (block_bonus (get_block_height b))))"
  by (rule coinbase_checks [OF assms])

section \<open>What an accepted coinbase can hold\<close>

lemma at_ub_cases: "at_ub xs i = Inl Undefined \<and> length xs \<le> i \<or> at_ub xs i = Inr (xs ! i) \<and> i < length xs"
  by (simp add: at_ub_def not_less)

lemma check_payouts_True:
  "check_payouts K g t outs i ps = Inr True \<Longrightarrow> (\<forall>j < length ps. i + 1 + j < length outs \<and>
    within_one (out_amount (outs ! (i + 1 + j))) (get_portion_of_reward (po_portions (ps ! j)) t) \<and>
    (\<exists>k. out_target (outs ! (i + 1 + j)) = target_key k \<and>
      get_deterministic_output_key K (po_address (ps ! j)) g (i + 1 + j) = Some k))"
proof (induction ps arbitrary: i)
  case (Cons p ps)
  have "i + 1 < length outs \<and> within_one (out_amount (outs ! (i + 1))) (get_portion_of_reward (po_portions p) t) \<and>
    (\<exists>k. out_target (outs ! (i + 1)) = target_key k \<and> get_deterministic_output_key K (po_address p) g (i + 1) = Some k) \<and>
    check_payouts K g t outs (i + 1) ps = Inr True"
    using Cons.prems at_ub_cases [of outs "i + 1"]
    by (auto simp: Let_def get_deterministic_output_key_def split: if_splits txout_target_v.splits option.splits)
  then show ?case using Cons.IH [of "i + 1"] by (auto simp: nth_Cons split: nat.splits)
qed simp

lemma check_fund_True:
  "check_fund outs i amount f = Inr True \<Longrightarrow>
    unat i < length outs \<and> out_amount (outs ! unat i) = amount \<and> (\<exists>k. out_target (outs ! unat i) = target_key k \<and> f (unat i) k)"
  using at_ub_cases [of outs "unat i"] by (auto simp: check_fund_def split: if_splits txout_target_v.splits)

text \<open>
  A coinbase with a single output names the right winner: the number of payouts is compared with a
  number of outputs that has wrapped, and the loop reads beyond the outputs.
\<close>

lemma short_coinbase_undefined:
  assumes "16 \<le> hf" and "get_service_node_winner_from_tx_extra (extra mtx) = bw_key (get_block_winner st)"
    and "length (vout mtx) = 1" and "bw_payouts (get_block_winner st) \<noteq> []" and "length (bw_payouts (get_block_winner st)) < 2 ^ 63"
  shows "validate_miner_tx C K W st prev_id mtx height hf parts = Inl Undefined"
proof -
  obtain p ps where ps: "bw_payouts (get_block_winner st) = p # ps" using assms(4) by (cases "bw_payouts (get_block_winner st)") auto
  have n: "unat (word_of_nat (length (bw_payouts (get_block_winner st))) :: u64) < 2 ^ 63"
    using assms(5) by (subst unat_of_nat_small) simp_all
  have "\<not> (- 2 :: u64) < word_of_nat (length (bw_payouts (get_block_winner st)))" using n by (simp add: word_less_nat_alt)
  moreover have "at_ub (vout mtx) (0 + 1) = Inl Undefined" using assms(3) by (simp add: at_ub_def)
  ultimately show ?thesis
    using assms(1,2,3) by (simp add: validate_miner_tx_def Let_def ps not_less [symmetric])
qed

lemma hf16_limit:
  fixes height :: u64
  assumes "unat fee < 2 ^ 63"
  defines "v \<equiv> hf16_parts height fee (bw_payouts null_block_winner)"
  shows "unat (rp_base_miner v + rp_net v + rp_gov v + rp_dev v + rp_service_node_paid v + 1 + fee) = 29000000001 + block_bonus height + unat fee"
proof -
  have max: "rp_base_miner v + rp_net v + rp_gov v + rp_dev v + rp_service_node_paid v + 1 = 29000000001 + word_of_nat (block_bonus height)"
    by (simp add: v_def hf16_parts_def Let_def null_block_winner_def calculate_sum_of_portions_def whole_reward block_bonus_def)
  show ?thesis unfolding max using assms(1) by (simp add: block_bonus_def unat_add_less)
qed

lemma validate_miner_transaction_Some:
  assumes "16 \<le> hf" and "get_block_height b \<noteq> 1" and "agc \<noteq> 0"
    and "validate_miner_transaction C K W nettype st m parent_ts b w fee agc hf = Inr (Some r)"
  defines "v \<equiv> hf16_parts (get_block_height b) fee (bw_payouts null_block_winner)"
  shows "validate_miner_tx C K W st (hdr_prev_id b) (miner_tx b) (get_block_height b) hf v = Inr True"
    and "check_pulse_payload C parent_ts b hf"
    and "check_funds K W nettype (vout (miner_tx b)) (get_block_height b) hf v = Inr True"
    and "out_amounts (vout (miner_tx b)) \<le> rp_base_miner v + rp_net v + rp_gov v + rp_dev v + rp_service_node_paid v + 1 + fee"
    and "fee \<le> out_amounts (vout (miner_tx b))" and "r = out_amounts (vout (miner_tx b)) - fee"
  using assms(4) unfolding validate_miner_transaction_def Let_def get_arqma_block_reward_hf16 [OF assms(1-3)] v_def [symmetric]
  by (auto simp: assms(1) bindE_eq_Inr not_less split: if_splits)

lemma back_index:
  assumes "n < 2 ^ 64" and "unat (word_of_nat n - k :: u64) < n"
  shows "unat k \<le> n" and "unat (word_of_nat n - k :: u64) = n - unat k"
proof -
  have n: "unat (word_of_nat n :: u64) = n" using assms(1) by (rule unat_of_nat_small)
  show "unat k \<le> n" using assms unat64_bound [of k] by (simp add: unat_sub_if' n size_word.rep_eq split: if_splits)
  then show "unat (word_of_nat n - k :: u64) = n - unat k" by (simp add: unat_sub_if' n)
qed

lemma drop_last_three:
  fixes xs :: "'a list"
  shows "3 \<le> length xs \<Longrightarrow> drop (length xs - 3) xs = [xs ! (length xs - 3), xs ! (length xs - 2), xs ! (length xs - 1)]"
proof -
  assume n: "3 \<le> length xs"
  let ?ys = "drop (length xs - 3) xs"
  have "length ?ys = 3" using n by simp
  moreover have "ys = [ys ! 0, ys ! 1, ys ! 2]" if "length ys = 3" for ys :: "'a list"
    using that by (auto simp: numeral_3_eq_3 length_Suc_conv)
  ultimately have "?ys = [?ys ! 0, ?ys ! 1, ?ys ! 2]" by blast
  moreover have "?ys ! 0 = xs ! (length xs - 3)" "?ys ! 1 = xs ! (length xs - 2)" "?ys ! 2 = xs ! (length xs - 1)"
  proof -
    have "length xs - 3 + 1 = length xs - 2" "length xs - 3 + 2 = length xs - 1" using n by arith+
    then show "?ys ! 0 = xs ! (length xs - 3)" "?ys ! 1 = xs ! (length xs - 2)" "?ys ! 2 = xs ! (length xs - 1)"
      using nth_drop [of "length xs - 3" xs] by (simp_all only: diff_le_self) simp
  qed
  ultimately show ?thesis by simp
qed

lemma prevalidate_overflow: "prevalidate_miner_transaction b rct h hf \<Longrightarrow> check_outs_overflow (vout (miner_tx b))"
  by (cases "vin (miner_tx b)"; cases "tl (vin (miner_tx b))"; cases "hd (vin (miner_tx b))")
    (auto simp: prevalidate_miner_transaction_def split: if_splits)

text \<open>The wallets of the three funds, in the order of their outputs.\<close>

definition fund_wallets :: "coinbase_ops \<Rightarrow> network_type \<Rightarrow> u8 \<Rightarrow> account_public_address list" where
  "fund_wallets W nettype hf = [gov_wallet_address W nettype hf, dev_wallet_address W nettype hf, net_wallet_address W nettype hf]"

lemma validate_reward_key_iff:
  "validate_reward_key K W height address i key \<longleftrightarrow>
    get_deterministic_output_key K address (get_deterministic_keypair_from_height W height) i = Some key"
  by (auto simp: validate_reward_key_def split: option.splits)

lemma check_funds_True:
  assumes "check_funds K W nettype outs height hf parts = Inr True" and "length outs < 2 ^ 64"
  shows "3 \<le> length outs" "map out_amount (drop (length outs - 3) outs) = [rp_gov parts, rp_dev parts, rp_net parts]"
    "\<forall>j < 3. \<exists>k. out_target (outs ! (length outs - 3 + j)) = target_key k \<and>
      get_deterministic_output_key K (fund_wallets W nettype hf ! j) (get_deterministic_keypair_from_height W height)
        (length outs - 3 + j) = Some k"
proof -
  let ?n = "word_of_nat (length outs) :: u64"
  have f: "check_fund outs (?n - 3) (rp_gov parts) (\<lambda>i key. validate_gov_reward_key K W height hf i key nettype) = Inr True"
    "check_fund outs (?n - 2) (rp_dev parts) (\<lambda>i key. validate_dev_reward_key K W height hf i key nettype) = Inr True"
    "check_fund outs (?n - 1) (rp_net parts) (\<lambda>i key. validate_net_reward_key K W height hf i key nettype) = Inr True"
    using assms(1) by (auto simp: check_funds_def Let_def bindE_eq_Inr split: if_splits)
  note c = f [THEN check_fund_True]
  note i = back_index [OF assms(2) conjunct1 [OF c(1)]] back_index [OF assms(2) conjunct1 [OF c(2)]]
    back_index [OF assms(2) conjunct1 [OF c(3)]]
  show n: "3 \<le> length outs" using i(1) by simp
  then show "map out_amount (drop (length outs - 3) outs) = [rp_gov parts, rp_dev parts, rp_net parts]"
    using i(2,4,6) c by (simp add: drop_last_three)
  have idx: "unat (?n - 3) = length outs - 3" "unat (?n - 2) = length outs - 3 + 1" "unat (?n - 1) = length outs - 3 + 2"
    using n i(2,4,6) by simp_all
  note paid = c [THEN conjunct2, THEN conjunct2, unfolded idx validate_gov_reward_key_def validate_dev_reward_key_def
      validate_net_reward_key_def validate_reward_key_iff]
  have "j = 0 \<or> j = 1 \<or> j = 2" if "j < 3" for j :: nat using that by linarith
  then show "\<forall>j < 3. \<exists>k. out_target (outs ! (length outs - 3 + j)) = target_key k \<and>
      get_deterministic_output_key K (fund_wallets W nettype hf ! j) (get_deterministic_keypair_from_height W height)
        (length outs - 3 + j) = Some k"
    using paid by (fastforce simp: fund_wallets_def)
qed

text \<open>
  (C2) From hard fork 16 on no coinbase that passes the checks, above height 1, creates money out of
  nothing. Its outputs
  hold at most the 29 coins of the block (and the bonus of one height), the fees and one atomic unit;
  the first outputs after the miner's pay the contributors of the right winner, in order, each within
  one unit of their share and to a key of theirs; and the last three pay the governance, the development
  and the network fund exactly, each to the one-time key of its wallet.
\<close>

theorem accepted_coinbase_bounded:
  assumes hf: "16 \<le> hf" and "get_block_height b \<noteq> 1" and "agc \<noteq> 0" and fee: "unat fee < 2 ^ 63"
    and n: "length (vout (miner_tx b)) < 2 ^ 64"
    and pre: "prevalidate_miner_transaction b rct (get_block_height b) hf"
    and acc: "validate_miner_transaction C K W nettype st m parent_ts b w fee agc hf = Inr (Some r)"
  shows "total_amount (vout (miner_tx b)) \<le> 29000000001 + block_bonus (get_block_height b) + unat fee \<and>
    unat r + unat fee = total_amount (vout (miner_tx b)) \<and>
    get_service_node_winner_from_tx_extra (extra (miner_tx b)) = bw_key (get_block_winner st) \<and>
    (\<forall>j < length (bw_payouts (get_block_winner st)). 1 + j < length (vout (miner_tx b)) \<and>
      within_one (out_amount (vout (miner_tx b) ! (1 + j)))
        (get_portion_of_reward (po_portions (bw_payouts (get_block_winner st) ! j)) 10000000000) \<and>
      (\<exists>k. out_target (vout (miner_tx b) ! (1 + j)) = target_key k \<and>
        get_deterministic_output_key K (po_address (bw_payouts (get_block_winner st) ! j))
          (get_deterministic_keypair_from_height W (get_block_height b)) (1 + j) = Some k)) \<and>
    3 \<le> length (vout (miner_tx b)) \<and>
    map (\<lambda>out. unat (out_amount out)) (drop (length (vout (miner_tx b)) - 3) (vout (miner_tx b))) =
      (if get_block_height b = 1731482 then [2000003000000000, 500003000000000, 500003000000000]
       else [3000000000, 3000000000, 3000000000]) \<and>
    (\<forall>j < 3. \<exists>k. out_target (vout (miner_tx b) ! (length (vout (miner_tx b)) - 3 + j)) = target_key k \<and>
      get_deterministic_output_key K (fund_wallets W nettype hf ! j) (get_deterministic_keypair_from_height W (get_block_height b))
        (length (vout (miner_tx b)) - 3 + j) = Some k)"
proof -
  let ?outs = "vout (miner_tx b)" and ?h = "get_block_height b" and ?v = "hf16_parts (get_block_height b) fee (bw_payouts null_block_winner)"
  note a = validate_miner_transaction_Some [OF assms(1-3) acc]
  have t: "total_amount ?outs < 2 ^ 64"
    using prevalidate_overflow [OF pre] by (simp add: check_outs_overflow_iff)
  note u = unat_out_amounts [OF t]
  have "total_amount ?outs \<le> 29000000001 + block_bonus ?h + unat fee"
    using a(4) hf16_limit [OF fee, of ?h] u by (simp add: word_le_nat_alt)
  moreover have "unat r + unat fee = total_amount ?outs" using a(5,6) u by (simp add: unat_sub_le word_le_nat_alt)
  moreover have "get_service_node_winner_from_tx_extra (extra (miner_tx b)) = bw_key (get_block_winner st) \<and>
      check_payouts K (get_deterministic_keypair_from_height W ?h) 10000000000 ?outs 0 (bw_payouts (get_block_winner st)) = Inr True"
    using a(1) hf by (auto simp: validate_miner_tx_def Let_def bindE_eq_Inr hf16_parts_def service_node_reward_formula_def
        governance_sn_def not_less [symmetric] split: if_splits)
  moreover note check_funds_True [OF a(3) n]
  moreover have "map (\<lambda>out. unat (out_amount out)) xs = map unat (map out_amount xs)" for xs :: "tx_out list" by simp
  ultimately show ?thesis
    using check_payouts_True [of K "get_deterministic_keypair_from_height W ?h" 10000000000 ?outs 0 "bw_payouts (get_block_winner st)"]
    by (simp add: hf16_parts_def Let_def del: map_map)
qed

section \<open>An example\<close>

lemma those_Some: "\<forall>x \<in> set xs. f x \<noteq> None \<Longrightarrow> those (map f xs) = Some (map (the \<circ> f) xs)"
  by (induction xs) auto

text \<open>Where every key can be derived, the construction succeeds: its own comparison of the sums never fails.\<close>

lemma construct_miner_tx_returns:
  assumes hf: "16 \<le> hf" and "height \<noteq> 1" and "agc \<noteq> 0"
    and keys: "\<And>a tk i. get_deterministic_output_key K a tk i \<noteq> None"
    and bytes: "length (fst txkey) = 32" "length (fst (get_deterministic_keypair_from_height W height)) = 32"
      "length (bw_key winner) = 32" "length nonce_bytes < 128"
    and pulse: "\<forall>p. pulse = Some p \<longrightarrow> valid_field (extra_pulse_round p)"
  shows "\<exists>tx. construct_miner_tx K W nettype height m agc w fee addr nonce_bytes hf winner pulse txkey d = Inr (Some tx)"
proof -
  let ?g = "get_deterministic_keypair_from_height W height" and ?parts = "hf16_parts height fee (bw_payouts winner)"
  obtain e where e: "coinbase_extra (fst txkey) nonce_bytes (fst ?g) (bw_key winner) pulse = Some e"
    using coinbase_extra_read [OF bytes pulse] by blast
  have "\<exists>paid. service_node_outputs K ?g (rp_service_node_total ?parts) (bw_payouts winner) = Some paid"
    unfolding service_node_outputs_def by (rule exI, rule those_Some) (use keys in auto)
  then obtain paid where paid: "service_node_outputs K ?g (rp_service_node_total ?parts) (bw_payouts winner) = Some paid" ..
  have sn: "out_amounts paid = rp_service_node_paid ?parts"
    using service_node_outputs_Some(4) [OF paid] by (simp add: hf16_parts_def Let_def)
  obtain k gov dev net where k: "get_deterministic_output_key K addr txkey 0 = Some k"
    "get_deterministic_output_key K (gov_wallet_address W nettype hf) ?g (Suc (length paid)) = Some gov"
    "get_deterministic_output_key K (dev_wallet_address W nettype hf) ?g (Suc (Suc (length paid))) = Some dev"
    "get_deterministic_output_key K (net_wallet_address W nettype hf) ?g (Suc (Suc (Suc (length paid)))) = Some net"
    using keys by (metis not_None_eq)
  show ?thesis
    using hf e paid k sn
    by (simp add: construct_miner_tx_def Let_def get_arqma_block_reward_hf16 [OF assms(1-3)] fund_outputs_def
        out_amounts_sum pay_to_def add_ac)
qed

definition plain_coinbase :: coinbase_ops where
  "plain_coinbase = \<lparr>generate_keys = (\<lambda>s. (s, s)), gov_wallet_address = (\<lambda>_ _. (replicate 32 5, replicate 32 5)),
     dev_wallet_address = (\<lambda>_ _. (replicate 32 6, replicate 32 6)), net_wallet_address = (\<lambda>_ _. (replicate 32 7, replicate 32 7))\<rparr>"

definition sample_construct :: "transaction_prefix option outcome" where
  "sample_construct = construct_miner_tx plain_stake plain_coinbase MAINNET 101 0 1 0 5 (replicate 32 8, replicate 32 8) [1, 2, 3] 17
     (get_block_winner sample_state) None (replicate 32 9, replicate 32 9) 50"

lemma sample_winner: "length (bw_key (get_block_winner sample_state)) = 32" "length (bw_payouts (get_block_winner sample_state)) = 3"
proof -
  show "length (bw_key (get_block_winner sample_state)) = 32" by (rule winner_key_length [OF sample_state_ok(3)])
  have q: "reward_queue sample_state = [replicate 32 2, replicate 32 1]" by (simp only: reward_queue_def sample_state_ok) simp
  have "st_service_nodes_infos sample_state = [(replicate 32 1, sample_node 90 [(1, 100)]), (replicate 32 2, sample_node 80 [(2, 34), (3, 33), (4, 33)])]"
    by (simp add: sample_state_def)
  then have "map_of (st_service_nodes_infos sample_state) (replicate 32 2) = Some (sample_node 80 [(2, 34), (3, 33), (4, 33)])" by simp
  then have "bw_payouts (get_block_winner sample_state) = get_payouts (sample_node 80 [(2, 34), (3, 33), (4, 33)])"
    using get_block_winner_queue [OF _ sample_state_ok(4)] sample_state_ok(1) by (auto simp: q nodes_ok_def)
  then show "length (bw_payouts (get_block_winner sample_state)) = 3" by (simp add: get_payouts_def sample_node_def Let_def)
qed

definition sample_coinbase :: block where
  "sample_coinbase = \<lparr>hdr_major_version = 17, hdr_minor_version = 17, hdr_timestamp = 0, hdr_prev_id = null_hash, hdr_nonce = 0,
     miner_tx = (case sample_construct of Inr (Some tx) \<Rightarrow> tx | _ \<Rightarrow> null_transaction_prefix), tx_hashes = []\<rparr>"

lemma sample_keys_derived: "get_deterministic_output_key plain_stake a tk i \<noteq> None"
  by (simp add: get_deterministic_output_key_def plain_stake_def)

lemma sample_gov_key: "length (fst (get_deterministic_keypair_from_height plain_coinbase h)) = 32"
  by (simp add: get_deterministic_keypair_from_height_def plain_coinbase_def)

lemma sample_coinbase_built: "sample_construct = Inr (Some (miner_tx sample_coinbase))" "get_block_height sample_coinbase = 101"
proof -
  obtain tx where tx: "sample_construct = Inr (Some tx)"
    unfolding sample_construct_def
    using construct_miner_tx_returns [of 17 101 1 plain_stake "(replicate 32 9, replicate 32 9)" plain_coinbase
        "get_block_winner sample_state" "[1, 2, 3]" None MAINNET 0 0 5 "(replicate 32 8, replicate 32 8)" 50]
      sample_keys_derived sample_gov_key sample_winner(1) by auto
  have m: "miner_tx sample_coinbase = tx" unfolding sample_coinbase_def block.simps tx by simp
  show "sample_construct = Inr (Some (miner_tx sample_coinbase))" unfolding m by (rule tx)
  have "vin tx = [txin_gen 101]"
    by (rule construct_miner_tx_hf16 [OF _ _ _ tx [unfolded sample_construct_def]]) simp_all
  then show "get_block_height sample_coinbase = 101" by (simp add: get_block_height_def m)
qed

lemmas sample_coinbase_conditions =
  sample_coinbase_built(1) [unfolded sample_construct_def, folded sample_coinbase_built(2)] sample_state_ok(1,4) sample_winner sample_gov_key

theorem constructed_coinbase_accepted_witness:
  "validate_miner_transaction plain_crypto plain_stake plain_coinbase MAINNET sample_state 0 0 sample_coinbase 0 5 1 17 =
    Inr (Some 29000000000)"
proof -
  have h: "get_block_height sample_coinbase = 101" by (rule sample_coinbase_built)
  have "check_pulse_extra plain_crypto sample_state p e x 17" "check_pulse_payload plain_crypto 0 sample_coinbase 17" for p e x
    by (simp_all add: check_pulse_extra_def check_pulse_payload_def hybrid_sn_permitted_def k_hf_hybrid_def)
  from constructed_coinbase_accepted [OF _ _ _ _ sample_state_ok(1,4) _ sample_coinbase_conditions(1) _ _ sample_winner(1) _ _ this]
  show ?thesis using sample_winner(2) by (simp add: h sample_gov_key block_bonus_def)
qed

theorem accepted_coinbase_bounded_witness:
  "total_amount (vout (miner_tx sample_coinbase)) \<le> 29000000006 \<and> 4 \<le> length (vout (miner_tx sample_coinbase))"
proof -
  have h: "get_block_height sample_coinbase = 101" by (rule sample_coinbase_built)
  have pulse: "check_pulse_extra plain_crypto sample_state p e x 17" "check_pulse_payload plain_crypto 0 sample_coinbase 17" for p e x
    by (simp_all add: check_pulse_extra_def check_pulse_payload_def hybrid_sn_permitted_def k_hf_hybrid_def)
  have acc: "prevalidate_miner_transaction sample_coinbase 0 (get_block_height sample_coinbase) 17 \<and>
    validate_miner_transaction plain_crypto plain_stake plain_coinbase MAINNET sample_state 0 0 sample_coinbase 0 5 1 17 =
      Inr (Some (29000000000 + word_of_nat (block_bonus (get_block_height sample_coinbase))))"
    by (rule coinbase_checks [OF _ _ _ _ sample_state_ok(1,4) _ sample_coinbase_conditions(1) _ _ sample_winner(1) _ _ pulse])
      (use sample_winner(2) in \<open>simp_all add: h sample_gov_key\<close>)
  obtain paid where "service_node_outputs plain_stake (get_deterministic_keypair_from_height plain_coinbase 101) 10000000000
      (bw_payouts (get_block_winner sample_state)) = Some paid" "length (vout (miner_tx sample_coinbase)) = 4 + length paid"
    by (rule construct_miner_tx_hf16 [OF _ _ _ sample_coinbase_built(1) [unfolded sample_construct_def]]) simp_all
  then have n: "length (vout (miner_tx sample_coinbase)) = 7"
    using service_node_outputs_Some(1) sample_winner(2) by fastforce
  from accepted_coinbase_bounded [OF _ _ _ _ _ conjunct1 [OF acc] conjunct2 [OF acc]] show ?thesis
    by (simp add: h n block_bonus_def)
qed

end
