(* ===== verification/Base58.thy ===== *)
theory Base58
  imports Int_Util Difficulty Serialization
begin

text \<open>
  The textual encoding of binary data, \<open>common/base58.cpp\<close>: blocks of eight bytes are written as
  eleven digits of base 58, a last shorter block as fewer. The writes go into a string of known
  size, as in the code; a write outside it is \<^const>\<open>Undefined\<close>. The byte order is that of a
  little-endian host.
\<close>

section \<open>Definitions\<close>

definition alphabet :: bytes where
  "alphabet = map (\<lambda>c. of_nat (of_char c)) ''123456789ABCDEFGHJKLMNPQRSTUVWXYZabcdefghijkmnopqrstuvwxyz''"

definition alphabet_size :: nat where
  "alphabet_size = length alphabet"

definition encoded_block_sizes :: "nat list" where
  "encoded_block_sizes = [0, 2, 3, 5, 6, 7, 9, 10, 11]"

definition full_block_size :: nat where
  "full_block_size = length encoded_block_sizes - 1"

definition full_encoded_block_size :: nat where
  "full_encoded_block_size = encoded_block_sizes ! full_block_size"

definition addr_checksum_size :: nat where
  "addr_checksum_size = 4"

definition reverse_alphabet_data :: "int list" where
  "reverse_alphabet_data =
    fold (\<lambda>i m_data. m_data[nat (sint (alphabet ! i) - sint (alphabet ! 0)) := int i]) [0..<alphabet_size]
      (replicate (nat (sint (alphabet ! (alphabet_size - 1)) - sint (alphabet ! 0) + 1)) (- 1))"

definition reverse_alphabet :: "u8 \<Rightarrow> int" where
  "reverse_alphabet letter =
    (let idx = (of_int (sint letter - sint (alphabet ! 0)) :: u64)
     in if unat idx < length reverse_alphabet_data then reverse_alphabet_data ! unat idx else - 1)"

definition decoded_block_sizes_data :: "int list" where
  "decoded_block_sizes_data =
    fold (\<lambda>i m_data. m_data[encoded_block_sizes ! i := int i]) [0..<full_block_size + 1]
      (replicate (encoded_block_sizes ! full_block_size + 1) (- 1))"

definition decoded_block_sizes :: "nat \<Rightarrow> int outcome" where
  "decoded_block_sizes encoded_block_size = at_ub decoded_block_sizes_data encoded_block_size"

definition SWAP64 :: "u64 \<Rightarrow> u64" where
  "SWAP64 x =
     push_bit 56 (x AND 0x00000000000000ff) OR
     push_bit 40 (x AND 0x000000000000ff00) OR
     push_bit 24 (x AND 0x0000000000ff0000) OR
     push_bit 8 (x AND 0x00000000ff000000) OR
     drop_bit 8 (x AND 0x000000ff00000000) OR
     drop_bit 24 (x AND 0x0000ff0000000000) OR
     drop_bit 40 (x AND 0x00ff000000000000) OR
     drop_bit 56 (x AND 0xff00000000000000)"

text \<open>The bytes go to the end of the zeroed word.\<close>

definition uint_8be_to_64 :: "bytes \<Rightarrow> u64" where
  "uint_8be_to_64 data = SWAP64 (le_load (replicate (8 - length data) 0 @ data))"

definition uint_64_to_8be :: "u64 \<Rightarrow> nat \<Rightarrow> bytes" where
  "uint_64_to_8be num sz = drop (8 - sz) (save_uint (SWAP64 num))"

text \<open>Stores through a pointer into a string: one character, and a run of bytes.\<close>

definition store_at :: "bytes \<Rightarrow> int \<Rightarrow> u8 \<Rightarrow> bytes outcome" where
  "store_at str i c = (if 0 \<le> i \<and> nat i < length str then Inr (str[nat i := c]) else Inl Undefined)"

definition store_bytes :: "bytes \<Rightarrow> nat \<Rightarrow> bytes \<Rightarrow> bytes outcome" where
  "store_bytes str i bs =
    (if i + length bs \<le> length str then Inr (take i str @ bs @ drop (i + length bs) str) else Inl Undefined)"

text \<open>\<open>res\<close> is the whole string and \<open>off\<close> the place the pointer \<open>res\<close> of the code points to.\<close>

function encode_digits :: "u64 \<Rightarrow> int \<Rightarrow> nat \<Rightarrow> bytes \<Rightarrow> bytes outcome" where
  "encode_digits num i off res =
    (if 0 < num then
       let remainder = num mod of_nat alphabet_size;
           num = num div of_nat alphabet_size
       in bindE (at_ub alphabet (unat remainder)) (\<lambda>c.
          bindE (store_at res (int off + i) c) (\<lambda>res.
          encode_digits num (i - 1) off res))
     else Inr res)"
  by pat_completeness auto

lemma alphabet_size_58 [simp]: "alphabet_size = 58"
  by (simp add: alphabet_size_def alphabet_def)

termination encode_digits
  by (relation "measure (\<lambda>(num, _). unat num)")
    (simp_all add: unat_div word_less_nat_alt)

declare encode_digits.simps [simp del]

definition encode_block :: "bytes \<Rightarrow> nat \<Rightarrow> bytes \<Rightarrow> bytes outcome" where
  "encode_block block off res =
    (let num = uint_8be_to_64 block
     in bindE (at_ub encoded_block_sizes (length block)) (\<lambda>n. encode_digits num (int n - 1) off res))"

text \<open>The digits from the last to the first.\<close>

fun decode_digits :: "bytes \<Rightarrow> u64 \<Rightarrow> u64 \<Rightarrow> u64 option" where
  "decode_digits [] res_num order = Some res_num"
| "decode_digits (c # cs) res_num order =
    (let digit = reverse_alphabet c
     in if digit < 0 then None
        else let (product_lo, product_hi) = mul128 order (of_int digit);
                 tmp = res_num + product_lo
             in if tmp < res_num \<or> 0 \<noteq> product_hi then None
                else decode_digits cs tmp (order * of_nat alphabet_size))"

definition decode_block :: "bytes \<Rightarrow> nat \<Rightarrow> bytes \<Rightarrow> bytes option outcome" where
  "decode_block block off res =
    bindE (decoded_block_sizes (length block)) (\<lambda>res_size.
      if res_size \<le> 0 then Inr None
      else case decode_digits (rev block) 0 1 of
        None \<Rightarrow> Inr None
      | Some res_num \<Rightarrow>
          if nat res_size < full_block_size \<and> push_bit (8 * nat res_size) 1 \<le> res_num then Inr None
          else bindE (store_bytes res off (uint_64_to_8be res_num (nat res_size))) (\<lambda>res. Inr (Some res)))"

definition encode :: "bytes \<Rightarrow> bytes outcome" where
  "encode data =
    (if data = [] then Inr []
     else
       let full_block_count = length data div full_block_size;
           last_block_size = length data mod full_block_size
       in bindE (at_ub encoded_block_sizes last_block_size) (\<lambda>last_encoded.
          let res_size = full_block_count * full_encoded_block_size + last_encoded
          in bindE (foldE (\<lambda>i. encode_block (take full_block_size (drop (i * full_block_size) data)) (i * full_encoded_block_size))
               [0..<full_block_count] (replicate res_size (alphabet ! 0))) (\<lambda>res.
          if 0 < last_block_size
          then encode_block (take last_block_size (drop (full_block_count * full_block_size) data))
            (full_block_count * full_encoded_block_size) res
          else Inr res)))"

text \<open>A block that fails leaves the loop: the rest of the blocks is not read.\<close>

definition decode_step :: "bytes \<Rightarrow> nat \<Rightarrow> bytes option \<Rightarrow> bytes option outcome" where
  "decode_step enc i r =
    (case r of None \<Rightarrow> Inr None
     | Some data \<Rightarrow> decode_block (take full_encoded_block_size (drop (i * full_encoded_block_size) enc)) (i * full_block_size) data)"

definition decode :: "bytes \<Rightarrow> bytes option outcome" where
  "decode enc =
    (if enc = [] then Inr (Some [])
     else
       let full_block_count = length enc div full_encoded_block_size;
           last_block_size = length enc mod full_encoded_block_size
       in bindE (decoded_block_sizes last_block_size) (\<lambda>last_block_decoded_size.
          if last_block_decoded_size < 0 then Inr None
          else
            let data_size = full_block_count * full_block_size + nat last_block_decoded_size
            in bindE (foldE (decode_step enc) [0..<full_block_count] (Some (replicate data_size 0))) (\<lambda>r.
               case r of None \<Rightarrow> Inr None
               | Some data \<Rightarrow>
                   if 0 < last_block_size
                   then decode_block (take last_block_size (drop (full_block_count * full_encoded_block_size) enc))
                     (full_block_count * full_block_size) data
                   else Inr (Some data))))"

definition encode_addr :: "(bytes \<Rightarrow> hash) \<Rightarrow> u64 \<Rightarrow> bytes \<Rightarrow> bytes outcome" where
  "encode_addr fast_hash tag data =
    (let buf = write_varint tag @ data
     in encode (buf @ take addr_checksum_size (fast_hash buf)))"

definition decode_addr :: "(bytes \<Rightarrow> hash) \<Rightarrow> bytes \<Rightarrow> (u64 \<times> bytes) option outcome" where
  "decode_addr fast_hash addr =
    bindE (decode addr) (\<lambda>r.
      case r of None \<Rightarrow> Inr None
      | Some addr_data \<Rightarrow>
          if length addr_data \<le> addr_checksum_size then Inr None
          else
            let checksum = drop (length addr_data - addr_checksum_size) addr_data;
                addr_data = take (length addr_data - addr_checksum_size) addr_data;
                expected_checksum = take addr_checksum_size (fast_hash addr_data)
            in if expected_checksum \<noteq> checksum then Inr None
               else case read_varint addr_data of
                 Inl _ \<Rightarrow> Inr None
               | Inr (tag, rest) \<Rightarrow>
                   if length addr_data - length rest = 0 then Inr None else Inr (Some (tag, rest)))"

section \<open>The tables\<close>

lemma full_block_size_8 [simp]: "full_block_size = 8"
  by (simp add: full_block_size_def encoded_block_sizes_def)

lemma full_encoded_block_size_11 [simp]: "full_encoded_block_size = 11"
  by (simp add: full_encoded_block_size_def encoded_block_sizes_def)

lemma length_alphabet [simp]: "length alphabet = 58"
  by (simp add: alphabet_def)

lemma reverse_alphabet_data_eq:
  "reverse_alphabet_data =
    [0, 1, 2, 3, 4, 5, 6, 7, 8, - 1, - 1, - 1, - 1, - 1, - 1, - 1, 9, 10, 11, 12, 13, 14, 15, 16, - 1, 17, 18, 19, 20, 21,
     - 1, 22, 23, 24, 25, 26, 27, 28, 29, 30, 31, 32, - 1, - 1, - 1, - 1, - 1, - 1, 33, 34, 35, 36, 37, 38, 39, 40, 41, 42,
     43, - 1, 44, 45, 46, 47, 48, 49, 50, 51, 52, 53, 54, 55, 56, 57]"
  by code_simp

lemma decoded_block_sizes_data_eq:
  "decoded_block_sizes_data = [0, - 1, 1, 2, - 1, 3, 4, 5, - 1, 6, 7, 8]"
  by code_simp


text \<open>The characters as numbers.\<close>

definition alphabet_codes :: "nat list" where
  "alphabet_codes = map of_char ''123456789ABCDEFGHJKLMNPQRSTUVWXYZabcdefghijkmnopqrstuvwxyz''"

lemma alphabet_codes_eq:
  "alphabet_codes =
    [49, 50, 51, 52, 53, 54, 55, 56, 57, 65, 66, 67, 68, 69, 70, 71, 72, 74, 75, 76, 77, 78, 80, 81, 82, 83, 84,
     85, 86, 87, 88, 89, 90, 97, 98, 99, 100, 101, 102, 103, 104, 105, 106, 107, 109, 110, 111, 112, 113, 114, 115,
     116, 117, 118, 119, 120, 121, 122]"
  by (simp add: alphabet_codes_def)

lemma unat_alphabet: "i < 58 \<Longrightarrow> unat (alphabet ! i) = alphabet_codes ! i"
proof -
  have "list_all (\<lambda>n. n < 256) alphabet_codes" by (simp add: alphabet_codes_eq)
  moreover assume i: "i < 58"
  then have "alphabet_codes ! i \<in> set alphabet_codes" by (intro nth_mem) (simp add: alphabet_codes_def)
  ultimately have "alphabet_codes ! i < 256" by (simp add: list_all_iff)
  moreover have "alphabet ! i = word_of_nat (alphabet_codes ! i)"
    using i by (simp add: alphabet_def alphabet_codes_def del: list.map)
  ultimately show ?thesis by (simp add: unat_of_nat)
qed

lemma sint_u8: "sint (c :: u8) = (if unat c < 128 then int (unat c) else int (unat c) - 256)"
proof -
  have "sint c = (uint c + 128) mod 256 - 128"
    by (simp add: sint_uint signed_take_bit_eq_take_bit_shift take_bit_eq_mod)
  moreover have "uint c = int (unat c)" by simp
  moreover define n where "n = unat c"
  ultimately have s: "sint c = (int n + 128) mod 256 - 128" by (simp only:)
  have "n < 256" unfolding n_def by (rule unat8_bound)
  show ?thesis
  proof (cases "n < 128")
    case True
    then show ?thesis unfolding n_def [symmetric] s by (simp add: mod_pos_pos_trivial)
  next
    case False
    then have "int n + 128 = (int n - 128) + 256" by simp
    moreover have "(int n - 128) mod 256 = int n - 128" using False \<open>n < 256\<close> by (intro mod_pos_pos_trivial) auto
    ultimately have "(int n + 128) mod 256 = int n - 128" by (metis mod_add_self2)
    with False show ?thesis unfolding n_def [symmetric] s by simp
  qed
qed

lemma reverse_alphabet_unat:
  "reverse_alphabet letter =
    (if 49 \<le> unat letter \<and> unat letter < 123 then reverse_alphabet_data ! (unat letter - 49) else - 1)"
proof -
  have "unat (alphabet ! 0) = 49" by (simp add: unat_alphabet alphabet_codes_def)
  then have first: "sint (alphabet ! 0) = 49" by (simp add: sint_u8)
  have len: "length reverse_alphabet_data = 74" by (simp add: reverse_alphabet_data_eq)
  define k where "k = sint letter - 49"
  have idx: "unat (of_int k :: u64) = nat (k mod 18446744073709551616)"
    by (simp add: unat_eq_nat_uint uint_word_of_int)
  show ?thesis
  proof (cases "49 \<le> unat letter \<and> unat letter < 123")
    case True
    then have "k = int (unat letter - 49)" by (simp add: k_def sint_u8)
    moreover have "unat letter - 49 < 74" using True by linarith
    ultimately have "unat (of_int k :: u64) = unat letter - 49" using idx by simp
    with True \<open>unat letter - 49 < 74\<close> show ?thesis
      by (simp add: reverse_alphabet_def first k_def [symmetric] len)
  next
    case False
    have "\<not> unat (of_int k :: u64) < 74"
    proof -
      define m where "m = unat letter"
      have "k = (if m < 128 then int m else int m - 256) - 49" by (simp only: k_def sint_u8 m_def)
      moreover have "\<not> (49 \<le> m \<and> m < 123)" "m < 256" unfolding m_def using False unat8_bound [of letter] by auto
      ultimately have "k < 0 \<and> - 200 < k \<or> 74 \<le> k \<and> k < 200" by (auto split: if_splits)
      then have "74 \<le> k mod 18446744073709551616"
      proof
        assume k: "k < 0 \<and> - 200 < k"
        have "k mod 18446744073709551616 = (k + 18446744073709551616) mod 18446744073709551616" by (simp only: mod_add_self2)
        also have "\<dots> = k + 18446744073709551616" using k by (intro mod_pos_pos_trivial) linarith+
        finally show ?thesis using k by linarith
      qed (simp add: mod_pos_pos_trivial)
      then show ?thesis using idx by linarith
    qed
    with False show ?thesis by (auto simp add: reverse_alphabet_def first k_def [symmetric] len)
  qed
qed

lemma reverse_alphabet_alphabet:
  assumes "i < 58"
  shows "reverse_alphabet (alphabet ! i) = int i"
proof -
  have "list_all (\<lambda>n. 49 \<le> n \<and> n < 123) alphabet_codes" by (simp add: alphabet_codes_eq)
  moreover have "map (\<lambda>n. reverse_alphabet_data ! (n - 49)) alphabet_codes = map int [0..<58]"
    by (simp add: alphabet_codes_eq reverse_alphabet_data_eq) code_simp
  moreover have "length alphabet_codes = 58" by (simp add: alphabet_codes_eq)
  ultimately have "49 \<le> alphabet_codes ! i \<and> alphabet_codes ! i < 123 \<and>
      reverse_alphabet_data ! (alphabet_codes ! i - 49) = int i"
    using assms by (metis (no_types, lifting) add_0 diff_zero length_upt list_all_length nth_map nth_upt)
  then show ?thesis using assms by (simp add: reverse_alphabet_unat unat_alphabet)
qed

lemma reverse_alphabet_sound:
  assumes "0 \<le> reverse_alphabet c"
  shows "nat (reverse_alphabet c) < 58 \<and> alphabet ! nat (reverse_alphabet c) = c"
proof -
  define k where "k = unat c - 49"
  from assms have range: "49 \<le> unat c" "unat c < 123" and r: "reverse_alphabet c = reverse_alphabet_data ! k"
    by (auto simp: reverse_alphabet_unat k_def split: if_splits)
  have k: "k < 74" "k + 49 = unat c" using range by (auto simp: k_def)
  have "list_all (\<lambda>(n, d). 0 \<le> d \<longrightarrow> nat d < 58 \<and> alphabet_codes ! nat d = n) (zip [49..<123] reverse_alphabet_data)"
    by (simp add: reverse_alphabet_data_eq alphabet_codes_eq upt_rec_numeral)
  moreover have "length (zip [49..<123] reverse_alphabet_data) = 74" by (simp add: reverse_alphabet_data_eq)
  ultimately have "0 \<le> reverse_alphabet_data ! k \<longrightarrow> nat (reverse_alphabet_data ! k) < 58 \<and>
      alphabet_codes ! nat (reverse_alphabet_data ! k) = 49 + k"
    using k(1) by (simp add: list_all_length del: upt_rec_numeral)
  with assms r have "nat (reverse_alphabet_data ! k) < 58" "unat (alphabet ! nat (reverse_alphabet_data ! k)) = unat c"
    using k(2) by (simp_all add: unat_alphabet)
  then show ?thesis unfolding r by (simp add: word_unat_eq_iff)
qed

section \<open>Byte order\<close>

lemma bit_le_load:
  "length bs \<le> 8 \<Longrightarrow> bit (le_load bs) n \<longleftrightarrow> n div 8 < length bs \<and> bit (bs ! (n div 8)) (n mod 8)"
proof (induction bs arbitrary: n)
  case Nil
  then show ?case by simp
next
  case (Cons b bs)
  have "256 * le_load bs = push_bit 8 (le_load bs)" by (simp add: push_bit_eq_mult)
  moreover have "ucast b AND push_bit 8 (le_load bs) = 0"
    by (rule bit_word_eqI) (auto simp: bit_simps dest: bit_imp_le_length)
  ultimately have step: "le_load (b # bs) = ucast b OR push_bit 8 (le_load bs)"
    by (simp add: disjunctive_add_eq_or [symmetric])
  show ?case
  proof (cases "n < 8")
    case True
    then show ?thesis by (simp only: step) (simp add: bit_simps)
  next
    case False
    then obtain m where m: "n = m + 8" by (metis add.commute le_Suc_ex not_le)
    have div: "n div 8 = Suc (m div 8)" "n mod 8 = m mod 8" by (simp_all add: m)
    have "bit (le_load (b # bs)) n \<longleftrightarrow> n < 64 \<and> bit (le_load bs) m"
      unfolding step using bit_imp_le_length [of b n] by (auto simp: bit_simps m)
    also have "\<dots> \<longleftrightarrow> n < 64 \<and> m div 8 < length bs \<and> bit (bs ! (m div 8)) (m mod 8)"
      using Cons by simp
    also have "\<dots> \<longleftrightarrow> m div 8 < length bs \<and> bit (bs ! (m div 8)) (m mod 8)"
      using Cons.prems m by (auto simp: div_less_iff_less_mult)
    finally show ?thesis by (simp add: div)
  qed
qed

lemma byte_mask:
  "(0x00000000000000ff :: u64) = push_bit 0 (mask 8)" "(0x000000000000ff00 :: u64) = push_bit 8 (mask 8)"
  "(0x0000000000ff0000 :: u64) = push_bit 16 (mask 8)" "(0x00000000ff000000 :: u64) = push_bit 24 (mask 8)"
  "(0x000000ff00000000 :: u64) = push_bit 32 (mask 8)" "(0x0000ff0000000000 :: u64) = push_bit 40 (mask 8)"
  "(0x00ff000000000000 :: u64) = push_bit 48 (mask 8)" "(0xff00000000000000 :: u64) = push_bit 56 (mask 8)"
  by (simp_all add: mask_eq_exp_minus_1 push_bit_eq_mult)

lemma bit_SWAP64: "n < 64 \<Longrightarrow> bit (SWAP64 x) n \<longleftrightarrow> bit x (8 * (7 - n div 8) + n mod 8)"
proof -
  assume n: "n < 64"
  define q r where "q = n div 8" and "r = n mod 8"
  have qr: "n = 8 * q + r" "r < 8" "q < 8" using n by (simp_all add: q_def r_def)
  from qr(3) consider "q = 0" | "q = 1" | "q = 2" | "q = 3" | "q = 4" | "q = 5" | "q = 6" | "q = 7" by linarith
  then have "bit (SWAP64 x) (8 * q + r) \<longleftrightarrow> bit x (8 * (7 - q) + r)"
    by cases (use qr(2) in \<open>auto simp: SWAP64_def byte_mask bit_simps simp del: push_bit_numeral_minus_1\<close>)
  then show ?thesis by (simp only: q_def [symmetric] r_def [symmetric]) (simp only: qr(1))
qed

lemma SWAP64_le_load:
  assumes "length bs = 8"
  shows "SWAP64 (le_load bs) = le_load (rev bs)"
proof (rule bit_word_eqI)
  fix n assume "n < LENGTH(64)"
  then have n: "n < 64" "n div 8 < 8" by simp_all
  have lt: "7 - n div 8 < 8" by linarith
  have d: "(8 * (7 - n div 8) + n mod 8) div 8 = 7 - n div 8" "(8 * (7 - n div 8) + n mod 8) mod 8 = n mod 8"
    by simp_all
  have "bit (SWAP64 (le_load bs)) n \<longleftrightarrow> bit (bs ! (7 - n div 8)) (n mod 8)"
    using n assms lt by (simp add: bit_SWAP64 bit_le_load d)
  also have "\<dots> \<longleftrightarrow> bit (rev bs ! (n div 8)) (n mod 8)" using n assms by (simp add: rev_nth)
  also have "\<dots> \<longleftrightarrow> bit (le_load (rev bs)) n" using n assms by (simp add: bit_le_load)
  finally show "bit (SWAP64 (le_load bs)) n \<longleftrightarrow> bit (le_load (rev bs)) n" .
qed

text \<open>The number a list of digits stands for, most significant first, and the digits of a number.\<close>

definition digits_val :: "nat \<Rightarrow> nat list \<Rightarrow> nat" where
  "digits_val b ds = foldl (\<lambda>v d. v * b + d) 0 ds"

fun digits_of :: "nat \<Rightarrow> nat \<Rightarrow> nat \<Rightarrow> nat list" where
  "digits_of b 0 v = []"
| "digits_of b (Suc n) v = digits_of b n (v div b) @ [v mod b]"

lemma digits_val_snoc [simp]: "digits_val b (ds @ [d]) = digits_val b ds * b + d"
  by (simp add: digits_val_def)

lemma digits_val_Nil [simp]: "digits_val b [] = 0"
  by (simp add: digits_val_def)

lemma length_digits_of [simp]: "length (digits_of b n v) = n"
  by (induction n arbitrary: v) simp_all

lemma digits_of_less: "0 < b \<Longrightarrow> d \<in> set (digits_of b n v) \<Longrightarrow> d < b"
  by (induction n arbitrary: v) auto

lemma digits_val_of: "v < b ^ n \<Longrightarrow> digits_val b (digits_of b n v) = v"
proof (induction n arbitrary: v)
  case (Suc n)
  then have "v div b < b ^ n" by (metis less_mult_imp_div_less mult.commute power_Suc)
  with Suc.IH show ?case by (simp add: div_mult_mod_eq)
qed simp

lemma digits_of_val: "\<forall>d \<in> set ds. d < b \<Longrightarrow> digits_of b (length ds) (digits_val b ds) = ds"
  by (induction ds rule: rev_induct) auto

lemma digits_val_less: "\<forall>d \<in> set ds. d < b \<Longrightarrow> digits_val b ds < b ^ length ds"
proof (induction ds rule: rev_induct)
  case (snoc d ds)
  then have "Suc (digits_val b ds) * b \<le> b ^ length ds * b" by (intro mult_right_mono) auto
  with snoc.prems show ?case by (simp add: mult.commute)
qed simp

lemma digits_val_zeros: "digits_val b (replicate n 0 @ ds) = digits_val b ds"
proof (induction ds rule: rev_induct)
  case Nil
  show ?case by (induction n) (simp_all add: replicate_append_same [symmetric])
next
  case (snoc d ds)
  then show ?case using digits_val_snoc [of b "replicate n 0 @ ds" d] by simp
qed

lemma le_nat_rev: "le_nat (rev bs) = digits_val 256 (map unat bs)"
  by (induction bs rule: rev_induct) simp_all

lemma unat_uint_8be_to_64:
  assumes "length data \<le> 8"
  shows "unat (uint_8be_to_64 data) = digits_val 256 (map unat data)"
proof -
  let ?bs = "replicate (8 - length data) 0 @ data"
  have "length ?bs = 8" using assms by simp
  then have "unat (uint_8be_to_64 data) = le_nat (rev ?bs)"
    unfolding uint_8be_to_64_def by (simp only: SWAP64_le_load le_load_nat length_rev order_refl)
  also have "\<dots> = digits_val 256 (map unat ?bs)" by (rule le_nat_rev)
  finally show ?thesis by (simp add: digits_val_zeros)
qed

lemma save_uint_bytes_digits:
  "map unat (save_uint_bytes n (v :: u64)) = rev (digits_of 256 n (unat v))"
proof (induction n arbitrary: v)
  case (Suc n)
  have "v AND 0xff = take_bit 8 v" by (simp add: take_bit_eq_mask mask_eq_exp_minus_1)
  then have "unat (ucast (v AND 0xff) :: u8) = unat v mod 256"
    by (simp add: unsigned_ucast_eq unsigned_take_bit_eq take_bit_eq_mod unat_mod)
  moreover have "unat (drop_bit 8 v) = unat v div 256" by (simp add: unat_drop_bit_eq drop_bit_eq_div unat_div)
  ultimately show ?case using Suc.IH [of "drop_bit 8 v"] by simp
qed simp

lemma length_save_uint64 [simp]: "length (save_uint (v :: u64)) = 8"
  using arg_cong [OF save_uint_bytes_digits, of length 8 v] by (simp add: save_uint_def)

lemma le_nat_save_uint: "le_nat (save_uint (v :: u64)) = unat v"
proof -
  have "le_nat (save_uint v) = digits_val 256 (rev (map unat (save_uint v)))"
    using le_nat_rev [of "rev (save_uint v)"] by (simp add: rev_map)
  also have "map unat (save_uint v) = rev (digits_of 256 8 (unat v))"
    using save_uint_bytes_digits [of 8 v] by (simp add: save_uint_def)
  also have "digits_val 256 (rev (rev (digits_of 256 8 (unat v)))) = unat v"
    using unat64_bound [of v] by (simp add: digits_val_of)
  finally show ?thesis .
qed

lemma le_load_save_uint: "le_load (save_uint v) = v"
  by (simp add: word_unat_eq_iff le_load_nat le_nat_save_uint)

lemma save_uint_SWAP64: "save_uint (SWAP64 v) = rev (save_uint v)"
proof -
  have "SWAP64 v = le_load (rev (save_uint v))"
    using SWAP64_le_load [of "save_uint v"] by (simp add: le_load_save_uint)
  then have "unat (SWAP64 v) = le_nat (rev (save_uint v))" by (simp add: le_load_nat)
  moreover have "map unat (save_uint (SWAP64 v)) = rev (digits_of 256 8 (unat (SWAP64 v)))"
    using save_uint_bytes_digits [of 8 "SWAP64 v"] by (simp add: save_uint_def)
  moreover have "\<forall>d \<in> set (map unat (save_uint v)). d < 256" by (auto simp: unat8_bound)
  ultimately have "map unat (save_uint (SWAP64 v)) = map unat (rev (save_uint v))"
    using digits_of_val [of "map unat (save_uint v)" 256] by (simp add: le_nat_rev rev_map)
  then show ?thesis by (auto simp: word_unat_eq_iff dest: map_injective intro: injI)
qed

lemma drop_digits_of: "drop k (digits_of b (k + n) v) = digits_of b n v"
  by (induction n arbitrary: v) simp_all

lemma uint_64_to_8be_digits:
  assumes "n \<le> 8"
  shows "map unat (uint_64_to_8be v n) = digits_of 256 n (unat v)"
proof -
  have "map unat (save_uint v) = rev (digits_of 256 8 (unat v))"
    using save_uint_bytes_digits [of 8 v] by (simp add: save_uint_def)
  then have "map unat (uint_64_to_8be v n) = drop (8 - n) (digits_of 256 8 (unat v))"
    by (simp add: uint_64_to_8be_def save_uint_SWAP64 flip: drop_map rev_map)
  also have "\<dots> = digits_of 256 n (unat v)"
    using drop_digits_of [of "8 - n" 256 n "unat v"] assms by simp
  finally show ?thesis .
qed

lemma length_uint_64_to_8be: "n \<le> 8 \<Longrightarrow> length (uint_64_to_8be v n) = n"
  using arg_cong [OF uint_64_to_8be_digits, of n length v] by simp

section \<open>One block\<close>

text \<open>What a block of bytes is written as.\<close>

definition block_text :: "bytes \<Rightarrow> bytes" where
  "block_text b = map ((!) alphabet) (digits_of 58 (encoded_block_sizes ! length b) (digits_val 256 (map unat b)))"

lemma length_block_text [simp]: "length (block_text b) = encoded_block_sizes ! length b"
  by (simp add: block_text_def)

lemma encode_digits_text:
  assumes "off + n \<le> length res" and "unat num < 58 ^ n" and "take n (drop off res) = replicate n (alphabet ! 0)"
  shows "encode_digits num (int n - 1) off res =
    Inr (take off res @ map ((!) alphabet) (digits_of 58 n (unat num)) @ drop (off + n) res)"
  using assms
proof (induction n arbitrary: num res)
  case 0
  then have "num = 0" by (simp add: word_unat_eq_iff)
  then show ?case by (simp add: encode_digits.simps)
next
  case (Suc n)
  show ?case
  proof (cases "num = 0")
    case True
    have "digits_of 58 k 0 = replicate k 0" for k by (induction k) (simp_all add: replicate_append_same)
    then have "map ((!) alphabet) (digits_of 58 (Suc n) (unat num)) = take (Suc n) (drop off res)"
      unfolding True Suc.prems(3) by (simp only: unsigned_0 map_replicate)
    then have "take off res @ map ((!) alphabet) (digits_of 58 (Suc n) (unat num)) @ drop (off + Suc n) res = res"
      by (metis append_take_drop_id drop_drop add.commute)
    then show ?thesis using True by (simp add: encode_digits.simps)
  next
    case False
    define c where "c = alphabet ! (unat num mod 58)"
    define res' where "res' = res[off + n := c]"
    have q: "unat (num div 58) = unat num div 58" "unat (num mod 58) = unat num mod 58"
      by (simp_all add: unat_div unat_mod)
    have "unat num div 58 < 58 ^ n" using Suc.prems(2) by (simp add: div_less_iff_less_mult mult.commute)
    moreover have "take n (drop off res') = replicate n (alphabet ! 0)"
      using arg_cong [OF Suc.prems(3), of "take n"] by (simp add: res'_def drop_update_swap min_def take_replicate del: replicate_Suc)
    ultimately have "encode_digits (num div 58) (int n - 1) off res' =
        Inr (take off res' @ map ((!) alphabet) (digits_of 58 n (unat num div 58)) @ drop (off + n) res')"
      using Suc.IH [of res' "num div 58"] Suc.prems(1) q by (simp add: res'_def)
    moreover have "take off res' = take off res" by (simp add: res'_def)
    moreover have "drop (off + n) res' = c # drop (off + Suc n) res"
      using Suc.prems(1) Cons_nth_drop_Suc [of "off + n" res'] by (simp add: res'_def)
    moreover have "encode_digits num (int (Suc n) - 1) off res = encode_digits (num div 58) (int n - 1) off res'"
      using False Suc.prems(1) q
      by (subst encode_digits.simps) (simp add: word_gt_0 at_ub_def store_at_def c_def res'_def nat_add_distrib)
    ultimately show ?thesis by (simp add: c_def)
  qed
qed

text \<open>The digits suffice for every block, and no smaller number of them would.\<close>

lemma block_sizes:
  assumes "n \<le> 8"
  shows "256 ^ n \<le> (58 :: nat) ^ (encoded_block_sizes ! n)" and "n = 0 \<or> (58 :: nat) ^ (encoded_block_sizes ! n - 1) < 256 ^ n"
proof -
  from assms consider "n = 0" | "n = 1" | "n = 2" | "n = 3" | "n = 4" | "n = 5" | "n = 6" | "n = 7" | "n = 8" by linarith
  then show "256 ^ n \<le> (58 :: nat) ^ (encoded_block_sizes ! n)" by cases (simp_all add: encoded_block_sizes_def)
  from assms consider "n = 0" | "n = 1" | "n = 2" | "n = 3" | "n = 4" | "n = 5" | "n = 6" | "n = 7" | "n = 8" by linarith
  then show "n = 0 \<or> (58 :: nat) ^ (encoded_block_sizes ! n - 1) < 256 ^ n" by cases (simp_all add: encoded_block_sizes_def)
qed

lemma encoded_size_0:
  assumes "encoded_block_sizes ! n = 0" and "n \<le> 8"
  shows "n = 0"
proof (rule ccontr)
  assume "n \<noteq> 0"
  then have "1 < (256 :: nat) ^ n" by (intro one_less_power) auto
  with block_sizes(1) [OF assms(2)] assms(1) show False by simp
qed

lemma bytes_val_less: "digits_val 256 (map unat (b :: bytes)) < 256 ^ length b"
  using digits_val_less [of "map unat b" 256] by (auto simp: unat8_bound)

lemma encode_block_text:
  assumes "length b \<le> 8" and "n = encoded_block_sizes ! length b" and "off + n \<le> length res"
    and "take n (drop off res) = replicate n (alphabet ! 0)"
  shows "encode_block b off res = Inr (take off res @ block_text b @ drop (off + n) res)"
proof -
  have "unat (uint_8be_to_64 b) < 58 ^ n"
    using less_le_trans [OF bytes_val_less block_sizes(1) [OF assms(1)]] assms(1,2) by (simp add: unat_uint_8be_to_64)
  from encode_digits_text [OF assms(3) this assms(4)] show ?thesis
    using assms(1,2) by (simp add: encode_block_def at_ub_def encoded_block_sizes_def block_text_def unat_uint_8be_to_64)
qed

text \<open>The digits of a text, and the digits that the loop of \<^const>\<open>decode_digits\<close> has read.\<close>

definition text_digits :: "bytes \<Rightarrow> nat list" where
  "text_digits t = map (nat \<circ> reverse_alphabet) t"

definition is_text :: "bytes \<Rightarrow> bool" where
  "is_text t \<longleftrightarrow> (\<forall>c \<in> set t. 0 \<le> reverse_alphabet c)"

lemma text_digits_alphabet:
  "\<forall>d \<in> set ds. d < 58 \<Longrightarrow> is_text (map ((!) alphabet) ds) \<and> text_digits (map ((!) alphabet) ds) = ds"
  by (induction ds) (simp_all add: is_text_def text_digits_def reverse_alphabet_alphabet)

lemma alphabet_text_digits:
  "is_text t \<Longrightarrow> map ((!) alphabet) (text_digits t) = t \<and> (\<forall>d \<in> set (text_digits t). d < 58)"
  by (induction t) (simp_all add: is_text_def text_digits_def reverse_alphabet_sound)

lemma decode_digits_val:
  assumes "k + length cs \<le> 11" and "k \<le> 10 \<longrightarrow> unat order = 58 ^ k"
  shows "decode_digits cs r order = Some v \<longleftrightarrow>
    is_text cs \<and> unat r + 58 ^ k * digits_val 58 (text_digits (rev cs)) = unat v"
  using assms
proof (induction cs arbitrary: k r order)
  case Nil
  then show ?case by (auto simp: is_text_def text_digits_def word_unat_eq_iff)
next
  case (Cons c cs)
  define V where "V = digits_val 58 (text_digits (rev cs))"
  have k: "k \<le> 10" "unat order = 58 ^ k" using Cons.prems by auto
  show ?case
  proof (cases "0 \<le> reverse_alphabet c")
    case False
    then show ?thesis by (simp add: is_text_def)
  next
    case True
    define d where "d = nat (reverse_alphabet c)"
    have d: "reverse_alphabet c = int d" "d < 58" using True reverse_alphabet_sound [OF True] by (simp_all add: d_def)
    obtain lo hi where m: "mul128 order (of_int (int d)) = (lo, hi)" by fastforce
    have "unat (of_int (int d) :: u64) = d" using d(2) by (simp add: unat_of_nat)
    then have p: "unat hi * 2 ^ 64 + unat lo = 58 ^ k * d" using mul128_correct [OF m] k(2) by (simp add: cat128_def)
    have whole: "digits_val 58 (text_digits (rev (c # cs))) = V * 58 + d"
      by (simp add: text_digits_def V_def d_def)
    have sum: "unat r + 58 ^ k * (V * 58 + d) = unat r + 58 ^ k * d + 58 ^ Suc k * V" by (simp add: algebra_simps)
    show ?thesis
    proof (cases "r + lo < r \<or> hi \<noteq> 0")
      case True
      have "2 ^ 64 \<le> unat r + 58 ^ k * d"
      proof (cases "hi = 0")
        case True
        with \<open>r + lo < r \<or> hi \<noteq> 0\<close> have "\<not> unat r + unat lo < 2 ^ 64"
          by (auto simp: word_less_nat_alt unat_add_less)
        with True p show ?thesis by simp
      next
        case False
        then have "1 \<le> unat hi" by (simp add: Suc_leI unat_gt_0)
        then have "1 * 2 ^ 64 \<le> unat hi * 2 ^ 64" by (rule mult_right_mono) simp
        then show ?thesis unfolding p [symmetric] by simp
      qed
      then have "unat r + 58 ^ k * (V * 58 + d) \<noteq> unat v" using unat64_bound [of v] sum by simp
      with True show ?thesis by (simp only: decode_digits.simps Let_def d(1) m whole) auto
    next
      case False
      then have "unat lo = 58 ^ k * d" using p by simp
      moreover have "unat r + unat lo < 2 ^ 64"
      proof (rule ccontr)
        assume "\<not> unat r + unat lo < 2 ^ 64"
        then have "unat (r + lo) = unat r + unat lo - 2 ^ 64"
          using unat64_bound [of r] unat64_bound [of lo] by (simp add: unat_word_ariths mod_if)
        then show False using False unat64_bound [of lo] unat64_bound [of r] \<open>\<not> unat r + unat lo < 2 ^ 64\<close>
          by (auto simp: word_less_nat_alt)
      qed
      ultimately have tmp: "unat (r + lo) = unat r + 58 ^ k * d" by (simp add: unat_add_less)
      have "Suc k \<le> 10 \<longrightarrow> unat (order * of_nat alphabet_size) = 58 ^ Suc k"
      proof
        assume "Suc k \<le> 10"
        then have "(58 :: nat) ^ Suc k \<le> 58 ^ 10" by (rule power_increasing) simp
        then have "unat order * unat (58 :: u64) < 2 ^ LENGTH(64)" using k(2) by (simp add: mult.commute)
        from unat_mult_less [OF this] show "unat (order * of_nat alphabet_size) = 58 ^ Suc k" using k(2) by simp
      qed
      from Cons.IH [OF _ this, of "r + lo"] Cons.prems(1)
      have "decode_digits cs (r + lo) (order * of_nat alphabet_size) = Some v \<longleftrightarrow>
          is_text cs \<and> unat r + 58 ^ k * (V * 58 + d) = unat v"
        unfolding sum by (simp add: tmp V_def)
      with False d(1) show ?thesis unfolding whole
        by (simp add: m [simplified] is_text_def del: alphabet_size_58)
    qed
  qed
qed

lemma decoded_size:
  assumes "m \<le> 8"
  shows "decoded_block_sizes (encoded_block_sizes ! m) = Inr (int m)"
proof -
  from assms consider "m = 0" | "m = 1" | "m = 2" | "m = 3" | "m = 4" | "m = 5" | "m = 6" | "m = 7" | "m = 8" by linarith
  then show ?thesis
    by cases (simp_all add: decoded_block_sizes_def decoded_block_sizes_data_eq encoded_block_sizes_def at_ub_def)
qed

lemma decoded_size_cases:
  assumes "n \<le> 11"
  obtains "decoded_block_sizes n = Inr (- 1)" "n \<notin> set encoded_block_sizes"
  | m where "m \<le> 8" "n = encoded_block_sizes ! m" "decoded_block_sizes n = Inr (int m)"
proof -
  have "list_all (\<lambda>n. decoded_block_sizes n = Inr (- 1) \<and> n \<notin> set encoded_block_sizes \<or>
      list_ex (\<lambda>m. n = encoded_block_sizes ! m) [0..<9]) [0..<12]"
    by code_simp
  then have "decoded_block_sizes n = Inr (- 1) \<and> n \<notin> set encoded_block_sizes \<or>
      list_ex (\<lambda>m. n = encoded_block_sizes ! m) [0..<9]"
    using assms by (simp only: list_all_iff set_upt atLeastLessThan_iff) (simp del: upt_rec_numeral)
  then show thesis
  proof
    assume "list_ex (\<lambda>m. n = encoded_block_sizes ! m) [0..<9]"
    then obtain m where "m < 9" "n = encoded_block_sizes ! m" by (auto simp: list_ex_iff)
    then have "m \<le> 8" "n = encoded_block_sizes ! m" by simp_all
    with decoded_size that(2) show thesis by blast
  qed (use that(1) in blast)
qed

lemma encoded_size_le: "m \<le> 8 \<Longrightarrow> encoded_block_sizes ! m \<le> 11"
proof -
  assume "m \<le> 8"
  then have "encoded_block_sizes ! m \<in> set encoded_block_sizes" by (intro nth_mem) (simp add: encoded_block_sizes_def)
  then show ?thesis by (auto simp: encoded_block_sizes_def)
qed

text \<open>The value test after the loop of \<^const>\<open>decode_block\<close>.\<close>

lemma block_fits:
  assumes "1 \<le> m" and "m \<le> 8"
  shows "m < full_block_size \<and> push_bit (8 * m) 1 \<le> (v :: u64) \<longleftrightarrow> \<not> unat v < 256 ^ m"
proof (cases "m < 8")
  case True
  then have "8 * m \<le> 56" by simp
  then have "(2 :: nat) ^ (8 * m) < 2 ^ 64" by (intro power_strict_increasing) auto
  then have "unat (of_nat (2 ^ (8 * m)) :: u64) = 2 ^ (8 * m)" by (rule unat_of_nat_small)
  then have "unat (push_bit (8 * m) 1 :: u64) = 2 ^ (8 * m)" by (simp add: push_bit_eq_mult)
  then show ?thesis using True by (simp add: word_le_nat_alt not_less power_mult)
next
  case False
  then show ?thesis using assms unat64_bound [of v] by simp
qed

lemma decode_block_eq:
  assumes "1 \<le> m" and "m \<le> 8" and "length t = encoded_block_sizes ! m" and "off + m \<le> length res"
  shows "decode_block t off res =
    Inr (if is_text t \<and> digits_val 58 (text_digits t) < 256 ^ m
      then Some (take off res @ uint_64_to_8be (of_nat (digits_val 58 (text_digits t))) m @ drop (off + m) res) else None)"
proof -
  define V where "V = digits_val 58 (text_digits t)"
  have "(256 :: nat) ^ m \<le> 256 ^ 8" by (rule power_increasing) (use assms(2) in auto)
  then have small: "256 ^ m \<le> (2 :: nat) ^ 64" by simp
  have loop: "decode_digits (rev t) 0 1 = Some v \<longleftrightarrow> is_text t \<and> V = unat v" for v
    using decode_digits_val [of 0 "rev t" 1 0 v] assms(2,3) encoded_size_le by (simp add: V_def is_text_def)
  have dec: "decoded_block_sizes (length t) = Inr (int m)" using decoded_size assms(2,3) by simp
  show ?thesis
  proof (cases "is_text t \<and> V < 256 ^ m")
    case True
    then have u: "unat (of_nat V :: u64) = V" using small by (simp add: unat_of_nat)
    with True loop have "decode_digits (rev t) 0 1 = Some (of_nat V)" by simp
    with True u show ?thesis using assms dec block_fits [OF assms(1,2), of "of_nat V"]
      by (simp add: decode_block_def store_bytes_def length_uint_64_to_8be V_def del: full_block_size_8)
  next
    case False
    show ?thesis
    proof (cases "decode_digits (rev t) 0 1")
      case None
      with False dec show ?thesis using assms(1) by (simp add: decode_block_def V_def)
    next
      case (Some v)
      then have "\<not> unat v < 256 ^ m" using loop [of v] False by simp
      with False dec Some show ?thesis using assms(1) block_fits [OF assms(1,2), of v]
        by (simp add: decode_block_def V_def del: full_block_size_8)
    qed
  qed
qed

lemma decode_block_text:
  assumes "b \<noteq> []" and "length b \<le> 8" and "off + length b \<le> length res"
  shows "decode_block (block_text b) off res = Inr (Some (take off res @ b @ drop (off + length b) res))"
proof -
  let ?V = "digits_val 256 (map unat b)" and ?m = "length b"
  have V: "?V < 256 ^ ?m" by (rule bytes_val_less)
  have "\<forall>d \<in> set (digits_of 58 n v). d < 58" for n v by (auto dest: digits_of_less [rotated])
  then have "is_text (block_text b)" "text_digits (block_text b) = digits_of 58 (encoded_block_sizes ! ?m) ?V"
    using text_digits_alphabet by (simp_all add: block_text_def)
  moreover have "digits_val 58 (digits_of 58 (encoded_block_sizes ! ?m) ?V) = ?V"
    using less_le_trans [OF V block_sizes(1) [OF assms(2)]] by (rule digits_val_of)
  moreover have "uint_64_to_8be (of_nat ?V) ?m = b"
  proof -
    have "(256 :: nat) ^ ?m \<le> 256 ^ 8" by (rule power_increasing) (use assms(2) in auto)
    then have "unat (of_nat ?V :: u64) = ?V" using V by (intro unat_of_nat_small) simp
    then have "map unat (uint_64_to_8be (of_nat ?V) ?m) = map unat b"
      using uint_64_to_8be_digits [OF assms(2), of "of_nat ?V"] digits_of_val [of "map unat b" 256]
      by (auto simp: unat8_bound)
    then show ?thesis by (auto simp: word_unat_eq_iff dest: map_injective intro: injI)
  qed
  ultimately show ?thesis using decode_block_eq [of ?m "block_text b" off res] assms V
    by (simp add: Suc_le_eq)
qed

lemma decode_block_only_text:
  assumes "1 \<le> m" and "m \<le> 8" and "length t = encoded_block_sizes ! m" and "off + m \<le> length res"
    and "decode_block t off res = Inr (Some res')"
  shows "\<exists>b. length b = m \<and> block_text b = t"
proof -
  let ?V = "digits_val 58 (text_digits t)"
  from assms(5) have t: "is_text t" and V: "?V < 256 ^ m" by (simp_all add: decode_block_eq [OF assms(1-4)] split: if_splits)
  define b where "b = uint_64_to_8be (of_nat ?V) m"
  have "(256 :: nat) ^ m \<le> 256 ^ 8" by (rule power_increasing) (use assms(2) in auto)
  then have "unat (of_nat ?V :: u64) = ?V" using V by (intro unat_of_nat_small) simp
  then have "map unat b = digits_of 256 m ?V" using uint_64_to_8be_digits [OF assms(2)] by (simp add: b_def)
  then have "digits_val 256 (map unat b) = ?V" using V by (simp add: digits_val_of)
  moreover have "length b = m" using assms(2) by (simp add: b_def length_uint_64_to_8be)
  moreover have "digits_of 58 (length t) ?V = text_digits t"
    using digits_of_val [of "text_digits t" 58] alphabet_text_digits [OF t] by (simp add: text_digits_def)
  ultimately have "block_text b = t" using alphabet_text_digits [OF t] assms(3) by (simp add: block_text_def)
  with \<open>length b = m\<close> show ?thesis by blast
qed

section \<open>Whole strings\<close>

text \<open>The text of a byte string: the texts of its blocks one after the other.\<close>

function text_of :: "bytes \<Rightarrow> bytes" where
  "text_of data = (if data = [] then [] else block_text (take 8 data) @ text_of (drop 8 data))"
  by pat_completeness auto

termination text_of
  by (relation "measure length") auto

declare text_of.simps [simp del]

lemma text_of_Nil [simp]: "text_of [] = []"
  by (simp add: text_of.simps)

lemma text_of_short: "length b \<le> 8 \<Longrightarrow> text_of b = block_text b"
  by (cases "b = []") (simp_all add: text_of.simps [of b] block_text_def encoded_block_sizes_def)

lemma text_of_append: "length xs = 8 * n \<Longrightarrow> text_of (xs @ ys) = text_of xs @ text_of ys"
proof (induction n arbitrary: xs)
  case (Suc n)
  then have "xs \<noteq> []" "8 \<le> length xs" by auto
  with Suc.IH [of "drop 8 xs"] Suc.prems show ?case
    by (simp add: text_of.simps [of xs] text_of.simps [of "xs @ ys"])
qed simp

lemma length_text_of_full: "length xs = 8 * n \<Longrightarrow> length (text_of xs) = 11 * n"
proof (induction n arbitrary: xs)
  case (Suc n)
  then have "xs \<noteq> []" "8 \<le> length xs" by auto
  with Suc.IH [of "drop 8 xs"] Suc.prems show ?case
    by (simp add: text_of.simps [of xs] encoded_block_sizes_def)
qed simp

lemma encode_text: "encode data = Inr (text_of data)"
proof (cases "data = []")
  case False
  define q r where "q = length data div 8" and "r = length data mod 8"
  have len: "length data = 8 * q + r" "r < 8" by (simp_all add: q_def r_def)
  define e where "e = encoded_block_sizes ! r"
  let ?res = "replicate (q * 11 + e) (alphabet ! 0)"
  let ?P = "\<lambda>i res. res = text_of (take (8 * i) data) @ replicate (11 * (q - i) + e) (alphabet ! 0)"
  let ?f = "\<lambda>i. encode_block (take full_block_size (drop (i * full_block_size) data)) (i * full_encoded_block_size)"
  have full: "length (text_of (take (8 * i) data)) = 11 * i" if "i \<le> q" for i
    using that len by (intro length_text_of_full) simp
  have "\<exists>t. foldE ?f [0..<q] ?res = Inr t \<and> ?P q t"
  proof (rule foldE_upt [where P = ?P])
    fix i res assume i: "0 \<le> i" "i < q" "?P i res"
    let ?b = "take 8 (drop (8 * i) data)"
    have b: "length ?b = 8" using i len by simp
    have rest: "11 * (q - i) + e = 11 + (11 * (q - Suc i) + e)" using i by simp
    have "11 * i + 11 \<le> length res" "take 11 (drop (11 * i) res) = replicate 11 (alphabet ! 0)"
      using i full [of i] by (simp_all add: take_replicate)
    then have "encode_block ?b (11 * i) res = Inr (take (11 * i) res @ block_text ?b @ drop (11 * i + 11) res)"
      using b by (intro encode_block_text) (simp_all add: encoded_block_sizes_def)
    moreover have "take (8 * Suc i) data = take (8 * i) data @ ?b"
      using take_add [of "8 * i" 8 data] by (simp add: add.commute)
    then have "text_of (take (8 * Suc i) data) = text_of (take (8 * i) data) @ block_text ?b"
      using i len text_of_append [of "take (8 * i) data" i ?b] text_of_short [of ?b] by simp
    ultimately show "\<exists>s'. ?f i res = Inr s' \<and> ?P (Suc i) s'"
      using i full [of i] rest by (simp add: mult.commute replicate_add)
  qed (simp_all add: mult.commute)
  then have loop: "foldE ?f [0..<q] ?res = Inr (text_of (take (8 * q) data) @ replicate e (alphabet ! 0))" by simp
  let ?last = "drop (8 * q) data"
  have whole: "text_of data = text_of (take (8 * q) data) @ block_text ?last"
    using text_of_append [of "take (8 * q) data" q ?last] text_of_short [of ?last] len by simp
  let ?t = "text_of (take (8 * q) data) @ replicate e (alphabet ! 0)"
  have last: "encode_block ?last (11 * q) ?t = Inr (text_of data)"
    using encode_block_text [of ?last e "11 * q" ?t] full [of q] len by (simp add: e_def whole)
  have none: "?t = text_of data" if "r = 0" using len that by (simp add: e_def encoded_block_sizes_def)
  have size_e: "at_ub encoded_block_sizes r = Inr e" using len by (simp add: at_ub_def e_def encoded_block_sizes_def)
  have "encode data = bindE (at_ub encoded_block_sizes r) (\<lambda>e.
      bindE (foldE ?f [0..<q] (replicate (q * 11 + e) (alphabet ! 0))) (\<lambda>res.
      if 0 < r then encode_block (take r (drop (q * 8) data)) (q * 11) res else Inr res))"
    using False by (simp only: encode_def if_False Let_def full_block_size_8 full_encoded_block_size_11 q_def r_def)
  also have "\<dots> = (if 0 < r then encode_block (take r (drop (q * 8) data)) (q * 11) ?t else Inr ?t)"
    by (simp only: size_e loop bindE_Inr)
  also have "take r (drop (q * 8) data) = ?last" using len by (simp add: mult.commute)
  also have "(if 0 < r then encode_block ?last (q * 11) ?t else Inr ?t) = Inr (text_of data)"
    using last none by (simp only: mult.commute [of q 11] split: if_split) blast
  finally show ?thesis .
qed (simp add: encode_def)

lemma block_text_inj:
  assumes "block_text a = block_text b" and "length a = length b" and "length b \<le> 8"
  shows "a = b"
proof (cases "b = []")
  case False
  then have "a \<noteq> []" using assms(2) by auto
  have "decode_block (block_text a) 0 a = Inr (Some a)" using decode_block_text [OF \<open>a \<noteq> []\<close>, of 0 a] assms(2,3) by simp
  moreover have "decode_block (block_text b) 0 a = Inr (Some b)" using decode_block_text [OF False, of 0 a] assms(2,3) by simp
  ultimately show ?thesis using assms(1) by (metis Inr_inject option.inject)
qed (use assms(2) in simp)

lemma length_text_of:
  "length (text_of d) div 11 = length d div 8 \<and> length (text_of d) mod 11 = encoded_block_sizes ! (length d mod 8)"
proof -
  define q r where "q = length d div 8" and "r = length d mod 8"
  have len: "length d = 8 * q + r" "r < 8" by (simp_all add: q_def r_def)
  have "length (text_of d) = 11 * q + encoded_block_sizes ! r"
    using text_of_append [of "take (8 * q) d" q "drop (8 * q) d"] text_of_short [of "drop (8 * q) d"]
      length_text_of_full [of "take (8 * q) d" q] len by simp
  moreover have "encoded_block_sizes ! r < 11"
  proof -
    have "take 8 encoded_block_sizes ! r \<in> set (take 8 encoded_block_sizes)"
      using len(2) by (intro nth_mem) (simp add: encoded_block_sizes_def)
    moreover have "\<forall>n \<in> set (take 8 encoded_block_sizes). n < 11" by (simp add: encoded_block_sizes_def)
    ultimately show ?thesis using len(2) by simp
  qed
  ultimately show ?thesis by (simp add: q_def [symmetric] r_def [symmetric])
qed

text \<open>A text splits into the text of the full blocks and the text of the last one.\<close>

lemma text_of_split:
  assumes "text_of d = enc" and "i \<le> length enc div 11"
  shows "text_of (take (8 * i) d) = take (11 * i) enc" and "text_of (drop (8 * i) d) = drop (11 * i) enc"
    and "length (take (8 * i) d) = 8 * i"
proof -
  have "i \<le> length d div 8" using assms length_text_of [of d] by simp
  then have len: "length (take (8 * i) d) = 8 * i" by auto
  then show "length (take (8 * i) d) = 8 * i" .
  have "text_of d = text_of (take (8 * i) d) @ text_of (drop (8 * i) d)"
    using text_of_append [OF len, of "drop (8 * i) d"] by simp
  moreover have "length (text_of (take (8 * i) d)) = 11 * i" using len by (rule length_text_of_full)
  ultimately show "text_of (take (8 * i) d) = take (11 * i) enc" "text_of (drop (8 * i) d) = drop (11 * i) enc"
    using assms(1) by (auto simp: append_eq_conv_conj)
qed

lemma text_of_inj_full: "text_of a = text_of b \<Longrightarrow> length a = 8 * n \<Longrightarrow> length b = 8 * n \<Longrightarrow> a = b"
proof (induction n arbitrary: a b)
  case (Suc n)
  then have ne: "a \<noteq> []" "b \<noteq> []" and len: "length (take 8 a) = 8" "length (take 8 b) = 8" by auto
  have "block_text (take 8 a) = block_text (take 8 b)" "text_of (drop 8 a) = text_of (drop 8 b)"
    using Suc.prems(1) ne len by (auto simp: text_of.simps [of a] text_of.simps [of b] append_eq_append_conv)
  then have "take 8 a = take 8 b" "drop 8 a = drop 8 b"
    using block_text_inj len Suc.IH [of "drop 8 a" "drop 8 b"] Suc.prems by (simp_all only: length_drop) (auto intro: block_text_inj)
  then show ?case by (metis append_take_drop_id)
qed simp

lemma decode_block_cases:
  assumes "1 \<le> m" and "m \<le> 8" and "length t = encoded_block_sizes ! m" and "off + m \<le> length res"
  obtains b where "length b = m" "block_text b = t"
      "decode_block t off res = Inr (Some (take off res @ b @ drop (off + m) res))"
  | "decode_block t off res = Inr None" "\<And>b. length b = m \<Longrightarrow> block_text b \<noteq> t"
proof (cases "\<exists>b. length b = m \<and> block_text b = t")
  case True
  then obtain b where b: "length b = m" "block_text b = t" by blast
  then have "b \<noteq> []" using assms(1) by auto
  with decode_block_text [of b off res] assms b that(1) [OF b] show thesis by simp
next
  case False
  obtain r where r: "decode_block t off res = Inr r" using decode_block_eq [OF assms] by blast
  have "r = None" using False decode_block_only_text [OF assms] r by (cases r) auto
  with r have "decode_block t off res = Inr None" by simp
  with False that(2) show thesis by blast
qed

text \<open>
  What the loop of \<^const>\<open>decode\<close> knows after \<open>i\<close> blocks: the bytes whose text it has read, or that
  there are none.
\<close>

definition blocks_read :: "bytes \<Rightarrow> nat \<Rightarrow> nat \<Rightarrow> bytes option \<Rightarrow> bool" where
  "blocks_read enc rest i s \<longleftrightarrow>
    (case s of
       None \<Rightarrow> \<forall>d. text_of d \<noteq> take (11 * i) enc
     | Some data \<Rightarrow> \<exists>d. text_of d = take (11 * i) enc \<and> length d = 8 * i \<and> data = d @ replicate rest 0)"

lemma decode_step_read:
  assumes "blocks_read enc (8 + rest) i s" and "Suc i \<le> length enc div 11"
  shows "\<exists>s'. decode_step enc i s = Inr s' \<and> blocks_read enc rest (Suc i) s'"
proof -
  let ?t = "take 11 (drop (11 * i) enc)"
  have len: "11 * Suc i \<le> length enc" using assms(2) by (simp add: less_eq_div_iff_mult_less_eq)
  then have t: "length ?t = 11" by simp
  have take_Suc: "take (11 * Suc i) enc = take (11 * i) enc @ ?t"
    using take_add [of "11 * i" 11 enc] by (simp add: add.commute)
  have split: "text_of (take (8 * i) d) = take (11 * i) enc \<and> text_of (drop (8 * i) d) = ?t \<and> length (drop (8 * i) d) = 8"
    if d: "text_of d = take (11 * Suc i) enc" for d
  proof -
    have "length (text_of d) = 11 * Suc i" using len d by simp
    then have "length d div 8 = Suc i" "encoded_block_sizes ! (length d mod 8) = 0" using length_text_of [of d] by simp_all
    moreover have "length d mod 8 = 0" using calculation(2) encoded_size_0 by simp
    ultimately have "length d = 8 * Suc i" by (metis div_mult_mod_eq add.right_neutral mult.commute)
    moreover have "take (11 * i) (take (11 * Suc i) enc) = take (11 * i) enc" "drop (11 * i) (take (11 * Suc i) enc) = ?t"
      using len by (simp_all add: drop_take min_def)
    ultimately show ?thesis using text_of_split [OF d, of i] len by simp
  qed
  show ?thesis
  proof (cases s)
    case None
    with assms(1) split show ?thesis by (auto simp: decode_step_def blocks_read_def)
  next
    case (Some data)
    with assms(1) obtain d where d: "text_of d = take (11 * i) enc" "length d = 8 * i" "data = d @ replicate (8 + rest) 0"
      by (auto simp: blocks_read_def)
    have step: "decode_step enc i s = decode_block ?t (8 * i) data"
      by (simp add: Some decode_step_def mult.commute)
    show ?thesis unfolding step
    proof (rule decode_block_cases [of 8 ?t "8 * i" data])
      fix b assume b: "length b = 8" "block_text b = ?t"
        "decode_block ?t (8 * i) data = Inr (Some (take (8 * i) data @ b @ drop (8 * i + 8) data))"
      have "text_of (d @ b) = take (11 * Suc i) enc"
        using text_of_append [OF d(2), of b] text_of_short [of b] d(1) b(1,2) take_Suc by simp
      moreover have "take (8 * i) data @ b @ drop (8 * i + 8) data = (d @ b) @ replicate rest 0"
        using d(2,3) by simp
      ultimately show "\<exists>s'. decode_block ?t (8 * i) data = Inr s' \<and> blocks_read enc rest (Suc i) s'"
        unfolding b(3) using b(1) d(2) by (auto simp: blocks_read_def)
    next
      assume n: "decode_block ?t (8 * i) data = Inr None" "\<And>b. length b = 8 \<Longrightarrow> block_text b \<noteq> ?t"
      have "text_of e \<noteq> take (11 * Suc i) enc" for e
        using split [of e] text_of_short [of "drop (8 * i) e"] n(2) [of "drop (8 * i) e"] by auto
      then show "\<exists>s'. decode_block ?t (8 * i) data = Inr s' \<and> blocks_read enc rest (Suc i) s'"
        unfolding n(1) by (auto simp: blocks_read_def)
    qed (use t d(2,3) in \<open>simp_all add: encoded_block_sizes_def\<close>)
  qed
qed

lemma decode_blocks_read:
  assumes "n = length enc div 11"
  shows "\<exists>s. foldE (decode_step enc) [0..<n] (Some (replicate (n * 8 + rest) 0)) = Inr s \<and> blocks_read enc rest n s"
proof -
  let ?P = "\<lambda>i. blocks_read enc (8 * (n - i) + rest) i"
  have "\<exists>s. foldE (decode_step enc) [0..<n] (Some (replicate (n * 8 + rest) 0)) = Inr s \<and> ?P n s"
  proof (rule foldE_upt [where P = ?P])
    fix i s assume i: "i < n" and P: "?P i s"
    have eq: "8 * (n - i) + rest = 8 + (8 * (n - Suc i) + rest)" using i by simp
    show "\<exists>s'. decode_step enc i s = Inr s' \<and> ?P (Suc i) s'"
      by (rule decode_step_read [OF P [unfolded eq]]) (use i assms in simp)
  qed (simp_all add: blocks_read_def mult.commute)
  then show ?thesis by simp
qed

lemma encoded_size_inj:
  assumes "encoded_block_sizes ! a = encoded_block_sizes ! b" and "a \<le> 8" and "b \<le> 8"
  shows "a = b"
  using decoded_size [OF assms(2)] decoded_size [OF assms(3)] assms(1) by (metis Inr_inject of_nat_eq_iff)

lemma text_of_inj:
  assumes eq: "text_of a = text_of b"
  shows "a = b"
proof -
  have "length a div 8 = length b div 8" "encoded_block_sizes ! (length a mod 8) = encoded_block_sizes ! (length b mod 8)"
    using length_text_of [of a] length_text_of [of b] eq by simp_all
  moreover from this(2) have "length a mod 8 = length b mod 8" by (rule encoded_size_inj) (simp_all add: less_imp_le)
  ultimately have len: "length a = length b" by (metis div_mult_mod_eq)
  define q where "q = length b div 8"
  have q: "q = length (text_of b) div 11" using length_text_of [of b] by (simp add: q_def)
  note A = text_of_split [OF eq, of q, OF eq_refl [OF q]] and B = text_of_split [OF refl, of q b, OF eq_refl [OF q]]
  have "take (8 * q) a = take (8 * q) b"
    by (rule text_of_inj_full [OF trans [OF A(1) B(1) [symmetric]] A(3) B(3)])
  moreover have "length (drop (8 * q) b) \<le> 8" using mod_less_divisor [of 8 "length b"]
    by (simp add: q_def minus_mult_div_eq_mod less_imp_le)
  then have short: "length (drop (8 * q) a) \<le> 8" "length (drop (8 * q) b) \<le> 8" using len by simp_all
  have "block_text (drop (8 * q) a) = block_text (drop (8 * q) b)"
    unfolding text_of_short [OF short(1), symmetric] text_of_short [OF short(2), symmetric] A(2) B(2) by (rule refl)
  then have "drop (8 * q) a = drop (8 * q) b" by (rule block_text_inj) (use len short(2) in simp_all)
  ultimately show ?thesis by (metis append_take_drop_id)
qed

lemma decode_text:
  "\<exists>r. decode enc = Inr r \<and> (\<forall>data. r = Some data \<longleftrightarrow> text_of data = enc)"
proof (cases "enc = []")
  case True
  have "text_of data = [] \<longleftrightarrow> data = []" for data
    using text_of_inj [of data "[]"] by auto
  with True show ?thesis by (auto simp: decode_def)
next
  case False
  define n r where "n = length enc div 11" and "r = length enc mod 11"
  have len: "length enc = 11 * n + r" "r < 11" by (simp_all add: n_def r_def)
  let ?last = "drop (11 * n) enc"
  have dec: "decode enc = bindE (decoded_block_sizes r) (\<lambda>m. if m < 0 then Inr None else
      bindE (foldE (decode_step enc) [0..<n] (Some (replicate (n * 8 + nat m) 0))) (\<lambda>s.
      case s of None \<Rightarrow> Inr None | Some data \<Rightarrow> if 0 < r then decode_block ?last (8 * n) data else Inr (Some data)))"
  proof -
    have "take r (drop (n * 11) enc) = ?last" using len by (simp add: mult.commute)
    then show ?thesis using False
      by (simp only: decode_def if_False Let_def full_block_size_8 full_encoded_block_size_11 n_def [symmetric]
        r_def [symmetric] mult.commute [of 8 n])
  qed
  have parts: "text_of (take (8 * n) d) = take (11 * n) enc" "text_of (drop (8 * n) d) = ?last"
    "length (drop (8 * n) d) < 8" "r = encoded_block_sizes ! length (drop (8 * n) d)" if "text_of d = enc" for d
  proof -
    have "length d div 8 = n" "r = encoded_block_sizes ! (length d mod 8)"
      using length_text_of [of d] that by (simp_all add: n_def r_def)
    then show "r = encoded_block_sizes ! length (drop (8 * n) d)" "length (drop (8 * n) d) < 8"
      by (auto simp: minus_mult_div_eq_mod [symmetric])
    show "text_of (take (8 * n) d) = take (11 * n) enc" "text_of (drop (8 * n) d) = ?last"
      using text_of_split [OF that] unfolding n_def by blast+
  qed
  have "r \<le> 11" using len by simp
  then show ?thesis
  proof (cases rule: decoded_size_cases)
    case 1
    have "encoded_block_sizes ! length (drop (8 * n) d) \<in> set encoded_block_sizes" if "text_of d = enc" for d
      using parts(3) [OF that] by (intro nth_mem) (simp add: encoded_block_sizes_def)
    then have "text_of d \<noteq> enc" for d using 1(2) parts(4) [of d] by metis
    with 1(1) show ?thesis by (simp add: dec)
  next
    case (2 m)
    from decode_blocks_read [of n enc m] n_def obtain s where
      s: "foldE (decode_step enc) [0..<n] (Some (replicate (n * 8 + m) 0)) = Inr s" "blocks_read enc m n s" by blast
    then have dec: "decode enc = (case s of None \<Rightarrow> Inr None
        | Some data \<Rightarrow> if 0 < r then decode_block ?last (8 * n) data else Inr (Some data))"
      using dec 2(3) by simp
    show ?thesis
    proof (cases s)
      case None
      then have "text_of d \<noteq> enc" for d using s(2) parts(1) [of d] by (auto simp: blocks_read_def)
      with None dec show ?thesis by simp
    next
      case (Some data)
      with s(2) obtain d where d: "text_of d = take (11 * n) enc" "length d = 8 * n" "data = d @ replicate m 0"
        by (auto simp: blocks_read_def)
      show ?thesis
      proof (cases "r = 0")
        case True
        then have "m = 0" using encoded_size_0 2(1,2) by simp
        then have "decode enc = Inr (Some d)" "text_of d = enc" using dec Some True d len by simp_all
        with text_of_inj show ?thesis by blast
      next
        case False
        then have "m \<noteq> 0" using 2(2) by (cases "m = 0") (simp_all add: encoded_block_sizes_def)
        then have m: "1 \<le> m" "length ?last = encoded_block_sizes ! m" "8 * n + m \<le> length data"
          using 2(2) len d by simp_all
        have dec: "decode enc = decode_block ?last (8 * n) data" using dec Some False by simp
        from m(1) 2(1) m(2,3) show ?thesis
        proof (cases rule: decode_block_cases)
          case (1 b)
          have "text_of (d @ b) = enc"
            using text_of_append [OF d(2), of b] text_of_short [of b] d(1) 1(1,2) 2(1) by simp
          moreover have "decode enc = Inr (Some (d @ b))" using 1(3) dec d(2,3) by simp
          ultimately show ?thesis using text_of_inj by blast
        next
          case 2
          have "text_of e \<noteq> enc" for e
          proof
            assume e: "text_of e = enc"
            have "length (drop (8 * n) e) = m"
              by (rule encoded_size_inj) (use parts(3,4) [OF e] \<open>r = encoded_block_sizes ! m\<close> \<open>m \<le> 8\<close> in auto)
            with 2(2) [of "drop (8 * n) e"] text_of_short [of "drop (8 * n) e"] parts(2) [OF e] \<open>m \<le> 8\<close>
            show False by simp
          qed
          with 2(1) dec show ?thesis by simp
        qed
      qed
    qed
  qed
qed

section \<open>Addresses\<close>

lemma decode_encode_addr:
  assumes "\<And>x. length (fast_hash x) = 32"
  shows "\<exists>addr. encode_addr fast_hash tag data = Inr addr \<and> decode_addr fast_hash addr = Inr (Some (tag, data)) \<and>
    addr = text_of (write_varint tag @ data @ take 4 (fast_hash (write_varint tag @ data)))"
proof -
  let ?buf = "write_varint tag @ data"
  let ?addr = "text_of (?buf @ take 4 (fast_hash ?buf))"
  obtain r where r: "decode ?addr = Inr r" "r = Some (?buf @ take 4 (fast_hash ?buf))"
    using decode_text [of ?addr] by blast
  have four: "length (take 4 (fast_hash ?buf)) = 4" using assms by simp
  have ne: "write_varint tag \<noteq> []" using save_varint_nonempty [of tag] by (simp add: save_varint_def)
  then have "decode_addr fast_hash ?addr = Inr (Some (tag, data))"
    using r four read_write_varint [of tag data] by (simp add: decode_addr_def addr_checksum_size_def Let_def)
  moreover have "encode_addr fast_hash tag data = Inr ?addr"
    by (simp add: encode_addr_def addr_checksum_size_def encode_text)
  ultimately show ?thesis by simp
qed

lemma decode_addr_only_encoded:
  assumes "decode_addr fast_hash addr = Inr (Some (tag, data))" and "data \<noteq> []"
  shows "encode_addr fast_hash tag data = Inr addr"
proof -
  obtain r where r: "decode addr = Inr r" "\<And>d. r = Some d \<longleftrightarrow> text_of d = addr" using decode_text [of addr] by blast
  with assms(1) obtain d where d: "r = Some d" by (cases r) (auto simp: decode_addr_def)
  let ?body = "take (length d - 4) d" and ?sum = "drop (length d - 4) d"
  from assms(1) r(1) d have sum: "take 4 (fast_hash ?body) = ?sum" and v: "read_varint ?body = Inr (tag, data)"
    by (auto simp: decode_addr_def addr_checksum_size_def Let_def split: if_splits sum.splits prod.splits)
  from v have "read_varint_from 0 0 ?body = Inr (tag, data)" by (simp add: read_varint_def)
  from read_varint_from_canonical [OF this] assms(2) have "?body = write_varint tag @ data"
    by (auto simp: write_varint_nat)
  then show ?thesis using sum r(2) [of d] d
    by (simp add: encode_addr_def addr_checksum_size_def encode_text) (metis append_take_drop_id append.assoc)
qed

section \<open>Results\<close>

text \<open>
  (C7) Base 58: encoding returns for every byte string, without a store outside the result; decoding
  returns for every string, and it yields exactly the bytes whose encoding the string is. So the two are
  inverse, and no string other than an encoding is accepted (invalid characters, lengths that no
  encoding has, blocks whose value overflows).
\<close>

theorem base58_exact:
  "(\<exists>enc. encode data = Inr enc) \<and> (\<exists>r. decode enc = Inr r) \<and>
    (decode enc = Inr (Some data) \<longleftrightarrow> encode data = Inr enc)"
proof -
  obtain r where r: "decode enc = Inr r" "r = Some data \<longleftrightarrow> text_of data = enc"
    using decode_text [of enc] by blast
  show ?thesis unfolding encode_text r(1) using r(2) by (simp only: sum.inject) blast
qed

end
