(* ===== verification/Address.thy ===== *)
theory Address
  imports Base58 Hardfork Sn_List
begin

text \<open>
  The text form of account addresses, \<open>cryptonote_basic/cryptonote_basic_impl.cpp\<close>: the prefixes of
  the networks (\<open>cryptonote_config.h\<close>), hexadecimal strings (\<open>contrib/epee/src/hex.cpp\<close>), the functions
  that print an address and the one that parses it, in the current and in the old format. The hash and
  the test that a key is a point of the curve are parameters. What a failed parse leaves in its output
  argument is not modelled.
\<close>

section \<open>Definitions\<close>

record config_t =
  CRYPTONOTE_PUBLIC_ADDRESS_BASE58_PREFIX :: u64
  CRYPTONOTE_PUBLIC_INTEGRATED_ADDRESS_BASE58_PREFIX :: u64
  CRYPTONOTE_PUBLIC_SUBADDRESS_BASE58_PREFIX :: u64

definition mainnet_config :: config_t where
  "mainnet_config = \<lparr>CRYPTONOTE_PUBLIC_ADDRESS_BASE58_PREFIX = 0x2cca,
     CRYPTONOTE_PUBLIC_INTEGRATED_ADDRESS_BASE58_PREFIX = 0x116bc7, CRYPTONOTE_PUBLIC_SUBADDRESS_BASE58_PREFIX = 0x6847\<rparr>"

definition testnet_config :: config_t where
  "testnet_config = \<lparr>CRYPTONOTE_PUBLIC_ADDRESS_BASE58_PREFIX = 0x53ca,
     CRYPTONOTE_PUBLIC_INTEGRATED_ADDRESS_BASE58_PREFIX = 0x504a, CRYPTONOTE_PUBLIC_SUBADDRESS_BASE58_PREFIX = 0x524a\<rparr>"

definition stagenet_config :: config_t where
  "stagenet_config = \<lparr>CRYPTONOTE_PUBLIC_ADDRESS_BASE58_PREFIX = 0x39ca,
     CRYPTONOTE_PUBLIC_INTEGRATED_ADDRESS_BASE58_PREFIX = 0x1742ca, CRYPTONOTE_PUBLIC_SUBADDRESS_BASE58_PREFIX = 0x1d84ca\<rparr>"

definition get_config :: "network_type \<Rightarrow> config_t outcome" where
  "get_config nettype =
    (case nettype of
       MAINNET \<Rightarrow> Inr mainnet_config
     | FAKECHAIN \<Rightarrow> Inr mainnet_config
     | TESTNET \<Rightarrow> Inr testnet_config
     | STAGENET \<Rightarrow> Inr stagenet_config
     | UNDEFINED \<Rightarrow> Inl Exception)"

definition CRYPTONOTE_PUBLIC_ADDRESS_TEXTBLOB_VER :: u8 where
  "CRYPTONOTE_PUBLIC_ADDRESS_TEXTBLOB_VER = 0"

subsection \<open>Hexadecimal strings\<close>

definition hex_chars :: bytes where
  "hex_chars = map (\<lambda>c. of_nat (of_char c)) ''0123456789abcdef''"

definition write_hex :: "bytes \<Rightarrow> bytes" where
  "write_hex src = concat (map (\<lambda>byte. [hex_chars ! unat (drop_bit 4 byte), hex_chars ! unat (byte AND 0x0F)]) src)"

definition isx :: bytes where
  "isx = replicate 48 0xff @ [0, 1, 2, 3, 4, 5, 6, 7, 8, 9] @ replicate 7 0xff @ [10, 11, 12, 13, 14, 15] @
     replicate 26 0xff @ [10, 11, 12, 13, 14, 15] @ replicate 153 0xff"

fun hex_pairs :: "bytes \<Rightarrow> bytes option" where
  "hex_pairs (a # b # src) =
    (let tmp = isx ! unat a
     in if tmp = 0xff then None
        else let t2 = isx ! unat b
             in if t2 = 0xff then None
                else map_option ((#) (push_bit 4 tmp OR t2)) (hex_pairs src))"
| "hex_pairs _ = Some []"

definition parse_hexstr_to_binbuff :: "bytes \<Rightarrow> bytes option" where
  "parse_hexstr_to_binbuff s = (if length s mod 2 \<noteq> 0 then None else hex_pairs s)"

subsection \<open>Addresses as bytes\<close>

definition save_account_public_address :: "account_public_address \<Rightarrow> bytes" where
  "save_account_public_address adr = save_blob (fst adr) @ save_blob (snd adr)"

definition load_account_public_address :: "account_public_address load" where
  "load_account_public_address bs = do {
     (m_spend_public_key, bs) \<leftarrow> load_blob 32 bs;
     (m_view_public_key, bs) \<leftarrow> load_blob 32 bs;
     Some ((m_spend_public_key, m_view_public_key), bs)
   }"

definition save_integrated_address :: "account_public_address \<times> bytes \<Rightarrow> bytes" where
  "save_integrated_address iadr = save_account_public_address (fst iadr) @ save_blob (snd iadr)"

definition load_integrated_address :: "(account_public_address \<times> bytes) load" where
  "load_integrated_address bs = do {
     (adr, bs) \<leftarrow> load_account_public_address bs;
     (payment_id, bs) \<leftarrow> load_blob 8 bs;
     Some ((adr, payment_id), bs)
   }"

text \<open>The whole input has to be consumed.\<close>

definition parse_binary :: "'a load \<Rightarrow> bytes \<Rightarrow> 'a option" where
  "parse_binary load blob = (case load blob of Some (v, []) \<Rightarrow> Some v | _ \<Rightarrow> None)"

subsection \<open>Printing and parsing\<close>

definition get_account_address_checksum :: "bytes \<Rightarrow> u8" where
  "get_account_address_checksum blob = fold (\<lambda>i summ. summ + blob ! i) [0..<66 - 1] 0"

definition get_account_address_as_str ::
  "(bytes \<Rightarrow> hash) \<Rightarrow> network_type \<Rightarrow> bool \<Rightarrow> account_public_address \<Rightarrow> bytes outcome" where
  "get_account_address_as_str fast_hash nettype subaddress adr =
    bindE (get_config nettype) (\<lambda>c.
      let address_prefix =
        if subaddress then CRYPTONOTE_PUBLIC_SUBADDRESS_BASE58_PREFIX c else CRYPTONOTE_PUBLIC_ADDRESS_BASE58_PREFIX c
      in encode_addr fast_hash address_prefix (save_account_public_address adr))"

definition get_account_integrated_address_as_str ::
  "(bytes \<Rightarrow> hash) \<Rightarrow> network_type \<Rightarrow> account_public_address \<Rightarrow> bytes \<Rightarrow> bytes outcome" where
  "get_account_integrated_address_as_str fast_hash nettype adr payment_id =
    bindE (get_config nettype) (\<lambda>c.
      encode_addr fast_hash (CRYPTONOTE_PUBLIC_INTEGRATED_ADDRESS_BASE58_PREFIX c) (save_integrated_address (adr, payment_id)))"

record address_parse_info =
  api_address :: account_public_address
  api_is_subaddress :: bool
  api_has_payment_id :: bool
  api_payment_id :: bytes

definition read_address ::
  "(public_key \<Rightarrow> bool) \<Rightarrow> config_t \<Rightarrow> address_parse_info \<Rightarrow> u64 \<Rightarrow> bytes \<Rightarrow> address_parse_info option" where
  "read_address key_ok c info pfx data = do {
     info \<leftarrow>
       (if CRYPTONOTE_PUBLIC_INTEGRATED_ADDRESS_BASE58_PREFIX c = pfx
        then Some (info\<lparr>api_is_subaddress := False, api_has_payment_id := True\<rparr>)
        else if CRYPTONOTE_PUBLIC_ADDRESS_BASE58_PREFIX c = pfx
        then Some (info\<lparr>api_is_subaddress := False, api_has_payment_id := False\<rparr>)
        else if CRYPTONOTE_PUBLIC_SUBADDRESS_BASE58_PREFIX c = pfx
        then Some (info\<lparr>api_is_subaddress := True, api_has_payment_id := False\<rparr>)
        else None);
     info \<leftarrow>
       (if api_has_payment_id info
        then map_option (\<lambda>(adr, payment_id). info\<lparr>api_address := adr, api_payment_id := payment_id\<rparr>)
          (parse_binary load_integrated_address data)
        else map_option (\<lambda>adr. info\<lparr>api_address := adr\<rparr>) (parse_binary load_account_public_address data));
     if \<not> key_ok (fst (api_address info)) \<or> \<not> key_ok (snd (api_address info)) then None else Some info
   }"

definition read_old_address :: "address_parse_info \<Rightarrow> bytes \<Rightarrow> address_parse_info option" where
  "read_old_address info str = do {
     buff \<leftarrow> parse_hexstr_to_binbuff str;
     if length buff \<noteq> 66 then None
     else if CRYPTONOTE_PUBLIC_ADDRESS_TEXTBLOB_VER < buff ! 0 then None
     else if buff ! 65 \<noteq> get_account_address_checksum buff then None
     else Some (info\<lparr>api_address := (take 32 (drop 1 buff), take 32 (drop 33 buff)),
       api_is_subaddress := False, api_has_payment_id := False\<rparr>)
   }"

definition get_account_address_from_str ::
  "(bytes \<Rightarrow> hash) \<Rightarrow> (public_key \<Rightarrow> bool) \<Rightarrow> address_parse_info \<Rightarrow> network_type \<Rightarrow> bytes \<Rightarrow> address_parse_info option outcome" where
  "get_account_address_from_str fast_hash key_ok info nettype str =
    bindE (get_config nettype) (\<lambda>c.
      if 2 * 66 \<noteq> length str
      then bindE (decode_addr fast_hash str) (\<lambda>r.
        case r of None \<Rightarrow> Inr None
        | Some (pfx, data) \<Rightarrow> Inr (read_address key_ok c info pfx data))
      else Inr (read_old_address info str))"

section \<open>Hexadecimal strings read back\<close>

lemma hex_digit_back: "n < 16 \<Longrightarrow> isx ! unat (hex_chars ! n) = of_nat n \<and> of_nat n \<noteq> (0xff :: u8)"
proof -
  assume n: "n < 16"
  have "list_all (\<lambda>n. isx ! unat (hex_chars ! n) = of_nat n \<and> of_nat n \<noteq> (0xff :: u8)) [0..<16]"
    by code_simp
  with n show ?thesis by (simp only: list_all_iff set_upt atLeastLessThan_iff) simp
qed

lemma hex_pairs_write: "hex_pairs (write_hex bs) = Some bs"
proof (induction bs)
  case Nil
  then show ?case by (simp add: write_hex_def)
next
  case (Cons b bs)
  have hi: "unat (drop_bit 4 b) < 16"
    using unat8_bound [of b] by (simp add: unat_drop_bit_eq drop_bit_eq_div [of 4 "unat b"])
  have lo: "unat (b AND 0x0F) < 16"
  proof -
    have "b AND 0x0F = take_bit 4 b" by (simp add: take_bit_eq_mask mask_eq_exp_minus_1)
    then show ?thesis by (simp add: unsigned_take_bit_eq take_bit_eq_mod [of 4 "unat b"])
  qed
  have "push_bit 4 (drop_bit 4 b) OR (b AND 0x0F) = b"
  proof -
    have "b AND 0x0F = take_bit 4 b" by (simp add: take_bit_eq_mask mask_eq_exp_minus_1)
    then show ?thesis by (simp only:) (rule bit_word_eqI, auto simp: bit_simps)
  qed
  with Cons hex_digit_back [OF hi] hex_digit_back [OF lo] show ?case
    by (simp add: write_hex_def Let_def)
qed

lemma parse_hexstr_write_hex: "parse_hexstr_to_binbuff (write_hex bs) = Some bs"
proof -
  have "length (write_hex bs) = 2 * length bs" by (induction bs) (simp_all add: write_hex_def)
  then show ?thesis by (simp add: parse_hexstr_to_binbuff_def hex_pairs_write)
qed

section \<open>Addresses read back\<close>

definition address_ok :: "(public_key \<Rightarrow> bool) \<Rightarrow> account_public_address \<Rightarrow> bool" where
  "address_ok key_ok adr \<longleftrightarrow>
    length (fst adr) = 32 \<and> length (snd adr) = 32 \<and> key_ok (fst adr) \<and> key_ok (snd adr)"

lemma parse_binary_address:
  "length (fst adr) = 32 \<Longrightarrow> length (snd adr) = 32 \<Longrightarrow>
    parse_binary load_account_public_address (save_account_public_address adr) = Some adr"
  by (simp add: parse_binary_def load_account_public_address_def save_account_public_address_def
    load_save_blob load_save_blob [where rest = "[]", simplified])

lemma parse_binary_integrated:
  "length (fst adr) = 32 \<Longrightarrow> length (snd adr) = 32 \<Longrightarrow> length pid = 8 \<Longrightarrow>
    parse_binary load_integrated_address (save_integrated_address (adr, pid)) = Some (adr, pid)"
  by (simp add: parse_binary_def load_integrated_address_def save_integrated_address_def load_account_public_address_def
    save_account_public_address_def load_save_blob load_save_blob [where rest = "[]", simplified])

lemma short_text: "length d \<le> 80 \<Longrightarrow> 2 * 66 \<noteq> length (text_of d)"
proof
  assume d: "length d \<le> 80" and "2 * 66 = length (text_of d)"
  then have "length d div 8 = 12" using length_text_of [of d] by simp
  with d show False by linarith
qed

lemma short_varint: "v < 2097152 \<Longrightarrow> length (varint_bytes v) \<le> 3"
  by (simp add: varint_bytes.simps [of v] varint_bytes.simps [of "v div 128"] varint_bytes.simps [of "v div 16384"]
    div_mult2_eq [symmetric])

lemma parse_encoded:
  assumes "\<And>x. length (fast_hash x) = 32" and "unat pfx < 2097152" and "length data \<le> 72"
  shows "\<exists>str. encode_addr fast_hash pfx data = Inr str \<and>
    get_account_address_from_str fast_hash key_ok info nettype str =
      bindE (get_config nettype) (\<lambda>c. Inr (read_address key_ok c info pfx data))"
proof -
  let ?buf = "write_varint pfx @ data"
  let ?d = "?buf @ take 4 (fast_hash ?buf)"
  from decode_encode_addr [of fast_hash pfx data, OF assms(1)] obtain str where
    str: "encode_addr fast_hash pfx data = Inr str" "decode_addr fast_hash str = Inr (Some (pfx, data))" "str = text_of ?d"
    by auto
  have "length (write_varint pfx) \<le> 3" unfolding write_varint_nat using assms(2) by (rule short_varint)
  moreover have "length (take 4 (fast_hash ?buf)) = 4" using assms(1) by simp
  ultimately have "length ?d \<le> 80" using assms(3) by simp
  from short_text [OF this] str(3) have "2 * 66 \<noteq> length str" by simp
  with str(1,2) show ?thesis by (auto simp: get_account_address_from_str_def)
qed

text \<open>The prefixes of the three networks are distinct.\<close>

lemmas config_defs = get_config_def mainnet_config_def testnet_config_def stagenet_config_def

lemma prefixes_distinct:
  assumes "get_config n = Inr c" and "get_config n' = Inr c'"
  shows "CRYPTONOTE_PUBLIC_ADDRESS_BASE58_PREFIX c' = CRYPTONOTE_PUBLIC_ADDRESS_BASE58_PREFIX c \<longleftrightarrow> c' = c"
    and "CRYPTONOTE_PUBLIC_INTEGRATED_ADDRESS_BASE58_PREFIX c' = CRYPTONOTE_PUBLIC_INTEGRATED_ADDRESS_BASE58_PREFIX c \<longleftrightarrow> c' = c"
    and "CRYPTONOTE_PUBLIC_SUBADDRESS_BASE58_PREFIX c' = CRYPTONOTE_PUBLIC_SUBADDRESS_BASE58_PREFIX c \<longleftrightarrow> c' = c"
    and "CRYPTONOTE_PUBLIC_ADDRESS_BASE58_PREFIX c' \<noteq> CRYPTONOTE_PUBLIC_INTEGRATED_ADDRESS_BASE58_PREFIX c"
    and "CRYPTONOTE_PUBLIC_ADDRESS_BASE58_PREFIX c' \<noteq> CRYPTONOTE_PUBLIC_SUBADDRESS_BASE58_PREFIX c"
    and "CRYPTONOTE_PUBLIC_INTEGRATED_ADDRESS_BASE58_PREFIX c' \<noteq> CRYPTONOTE_PUBLIC_ADDRESS_BASE58_PREFIX c"
    and "CRYPTONOTE_PUBLIC_INTEGRATED_ADDRESS_BASE58_PREFIX c' \<noteq> CRYPTONOTE_PUBLIC_SUBADDRESS_BASE58_PREFIX c"
    and "CRYPTONOTE_PUBLIC_SUBADDRESS_BASE58_PREFIX c' \<noteq> CRYPTONOTE_PUBLIC_ADDRESS_BASE58_PREFIX c"
    and "CRYPTONOTE_PUBLIC_SUBADDRESS_BASE58_PREFIX c' \<noteq> CRYPTONOTE_PUBLIC_INTEGRATED_ADDRESS_BASE58_PREFIX c"
  using assms by (cases n; cases n'; auto simp: config_defs)+

text \<open>
  (C21) An address that was printed for a network is read back on that network, with its kind and its
  payment id: a standard address or subaddress, and an integrated address. On a network with other
  prefixes it is rejected. The hash has 32 bytes, and the keys of the address are valid keys.
\<close>

theorem address_round_trip:
  assumes "\<And>x. length (fast_hash x) = 32" and "nettype \<noteq> UNDEFINED" and "nettype' \<noteq> UNDEFINED"
    and "address_ok key_ok adr" and "length payment_id = 8"
  shows "\<exists>str istr. get_account_address_as_str fast_hash nettype subaddress adr = Inr str \<and>
    get_account_integrated_address_as_str fast_hash nettype adr payment_id = Inr istr \<and>
    get_account_address_from_str fast_hash key_ok info nettype' str =
      Inr (if get_config nettype' = get_config nettype
        then Some (info\<lparr>api_address := adr, api_is_subaddress := subaddress, api_has_payment_id := False\<rparr>) else None) \<and>
    get_account_address_from_str fast_hash key_ok info nettype' istr =
      Inr (if get_config nettype' = get_config nettype
        then Some (info\<lparr>api_address := adr, api_is_subaddress := False, api_has_payment_id := True, api_payment_id := payment_id\<rparr>)
        else None)"
proof -
  have adr: "length (fst adr) = 32" "length (snd adr) = 32" "key_ok (fst adr)" "key_ok (snd adr)"
    using assms(4) by (simp_all add: address_ok_def)
  obtain c where c: "get_config nettype = Inr c" using assms(2) by (cases nettype) (simp_all add: get_config_def)
  let ?pfx = "if subaddress then CRYPTONOTE_PUBLIC_SUBADDRESS_BASE58_PREFIX c else CRYPTONOTE_PUBLIC_ADDRESS_BASE58_PREFIX c"
  have small: "unat ?pfx < 2097152" "unat (CRYPTONOTE_PUBLIC_INTEGRATED_ADDRESS_BASE58_PREFIX c) < 2097152"
    using c by (auto simp: config_defs split: network_type.splits)
  have len: "length (save_account_public_address adr) \<le> 72" "length (save_integrated_address (adr, payment_id)) \<le> 72"
    using adr assms(5) by (simp_all add: save_integrated_address_def save_account_public_address_def save_blob_def)
  from parse_encoded [of fast_hash ?pfx, OF assms(1) small(1) len(1), of key_ok info nettype'] obtain str where
    str: "encode_addr fast_hash ?pfx (save_account_public_address adr) = Inr str"
      "get_account_address_from_str fast_hash key_ok info nettype' str =
        bindE (get_config nettype') (\<lambda>c. Inr (read_address key_ok c info ?pfx (save_account_public_address adr)))" by blast
  from parse_encoded [of fast_hash _ _, OF assms(1) small(2) len(2), of key_ok info nettype'] obtain istr where
    istr: "encode_addr fast_hash (CRYPTONOTE_PUBLIC_INTEGRATED_ADDRESS_BASE58_PREFIX c) (save_integrated_address (adr, payment_id)) = Inr istr"
      "get_account_address_from_str fast_hash key_ok info nettype' istr = bindE (get_config nettype') (\<lambda>c'.
        Inr (read_address key_ok c' info (CRYPTONOTE_PUBLIC_INTEGRATED_ADDRESS_BASE58_PREFIX c) (save_integrated_address (adr, payment_id))))"
    by blast
  obtain c' where c': "get_config nettype' = Inr c'" using assms(3) by (cases nettype') (simp_all add: get_config_def)
  note distinct = prefixes_distinct [OF c c'] and same = prefixes_distinct(4-9) [OF c c]
  have "read_address key_ok c' info ?pfx (save_account_public_address adr) = (if c' = c
      then Some (info\<lparr>api_address := adr, api_is_subaddress := subaddress, api_has_payment_id := False\<rparr>) else None)"
    using adr by (cases "c' = c"; cases subaddress)
      (simp_all add: read_address_def distinct same parse_binary_address)
  moreover have "read_address key_ok c' info (CRYPTONOTE_PUBLIC_INTEGRATED_ADDRESS_BASE58_PREFIX c) (save_integrated_address (adr, payment_id)) =
      (if c' = c then Some (info\<lparr>api_address := adr, api_is_subaddress := False, api_has_payment_id := True, api_payment_id := payment_id\<rparr>)
       else None)"
    using adr assms(5) by (cases "c' = c") (simp_all add: read_address_def distinct same parse_binary_integrated)
  moreover have "get_account_address_as_str fast_hash nettype subaddress adr = Inr str"
    using c str(1) by (simp add: get_account_address_as_str_def Let_def)
  moreover have "get_account_integrated_address_as_str fast_hash nettype adr payment_id = Inr istr"
    using c istr(1) by (simp add: get_account_integrated_address_as_str_def)
  ultimately show ?thesis using str(2) istr(2) c c' by (intro exI [of _ str] exI [of _ istr]) simp
qed

theorem address_round_trip_witness:
  "\<exists>str istr. get_account_address_as_str (\<lambda>_. replicate 32 7) TESTNET True (replicate 32 1, replicate 32 2) = Inr str \<and>
    get_account_integrated_address_as_str (\<lambda>_. replicate 32 7) TESTNET (replicate 32 1, replicate 32 2) (replicate 8 3) = Inr istr \<and>
    get_account_address_from_str (\<lambda>_. replicate 32 7) (\<lambda>k. k \<noteq> replicate 32 0)
      \<lparr>api_address = ([], []), api_is_subaddress = False, api_has_payment_id = False, api_payment_id = []\<rparr> MAINNET str = Inr None"
  using address_round_trip [of "\<lambda>_. replicate 32 7" TESTNET MAINNET "\<lambda>k. k \<noteq> replicate 32 0" "(replicate 32 1, replicate 32 2)"
      "replicate 8 3" True "\<lparr>api_address = ([], []), api_is_subaddress = False, api_has_payment_id = False, api_payment_id = []\<rparr>"]
  by (auto simp: address_ok_def config_defs)

end
