(* ===== verification/Pruning.thy ===== *)
theory Pruning
  imports Prelude
begin

text \<open>
  Which blocks a pruned node keeps, \<open>common/pruning.{h,cpp}\<close>: the blocks of a chain come in stripes of
  2048, a seed names a stripe among \<open>2 ^ log_stripes\<close>, and the last 5500 blocks are always kept. The
  functions keep the widths of the code (32-bit seeds and stripes, 64-bit heights); the lemmas read them
  as natural numbers.
\<close>

section \<open>Definitions\<close>

definition CRYPTONOTE_MAX_BLOCK_NUMBER :: u64 where "CRYPTONOTE_MAX_BLOCK_NUMBER = 500000000"
definition CRYPTONOTE_PRUNING_STRIPE_SIZE :: u64 where "CRYPTONOTE_PRUNING_STRIPE_SIZE = 2048"
definition CRYPTONOTE_PRUNING_LOG_STRIPES :: u64 where "CRYPTONOTE_PRUNING_LOG_STRIPES = 1"
definition CRYPTONOTE_PRUNING_TIP_BLOCKS :: u64 where "CRYPTONOTE_PRUNING_TIP_BLOCKS = 5500"
definition PRUNING_SEED_LOG_STRIPES_SHIFT :: nat where "PRUNING_SEED_LOG_STRIPES_SHIFT = 7"
definition PRUNING_SEED_LOG_STRIPES_MASK :: u32 where "PRUNING_SEED_LOG_STRIPES_MASK = 0x7"
definition PRUNING_SEED_STRIPE_SHIFT :: nat where "PRUNING_SEED_STRIPE_SHIFT = 0"
definition PRUNING_SEED_STRIPE_MASK :: u32 where "PRUNING_SEED_STRIPE_MASK = 0x7f"

definition get_pruning_log_stripes :: "u32 \<Rightarrow> u32" where
  "get_pruning_log_stripes pruning_seed =
    drop_bit PRUNING_SEED_LOG_STRIPES_SHIFT pruning_seed AND PRUNING_SEED_LOG_STRIPES_MASK"

definition get_pruning_stripe :: "u32 \<Rightarrow> u32" where
  "get_pruning_stripe pruning_seed =
    (if pruning_seed = 0 then 0
     else 1 + (drop_bit PRUNING_SEED_STRIPE_SHIFT pruning_seed AND PRUNING_SEED_STRIPE_MASK))"

definition make_pruning_seed :: "u32 \<Rightarrow> u32 \<Rightarrow> u32 outcome" where
  "make_pruning_seed stripe log_stripes =
    (if \<not> log_stripes \<le> PRUNING_SEED_LOG_STRIPES_MASK then Inl Exception
     else if \<not> (0 < stripe \<and> ucast stripe \<le> (push_bit (unat log_stripes) 1 :: u64)) then Inl Exception
     else Inr (push_bit PRUNING_SEED_LOG_STRIPES_SHIFT log_stripes OR push_bit PRUNING_SEED_STRIPE_SHIFT (stripe - 1)))"

text \<open>The overload on heights.\<close>

definition get_pruning_stripe_at :: "u64 \<Rightarrow> u64 \<Rightarrow> u32 \<Rightarrow> u32" where
  "get_pruning_stripe_at block_height blockchain_height log_stripes =
    (if blockchain_height \<le> block_height + CRYPTONOTE_PRUNING_TIP_BLOCKS then 0
     else ucast (((block_height div CRYPTONOTE_PRUNING_STRIPE_SIZE) AND (push_bit (unat log_stripes) 1 - 1)) + 1))"

definition has_unpruned_block :: "u64 \<Rightarrow> u64 \<Rightarrow> u32 \<Rightarrow> bool" where
  "has_unpruned_block block_height blockchain_height pruning_seed =
    (let stripe = get_pruning_stripe pruning_seed
     in if stripe = 0 then True
        else let log_stripes = get_pruning_log_stripes pruning_seed;
                 block_stripe = get_pruning_stripe_at block_height blockchain_height log_stripes
             in block_stripe = 0 \<or> block_stripe = stripe)"

definition get_pruning_seed :: "u64 \<Rightarrow> u64 \<Rightarrow> u32 \<Rightarrow> u32 outcome" where
  "get_pruning_seed block_height blockchain_height log_stripes =
    (let stripe = get_pruning_stripe_at block_height blockchain_height log_stripes
     in if stripe = 0 then Inr 0 else make_pruning_seed stripe log_stripes)"

definition get_next_unpruned_block_height :: "u64 \<Rightarrow> u64 \<Rightarrow> u32 \<Rightarrow> u64" where
  "get_next_unpruned_block_height block_height blockchain_height pruning_seed =
    (if \<not> block_height \<le> CRYPTONOTE_MAX_BLOCK_NUMBER + 1 then block_height
     else if \<not> blockchain_height \<le> CRYPTONOTE_MAX_BLOCK_NUMBER + 1 then block_height
     else
       let stripe = get_pruning_stripe pruning_seed
       in if stripe = 0 then block_height
          else if blockchain_height \<le> block_height + CRYPTONOTE_PRUNING_TIP_BLOCKS then block_height
          else
            let seed_log_stripes = get_pruning_log_stripes pruning_seed;
                log_stripes = (if seed_log_stripes \<noteq> 0 then ucast seed_log_stripes else CRYPTONOTE_PRUNING_LOG_STRIPES);
                mask = push_bit (unat log_stripes) 1 - 1;
                block_pruning_stripe = (ucast (((block_height div CRYPTONOTE_PRUNING_STRIPE_SIZE) AND mask) + 1) :: u32)
            in if block_pruning_stripe = stripe then block_height
               else
                 let cycles = drop_bit (unat log_stripes) (block_height div CRYPTONOTE_PRUNING_STRIPE_SIZE);
                     cycle_start = cycles + (if block_pruning_stripe < stripe then 0 else 1);
                     h = cycle_start * push_bit (unat log_stripes) CRYPTONOTE_PRUNING_STRIPE_SIZE +
                       ucast ((stripe - 1) * ucast CRYPTONOTE_PRUNING_STRIPE_SIZE)
                 in if blockchain_height < h + CRYPTONOTE_PRUNING_TIP_BLOCKS
                    then if blockchain_height < CRYPTONOTE_PRUNING_TIP_BLOCKS then 0
                         else blockchain_height - CRYPTONOTE_PRUNING_TIP_BLOCKS
                    else if \<not> block_height \<le> h then block_height
                    else h)"

definition get_next_pruned_block_height :: "u64 \<Rightarrow> u64 \<Rightarrow> u32 \<Rightarrow> u64 outcome" where
  "get_next_pruned_block_height block_height blockchain_height pruning_seed =
    (let stripe = get_pruning_stripe pruning_seed
     in if stripe = 0 then Inr blockchain_height
        else if blockchain_height \<le> block_height + CRYPTONOTE_PRUNING_TIP_BLOCKS then Inr blockchain_height
        else
          let seed_log_stripes = get_pruning_log_stripes pruning_seed;
              log_stripes = (if seed_log_stripes \<noteq> 0 then ucast seed_log_stripes else CRYPTONOTE_PRUNING_LOG_STRIPES);
              mask = push_bit (unat log_stripes) 1 - 1;
              block_pruning_seed = (ucast (((block_height div CRYPTONOTE_PRUNING_STRIPE_SIZE) AND mask) + 1) :: u32)
          in if block_pruning_seed \<noteq> stripe then Inr block_height
             else
               let next_stripe = (ucast (1 + (ucast block_pruning_seed AND mask)) :: u32)
               in bindE (make_pruning_seed next_stripe (ucast log_stripes)) (\<lambda>seed.
                    Inr (get_next_unpruned_block_height block_height blockchain_height seed)))"

definition get_random_stripe :: "u8 \<Rightarrow> u32" where
  "get_random_stripe r = ucast (1 + (ucast r :: u64) mod push_bit (unat CRYPTONOTE_PRUNING_LOG_STRIPES) 1)"

section \<open>The definitions as natural numbers\<close>

lemmas pruning_consts = CRYPTONOTE_PRUNING_STRIPE_SIZE_def CRYPTONOTE_PRUNING_LOG_STRIPES_def CRYPTONOTE_PRUNING_TIP_BLOCKS_def
  CRYPTONOTE_MAX_BLOCK_NUMBER_def PRUNING_SEED_LOG_STRIPES_SHIFT_def PRUNING_SEED_LOG_STRIPES_MASK_def
  PRUNING_SEED_STRIPE_SHIFT_def PRUNING_SEED_STRIPE_MASK_def

text \<open>The stripe of a block, counted from 0, among \<open>2 ^ k\<close>.\<close>

definition stripe_of :: "nat \<Rightarrow> nat \<Rightarrow> nat" where
  "stripe_of k h = (h div 2048) mod 2 ^ k"

lemma stripe_of_less [simp]: "stripe_of k h < 2 ^ k"
  by (simp add: stripe_of_def)

definition in_tip :: "u64 \<Rightarrow> u64 \<Rightarrow> bool" where
  "in_tip blockchain_height block_height \<longleftrightarrow> unat blockchain_height \<le> unat block_height + 5500"

text \<open>The next block of a stripe.\<close>

definition next_in_stripe :: "nat \<Rightarrow> nat \<Rightarrow> nat \<Rightarrow> nat" where
  "next_in_stripe k s h =
    (if stripe_of k h = s then h
     else (h div 2048 div 2 ^ k + (if stripe_of k h < s then 0 else 1)) * (2048 * 2 ^ k) + s * 2048)"

lemma next_in_stripe_least:
  assumes "s < 2 ^ k"
  shows "h \<le> next_in_stripe k s h" and "stripe_of k (next_in_stripe k s h) = s"
    and "h \<le> x \<Longrightarrow> x < next_in_stripe k s h \<Longrightarrow> stripe_of k x \<noteq> s"
proof -
  define q M b where "q = h div 2048" and "M = (2 :: nat) ^ k" and "b = q mod M"
  define c where "c = q div M + (if b < s then 0 else 1)"
  have M: "0 < M" "s < M" "b < M" using assms by (simp_all add: M_def b_def)
  have q: "q = q div M * M + b" by (simp add: b_def)
  have st: "stripe_of k h = b" by (simp add: stripe_of_def q_def M_def b_def)
  have nx: "next_in_stripe k s h = (c * M + s) * 2048" if "b \<noteq> s"
    using that by (simp add: next_in_stripe_def st c_def q_def [symmetric] M_def [symmetric] algebra_simps)
  have up: "q \<le> c * M + s \<and> q \<noteq> c * M + s" if "b \<noteq> s"
  proof (cases "b < s")
    case True
    then show ?thesis using q by (simp add: c_def)
  next
    case False
    then have "c * M = q div M * M + M" by (simp add: c_def)
    then show ?thesis using q M by linarith
  qed
  have h: "h < (q + 1) * 2048" by (simp add: q_def dividend_less_div_times)
  show "h \<le> next_in_stripe k s h"
  proof (cases "b = s")
    case True
    then show ?thesis by (simp add: next_in_stripe_def st)
  next
    case False
    with up have "q + 1 \<le> c * M + s" by linarith
    then have "(q + 1) * 2048 \<le> (c * M + s) * 2048" by (rule mult_right_mono) simp
    with h nx [OF False] show ?thesis by linarith
  qed
  show "stripe_of k (next_in_stripe k s h) = s"
    by (cases "b = s") (use M in \<open>simp_all add: nx st next_in_stripe_def stripe_of_def M_def [symmetric]\<close>)
  show "stripe_of k x \<noteq> s" if x: "h \<le> x" "x < next_in_stripe k s h"
  proof (cases "b = s")
    case True
    with x show ?thesis by (simp add: next_in_stripe_def st)
  next
    case False
    define y where "y = x div 2048"
    have y: "q \<le> y" "y < c * M + s"
      using x nx [OF False] by (simp_all add: y_def q_def div_le_mono less_mult_imp_div_less)
    show ?thesis
    proof
      assume "stripe_of k x = s"
      then have yd: "y = y div M * M + s" by (metis M_def div_mult_mod_eq stripe_of_def y_def)
      with y(2) have "y div M * M < c * M" by linarith
      then have "y div M < c" by simp
      moreover have "q div M \<le> y div M" using y(1) by (rule div_le_mono)
      ultimately have "\<not> b < s" "y div M = q div M" by (auto simp: c_def split: if_splits)
      with yd q y(1) False show False by simp
    qed
  qed
qed

lemma unat_and_mask: "unat (x AND (push_bit k 1 - 1) :: 'a::len word) = unat x mod 2 ^ k"
proof -
  have "push_bit k 1 - 1 = (mask k :: 'a word)" by (simp add: mask_eq_exp_minus_1 push_bit_eq_mult)
  then have "x AND (push_bit k 1 - 1) = take_bit k x" by (simp add: take_bit_eq_mask)
  then have "unat (x AND (push_bit k 1 - 1)) = take_bit k (unat x)" by (simp only: unsigned_take_bit_eq)
  then show ?thesis by (simp only: take_bit_eq_mod)
qed

lemma unat_get_pruning_log_stripes: "unat (get_pruning_log_stripes seed) = unat seed div 128 mod 8"
proof -
  have "(7 :: u32) = push_bit 3 1 - 1" by simp
  then have "unat (get_pruning_log_stripes seed) = unat (drop_bit 7 seed) mod 2 ^ 3"
    unfolding get_pruning_log_stripes_def pruning_consts by (simp only: unat_and_mask)
  then show ?thesis by (simp add: unat_drop_bit_eq drop_bit_eq_div [of 7 "unat seed"])
qed

lemma unat_get_pruning_stripe: "unat (get_pruning_stripe seed) = (if seed = 0 then 0 else unat seed mod 128 + 1)"
proof -
  have "(0x7f :: u32) = push_bit 7 1 - 1" by simp
  then have m: "unat (seed AND 0x7f) = unat seed mod 2 ^ 7" by (simp only: unat_and_mask)
  then have "unat (1 + (seed AND 0x7f)) = unat (1 :: u32) + unat (seed AND 0x7f)"
    by (intro unat_add_less) (simp add: less_trans [of _ 128])
  with m show ?thesis by (simp add: get_pruning_stripe_def pruning_consts)
qed

text \<open>The seed of stripe \<open>s\<close> among \<open>2 ^ k\<close>, counted from 0.\<close>

definition seed_of :: "nat \<Rightarrow> nat \<Rightarrow> u32" where
  "seed_of k s = of_nat (k * 128 + s)"

lemma stripe_less_128: "k \<le> 7 \<Longrightarrow> s < 2 ^ k \<Longrightarrow> s < (128 :: nat)"
  using power_increasing [of k 7 "2 :: nat"] by simp

lemma unat_seed_of: "k \<le> 7 \<Longrightarrow> s < 2 ^ k \<Longrightarrow> unat (seed_of k s) = k * 128 + s"
  using stripe_less_128 [of k s] by (simp only: seed_of_def unat_of_nat) simp

lemma seed_fields:
  assumes "1 \<le> k" and "k \<le> 7" and "s < 2 ^ k"
  shows "get_pruning_log_stripes (seed_of k s) = of_nat k" and "get_pruning_stripe (seed_of k s) = of_nat (s + 1)"
proof -
  have s: "s < 128" using stripe_less_128 assms by simp
  have u: "unat (seed_of k s) = k * 128 + s" using unat_seed_of assms by simp
  then have "(k * 128 + s) div 128 mod 8 = k" using s assms(2) by simp
  then show "get_pruning_log_stripes (seed_of k s) = of_nat k"
    using assms(2) by (simp add: word_unat_eq_iff unat_get_pruning_log_stripes u unat_of_nat)
  have "seed_of k s \<noteq> 0" using u assms(1) by (metis add_is_0 mult_is_0 not_one_le_zero unsigned_0 zero_neq_numeral)
  moreover have "(k * 128 + s) mod 128 = s" using s by simp
  moreover have "unat (of_nat (s + 1) :: u32) = s + 1" using s by (simp only: unat_of_nat) simp
  ultimately show "get_pruning_stripe (seed_of k s) = of_nat (s + 1)"
    by (simp only: word_unat_eq_iff unat_get_pruning_stripe u if_False)
qed

lemma make_pruning_seed_eq:
  assumes "k \<le> 7" and "s < 2 ^ k"
  shows "make_pruning_seed (of_nat (s + 1)) (of_nat k) = Inr (seed_of k s)"
proof -
  have s: "s < 128" using stripe_less_128 assms by simp
  have uk: "unat (of_nat k :: u32) = k" and us: "unat (of_nat (s + 1) :: u32) = s + 1"
    using s assms(1) by (simp_all only: unat_of_nat) simp_all
  have "(2 :: nat) ^ k < 2 ^ 64" by (rule power_strict_increasing) (use assms in auto)
  then have p: "unat (push_bit k 1 :: u64) = 2 ^ k" using unat_of_nat_small [of "2 ^ k"] by (simp add: push_bit_eq_mult)
  have "unat (ucast (of_nat (s + 1) :: u32) :: u64) = s + 1" using us s by (simp add: unsigned_ucast_eq unsigned_of_nat take_bit_eq_mod)
  then have le: "ucast (of_nat (s + 1) :: u32) \<le> (push_bit k 1 :: u64)" using p assms(2) by (simp add: word_le_nat_alt)
  have "push_bit 7 (of_nat k) OR (of_nat s :: u32) = push_bit 7 (of_nat k) + of_nat s"
  proof (rule disjunctive_add_eq_or [symmetric])
    have t: "take_bit 7 (of_nat s) = (of_nat s :: u32)"
      using s by (simp only: word_unat_eq_iff unsigned_take_bit_eq) (simp add: take_bit_eq_mod unat_of_nat)
    have "push_bit 7 (of_nat k) AND take_bit 7 (of_nat s :: u32) = 0"
      by (rule bit_word_eqI) (auto simp: bit_simps)
    then show "push_bit 7 (of_nat k) AND (of_nat s :: u32) = 0" by (simp only: t)
  qed
  also have "\<dots> = seed_of k s" by (simp add: seed_of_def push_bit_eq_mult mult.commute)
  finally have "push_bit 7 (of_nat k) OR push_bit 0 (of_nat (s + 1) - 1) = seed_of k s" by simp
  then show ?thesis
    using assms(1) le us by (simp add: make_pruning_seed_def pruning_consts uk word_le_nat_alt word_gt_0 word_unat_eq_iff)
qed

lemma unat_block_stripe:
  assumes "k \<le> 7"
  shows "unat (ucast ((bh div 2048 AND (push_bit k 1 - 1)) + 1 :: u64) :: u32) = stripe_of k (unat bh) + 1"
proof -
  let ?w = "bh div 2048 AND (push_bit k 1 - 1)"
  have u: "unat ?w = stripe_of k (unat bh)" by (simp only: unat_and_mask) (simp add: stripe_of_def unat_div)
  have less: "stripe_of k (unat bh) < 128" by (rule stripe_less_128 [OF assms]) simp
  then have "unat (?w + 1) = unat ?w + unat (1 :: u64)" using u by (intro unat_add_less) simp
  with u less show ?thesis by (simp add: unsigned_ucast_eq take_bit_eq_mod)
qed

lemma in_tip_word:
  assumes "unat bh \<le> 500000001"
  shows "ch \<le> bh + CRYPTONOTE_PRUNING_TIP_BLOCKS \<longleftrightarrow> in_tip ch bh"
proof -
  have "unat (bh + 5500) = unat bh + unat (5500 :: u64)" using assms by (intro unat_add_less) simp
  then show ?thesis by (simp add: in_tip_def word_le_nat_alt pruning_consts)
qed

lemma has_unpruned_block_eq:
  assumes "1 \<le> k" and "k \<le> 7" and "s < 2 ^ k" and "unat bh \<le> 500000001"
  shows "has_unpruned_block bh ch (seed_of k s) \<longleftrightarrow> in_tip ch bh \<or> stripe_of k (unat bh) = s"
proof -
  have s: "s < 128" using stripe_less_128 assms by simp
  then have us: "unat (of_nat (s + 1) :: u32) = s + 1" by (simp only: unat_of_nat) simp
  have uk: "unat (of_nat k :: u32) = k" using assms(2) by (simp add: unat_of_nat)
  note b = unat_block_stripe [OF assms(2), of bh]
  show ?thesis
    using b us by (simp add: has_unpruned_block_def Let_def seed_fields [OF assms(1-3)] get_pruning_stripe_at_def in_tip_word [OF assms(4)]
      word_unat_eq_iff uk pruning_consts(1) del: of_nat_Suc of_nat_add)
qed

lemma get_next_unpruned_eq:
  assumes "1 \<le> k" and "k \<le> 7" and "s < 2 ^ k" and "unat bh \<le> 500000001" and "unat ch \<le> 500000001"
  shows "unat (get_next_unpruned_block_height bh ch (seed_of k s)) =
    (if in_tip ch bh then unat bh else min (next_in_stripe k s (unat bh)) (unat ch - 5500))"
proof (cases "in_tip ch bh")
  case True
  then show ?thesis using assms(4,5)
    by (simp add: get_next_unpruned_block_height_def in_tip_word Let_def)
next
  case False
  have s: "s < 128" using stripe_less_128 assms by simp
  then have us: "unat (of_nat (s + 1) :: u32) = s + 1" by (simp only: unat_of_nat) simp
  have uk: "unat (of_nat k :: u32) = k" "unat (ucast (of_nat k :: u32) :: u64) = k" "of_nat k \<noteq> (0 :: u32)"
    using assms(1,2) by (simp_all add: unat_of_nat unsigned_ucast_eq take_bit_eq_mod word_unat_eq_iff)
  let ?bs = "ucast ((bh div 2048 AND (push_bit k 1 - 1)) + 1 :: u64) :: u32"
  note b = unat_block_stripe [OF assms(2), of bh]
  define c where "c = drop_bit k (bh div 2048) + (if ?bs < of_nat (s + 1) then 0 else 1)"
  define h where "h = c * push_bit k 2048 + ucast ((of_nat (s + 1) - 1) * ucast (2048 :: u64) :: u32)"
  have p: "unat (push_bit k 2048 :: u64) = 2048 * 2 ^ k"
  proof -
    have "(2 :: nat) ^ k \<le> 2 ^ 7" by (rule power_increasing) (use assms(2) in auto)
    then have "2048 * (2 :: nat) ^ k < 2 ^ 64" by simp
    from unat_of_nat_small [OF this] show ?thesis by (simp add: push_bit_eq_mult)
  qed
  let ?c = "unat bh div 2048 div 2 ^ k" and ?e = "if stripe_of k (unat bh) < s then 0 else 1 :: nat"
  have cyc: "?c * (2048 * 2 ^ k) \<le> unat bh"
    by (metis div_mult2_eq div_times_less_eq_dividend mult.commute)
  have uc: "unat c = ?c + ?e"
  proof -
    have "unat (drop_bit k (bh div 2048)) = drop_bit k (unat (bh div 2048))" by (rule unat_drop_bit_eq)
    then have d: "unat (drop_bit k (bh div 2048)) = ?c" by (simp add: drop_bit_eq_div unat_div)
    have "?c \<le> unat bh" using cyc by (meson div_le_dividend order_trans)
    then have "unat (drop_bit k (bh div 2048) + 1) = unat (drop_bit k (bh div 2048)) + unat (1 :: u64)"
      using assms(4) d by (intro unat_add_less) simp
    moreover have "?bs < of_nat (s + 1) \<longleftrightarrow> stripe_of k (unat bh) < s" unfolding word_less_nat_alt b us by simp
    ultimately show ?thesis unfolding c_def using d
      by (cases "stripe_of k (unat bh) < s") (simp_all only: if_True if_False add_0_right unsigned_1)
  qed
  have bound: "(?c + ?e) * (2048 * 2 ^ k) \<le> 500000001 + 2048 * 128"
  proof -
    have "(2 :: nat) ^ k \<le> 2 ^ 7" by (rule power_increasing) (use assms(2) in auto)
    then have "?e * (2048 * 2 ^ k) \<le> 2048 * 128" by simp
    with cyc assms(4) show ?thesis unfolding add_mult_distrib by linarith
  qed
  have last: "unat (ucast ((of_nat (s + 1) - 1) * ucast (2048 :: u64) :: u32) :: u64) = s * 2048"
  proof -
    have "unat (of_nat s * 2048 :: u32) = unat (of_nat s :: u32) * unat (2048 :: u32)"
      using s by (intro unat_mult_less) (simp add: unat_of_nat)
    then show ?thesis using s by (simp add: unsigned_ucast_eq take_bit_eq_mod unat_of_nat)
  qed
  have "unat (c * push_bit k 2048) = unat c * unat (push_bit k 2048 :: u64)"
    by (rule unat_mult_less, simp only: uc p, rule le_less_trans [OF bound]) simp
  then have prod: "unat (c * push_bit k 2048) = (?c + ?e) * (2048 * 2 ^ k)" by (simp only: uc p)
  have "unat h = unat (c * push_bit k 2048) + unat (ucast ((of_nat (s + 1) - 1) * ucast (2048 :: u64) :: u32) :: u64)"
    unfolding h_def by (rule unat_add_less, simp only: prod last, rule le_less_trans [OF add_right_mono [OF bound]]) (use s in simp)
  then have uh: "unat h = (?c + ?e) * (2048 * 2 ^ k) + s * 2048" by (simp only: prod last)
  have hb: "unat h \<le> 600000000" unfolding uh using add_right_mono [OF bound, of "s * 2048"] s by linarith
  have nx: "stripe_of k (unat bh) \<noteq> s \<Longrightarrow> next_in_stripe k s (unat bh) = unat h" unfolding uh next_in_stripe_def by simp
  have up: "unat bh \<le> next_in_stripe k s (unat bh)" by (rule next_in_stripe_least(1) [OF assms(3)])
  have tip: "5500 \<le> unat ch" "unat bh + 5500 < unat ch" using False by (simp_all add: in_tip_def)
  have lim: "bh \<le> CRYPTONOTE_MAX_BLOCK_NUMBER + 1" "ch \<le> CRYPTONOTE_MAX_BLOCK_NUMBER + 1"
    using assms(4,5) by (simp_all add: word_le_nat_alt pruning_consts)
  have h5500: "unat (h + 5500) = unat h + 5500"
    using hb unat_add_less [of h 5500] by simp
  have "get_next_unpruned_block_height bh ch (seed_of k s) =
      (if ?bs = of_nat (s + 1) then bh else if ch < h + 5500 then if ch < 5500 then 0 else ch - 5500 else if \<not> bh \<le> h then bh else h)"
    using False us lim uk in_tip_word [OF assms(4), of ch]
    unfolding get_next_unpruned_block_height_def seed_fields [OF assms(1-3)] Let_def h_def c_def
    by (simp only: pruning_consts if_True if_False simp_thms) (auto simp: word_unat_eq_iff)
  moreover have "?bs = of_nat (s + 1) \<longleftrightarrow> stripe_of k (unat bh) = s" unfolding word_unat_eq_iff b us by simp
  ultimately show ?thesis
    using False tip nx up h5500 by (auto simp: word_less_nat_alt word_le_nat_alt unat_sub_le next_in_stripe_def min_def)
qed

lemma made_seed:
  assumes "make_pruning_seed stripe log_stripes = Inr seed"
  shows "unat log_stripes \<le> 7" and "unat stripe - 1 < 2 ^ unat log_stripes" and "seed = seed_of (unat log_stripes) (unat stripe - 1)"
    and "stripe = of_nat (unat stripe - 1 + 1)"
proof -
  let ?k = "unat log_stripes" and ?s = "unat stripe - 1"
  from assms have c: "log_stripes \<le> 7" "0 < stripe" "ucast stripe \<le> (push_bit ?k 1 :: u64)"
    by (auto simp: make_pruning_seed_def pruning_consts split: if_splits)
  show k: "?k \<le> 7" using c(1) by (simp add: word_le_nat_alt)
  have "(2 :: nat) ^ ?k < 2 ^ 64" by (rule power_strict_increasing) (use k in auto)
  then have "unat (push_bit ?k 1 :: u64) = 2 ^ ?k" using unat_of_nat_small [of "2 ^ ?k"] by (simp add: push_bit_eq_mult)
  moreover have "unat (ucast stripe :: u64) = unat stripe" using unat32_bound [of stripe] by (simp add: unsigned_ucast_eq take_bit_eq_mod)
  moreover have pos: "0 < unat stripe" using c(2) by (simp add: word_less_nat_alt)
  ultimately show s: "?s < 2 ^ ?k" using c(3) by (simp add: word_le_nat_alt)
  show stripe: "stripe = of_nat (?s + 1)" using pos by simp
  have "log_stripes = of_nat ?k" by simp
  with make_pruning_seed_eq [OF k s] stripe assms show "seed = seed_of ?k ?s" by simp
qed

lemma next_stripe_start:
  assumes "1 \<le> k"
  shows "next_in_stripe k ((stripe_of k h + 1) mod 2 ^ k) h = (h div 2048 + 1) * 2048"
proof -
  define M where "M = (2 :: nat) ^ k"
  define d r where "d = h div 2048 div M" and "r = h div 2048 mod M"
  have q: "h div 2048 = d * M + r" by (simp add: d_def r_def)
  have M: "1 < M" unfolding M_def using assms by (intro one_less_power) auto
  then have r: "r < M" by (simp add: r_def)
  have "next_in_stripe k ((r + 1) mod M) h = (d * M + r + 1) * 2048"
  proof (cases "r + 1 < M")
    case True
    then show ?thesis unfolding next_in_stripe_def stripe_of_def M_def [symmetric] d_def [symmetric] r_def [symmetric]
      by (simp add: algebra_simps)
  next
    case False
    then have "r + 1 = M" using r by simp
    moreover from this have "r \<noteq> 0" using M by simp
    ultimately show ?thesis unfolding next_in_stripe_def stripe_of_def M_def [symmetric] d_def [symmetric] r_def [symmetric]
      by (simp add: algebra_simps)
  qed
  then show ?thesis by (simp only: stripe_of_def M_def [symmetric] r_def [symmetric] q [symmetric])
qed

lemma same_stripe: "h \<le> x \<Longrightarrow> x < (h div 2048 + 1) * 2048 \<Longrightarrow> stripe_of k x = stripe_of k h"
proof -
  assume x: "h \<le> x" "x < (h div 2048 + 1) * 2048"
  have "h div 2048 \<le> x div 2048" using x(1) by (rule div_le_mono)
  moreover have "x div 2048 < h div 2048 + 1" using x(2) by (rule less_mult_imp_div_less)
  ultimately have "x div 2048 = h div 2048" by linarith
  then show ?thesis by (simp add: stripe_of_def)
qed

lemma get_next_pruned_eq:
  assumes "1 \<le> k" and "k \<le> 7" and "s < 2 ^ k" and "unat bh \<le> 500000001" and "unat ch \<le> 500000001"
  shows "\<exists>h. get_next_pruned_block_height bh ch (seed_of k s) = Inr h \<and>
    unat h = (if in_tip ch bh then unat ch else if stripe_of k (unat bh) \<noteq> s then unat bh
      else min ((unat bh div 2048 + 1) * 2048) (unat ch - 5500))"
proof -
  have s: "s < 128" using stripe_less_128 assms by simp
  then have us: "unat (of_nat (s + 1) :: u32) = s + 1" by (simp only: unat_of_nat) simp
  have ucast_back: "(ucast (ucast (x :: u32) :: u64) :: u32) = x" for x
    by (rule bit_word_eqI) (auto simp: bit_simps)
  have nz: "of_nat (s + 1) \<noteq> (0 :: u32)" unfolding word_unat_eq_iff us by simp
  have uk: "unat (of_nat k :: u32) = k" "unat (ucast (of_nat k :: u32) :: u64) = k" "of_nat k \<noteq> (0 :: u32)"
    using assms(1,2) by (simp_all add: unat_of_nat unsigned_ucast_eq take_bit_eq_mod word_unat_eq_iff)
  let ?bs = "ucast ((bh div 2048 AND (push_bit k 1 - 1)) + 1 :: u64) :: u32"
  let ?s' = "(s + 1) mod 2 ^ k"
  note b = unat_block_stripe [OF assms(2), of bh]
  have bs: "?bs = of_nat (s + 1) \<longleftrightarrow> stripe_of k (unat bh) = s" unfolding word_unat_eq_iff b us by simp
  have s': "?s' < 2 ^ k" by simp
  have ns: "(ucast (1 + (ucast (of_nat (s + 1) :: u32) AND (push_bit k 1 - 1) :: u64)) :: u32) = of_nat (?s' + 1)"
  proof -
    have "unat (ucast (of_nat (s + 1) :: u32) :: u64) = s + 1"
      unfolding unsigned_ucast_eq us take_bit_eq_mod using s by simp
    then have w: "unat (ucast (of_nat (s + 1) :: u32) AND (push_bit k 1 - 1) :: u64) = ?s'"
      by (simp only: unat_and_mask)
    have less: "?s' < 128" by (rule stripe_less_128 [OF assms(2) s'])
    have "unat (1 + (ucast (of_nat (s + 1) :: u32) AND (push_bit k 1 - 1)) :: u64) = 1 + ?s'"
      using less w by (subst unat_add_less) (simp_all only: w unsigned_1, simp_all)
    moreover have "unat (of_nat (?s' + 1) :: u32) = ?s' + 1" using less by (simp only: unat_of_nat) simp
    ultimately show ?thesis using less by (simp add: word_unat_eq_iff unsigned_ucast_eq take_bit_eq_mod)
  qed
  show ?thesis
  proof (cases "in_tip ch bh \<or> stripe_of k (unat bh) \<noteq> s")
    case True
    then show ?thesis using bs us uk in_tip_word [OF assms(4), of ch]
      unfolding get_next_pruned_block_height_def seed_fields [OF assms(1-3)] Let_def
      by (auto simp: pruning_consts word_unat_eq_iff)
  next
    case False
    then have e: "?bs = of_nat (s + 1)" using bs by simp
    have "get_next_pruned_block_height bh ch (seed_of k s) =
        Inr (get_next_unpruned_block_height bh ch (seed_of k ?s'))"
      using nz uk in_tip_word [OF assms(4), of ch] False
      unfolding get_next_pruned_block_height_def seed_fields [OF assms(1-3)] Let_def
      by (simp only: pruning_consts(1) if_True if_False simp_thms de_Morgan_disj e ns ucast_back make_pruning_seed_eq [OF assms(2) s'] bindE_Inr)
    with False show ?thesis
      using get_next_unpruned_eq [OF assms(1,2) s' assms(4,5)] next_stripe_start [OF assms(1), of "unat bh"] by auto
  qed
qed

section \<open>Results\<close>

lemma next_unpruned_is_least:
  assumes "1 \<le> k" and "k \<le> 7" and "s < 2 ^ k" and "unat bh \<le> 500000001" and "unat ch \<le> 500000001"
  defines "h \<equiv> get_next_unpruned_block_height bh ch (seed_of k s)"
  shows "bh \<le> h" and "has_unpruned_block h ch (seed_of k s)"
    and "bh \<le> x \<Longrightarrow> x < h \<Longrightarrow> \<not> has_unpruned_block x ch (seed_of k s)"
proof -
  note N = next_in_stripe_least [OF assms(3), of "unat bh"]
  have uh: "unat h = (if in_tip ch bh then unat bh else min (next_in_stripe k s (unat bh)) (unat ch - 5500))"
    unfolding h_def by (rule get_next_unpruned_eq [OF assms(1-5)])
  then show "bh \<le> h" using N(1) by (auto simp: word_le_nat_alt in_tip_def)
  have small: "unat h \<le> 500000001" using uh assms(4,5) by (auto split: if_splits)
  have "in_tip ch h \<or> stripe_of k (unat h) = s"
    using uh N(2) by (auto simp: in_tip_def min_def split: if_splits)
  then show "has_unpruned_block h ch (seed_of k s)" by (simp add: has_unpruned_block_eq [OF assms(1-3) small])
  assume x: "bh \<le> x" "x < h"
  then have ux: "unat bh \<le> unat x" "unat x < unat h" by (simp_all add: word_le_nat_alt word_less_nat_alt)
  then have "\<not> in_tip ch bh" "unat x < next_in_stripe k s (unat bh)" "unat x < unat ch - 5500"
    using uh by (auto split: if_splits)
  then have "stripe_of k (unat x) \<noteq> s" "\<not> in_tip ch x" using N(3) [OF ux(1)] by (simp_all add: in_tip_def)
  moreover have "unat x \<le> 500000001" using ux(2) small by simp
  ultimately show "\<not> has_unpruned_block x ch (seed_of k s)" by (simp add: has_unpruned_block_eq [OF assms(1-3)])
qed

lemma next_pruned_is_stop:
  assumes "1 \<le> k" and "k \<le> 7" and "s < 2 ^ k" and "unat bh \<le> 500000001" and "unat ch \<le> 500000001"
  shows "\<exists>p. get_next_pruned_block_height bh ch (seed_of k s) = Inr p \<and>
    (\<forall>x. bh \<le> x \<and> x < p \<longrightarrow> has_unpruned_block x ch (seed_of k s)) \<and>
    (\<not> has_unpruned_block p ch (seed_of k s) \<or> in_tip ch p)"
proof -
  from get_next_pruned_eq [OF assms] obtain p where p: "get_next_pruned_block_height bh ch (seed_of k s) = Inr p"
    "unat p = (if in_tip ch bh then unat ch else if stripe_of k (unat bh) \<noteq> s then unat bh
      else min ((unat bh div 2048 + 1) * 2048) (unat ch - 5500))" by blast
  have small: "unat p \<le> 500000001" using p(2) assms(4,5) by (auto split: if_splits)
  have "has_unpruned_block x ch (seed_of k s)" if x: "bh \<le> x" "x < p" for x
  proof -
    have ux: "unat bh \<le> unat x" "unat x < unat p" using x by (simp_all add: word_le_nat_alt word_less_nat_alt)
    then have "in_tip ch x \<or> stripe_of k (unat x) = s"
      using p(2) same_stripe [of "unat bh" "unat x" k] by (auto simp: in_tip_def split: if_splits)
    then show ?thesis using ux(2) small by (simp add: has_unpruned_block_eq [OF assms(1-3)])
  qed
  moreover have "\<not> has_unpruned_block p ch (seed_of k s) \<or> in_tip ch p"
  proof (cases "in_tip ch p")
    case False
    then have "stripe_of k (unat p) \<noteq> s"
    proof (cases "stripe_of k (unat bh) = s")
      case True
      have "next_in_stripe k ((s + 1) mod 2 ^ k) (unat bh) = (unat bh div 2048 + 1) * 2048"
        using next_stripe_start [OF assms(1), of "unat bh"] True by simp
      then have "stripe_of k ((unat bh div 2048 + 1) * 2048) = (s + 1) mod 2 ^ k"
        using next_in_stripe_least(2) [of "(s + 1) mod 2 ^ k" k "unat bh"] by simp
      moreover have "unat p = (unat bh div 2048 + 1) * 2048"
        using p(2) False True by (auto simp: in_tip_def min_def split: if_splits)
      moreover have "(s + 1) mod 2 ^ k \<noteq> s"
      proof -
        have "1 < (2 :: nat) ^ k" using assms(1) by (intro one_less_power) auto
        with assms(3) show ?thesis by (cases "s + 1 = 2 ^ k") auto
      qed
      ultimately show ?thesis by simp
    qed (use p(2) False in \<open>auto simp: in_tip_def split: if_splits\<close>)
    with False show ?thesis using small by (simp add: has_unpruned_block_eq [OF assms(1-3)])
  qed simp
  ultimately show ?thesis using p(1) by blast
qed

text \<open>The seed of the stripe of a block keeps that block.\<close>

lemma own_seed_keeps_block:
  assumes "1 \<le> k" and "k \<le> 7" and "unat bh \<le> 500000001"
  shows "\<exists>seed. get_pruning_seed bh ch (of_nat k) = Inr seed \<and> has_unpruned_block bh ch seed"
proof (cases "in_tip ch bh")
  case True
  then show ?thesis using assms(3)
    by (simp add: get_pruning_seed_def get_pruning_stripe_at_def in_tip_word has_unpruned_block_def get_pruning_stripe_def)
next
  case False
  let ?s = "stripe_of k (unat bh)"
  have uk: "unat (of_nat k :: u32) = k" using assms(2) by (simp add: unat_of_nat)
  have s: "?s < 128" using stripe_less_128 [OF assms(2), of ?s] by simp
  then have "unat (of_nat (?s + 1) :: u32) = ?s + 1" by (simp only: unat_of_nat) simp
  then have st: "get_pruning_stripe_at bh ch (of_nat k) = of_nat (?s + 1)" and nz: "of_nat (?s + 1) \<noteq> (0 :: u32)"
    using False assms(3) unat_block_stripe [OF assms(2), of bh]
    unfolding get_pruning_stripe_at_def in_tip_word [OF assms(3)] uk word_unat_eq_iff by (simp_all add: pruning_consts)
  from nz have "get_pruning_seed bh ch (of_nat k) = Inr (seed_of k ?s)"
    unfolding get_pruning_seed_def st Let_def using make_pruning_seed_eq [OF assms(2), of ?s] by simp
  then show ?thesis using has_unpruned_block_eq [OF assms(1,2) stripe_of_less assms(3)] by blast
qed

text \<open>
  (C27) The range of blocks a pruned node can serve. For a seed that \<open>make_pruning_seed\<close> builds with at
  least two stripes, and heights up to the largest one the chain may have, the next unpruned height is
  the least height from the given one on whose block is kept. The next pruned height is always
  returned (its seed is never rejected), every block before it is kept, and it is itself pruned or
  within the tip that is never pruned.
\<close>

theorem pruning_ranges_correct:
  assumes "make_pruning_seed stripe log_stripes = Inr seed" and "log_stripes \<noteq> 0"
    and "block_height \<le> CRYPTONOTE_MAX_BLOCK_NUMBER + 1" and "blockchain_height \<le> CRYPTONOTE_MAX_BLOCK_NUMBER + 1"
  shows "block_height \<le> get_next_unpruned_block_height block_height blockchain_height seed \<and>
    has_unpruned_block (get_next_unpruned_block_height block_height blockchain_height seed) blockchain_height seed \<and>
    (\<forall>x. block_height \<le> x \<and> x < get_next_unpruned_block_height block_height blockchain_height seed \<longrightarrow>
      \<not> has_unpruned_block x blockchain_height seed) \<and>
    (\<exists>p. get_next_pruned_block_height block_height blockchain_height seed = Inr p \<and>
      (\<forall>x. block_height \<le> x \<and> x < p \<longrightarrow> has_unpruned_block x blockchain_height seed) \<and>
      (\<not> has_unpruned_block p blockchain_height seed \<or> unat blockchain_height \<le> unat p + unat CRYPTONOTE_PRUNING_TIP_BLOCKS))"
proof -
  note seed = made_seed [OF assms(1)]
  have "log_stripes \<noteq> 0 \<Longrightarrow> 1 \<le> unat log_stripes" by (simp add: Suc_le_eq unat_gt_0)
  note k = this [OF assms(2)]
  have b: "unat block_height \<le> 500000001" "unat blockchain_height \<le> 500000001"
    using assms(3,4) by (simp_all add: word_le_nat_alt CRYPTONOTE_MAX_BLOCK_NUMBER_def)
  have tip: "in_tip ch p \<longleftrightarrow> unat ch \<le> unat p + unat CRYPTONOTE_PRUNING_TIP_BLOCKS" for ch p
    by (simp add: in_tip_def CRYPTONOTE_PRUNING_TIP_BLOCKS_def)
  show ?thesis
    using next_unpruned_is_least [OF k seed(1,2) b] next_pruned_is_stop [OF k seed(1,2) b]
    unfolding seed(3) [symmetric] tip by blast
qed

theorem pruning_ranges_correct_witness:
  "make_pruning_seed 2 1 = Inr 129 \<and>
    get_next_unpruned_block_height 100 20000 129 = 2048 \<and> has_unpruned_block 2048 20000 129 \<and>
    (\<exists>p. get_next_pruned_block_height 100 20000 129 = Inr p \<and> (\<not> has_unpruned_block p 20000 129 \<or> 20000 \<le> unat p + unat CRYPTONOTE_PRUNING_TIP_BLOCKS))"
proof -
  have m: "make_pruning_seed 2 1 = Inr 129" by code_simp
  have n: "get_next_unpruned_block_height 100 20000 129 = 2048" by code_simp
  have c: "(100 :: u64) \<le> CRYPTONOTE_MAX_BLOCK_NUMBER + 1" "(20000 :: u64) \<le> CRYPTONOTE_MAX_BLOCK_NUMBER + 1" by code_simp+
  show ?thesis using pruning_ranges_correct [OF m _ c] m n by simp blast
qed

end
