(* ===== verification/Sn_History.thy ===== *)
theory Sn_History
  imports Sn_Update Pulse
begin

text \<open>
  The history that the service node list keeps, \<open>cryptonote_core/service_node_list.{h,cpp}\<close>: the states
  of the recent blocks, the archive, the alternative states, and the operations that add a block, detach
  blocks, replay the chain and look up a quorum. A \<open>std::set\<close> of states ordered by height is a list of
  states in that order. The hard-fork version of a height, the immutable checkpoint of the database and
  the stored chain are parameters. Writing to the database and the caches of what was written are left out.
\<close>

section \<open>Data\<close>

record ('g, 'r, 'b) sn_env =
  env_rng :: "'g rng"
  env_sort :: "swarm_size list \<Rightarrow> swarm_size list"
  env_crypto :: crypto_ops
  env_stake :: "'r stake_ops"
  env_block_hash :: "'b block_scheme \<Rightarrow> hash"
  env_nettype :: network_type
  env_hard_fork_version :: "u64 \<Rightarrow> u8"
  env_immutable_checkpoint :: "u64 \<Rightarrow> u64 option"

record sn_list =
  sl_rescanning :: bool
  sl_store_quorum_history :: nat
  sl_proofs :: proofs_map
  sl_old_quorum_states :: "(u64 \<times> quorum_manager) list"
  sl_state_history :: "sn_state list"
  sl_state_archive :: "sn_state list"
  sl_alt_state :: "(hash \<times> sn_state) list"
  sl_state_added_to_archive :: bool
  sl_state :: sn_state

fun state_insert :: "sn_state \<Rightarrow> sn_state list \<Rightarrow> sn_state list" where
  "state_insert s [] = [s]"
| "state_insert s (t # ts) =
    (if st_height s < st_height t then s # t # ts
     else if st_height s = st_height t then t # ts
     else t # state_insert s ts)"

definition state_find :: "u64 \<Rightarrow> sn_state list \<Rightarrow> sn_state option" where
  "state_find h ts = find (\<lambda>s. st_height s = h) ts"

definition STORE_LONG_TERM_STATE_INTERVAL :: u64 where
  "STORE_LONG_TERM_STATE_INTERVAL = 10000"

section \<open>Adding a block\<close>

definition short_term_state_cull_height :: "u8 \<Rightarrow> u64 \<Rightarrow> u64" where
  "short_term_state_cull_height hard_fork_version block_height =
    (let DEFAULT_SHORT_TERM_STATE_HISTORY = 6 * STATE_CHANGE_TX_LIFETIME_IN_BLOCKS
     in if block_height < DEFAULT_SHORT_TERM_STATE_HISTORY then 0 else block_height - DEFAULT_SHORT_TERM_STATE_HISTORY)"

text \<open>The body of the loop over the states that leave the short-term history.\<close>

definition archive_state :: "sn_state \<Rightarrow> sn_list \<Rightarrow> sn_list" where
  "archive_state it l =
    (let l = (if sl_store_quorum_history l \<noteq> 0
           then l\<lparr>sl_old_quorum_states := sl_old_quorum_states l @ [(st_height it, st_quorums it)]\<rparr> else l);
         next_long_term_state = (st_height it div STORE_LONG_TERM_STATE_INTERVAL + 1) * STORE_LONG_TERM_STATE_INTERVAL;
         dist_to_next_long_term_state = next_long_term_state - st_height it;
         need_quorum_for_future_states = dist_to_next_long_term_state \<le> VOTE_LIFETIME + VOTE_OR_TX_VERIFY_HEIGHT_BUFFER
     in if st_height it mod STORE_LONG_TERM_STATE_INTERVAL = 0 \<or> need_quorum_for_future_states
        then let s = (if need_quorum_for_future_states
               then it\<lparr>st_service_nodes_infos := [], st_key_image_blacklist := [], st_only_loaded_quorums := True\<rparr> else it)
             in l\<lparr>sl_state_added_to_archive := True, sl_state_archive := state_insert s (sl_state_archive l)\<rparr>
        else l)"

definition cull_history :: "u8 \<Rightarrow> u64 \<Rightarrow> sn_list \<Rightarrow> sn_list" where
  "cull_history hard_fork_version block_height l =
    (let cull_height = short_term_state_cull_height hard_fork_version block_height;
         old = takeWhile (\<lambda>s. st_height s \<le> cull_height) (sl_state_history l);
         l = fold archive_state old l;
         l = l\<lparr>sl_state_history := dropWhile (\<lambda>s. st_height s \<le> cull_height) (sl_state_history l)\<rparr>
     in if sl_store_quorum_history l < length (sl_old_quorum_states l)
        then l\<lparr>sl_old_quorum_states :=
          drop (length (sl_old_quorum_states l) - sl_store_quorum_history l) (sl_old_quorum_states l)\<rparr>
        else l)"

definition cull_alt_states :: "(u64 \<Rightarrow> u64 option) \<Rightarrow> u8 \<Rightarrow> u64 \<Rightarrow> sn_list \<Rightarrow> sn_list" where
  "cull_alt_states get_immutable_checkpoint hard_fork_version block_height l =
    (if 16 \<le> hard_fork_version \<and> sl_alt_state l \<noteq> [] then
       case get_immutable_checkpoint block_height of
         None \<Rightarrow> l
       | Some immutable_height \<Rightarrow>
           l\<lparr>sl_alt_state := filter (\<lambda>(_, alt_state). \<not> st_height alt_state < immutable_height) (sl_alt_state l)\<rparr>
     else l)"

definition process_block ::
  "('g, 'r, 'b) sn_env \<Rightarrow> 'b block_scheme \<times> 'r transaction list \<Rightarrow> sn_list \<Rightarrow> sn_list outcome" where
  "process_block E = (\<lambda>(blk, txs) l.
    let block_height = get_block_height blk;
        hard_fork_version = env_hard_fork_version E block_height
    in if hard_fork_version < 16 then Inr l
       else
         let l = cull_history hard_fork_version block_height l;
             l = cull_alt_states (env_immutable_checkpoint E) hard_fork_version block_height l;
             l = l\<lparr>sl_state_history := state_insert (sl_state l) (sl_state_history l)\<rparr>
         in bindE (update_from_block (env_rng E) (env_sort E) (env_crypto E) (env_stake E) (env_block_hash E) (env_nettype E)
              True (sl_rescanning l) (sl_state_history l) [] blk txs (sl_state l, sl_proofs l)) (\<lambda>(st, proofs).
            Inr (l\<lparr>sl_state := st, sl_proofs := proofs\<rparr>)))"

section \<open>Looking up a quorum\<close>

definition offset_testing_quorum_height :: "quorum_type \<Rightarrow> u64 \<Rightarrow> u64" where
  "offset_testing_quorum_height type height =
    (if type = checkpointing then
       if height < REORG_SAFETY_BUFFER_IN_BLOCKS then 0 else height - REORG_SAFETY_BUFFER_IN_BLOCKS
     else height)"

definition qm_get :: "quorum_type \<Rightarrow> quorum_manager \<Rightarrow> quorum option" where
  "qm_get type quorums =
    (if type = obligations then qm_obligations quorums
     else if type = checkpointing then qm_checkpointing quorums
     else None)"

text \<open>
  The quorum and, where \<open>alt_quorums\<close> is asked for, the quorums of the alternative states. The old quorums
  are in the order of their heights, where \<open>std::lower_bound\<close> finds the first that is not below.
\<close>

definition get_quorum :: "quorum_type \<Rightarrow> u64 \<Rightarrow> bool \<Rightarrow> sn_list \<Rightarrow> quorum option \<times> quorum list" where
  "get_quorum type height include_old l =
    (let height = offset_testing_quorum_height type height;
         quorums =
           (if height = st_height (sl_state l) then Some (st_quorums (sl_state l))
            else case state_find height (sl_state_history l) of
              Some it \<Rightarrow> Some (st_quorums it)
            | None \<Rightarrow> map_option st_quorums (state_find height (sl_state_archive l)));
         quorums =
           (if quorums = None \<and> include_old then
              case find (\<lambda>(h, _). \<not> h < height) (sl_old_quorum_states l) of
                Some (h, q) \<Rightarrow> if h = height then Some q else None
              | None \<Rightarrow> None
            else quorums)
     in case quorums of
          None \<Rightarrow> (None, [])
        | Some quorums \<Rightarrow>
            (qm_get type quorums,
             List.map_filter (\<lambda>(_, alt_state). if st_height alt_state = height then qm_get type (st_quorums alt_state) else None)
               (sl_alt_state l)))"

text \<open>Adding a block to the main chain and to an alternative one.\<close>

definition block_added ::
  "('g, 'r, 'b) sn_env \<Rightarrow> 'b block_scheme \<times> 'r transaction list \<Rightarrow> checkpoint_t option \<Rightarrow> sn_list \<times> round_collector \<Rightarrow>
    (bool \<times> sn_list \<times> round_collector) outcome" where
  "block_added E = (\<lambda>(blk, txs) checkpoint (l, c).
    if hdr_major_version blk < 16 then Inr (True, l, c)
    else bindE (process_block E (blk, txs) l) (\<lambda>l.
      let fin = (True, l, discard_below (get_block_height blk + 1) c)
      in case checkpoint of
           None \<Rightarrow> Inr fin
         | Some cp \<Rightarrow>
             if 16 \<le> hdr_major_version blk then
               (case fst (get_quorum checkpointing (cp_height cp) False l) of
                  None \<Rightarrow> Inr (False, l, c)
                | Some q \<Rightarrow>
                    bindE (verify_checkpoint (env_crypto E) (hdr_major_version blk) cp q) (\<lambda>ok.
                      Inr (if ok then fin else (False, l, c))))
             else Inr fin))"

text \<open>The loop over the alternative quorums stops at the first that verifies the checkpoint.\<close>

fun verified_by :: "crypto_ops \<Rightarrow> u8 \<Rightarrow> checkpoint_t \<Rightarrow> quorum list \<Rightarrow> bool outcome" where
  "verified_by C hard_fork_version cp [] = Inr False"
| "verified_by C hard_fork_version cp (q # qs) =
    bindE (verify_checkpoint C hard_fork_version cp q) (\<lambda>ok. if ok then Inr True else verified_by C hard_fork_version cp qs)"

definition alt_block_added ::
  "('g, 'r, 'b) sn_env \<Rightarrow> 'b block_scheme \<times> 'r transaction list \<Rightarrow> checkpoint_t option \<Rightarrow> sn_list \<Rightarrow> (bool \<times> sn_list) outcome" where
  "alt_block_added E = (\<lambda>(blk, txs) checkpoint l.
    if hdr_major_version blk < 16 then Inr (True, l)
    else
      let block_height = get_block_height blk;
          block_hash = env_block_hash E blk
      in if map_of (sl_alt_state l) block_hash \<noteq> None then Inr (True, l)
         else
           let starting_state =
             (case state_find (block_height - 1) (sl_state_history l) of
                None \<Rightarrow> None
              | Some it \<Rightarrow> if hdr_prev_id blk = st_block_hash it then Some it else None);
             starting_state =
             (case starting_state of None \<Rightarrow> map_of (sl_alt_state l) (hdr_prev_id blk) | Some s \<Rightarrow> Some s)
           in case starting_state of
                None \<Rightarrow> Inr (False, l)
              | Some s \<Rightarrow>
                  if st_block_hash s \<noteq> hdr_prev_id blk then Inr (False, l)
                  else bindE (update_from_block (env_rng E) (env_sort E) (env_crypto E) (env_stake E) (env_block_hash E)
                      (env_nettype E) True (sl_rescanning l) (sl_state_history l) (sl_alt_state l) blk txs (s, sl_proofs l))
                    (\<lambda>(alt_state, proofs).
                    let l = l\<lparr>sl_proofs := proofs, sl_alt_state := umap_set block_hash alt_state (sl_alt_state l)\<rparr>
                    in case checkpoint of
                         None \<Rightarrow> Inr (True, l)
                       | Some cp \<Rightarrow>
                           let (q, alt_quorums) = get_quorum checkpointing (cp_height cp) False l
                           in case q of
                                None \<Rightarrow> Inr (False, l)
                              | Some q \<Rightarrow>
                                  bindE (verify_checkpoint (env_crypto E) (hdr_major_version blk) cp q) (\<lambda>ok.
                                  bindE (if ok then Inr True
                                         else verified_by (env_crypto E) (hdr_major_version blk) cp alt_quorums) (\<lambda>ok.
                                  Inr (ok, l)))))"

section \<open>Detaching blocks\<close>

text \<open>What the code does after it has set the state: nothing, a replay from it, or a new start.\<close>

datatype after_detach = Detached | Then_rescan | Then_init

definition usable :: "sn_state option \<Rightarrow> bool" where
  "usable it = (case it of None \<Rightarrow> False | Some s \<Rightarrow> \<not> st_only_loaded_quorums s)"

text \<open>The last state of the history moves to \<open>m_state\<close>; \<open>put\<close> stores what is left of the history.\<close>

definition take_last :: "u64 \<Rightarrow> sn_state list \<Rightarrow> (sn_state list \<Rightarrow> sn_list) \<Rightarrow> (sn_list \<times> after_detach) outcome" where
  "take_last revert_to_height history put =
    (if history = [] then Inl Undefined
     else Inr ((put (butlast history))\<lparr>sl_state := last history\<rparr>,
       if st_height (last history) \<noteq> revert_to_height then Then_rescan else Detached))"

definition blockchain_detached :: "u64 \<Rightarrow> sn_list \<times> round_collector \<Rightarrow> ((sn_list \<times> after_detach) \<times> round_collector) outcome" where
  "blockchain_detached height = (\<lambda>(l, c).
    let c = clear c;
        revert_to_height = height - 1
    in bindE
      (if usable (state_find revert_to_height (sl_state_history l)) then
         take_last revert_to_height (takeWhile (\<lambda>s. st_height s \<le> revert_to_height) (sl_state_history l))
           (\<lambda>history. l\<lparr>sl_state_history := history\<rparr>)
       else
         let prev_interval = revert_to_height - revert_to_height mod STORE_LONG_TERM_STATE_INTERVAL
         in if usable (state_find prev_interval (sl_state_archive l)) then
              take_last revert_to_height (takeWhile (\<lambda>s. st_height s \<le> prev_interval) (sl_state_archive l))
                (\<lambda>archive. l\<lparr>sl_state_history := [], sl_state_archive := archive\<rparr>)
            else Inr (l\<lparr>sl_state_history := [], sl_state_archive := []\<rparr>, Then_init))
      (\<lambda>r. Inr (r, c)))"

section \<open>Replaying the chain\<close>

text \<open>
  \<open>chain\<close> is the stored chain: the block of every height with its transactions. \<open>get_blocks\<close> fails where
  the first height is not stored.
\<close>

definition get_blocks :: "'x list \<Rightarrow> nat \<Rightarrow> nat \<Rightarrow> 'x list option" where
  "get_blocks chain start_offset n =
    (if length chain \<le> start_offset then None else Some (take n (drop start_offset chain)))"

definition rescan_step ::
  "('g, 'r, 'b) sn_env \<Rightarrow> ('b block_scheme \<times> 'r transaction list) list \<Rightarrow> sn_list \<times> bool \<Rightarrow> (sn_list \<times> bool) outcome" where
  "rescan_step E chain = (\<lambda>(l, stop).
    case get_blocks chain (unat (st_height (sl_state l) + 1)) 1000 of
      None \<Rightarrow> Inr (l, True)
    | Some blocks \<Rightarrow>
        if blocks = [] then Inr (l, True)
        else
          let start_height = st_height (sl_state l)
          in bindE (foldE (process_block E) blocks l) (\<lambda>l. Inr (l, start_height = st_height (sl_state l))))"

definition rescan_starting_from_curr_state ::
  "('g, 'r, 'b) sn_env \<Rightarrow> u8 \<Rightarrow> ('b block_scheme \<times> 'r transaction list) list \<Rightarrow> sn_list \<Rightarrow> sn_list outcome" where
  "rescan_starting_from_curr_state E current_hard_fork_version chain l =
    (if current_hard_fork_version < 16 then Inr l
     else
       let l = l\<lparr>sl_rescanning := True\<rparr>;
           chain_height = word_of_nat (length chain) :: u64;
           current_height = chain_height - 1
       in bindE
         (if st_height (sl_state l) = current_height then Inr (l, True)
          else whileE (\<lambda>(l, stop). \<not> stop \<and> st_height (sl_state l) < current_height) (rescan_step E chain) (l, False))
         (\<lambda>(l, _). Inr (l\<lparr>sl_rescanning := False\<rparr>)))"

section \<open>A block raises the height by one\<close>

text \<open>What only the beginning of an update changes.\<close>

definition frame :: "sn_state \<Rightarrow> u64 \<times> bool" where
  "frame st = (st_height st, st_only_loaded_quorums st)"

lemma frame_infos [simp]:
  "frame (st\<lparr>st_service_nodes_infos := i\<rparr>) = frame st"
  "frame (st\<lparr>st_key_image_blacklist := b\<rparr>) = frame st"
  "frame (st\<lparr>st_quorums := q\<rparr>) = frame st"
  by (simp_all add: frame_def)

lemma expire_nodes_frame: "frame (snd (fold expire_node ks p)) = frame (snd p)"
proof (induction ks arbitrary: p)
  case (Cons k ks)
  have "frame (snd (expire_node k p)) = frame (snd p)"
    by (cases p) (auto simp: expire_node_def split: option.splits)
  then show ?case by (simp add: Cons)
qed simp

lemma begin_block_frame: "frame (snd (begin_block H blk st)) = (st_height st + 1, st_only_loaded_quorums st)"
proof -
  have a: "frame (advance_reward h k s) = frame s" for h k s by (simp add: advance_reward_def split: option.splits)
  show ?thesis unfolding begin_block_def Let_def
    by (simp add: case_prod_beta a expire_nodes_frame) (simp add: frame_def)
qed

lemma process_state_change_tx_frame:
  assumes "process_state_change_tx C hist alts nettype linked rescanning blk tx (st, proofs) = Inr (done', st', proofs')"
  shows "frame st' = frame st"
  using assms
proof (cases rule: process_state_change_tx_cases)
  case (2 key info state)
  then show ?thesis by (cases state) (auto simp: apply_state_change_def Let_def split: if_splits)
qed simp

lemma process_tx_frame:
  assumes "process_tx C K hist alts nettype linked rescanning blk itx (need, st, proofs) = Inr (need', st', proofs')"
  shows "frame st' = frame st"
proof -
  obtain index tx where itx: "itx = (index, tx)" by force
  have reg: "frame (fst (snd (process_registration_tx C K nettype linked rescanning blk tx index (st, proofs)))) = frame st"
    by (simp add: process_registration_tx_def Let_def split: option.splits)
  have unlock: "frame (snd (process_key_image_unlock_tx C nettype (get_block_height blk) tx st)) = frame st"
    by (simp add: process_key_image_unlock_tx_def Let_def split: option.splits)
  have con: "frame (snd (process_contribution_tx K blk tx index s)) = frame s" for s
    by (simp add: process_contribution_tx_def Let_def case_prod_beta split: option.splits)
  show ?thesis
    using assms reg unlock con
    by (auto simp: process_tx_def itx case_prod_beta Let_def bindE_eq_Inr dest: process_state_change_tx_frame split: if_splits)
qed

lemma update_swarms_frame:
  assumes "update_swarms R srt H blk st = Inr st'"
  shows "frame st' = frame st"
proof -
  have one: "set_swarm_id i k s = Inr s' \<Longrightarrow> frame s' = frame s" for i k s s'
    by (auto simp: set_swarm_id_def split: option.splits if_splits)
  have many: "foldE (set_swarm_id i) ks s = Inr s' \<Longrightarrow> frame s' = frame s" for i ks s s'
    by (rule foldE_invariant [where P = "\<lambda>t. frame t = frame s"]) (auto dest: one)
  from assms obtain swarms where "foldE (\<lambda>(swarm_id, snodes). foldE (set_swarm_id swarm_id) snodes) swarms st = Inr st'"
    by (auto simp: update_swarms_def bindE_eq_Inr)
  then show ?thesis
    by (rule foldE_invariant [where P = "\<lambda>t. frame t = frame st"]) (auto dest: many split: prod.splits)
qed

lemma after_transactions_frame:
  assumes "after_transactions C K H nettype linked rescanning hist alts blk txs (st, proofs) = Inr (need, st', proofs')"
  shows "frame st' = (st_height st + 1, st_only_loaded_quorums st)"
proof -
  let ?b = "begin_block H blk st"
  from assms have "foldE (process_tx C K hist alts nettype linked rescanning blk)
      (map (\<lambda>index. (word_of_nat index, txs ! index)) [0..<length txs]) (fst ?b, snd ?b, proofs) = Inr (need, st', proofs')"
    by (simp add: after_transactions_def case_prod_beta Let_def)
  then have "(\<lambda>(_, s, _). frame s = frame (snd ?b)) (need, st', proofs')"
    by (rule foldE_invariant) (auto dest: process_tx_frame)
  then show ?thesis by (simp add: begin_block_frame)
qed

lemma update_from_block_frame:
  assumes "update_from_block R srt C K H nettype linked rescanning hist alts blk txs (st, proofs) = Inr (st', proofs')"
  shows "frame st' = (st_height st + 1, st_only_loaded_quorums st)"
  using assms
  by (auto simp: update_from_block_split bindE_eq_Inr split: if_splits dest!: update_swarms_frame after_transactions_frame)

section \<open>The short-term history\<close>

text \<open>The states of consecutive heights, up to the one before the current state.\<close>

definition consecutive :: "sn_list \<Rightarrow> bool" where
  "consecutive l \<longleftrightarrow> (\<exists>a. map (unat \<circ> st_height) (sl_state_history l) = [a..<unat (st_height (sl_state l))])"

lemma fold_archive_state:
  "sl_state_history (fold archive_state old l) = sl_state_history l \<and> sl_state (fold archive_state old l) = sl_state l \<and>
    sl_proofs (fold archive_state old l) = sl_proofs l \<and> sl_rescanning (fold archive_state old l) = sl_rescanning l"
  by (induction old arbitrary: l) (simp_all add: archive_state_def Let_def)

lemma cull_history_fields:
  "sl_state (cull_history hf h l) = sl_state l" "sl_proofs (cull_history hf h l) = sl_proofs l"
  "sl_rescanning (cull_history hf h l) = sl_rescanning l"
  "sl_state_history (cull_history hf h l) = dropWhile (\<lambda>s. st_height s \<le> short_term_state_cull_height hf h) (sl_state_history l)"
  by (simp_all add: cull_history_def Let_def fold_archive_state)

lemma cull_alt_states_fields:
  "sl_state (cull_alt_states imm hf h l) = sl_state l" "sl_proofs (cull_alt_states imm hf h l) = sl_proofs l"
  "sl_rescanning (cull_alt_states imm hf h l) = sl_rescanning l"
  "sl_state_history (cull_alt_states imm hf h l) = sl_state_history l"
  by (simp_all add: cull_alt_states_def split: option.splits)

lemma process_block_step:
  assumes "process_block E (blk, txs) l = Inr l'" and "16 \<le> env_hard_fork_version E (get_block_height blk)"
  defines "hist \<equiv> state_insert (sl_state l)
    (dropWhile (\<lambda>s. st_height s \<le> short_term_state_cull_height (env_hard_fork_version E (get_block_height blk)) (get_block_height blk))
      (sl_state_history l))"
  shows "update_from_block (env_rng E) (env_sort E) (env_crypto E) (env_stake E) (env_block_hash E) (env_nettype E) True
      (sl_rescanning l) hist [] blk txs (sl_state l, sl_proofs l) = Inr (sl_state l', sl_proofs l')"
    and "sl_state_history l' = hist" and "sl_rescanning l' = sl_rescanning l"
    and "st_height (sl_state l') = st_height (sl_state l) + 1"
    and "st_only_loaded_quorums (sl_state l') = st_only_loaded_quorums (sl_state l)"
proof -
  have "\<not> env_hard_fork_version E (get_block_height blk) < 16" using assms(2) by simp
  with assms(1) show u: "update_from_block (env_rng E) (env_sort E) (env_crypto E) (env_stake E) (env_block_hash E) (env_nettype E) True
      (sl_rescanning l) hist [] blk txs (sl_state l, sl_proofs l) = Inr (sl_state l', sl_proofs l')"
    and "sl_state_history l' = hist" and "sl_rescanning l' = sl_rescanning l"
    by (auto simp: process_block_def Let_def bindE_eq_Inr cull_history_fields cull_alt_states_fields hist_def)
  from update_from_block_frame [OF u] show "st_height (sl_state l') = st_height (sl_state l) + 1"
    "st_only_loaded_quorums (sl_state l') = st_only_loaded_quorums (sl_state l)" by (simp_all add: frame_def)
qed

lemma state_insert_last: "\<forall>t \<in> set ts. st_height t < st_height s \<Longrightarrow> state_insert s ts = ts @ [s]"
  by (induction ts) (auto dest: less_not_sym)

lemma heights_between:
  assumes "map (unat \<circ> st_height) hist = [a..<b]" and "s \<in> set hist"
  shows "a \<le> unat (st_height s)" "unat (st_height s) < b"
proof -
  have "(unat \<circ> st_height) s \<in> set (map (unat \<circ> st_height) hist)" using assms(2) by (simp only: set_map imageI)
  then show "a \<le> unat (st_height s)" "unat (st_height s) < b" unfolding assms(1) by simp_all
qed

lemma consecutive_below: "consecutive l \<Longrightarrow> \<forall>t \<in> set (sl_state_history l). st_height t < st_height (sl_state l)"
  unfolding consecutive_def word_less_nat_alt using heights_between(2) by blast

lemma cull_height_nat:
  "unat (short_term_state_cull_height hf h) = unat h - 360"
proof -
  have "6 * STATE_CHANGE_TX_LIFETIME_IN_BLOCKS = (360 :: u64)" by code_simp
  then show ?thesis
    by (simp add: short_term_state_cull_height_def Let_def word_less_nat_alt unat_sub_le word_le_nat_alt not_less)
qed

text \<open>Blocks that follow the current state one after the other, under the rules of service nodes.\<close>

definition follow :: "('g, 'r, 'b) sn_env \<Rightarrow> ('b block_scheme \<times> 'r transaction list) list \<Rightarrow> u64 \<Rightarrow> bool" where
  "follow E blks h \<longleftrightarrow> unat h + length blks < 2 ^ 64 \<and>
    (\<forall>i < length blks. get_block_height (fst (blks ! i)) = h + word_of_nat (Suc i) \<and>
      16 \<le> env_hard_fork_version E (get_block_height (fst (blks ! i))))"

lemma follow_snoc: "follow E (blks @ [b]) h \<longleftrightarrow>
    follow E blks h \<and> unat h + Suc (length blks) < 2 ^ 64 \<and> get_block_height (fst b) = h + word_of_nat (Suc (length blks)) \<and>
      16 \<le> env_hard_fork_version E (get_block_height (fst b))"
  by (auto simp: follow_def nth_append less_Suc_eq split: if_splits)

lemma foldE_snoc: "foldE f (xs @ [x]) s = bindE (foldE f xs s) (f x)"
  by (simp add: foldE_append bindE_def split: sum.splits)

definition kept :: "nat \<Rightarrow> sn_state list \<Rightarrow> sn_state list" where
  "kept c hist = dropWhile (\<lambda>s. unat (st_height s) \<le> c) hist"

lemma dropWhile_dropWhile: "(\<And>x. P x \<Longrightarrow> Q x) \<Longrightarrow> dropWhile Q (dropWhile P xs) = dropWhile Q xs"
  by (induction xs) auto

lemma kept_kept: "c \<le> d \<Longrightarrow> kept d (kept c hist) = kept d hist"
  unfolding kept_def by (rule dropWhile_dropWhile) simp

lemma kept_append: "c < unat (st_height s) \<Longrightarrow> kept c (xs @ s # ys) = kept c xs @ s # ys"
  by (simp add: kept_def dropWhile_append3)

lemma kept_max: "kept d (kept c hist) = kept (max c d) hist"
proof (cases "c \<le> d")
  case True
  then show ?thesis by (simp add: kept_kept max_def)
next
  case False
  have "kept d (kept c hist) = kept c hist"
    using False by (induction hist) (auto simp: kept_def)
  then show ?thesis using False by (simp add: max_def)
qed

lemma set_kept: "set (kept c hist) \<subseteq> set hist"
  by (auto simp: kept_def dest: set_dropWhileD)

lemma add_blocks_history:
  assumes "foldE (process_block E) blks l = Inr l'" and "consecutive l" and "follow E blks (st_height (sl_state l))"
    and "length blks < 360" and "blks \<noteq> []"
  defines "h0 \<equiv> unat (st_height (sl_state l))"
  assumes "0 < h0"
  shows "\<exists>mid. sl_state_history l' = kept (h0 + length blks - 360) (sl_state_history l) @ sl_state l # mid \<and>
      (\<forall>s \<in> set mid. h0 < unat (st_height s) \<and> unat (st_height s) < h0 + length blks) \<and>
      unat (st_height (sl_state l')) = h0 + length blks"
  using assms(1,3,4,5)
proof (induction blks arbitrary: l' rule: rev_induct)
  case (snoc b blks)
  obtain blk txs where b: "b = (blk, txs)" by force
  from snoc.prems(1) obtain m where m: "foldE (process_block E) blks l = Inr m" "process_block E (blk, txs) m = Inr l'"
    by (auto simp: foldE_snoc bindE_eq_Inr b)
  have f: "follow E blks (st_height (sl_state l))" "h0 + Suc (length blks) < 2 ^ 64" "16 \<le> env_hard_fork_version E (get_block_height blk)"
    and gh: "get_block_height blk = st_height (sl_state l) + word_of_nat (Suc (length blks))"
    using snoc.prems(2) unfolding follow_snoc b fst_conv h0_def by blast+
  have ubh: "unat (get_block_height blk) = h0 + Suc (length blks)"
  proof -
    have n: "unat (word_of_nat (Suc (length blks)) :: u64) = Suc (length blks)" using f(2) by (intro unat_of_nat_small) simp
    have "unat (get_block_height blk) = unat (st_height (sl_state l)) + unat (word_of_nat (Suc (length blks)) :: u64)"
      unfolding gh by (rule unat_add_less) (simp only: n, use f(2) in \<open>simp add: h0_def\<close>)
    then show ?thesis by (simp only: n h0_def)
  qed
  note st = process_block_step [OF m(2) f(3)]
  define c where "c = h0 + Suc (length blks) - 360"
  have cull: "dropWhile (\<lambda>s. st_height s \<le> short_term_state_cull_height hf (get_block_height blk)) hist = kept c hist" for hf hist
    by (simp add: kept_def word_le_nat_alt cull_height_nat ubh c_def)
  have c: "c < h0" using snoc.prems(3) assms(7) by (auto simp: c_def)
  have below: "\<forall>s \<in> set (sl_state_history l). unat (st_height s) < h0"
    using consecutive_below [OF assms(2)] by (auto simp: h0_def word_less_nat_alt)
  show ?case
  proof (cases "blks = []")
    case True
    then have [simp]: "m = l" using m(1) by simp
    have "state_insert (sl_state l) (kept c (sl_state_history l)) = kept c (sl_state_history l) @ [sl_state l]"
      using consecutive_below [OF assms(2)] set_kept by (intro state_insert_last) blast
    moreover have "unat (st_height (sl_state l')) = h0 + 1"
      using st(4) f(2) True unat_add_less [of "st_height (sl_state l)" 1] by (simp add: h0_def)
    ultimately show ?thesis using st(2) True by (simp add: cull c_def)
  next
    case False
    then obtain mid where mid: "sl_state_history m = kept (h0 + length blks - 360) (sl_state_history l) @ sl_state l # mid"
      and r: "\<forall>s \<in> set mid. h0 < unat (st_height s) \<and> unat (st_height s) < h0 + length blks"
      and hm: "unat (st_height (sl_state m)) = h0 + length blks"
      using snoc.IH [OF m(1) f(1)] snoc.prems(3) by auto
    have k: "kept c (sl_state_history m) = kept c (sl_state_history l) @ sl_state l # mid"
      using kept_append [of c "sl_state l"] kept_kept [of "h0 + length blks - 360" c] c by (simp add: mid c_def h0_def)
    have "\<forall>t \<in> set (kept c (sl_state_history m)). unat (st_height t) < h0 + length blks"
      using below set_kept [of c "sl_state_history l"] r False by (fastforce simp: k h0_def)
    then have "state_insert (sl_state m) (kept c (sl_state_history m)) = kept c (sl_state_history m) @ [sl_state m]"
      by (intro state_insert_last) (simp add: word_less_nat_alt hm)
    moreover have "unat (st_height (sl_state l')) = h0 + Suc (length blks)"
      using st(4) f(2) hm unat_add_less [of "st_height (sl_state m)" 1] by simp
    moreover have "\<forall>s \<in> set (mid @ [sl_state m]). h0 < unat (st_height s) \<and> unat (st_height s) < h0 + Suc (length blks)"
      using r hm False by auto
    ultimately show ?thesis using st(2)
      by (intro exI [of _ "mid @ [sl_state m]"]) (simp add: cull k c_def [symmetric] del: add_Suc_right, simp add: c_def)
  qed
qed simp

lemma state_find_middle:
  assumes "\<forall>t \<in> set before. st_height t < st_height s"
  shows "state_find (st_height s) (before @ s # later) = Some s"
  using assms by (induction "before") (auto simp: state_find_def)

lemma detach_at_state:
  assumes "sl_state_history l = before @ s # later" and "\<forall>t \<in> set before. st_height t < st_height s"
    and "\<forall>t \<in> set later. st_height s < st_height t" and "\<not> st_only_loaded_quorums s"
  shows "blockchain_detached (st_height s + 1) (l, c) =
    Inr ((l\<lparr>sl_state_history := before, sl_state := s\<rparr>, Detached), clear c)"
proof -
  have "takeWhile (\<lambda>t. st_height t \<le> st_height s) (before @ s # later) = before @ [s]"
    using assms(2,3) by (cases later) (auto simp: takeWhile_append)
  then show ?thesis
    using assms(1,4) state_find_middle [OF assms(2)] by (simp add: blockchain_detached_def usable_def take_last_def butlast_append)
qed

section \<open>Adding the same blocks again\<close>

text \<open>
  Two histories that serve a block of height \<open>k\<close> alike: the second has no state that the first lacks, and
  every state that the first has more is too old for a state change of that block.
\<close>

definition serves :: "nat \<Rightarrow> sn_state list \<Rightarrow> sn_state list \<Rightarrow> bool" where
  "serves k hist hist' \<longleftrightarrow>
    (\<forall>h s. state_find h hist' = Some s \<longrightarrow> state_find h hist = Some s) \<and>
    (\<forall>h. k < unat h + 60 \<longrightarrow> state_find h hist = state_find h hist')"

lemma foldE_simulation:
  assumes "foldE f xs s = Inr t" and "R s s'"
    and "\<And>x s t s'. f x s = Inr t \<Longrightarrow> R s s' \<Longrightarrow> \<exists>t'. f' x s' = Inr t' \<and> R t t'"
  shows "\<exists>t'. foldE f' xs s' = Inr t' \<and> R t t'"
  using assms(1,2)
proof (induction xs arbitrary: s s')
  case (Cons x xs)
  from Cons.prems(1) obtain u where "f x s = Inr u" "foldE f xs u = Inr t" by (auto simp: bindE_eq_Inr)
  moreover from assms(3) [OF this(1) Cons.prems(2)] obtain u' where "f' x s' = Inr u'" "R u u'" by blast
  ultimately show ?case using Cons.IH by simp
qed simp

lemma too_old_state_change:
  assumes "verify_tx_state_change C sc latest tvc q hf = Inr (ok, tvc')" and "unat (sc_block_height sc) + 60 \<le> unat latest"
  shows "\<not> ok"
proof -
  have "STATE_CHANGE_TX_LIFETIME_IN_BLOCKS = (60 :: u64)" by code_simp
  moreover have "unat (sc_block_height sc + 60) = unat (sc_block_height sc) + 60"
    using assms(2) unsigned_less [of latest, where ?'a = nat] unat_add_less [of "sc_block_height sc" 60] by simp
  ultimately have "sc_block_height sc + STATE_CHANGE_TX_LIFETIME_IN_BLOCKS \<le> latest"
    using assms(2) by (simp add: word_le_nat_alt)
  then show ?thesis
    using assms(1) by (auto simp: verify_tx_state_change_def bad_tx_def Let_def split: if_splits prod.splits)
qed

text \<open>The state does not depend on the proofs, nor on whether the chain is being replayed.\<close>

definition same_state :: "bool \<times> sn_state \<times> proofs_map \<Rightarrow> bool \<times> sn_state \<times> proofs_map \<Rightarrow> bool" where
  "same_state t t' \<longleftrightarrow> fst t = fst t' \<and> fst (snd t) = fst (snd t')"

lemma apply_state_change_same:
  "same_state (apply_state_change nettype linked r blk key info state (st, p)) (apply_state_change nettype linked r' blk key info state (st, p'))"
  by (cases state) (simp_all add: apply_state_change_def same_state_def Let_def)

lemma process_state_change_tx_again:
  assumes "process_state_change_tx C hist [] nettype linked r blk tx (st, p) = Inr t"
    and "serves (unat (get_block_height blk)) hist hist'"
  shows "\<exists>t'. process_state_change_tx C hist' [] nettype linked r' blk tx (st, p') = Inr t' \<and> same_state t t'"
proof (cases "tx_type tx \<noteq> state_change_tx \<or> get_service_node_state_change_from_tx_extra (extra tx) = None")
  case True
  then have "process_state_change_tx C hist [] nettype linked r blk tx (st, p) = Inr (False, st, p)" for hist r p
    by (elim disjE) (simp_all add: process_state_change_tx_def)
  then show ?thesis using assms(1) by (auto simp: same_state_def)
next
  case False
  then obtain sc where sc: "tx_type tx = state_change_tx" "get_service_node_state_change_from_tx_extra (extra tx) = Some sc" by auto
  let ?f = "\<lambda>hist. state_find (sc_block_height sc) hist"
  have unfold: "process_state_change_tx C hist [] nettype linked r blk tx (st, p) =
    (case ?f hist of None \<Rightarrow> Inr (False, st, p) | Some it \<Rightarrow>
      bindE (verify_against C sc (get_block_height blk) (hdr_major_version blk) (st_quorums it) clean_tvc) (\<lambda>(ok, tvc).
        if ok then (case qm_obligations (st_quorums it) of None \<Rightarrow> Inl Undefined | Some q \<Rightarrow>
          (case get_pubkey_from_quorum q worker (unat (sc_service_node_index sc)) of None \<Rightarrow> Inr (False, st, p) | Some key \<Rightarrow>
            (case map_of (st_service_nodes_infos st) key of None \<Rightarrow> Inr (False, st, p) | Some info \<Rightarrow>
              Inr (apply_state_change nettype linked r blk key info (sc_state sc) (st, p)))))
        else Inr (False, st, p)))" for hist r p
    by (simp add: process_state_change_tx_def sc state_find_def Let_def case_prod_beta if_distrib
          cong: option.case_cong if_cong) (auto simp: bindE_def split: option.splits sum.splits)
  show ?thesis
  proof (cases "?f hist' = ?f hist")
    case True
    show ?thesis
    proof (cases "?f hist")
      case None
      then show ?thesis using assms(1) True by (auto simp: unfold same_state_def)
    next
      case (Some it)
      then obtain ok tvc where v: "verify_against C sc (get_block_height blk) (hdr_major_version blk) (st_quorums it) clean_tvc = Inr (ok, tvc)"
        using assms(1) by (auto simp: unfold bindE_eq_Inr)
      have n: "same_state (False, st, p) (False, st, p')" by (simp add: same_state_def)
      show ?thesis using assms(1) unfolding unfold True Some option.case bindE_Inr v prod.case
        by (simp only: split: option.splits if_splits)
          (auto simp only: sum.inject sum.distinct option.distinct option.inject simp_thms apply_state_change_same n)
    qed
  next
    case False
    then have old: "unat (sc_block_height sc) + 60 \<le> unat (get_block_height blk)" and new: "?f hist' = None"
      using assms(2) unfolding serves_def by (metis not_le, metis not_None_eq)
    have "t = (False, st, p)"
      using assms(1)
      by (auto simp: unfold bindE_eq_Inr verify_against_def split: option.splits if_splits dest: too_old_state_change [OF _ old])
    then show ?thesis by (simp add: unfold new same_state_def)
  qed
qed

lemma process_tx_again:
  assumes "process_tx C K hist [] nettype linked r blk itx s = Inr t" and "same_state s s'"
    and "serves (unat (get_block_height blk)) hist hist'"
  shows "\<exists>t'. process_tx C K hist' [] nettype linked r' blk itx s' = Inr t' \<and> same_state t t'"
proof -
  obtain index tx need st p p' where [simp]: "itx = (index, tx)" "s = (need, st, p)" "s' = (need, st, p')"
    using assms(2) by (cases itx; cases s; cases s') (auto simp: same_state_def)
  have reg: "fst (snd (process_registration_tx C K nettype linked r blk tx index (st, p))) =
      fst (snd (process_registration_tx C K nettype linked r' blk tx index (st, p')))"
    by (simp add: process_registration_tx_def Let_def split: option.splits)
  consider "is_transfer tx" | "\<not> is_transfer tx" "tx_type tx = state_change_tx" | "\<not> is_transfer tx" "tx_type tx \<noteq> state_change_tx"
    by blast
  then show ?thesis
  proof cases
    case 1
    then show ?thesis using assms(1) reg by (auto simp: process_tx_def same_state_def case_prod_beta Let_def)
  next
    case 2
    from assms(1) 2 obtain u where u: "process_state_change_tx C hist [] nettype linked r blk tx (st, p) = Inr u"
      "t = (need \<or> fst u, snd u)" by (auto simp: process_tx_def bindE_eq_Inr)
    from process_state_change_tx_again [OF u(1) assms(3), of r' p'] 2 u(2) show ?thesis
      by (auto simp: process_tx_def same_state_def case_prod_beta)
  next
    case 3
    then show ?thesis using assms(1) by (auto simp: process_tx_def same_state_def split: if_splits)
  qed
qed

lemma update_from_block_again:
  assumes "update_from_block R srt C K H nettype linked r hist [] blk txs (st, p) = Inr (st', q)"
    and "serves (unat (get_block_height blk)) hist hist'"
  shows "\<exists>q'. update_from_block R srt C K H nettype linked r' hist' [] blk txs (st, p') = Inr (st', q')"
proof -
  obtain need s where b: "begin_block H blk st = (need, s)" by force
  let ?items = "map (\<lambda>index. (word_of_nat index, txs ! index)) [0..<length txs]"
  from assms(1) obtain t where t: "foldE (process_tx C K hist [] nettype linked r blk) ?items (need, s, p) = Inr t"
    "bindE (if fst t then update_swarms R srt H blk (fst (snd t)) else Inr (fst (snd t))) (\<lambda>st.
      bindE (generate_quorums R (hdr_major_version blk) st) (\<lambda>quorums. Inr (st\<lparr>st_quorums := quorums\<rparr>, snd (snd t)))) = Inr (st', q)"
    by (auto simp: update_from_block_def b bindE_eq_Inr [of "foldE _ _ _"] cong: if_cong)
  have "\<exists>t'. foldE (process_tx C K hist' [] nettype linked r' blk) ?items (need, s, p') = Inr t' \<and> same_state t t'"
  proof (rule foldE_simulation [OF t(1)])
    show "same_state (need, s, p) (need, s, p')" by (simp add: same_state_def)
    show "\<exists>v'. process_tx C K hist' [] nettype linked r' blk x u' = Inr v' \<and> same_state v v'"
      if "process_tx C K hist [] nettype linked r blk x u = Inr v" "same_state u u'" for x u v u'
      using that assms(2) by (rule process_tx_again)
  qed
  then obtain t' where "foldE (process_tx C K hist' [] nettype linked r' blk) ?items (need, s, p') = Inr t'" "same_state t t'"
    by blast
  with t(2) show ?thesis by (auto simp: update_from_block_def b case_prod_beta same_state_def bindE_eq_Inr split: if_splits)
qed

text \<open>The states of a list in the order of their heights.\<close>

definition ascending :: "sn_list \<Rightarrow> bool" where
  "ascending l \<longleftrightarrow> sorted_wrt (\<lambda>s t. st_height s < st_height t) (sl_state_history l @ [sl_state l])"

lemma state_find_kept:
  assumes "sorted_wrt (\<lambda>s t. st_height s < st_height t) hist"
  shows "state_find h (kept c hist) = (if unat h \<le> c then None else state_find h hist)"
  using assms
proof (induction hist)
  case (Cons s hist)
  have "state_find h hist = None" if "h \<le> st_height s"
    using Cons.prems that by (auto simp: state_find_def find_None_iff)
  then show ?case using Cons by (auto simp: kept_def state_find_def word_le_nat_alt)
qed (simp add: kept_def state_find_def)

lemma state_find_snoc:
  assumes "\<forall>t \<in> set hist. st_height t < st_height s"
  shows "state_find h (hist @ [s]) = (if h = st_height s then Some s else state_find h hist)"
  using assms by (induction hist) (auto simp: state_find_def)

lemma serves_next:
  assumes "serves k hist hist'" and "sorted_wrt (\<lambda>s t. st_height s < st_height t) (hist @ [s])"
    and "sorted_wrt (\<lambda>s t. st_height s < st_height t) (hist' @ [s])"
  shows "serves k (kept c hist @ [s]) (kept c hist' @ [s])"
proof -
  have "state_find h (kept c xs @ [s]) = (if h = st_height s then Some s else if unat h \<le> c then None else state_find h xs)"
    if "sorted_wrt (\<lambda>s t. st_height s < st_height t) (xs @ [s])" for h xs
    using that set_kept [of c xs]
    by (subst state_find_snoc) (auto simp: sorted_wrt_append state_find_kept)
  then show ?thesis using assms by (simp add: serves_def)
qed

lemma serves_Suc: "serves k hist hist' \<Longrightarrow> serves (Suc k) hist hist'"
  by (simp add: serves_def)

definition alike :: "sn_list \<Rightarrow> sn_list \<Rightarrow> bool" where
  "alike l l' \<longleftrightarrow> sl_state l = sl_state l' \<and> ascending l \<and> ascending l' \<and>
    serves (Suc (unat (st_height (sl_state l)))) (sl_state_history l) (sl_state_history l')"

lemma process_block_history:
  assumes "ascending l"
  shows "state_insert (sl_state l) (dropWhile (\<lambda>s. st_height s \<le> short_term_state_cull_height hf h) (sl_state_history l)) =
    kept (unat h - 360) (sl_state_history l) @ [sl_state l]"
proof -
  have "dropWhile (\<lambda>s. st_height s \<le> short_term_state_cull_height hf h) hist = kept (unat h - 360) hist" for hist
    by (simp add: kept_def word_le_nat_alt cull_height_nat)
  moreover have "\<forall>t \<in> set (kept (unat h - 360) (sl_state_history l)). st_height t < st_height (sl_state l)"
    using assms set_kept by (fastforce simp: ascending_def sorted_wrt_append)
  ultimately show ?thesis by (simp add: state_insert_last)
qed

lemma process_block_ascending:
  assumes "process_block E (blk, txs) l = Inr l'" and "16 \<le> env_hard_fork_version E (get_block_height blk)"
    and "ascending l" and "unat (st_height (sl_state l)) + 1 < 2 ^ 64"
  shows "ascending l'"
proof -
  note st = process_block_step [OF assms(1,2)]
  have "st_height (sl_state l) < st_height (sl_state l')"
    using st(4) assms(4) unat_add_less [of "st_height (sl_state l)" 1] by (simp add: word_less_nat_alt)
  then show ?thesis
    using assms(3) unfolding ascending_def st(2) process_block_history [OF assms(3)]
    by (fastforce simp: sorted_wrt_append kept_def sorted_wrt_dropWhile dest: set_dropWhileD)
qed

lemma process_block_again:
  assumes "process_block E (blk, txs) l = Inr m" and "16 \<le> env_hard_fork_version E (get_block_height blk)"
    and "alike l l'" and "get_block_height blk = st_height (sl_state l) + 1" and "unat (st_height (sl_state l)) + 1 < 2 ^ 64"
  shows "\<exists>m'. process_block E (blk, txs) l' = Inr m' \<and> alike m m'"
proof -
  note st = process_block_step [OF assms(1,2)]
  let ?h = "get_block_height blk"
  have a: "sl_state l' = sl_state l" "ascending l" "ascending l'" using assms(3) by (simp_all add: alike_def)
  have h: "unat ?h = Suc (unat (st_height (sl_state l)))"
    using assms(4,5) unat_add_less [of "st_height (sl_state l)" 1] by simp
  have sv: "serves (unat ?h) (kept (unat ?h - 360) (sl_state_history l) @ [sl_state l]) (kept (unat ?h - 360) (sl_state_history l') @ [sl_state l'])"
    unfolding a(1) using assms(3) a [unfolded ascending_def]
    by (intro serves_next) (simp_all only: alike_def h)
  obtain q where q: "update_from_block (env_rng E) (env_sort E) (env_crypto E) (env_stake E) (env_block_hash E) (env_nettype E) True
      (sl_rescanning l') (kept (unat ?h - 360) (sl_state_history l') @ [sl_state l']) [] blk txs (sl_state l', sl_proofs l') =
      Inr (sl_state m, q)"
    using update_from_block_again [OF st(1) [unfolded process_block_history [OF a(2)]] sv] a(1) by metis
  have nv: "\<not> env_hard_fork_version E ?h < 16" using assms(2) by simp
  obtain m' where m': "process_block E (blk, txs) l' = Inr m'" "sl_state m' = sl_state m"
    using q nv by (simp add: process_block_def Let_def cull_history_fields cull_alt_states_fields process_block_history [OF a(3)])
  have "serves (Suc (unat (st_height (sl_state m)))) (sl_state_history m) (sl_state_history m')"
    using sv h process_block_step(2,4) [OF m'(1) assms(2)] unfolding st(2,4) process_block_history [OF a(2)] process_block_history [OF a(3)]
    by (simp add: assms(4) [symmetric] serves_Suc)
  then have "alike m m'" using process_block_ascending [OF assms(1,2) a(2) assms(5)] process_block_ascending [OF m'(1) assms(2) a(3)] assms(5)
    by (simp add: alike_def m'(2) a(1))
  then show ?thesis using m'(1) by blast
qed

section \<open>What the history holds\<close>

lemma dropWhile_upt: "dropWhile (\<lambda>x. x \<le> c) [a..<n] = [max a (Suc c)..<n]"
proof (induction "n - a" arbitrary: a)
  case (Suc d)
  then have "[a..<n] = a # [Suc a..<n]" by (intro upt_conv_Cons) linarith
  moreover have "dropWhile (\<lambda>x. x \<le> c) [Suc a..<n] = [max (Suc a) (Suc c)..<n]" using Suc by (intro Suc.hyps(1)) linarith
  moreover have "\<not> a \<le> c \<Longrightarrow> max a (Suc c) = a" "a \<le> c \<Longrightarrow> max (Suc a) (Suc c) = max a (Suc c)" by auto
  ultimately show ?case by (simp del: upt_Suc)
qed simp

lemma kept_heights:
  assumes "map (unat \<circ> st_height) hist = [a..<n]"
  shows "map (unat \<circ> st_height) (kept c hist) = [max a (Suc c)..<n]"
proof -
  have "map (unat \<circ> st_height) (kept c hist) = dropWhile (\<lambda>x. x \<le> c) (map (unat \<circ> st_height) hist)"
    by (simp add: kept_def dropWhile_map comp_def)
  then show ?thesis by (simp add: assms dropWhile_upt)
qed

lemma consecutive_ascending: "consecutive l \<Longrightarrow> ascending l"
proof -
  assume c: "consecutive l"
  then obtain a where "map (unat \<circ> st_height) (sl_state_history l) = [a..<unat (st_height (sl_state l))]"
    by (auto simp: consecutive_def)
  then have "sorted_wrt (<) (map (unat \<circ> st_height) (sl_state_history l))" by simp
  then have "sorted_wrt (\<lambda>s t. st_height s < st_height t) (sl_state_history l)"
    by (simp only: sorted_wrt_map) (simp add: word_less_nat_alt)
  then show ?thesis using consecutive_below [OF c] by (simp add: ascending_def sorted_wrt_append)
qed

lemma unat_Suc_height: "unat h + 1 < 2 ^ 64 \<Longrightarrow> unat (h + 1 :: u64) = Suc (unat h)"
  using unat_add_less [of h 1] by simp

lemma follow_Cons: "follow E (b # blks) h \<longleftrightarrow> unat h + 1 < 2 ^ 64 \<and> get_block_height (fst b) = h + 1 \<and>
    16 \<le> env_hard_fork_version E (get_block_height (fst b)) \<and> follow E blks (h + 1)"
proof -
  have "(\<forall>i < length (b # blks). P i) \<longleftrightarrow> P 0 \<and> (\<forall>i < length blks. P (Suc i))" for P
    by (simp add: All_less_Suc2)
  moreover have "h + word_of_nat (Suc (Suc i)) = (h + 1) + word_of_nat (Suc i)" for i by simp
  moreover have "word_of_nat (Suc 0) = (1 :: u64)" by simp
  ultimately show ?thesis
    by (cases "unat h + 1 < 2 ^ 64") (auto simp: follow_def unat_Suc_height simp del: of_nat_Suc)
qed

lemma process_block_window:
  assumes "process_block E (blk, txs) l = Inr l'" and "16 \<le> env_hard_fork_version E (get_block_height blk)"
    and "get_block_height blk = st_height (sl_state l) + 1" and "unat (st_height (sl_state l)) + 1 < 2 ^ 64"
    and "map (unat \<circ> st_height) (sl_state_history l) = [a..<n]" and n: "n = unat (st_height (sl_state l))" and "0 < n" "a \<le> n"
  shows "map (unat \<circ> st_height) (sl_state_history l') = [max a (Suc (Suc n - 360))..<Suc n] \<and>
    unat (st_height (sl_state l')) = Suc n \<and> max a (Suc (Suc n - 360)) \<le> Suc n"
proof -
  note st = process_block_step [OF assms(1,2)]
  have "ascending l" using assms(5) n by (intro consecutive_ascending) (auto simp: consecutive_def)
  then have "sl_state_history l' = kept (Suc n - 360) (sl_state_history l) @ [sl_state l]"
    using st(2) unat_Suc_height [OF assms(4)] by (simp add: process_block_history assms(3) n)
  moreover have "max a (Suc (Suc n - 360)) \<le> n" using assms(7,8) by auto
  ultimately show ?thesis
    using kept_heights [OF assms(5)] unat_Suc_height [OF assms(4)] st(4) by (simp add: n)
qed

lemma add_blocks_window:
  assumes "foldE (process_block E) blks l = Inr l'" and "follow E blks (st_height (sl_state l))"
    and "map (unat \<circ> st_height) (sl_state_history l) = [a..<n]" and "n = unat (st_height (sl_state l))" and "0 < n" "a \<le> n"
    and "blks \<noteq> []"
  shows "map (unat \<circ> st_height) (sl_state_history l') = [max a (Suc (n + length blks - 360))..<n + length blks] \<and>
    unat (st_height (sl_state l')) = n + length blks"
  using assms
proof (induction blks arbitrary: l a n)
  case (Cons b blks)
  obtain blk txs where b: "b = (blk, txs)" by force
  from Cons.prems(1) obtain m where m: "process_block E (blk, txs) l = Inr m" "foldE (process_block E) blks m = Inr l'"
    by (auto simp: b bindE_eq_Inr)
  have f: "16 \<le> env_hard_fork_version E (get_block_height blk)" "get_block_height blk = st_height (sl_state l) + 1"
    "unat (st_height (sl_state l)) + 1 < 2 ^ 64" "follow E blks (st_height (sl_state m))"
    using Cons.prems(2) process_block_step(4) [OF m(1)] by (auto simp: follow_Cons b)
  note w = process_block_window [OF m(1) f(1-3) Cons.prems(3-6)]
  show ?case
  proof (cases "blks = []")
    case True
    then show ?thesis using w m(2) by (simp add: comp_def del: upt_Suc)
  next
    case False
    have "max (max a (Suc (Suc n - 360))) (Suc (Suc n + length blks - 360)) = max a (Suc (Suc n + length blks - 360))" by auto
    then show ?thesis using Cons.IH [OF m(2) f(4) conjunct1 [OF w]] w False by (simp add: comp_def del: upt_Suc)
  qed
qed simp

text \<open>
  (C15) The history that a node keeps while it follows the chain. Whatever the blocks do, after a run of
  them the history holds the states of consecutive heights right below the current one, and exactly as
  many as the short-term bound allows (the last 359) or as were there: no gap, no repetition, no state of
  the current height, and the current state is that of the last block.
\<close>

theorem history_is_window:
  assumes "foldE (process_block E) blks l = Inr l'" and "follow E blks (st_height (sl_state l))"
    and "map (unat \<circ> st_height) (sl_state_history l) = [a..<unat (st_height (sl_state l))]"
    and "0 < st_height (sl_state l)" and "a \<le> unat (st_height (sl_state l))" and "blks \<noteq> []"
  shows "map (unat \<circ> st_height) (sl_state_history l') =
      [max a (Suc (unat (st_height (sl_state l')) - 360))..<unat (st_height (sl_state l'))] \<and>
    unat (st_height (sl_state l')) = unat (st_height (sl_state l)) + length blks"
  using add_blocks_window [OF assms(1-3) refl] assms(4-6) by (simp add: word_less_nat_alt)

lemma add_blocks_height:
  assumes "foldE (process_block E) blks l = Inr l'" and "follow E blks (st_height (sl_state l))"
  shows "unat (st_height (sl_state l')) = unat (st_height (sl_state l)) + length blks \<and>
    st_only_loaded_quorums (sl_state l') = st_only_loaded_quorums (sl_state l)"
  using assms
proof (induction blks arbitrary: l)
  case (Cons b blks)
  obtain blk txs where b: "b = (blk, txs)" by force
  from Cons.prems(1) obtain m where m: "process_block E (blk, txs) l = Inr m" "foldE (process_block E) blks m = Inr l'"
    by (auto simp: b bindE_eq_Inr)
  have f: "16 \<le> env_hard_fork_version E (get_block_height blk)" "unat (st_height (sl_state l)) + 1 < 2 ^ 64"
    "follow E blks (st_height (sl_state l) + 1)" using Cons.prems(2) by (auto simp: follow_Cons b)
  note st = process_block_step [OF m(1) f(1)]
  show ?case using Cons.IH [OF m(2)] f(3) unat_Suc_height [OF f(2)] st(4,5) by simp
qed simp

text \<open>
  (C18) A quorum stays at hand. While a node adds fewer than 360 blocks, the quorums of a state it was in are
  those that \<open>get_quorum\<close> returns for the height of that state (for checkpoints, with the offset of the
  safety buffer), whatever the blocks in between contain.
\<close>

theorem quorum_remembered:
  assumes "foldE (process_block E) blks l = Inr l'" and "follow E blks (st_height (sl_state l))" and "consecutive l"
    and "0 < st_height (sl_state l)" and "length blks < 360"
    and "offset_testing_quorum_height type height = st_height (sl_state l)"
  shows "fst (get_quorum type height include_old l') = qm_get type (st_quorums (sl_state l))"
proof (cases "blks = []")
  case True
  then show ?thesis using assms(1,6) by (simp add: get_quorum_def Let_def)
next
  case False
  have pos: "0 < unat (st_height (sl_state l))" using assms(4) by (simp add: word_less_nat_alt)
  obtain mid where h: "sl_state_history l' = kept (unat (st_height (sl_state l)) + length blks - 360) (sl_state_history l) @ sl_state l # mid"
    using add_blocks_history [OF assms(1,3,2,5) False pos] by blast
  have "st_height (sl_state l') \<noteq> st_height (sl_state l)" using add_blocks_height [OF assms(1,2)] False by auto
  moreover have "state_find (st_height (sl_state l)) (sl_state_history l') = Some (sl_state l)"
    unfolding h using consecutive_below [OF assms(3)] set_kept
    by (intro state_find_middle) blast
  ultimately show ?thesis using assms(6) by (auto simp: get_quorum_def Let_def)
qed

section \<open>Switching chains and back\<close>

lemma kept_consecutive:
  assumes "consecutive l" and "sl_state m = sl_state l" and "sl_state_history m = kept c (sl_state_history l)"
  shows "consecutive m"
  using assms kept_heights unfolding consecutive_def by metis

lemma detach_after_blocks:
  assumes "foldE (process_block E) blks l = Inr l'" and "follow E blks (st_height (sl_state l))" and "consecutive l"
    and "0 < unat (st_height (sl_state l))" and "length blks < 360" and "blks \<noteq> []" and "\<not> st_only_loaded_quorums (sl_state l)"
  shows "blockchain_detached (st_height (sl_state l) + 1) (l', c) =
    Inr ((l'\<lparr>sl_state_history := kept (unat (st_height (sl_state l)) + length blks - 360) (sl_state_history l), sl_state := sl_state l\<rparr>,
      Detached), clear c)"
proof -
  let ?k = "kept (unat (st_height (sl_state l)) + length blks - 360) (sl_state_history l)"
  obtain mid where "sl_state_history l' = ?k @ sl_state l # mid" "\<forall>s \<in> set mid. st_height (sl_state l) < st_height s"
    using add_blocks_history [OF assms(1,3,2,5,6,4)] by (auto simp: word_less_nat_alt)
  moreover have "\<forall>t \<in> set ?k. st_height t < st_height (sl_state l)"
    using consecutive_below [OF assms(3)] set_kept by blast
  ultimately show ?thesis using assms(7) by (intro detach_at_state)
qed

lemma kept_alike:
  assumes "consecutive l" and "sl_state m = sl_state l" and "sl_state_history m = kept c (sl_state_history l)"
    and "c + 59 \<le> unat (st_height (sl_state l))"
  shows "alike l m"
proof -
  have "ascending l" "ascending m"
    using assms(1) kept_consecutive [OF assms(1-3)] by (simp_all add: consecutive_ascending)
  moreover from this(1) have "serves (Suc (unat (st_height (sl_state l)))) (sl_state_history l) (sl_state_history m)"
    using assms(4) by (auto simp: serves_def assms(3) state_find_kept ascending_def sorted_wrt_append split: if_splits)
  ultimately show ?thesis by (simp add: alike_def assms(2))
qed

lemma add_blocks_again:
  assumes "foldE (process_block E) blks l = Inr l'" and "follow E blks (st_height (sl_state l))" and "alike l m"
  shows "\<exists>m'. foldE (process_block E) blks m = Inr m' \<and> alike l' m'"
  using assms
proof (induction blks arbitrary: l m)
  case (Cons b blks)
  obtain blk txs where b: "b = (blk, txs)" by force
  from Cons.prems(1) obtain u where u: "process_block E (blk, txs) l = Inr u" "foldE (process_block E) blks u = Inr l'"
    by (auto simp: b bindE_eq_Inr)
  have f: "16 \<le> env_hard_fork_version E (get_block_height blk)" "get_block_height blk = st_height (sl_state l) + 1"
    "unat (st_height (sl_state l)) + 1 < 2 ^ 64" "follow E blks (st_height (sl_state u))"
    using Cons.prems(2) process_block_step(4) [OF u(1)] by (auto simp: follow_Cons b)
  obtain m' where m': "process_block E (blk, txs) m = Inr m'" "alike u m'"
    using process_block_again [OF u(1) f(1) Cons.prems(3) f(2,3)] by blast
  show ?case using Cons.IH [OF u(2) f(4) m'(2)] m'(1) by (simp add: b)
qed auto

text \<open>
  (C4) A reorganisation and its failure. A node that has followed up to 300 blocks and is made to detach them
  (\<open>blockchain_detached\<close> at the height after the fork) is back in the very state it had at the fork. If
  it then follows any other branch of up to 300 blocks and has to give it up as well, it is in that state
  once more, the original blocks can be added again, and they lead to the very state they led to the
  first time, although the second history holds fewer of the old states.
\<close>

theorem failed_switch_restores:
  assumes "foldE (process_block E) orig l = Inr l1" and "follow E orig (st_height (sl_state l))" and "consecutive l"
    and "60 \<le> unat (st_height (sl_state l))" and "length orig \<le> 300" and "orig \<noteq> []" and "\<not> st_only_loaded_quorums (sl_state l)"
  shows "\<exists>l2. blockchain_detached (st_height (sl_state l) + 1) (l1, c) = Inr ((l2, Detached), clear c) \<and> sl_state l2 = sl_state l \<and>
    (\<forall>alt l3. alt \<noteq> [] \<and> length alt \<le> 300 \<and> follow E alt (st_height (sl_state l)) \<and> foldE (process_block E) alt l2 = Inr l3 \<longrightarrow>
      (\<exists>l4 l5. blockchain_detached (st_height (sl_state l) + 1) (l3, clear c) = Inr ((l4, Detached), clear c) \<and>
        sl_state l4 = sl_state l \<and> foldE (process_block E) orig l4 = Inr l5 \<and> sl_state l5 = sl_state l1))"
proof -
  let ?h = "unat (st_height (sl_state l))"
  let ?c = "\<lambda>blks. ?h + length blks - 360"
  define l2 where "l2 = l1\<lparr>sl_state_history := kept (?c orig) (sl_state_history l), sl_state := sl_state l\<rparr>"
  have s2: "sl_state l2 = sl_state l" "sl_state_history l2 = kept (?c orig) (sl_state_history l)" by (simp_all add: l2_def)
  have d: "blockchain_detached (st_height (sl_state l) + 1) (l1, c) = Inr ((l2, Detached), clear c)"
    unfolding l2_def using assms by (intro detach_after_blocks) simp_all
  have con: "consecutive l2" using assms(3) s2 by (rule kept_consecutive)
  have "\<exists>l4 l5. blockchain_detached (st_height (sl_state l) + 1) (l3, clear c) = Inr ((l4, Detached), clear c) \<and>
      sl_state l4 = sl_state l \<and> foldE (process_block E) orig l4 = Inr l5 \<and> sl_state l5 = sl_state l1"
    if a: "alt \<noteq> []" "length alt \<le> 300" "follow E alt (st_height (sl_state l))" "foldE (process_block E) alt l2 = Inr l3" for alt l3
  proof -
    define l4 where "l4 = l3\<lparr>sl_state_history := kept (?c alt) (sl_state_history l2), sl_state := sl_state l2\<rparr>"
    have "blockchain_detached (st_height (sl_state l) + 1) (l3, clear c) = Inr ((l4, Detached), clear (clear c))"
      using detach_after_blocks [OF a(4) _ con] a(1-3) assms(4,7) by (simp add: s2(1) l4_def)
    moreover have "alike l l4"
      using assms(3,4,5) a(2)
      by (intro kept_alike [where c = "max (?c orig) (?c alt)"]) (auto simp: kept_max l4_def s2)
    then obtain l5 where "foldE (process_block E) orig l4 = Inr l5" "alike l1 l5"
      using add_blocks_again [OF assms(1,2)] by blast
    ultimately show ?thesis using s2(1) by (intro exI [of _ l4] exI [of _ l5]) (simp add: clear_def alike_def l4_def)
  qed
  with d s2(1) show ?thesis by blast
qed

section \<open>Replaying the stored chain\<close>

lemma follow_append:
  "follow E (xs @ ys) h \<longleftrightarrow> follow E xs h \<and> unat h + length (xs @ ys) < 2 ^ 64 \<and> follow E ys (h + word_of_nat (length xs))"
proof (induction xs arbitrary: h)
  case (Cons x xs)
  show ?case by (auto simp: follow_Cons Cons unat_Suc_height add.assoc)
qed (auto simp: follow_def)

lemma rescan_loop:
  assumes "follow E (drop (Suc (unat (st_height (sl_state l)))) chain) (st_height (sl_state l))"
    and "unat (st_height (sl_state l)) < length chain" and "unat current = length chain - 1"
  shows "whileE (\<lambda>(l, stop). \<not> stop \<and> st_height (sl_state l) < current) (rescan_step E chain) (l, False) =
    bindE (foldE (process_block E) (drop (Suc (unat (st_height (sl_state l)))) chain) l) (\<lambda>l. Inr (l, False))"
  using assms(1,2)
proof (induction "length chain - unat (st_height (sl_state l))" arbitrary: l rule: less_induct)
  case less
  let ?h = "st_height (sl_state l)"
  show ?case
  proof (cases "Suc (unat ?h) = length chain")
    case True
    then have "\<not> ?h < current" using assms(3) by (simp add: word_less_nat_alt)
    then show ?thesis using True by (subst whileE_unfold) simp
  next
    case False
    let ?rest = "drop (Suc (unat ?h)) chain"
    let ?blocks = "take 1000 ?rest"
    have lt: "?h < current" and ne: "?blocks \<noteq> []" "Suc (unat ?h) < length chain"
      using False less.prems(2) assms(3) by (simp_all add: word_less_nat_alt)
    have small: "unat ?h + length ?rest < 2 ^ 64" using less.prems(1) by (simp add: follow_def)
    then have "unat (?h + 1) = Suc (unat ?h)" using ne(2) by (intro unat_Suc_height) simp
    then have step: "rescan_step E chain (l, False) = bindE (foldE (process_block E) ?blocks l) (\<lambda>m. Inr (m, ?h = st_height (sl_state m)))"
      using ne by (simp add: rescan_step_def get_blocks_def)
    have split: "?rest = ?blocks @ drop 1000 ?rest" by (rule append_take_drop_id [symmetric])
    have fb: "follow E ?blocks ?h" "follow E (drop 1000 ?rest) (?h + word_of_nat (length ?blocks))"
      using less.prems(1) split by (metis follow_append)+
    have whole: "foldE (process_block E) ?rest l = bindE (foldE (process_block E) ?blocks l) (foldE (process_block E) (drop 1000 ?rest))"
      using foldE_append [of "process_block E" ?blocks "drop 1000 ?rest" l] by (simp only: append_take_drop_id)
    let ?while = "whileE (\<lambda>(l, stop). \<not> stop \<and> st_height (sl_state l) < current) (rescan_step E chain)"
    have unfold: "?while (l, False) = bindE (rescan_step E chain (l, False)) ?while"
      by (subst whileE_unfold) (simp add: lt)
    show ?thesis
    proof (cases "foldE (process_block E) ?blocks l")
      case (Inl e)
      then show ?thesis unfolding whole unfold step by simp
    next
      case (Inr m)
      have hm: "unat (st_height (sl_state m)) = unat ?h + length ?blocks" using add_blocks_height [OF Inr fb(1)] by simp
      have rest: "drop 1000 ?rest = drop (Suc (unat (st_height (sl_state m)))) chain"
        unfolding hm by (cases "1000 \<le> length ?rest") (simp_all add: add.commute)
      have wm: "st_height (sl_state m) = ?h + word_of_nat (length ?blocks)"
        using arg_cong [OF hm, of "word_of_nat :: nat \<Rightarrow> u64"] by (simp only: of_nat_add) simp
      have IH: "?while (m, False) = bindE (foldE (process_block E) (drop 1000 ?rest) m) (\<lambda>l. Inr (l, False))"
        unfolding rest
      proof (rule less.hyps)
        show "length chain - unat (st_height (sl_state m)) < length chain - unat ?h" "unat (st_height (sl_state m)) < length chain"
          using hm ne(2) by auto
        show "follow E (drop (Suc (unat (st_height (sl_state m)))) chain) (st_height (sl_state m))"
          using fb(2) unfolding rest wm [symmetric] .
      qed
      have "?h \<noteq> st_height (sl_state m)" using hm ne(1) by auto
      then show ?thesis unfolding whole unfold step Inr bindE_Inr IH [symmetric] by simp
    qed
  qed
qed

text \<open>
  (C10) The replay ends. On a stored chain whose blocks have their heights and the rules of service nodes,
  \<open>rescan_starting_from_curr_state\<close> reads batch after batch until it has processed every block above
  the current state once and in order: it returns exactly what adding them one by one returns, and a fault
  only where adding them gives that fault. It never stops early and never loops.
\<close>

theorem rescan_ends_at_tip:
  assumes "16 \<le> current_hard_fork_version" and "unat (st_height (sl_state l)) < length chain"
    and "follow E (drop (Suc (unat (st_height (sl_state l)))) chain) (st_height (sl_state l))"
  shows "rescan_starting_from_curr_state E current_hard_fork_version chain l =
    bindE (foldE (process_block E) (drop (Suc (unat (st_height (sl_state l)))) chain) (l\<lparr>sl_rescanning := True\<rparr>))
      (\<lambda>l. Inr (l\<lparr>sl_rescanning := False\<rparr>))"
proof -
  let ?l = "l\<lparr>sl_rescanning := True\<rparr>" and ?current = "word_of_nat (length chain) - 1 :: u64"
  have "length chain - 1 < 2 ^ 64" using assms(2,3) by (simp add: follow_def)
  moreover have "?current = word_of_nat (length chain - 1)" using assms(2) by (simp add: of_nat_diff)
  ultimately have current: "unat ?current = length chain - 1" by (simp add: unat_of_nat_small)
  have v: "\<not> current_hard_fork_version < 16" using assms(1) by simp
  show ?thesis
  proof (cases "st_height (sl_state l) = ?current")
    case True
    then have "drop (Suc (unat (st_height (sl_state l)))) chain = []" using current by simp
    then show ?thesis using True v by (simp add: rescan_starting_from_curr_state_def)
  next
    case False
    have "whileE (\<lambda>(l, stop). \<not> stop \<and> st_height (sl_state l) < ?current) (rescan_step E chain) (?l, False) =
        bindE (foldE (process_block E) (drop (Suc (unat (st_height (sl_state ?l)))) chain) ?l) (\<lambda>l. Inr (l, False))"
      using assms(2,3) current by (intro rescan_loop) simp_all
    then show ?thesis using False v
      by (simp add: rescan_starting_from_curr_state_def Let_def) (simp add: bindE_def split: sum.splits)
  qed
qed

section \<open>Where detaching falls short\<close>

lemma find_None_below: "\<forall>t \<in> set hist. st_height t \<noteq> h \<Longrightarrow> state_find h hist = None"
  by (auto simp: state_find_def find_None_iff)

text \<open>
  Detaching nothing. When the height to go back to is that of the current state, as it is when the first
  block of a branch is refused and \<open>rollback_blockchain_switching\<close> detaches at the fork again, the state is
  not looked for where it is: the history is thrown away, and the list starts again from the archive or from
  nothing and has to replay the chain.
\<close>

theorem detach_at_tip_restarts:
  assumes "consecutive l" and "blockchain_detached (st_height (sl_state l) + 1) (l, c) = Inr ((l', after), c')"
  shows "sl_state_history l' = [] \<and> (after = Then_init \<or> sl_state l' \<in> set (sl_state_archive l))"
proof -
  have "state_find (st_height (sl_state l)) (sl_state_history l) = None"
    using consecutive_below [OF assms(1)] by (intro find_None_below) auto
  then show ?thesis using assms(2)
    by (auto simp: blockchain_detached_def take_last_def usable_def Let_def bindE_eq_Inr split: if_splits option.splits
        dest!: last_in_set set_takeWhileD)
qed

lemma set_state_insert: "set (state_insert s ts) \<subseteq> insert s (set ts)"
  by (induction ts) auto

text \<open>
  (C40) A replay from the archive forgets the quorums before it. When a detach goes back to a state of the
  archive, the history is emptied, and whatever blocks are replayed from there, a state change that refers to
  a height before the archived state is ignored, although the archive holds the quorum of that height for
  this purpose and the votes may be valid: \<open>process_state_change_tx\<close> is given the archive and does not look in it.
\<close>

theorem replay_from_archive_forgets:
  assumes "ascending l" and "blockchain_detached height (l, c) = Inr ((l', Then_rescan), c')"
    and "foldE (process_block E) blks l' = Inr m" and "follow E blks (st_height (sl_state l'))" and "0 < st_height (sl_state l')"
    and "get_service_node_state_change_from_tx_extra (extra tx) = Some sc" and "sc_block_height sc < st_height (sl_state l')"
  shows "process_state_change_tx C (state_insert (sl_state m) (sl_state_history m)) [] nettype linked rescanning blk tx (st, proofs) =
    Inr (False, st, proofs)"
proof -
  have empty: "sl_state_history l' = []"
  proof (cases "usable (state_find (height - 1) (sl_state_history l))")
    case True
    then obtain s where s: "s \<in> set (sl_state_history l)" "st_height s = height - 1"
      by (auto simp: usable_def state_find_def find_Some_iff split: option.splits) (meson nth_mem)
    then obtain before later where h: "sl_state_history l = before @ s # later" by (meson split_list)
    have "blockchain_detached (st_height s + 1) (l, c) = Inr ((l\<lparr>sl_state_history := before, sl_state := s\<rparr>, Detached), clear c)"
      if "\<not> st_only_loaded_quorums s"
      using assms(1) h that by (intro detach_at_state) (auto simp: ascending_def sorted_wrt_append)
    moreover have "\<not> st_only_loaded_quorums s"
      using True state_find_middle [of "before" s later] assms(1)
      by (simp add: usable_def s(2) [symmetric] h ascending_def sorted_wrt_append split: option.splits)
    ultimately show ?thesis using assms(2) s(2) by simp
  next
    case False
    then show ?thesis using assms(2)
      by (auto simp: blockchain_detached_def take_last_def Let_def bindE_eq_Inr split: if_splits)
  qed
  let ?n = "unat (st_height (sl_state l'))"
  have "\<forall>s \<in> set (sl_state_history m). ?n \<le> unat (st_height s)" and le: "?n \<le> unat (st_height (sl_state m))"
  proof -
    have "map (unat \<circ> st_height) (sl_state_history m) = [max ?n (Suc (?n + length blks - 360))..<?n + length blks]" if "blks \<noteq> []"
      using add_blocks_window [OF assms(3,4), of ?n ?n] empty that assms(5) by (simp add: word_less_nat_alt)
    then show "\<forall>s \<in> set (sl_state_history m). ?n \<le> unat (st_height s)"
      using assms(3) empty heights_between(1) by (cases "blks = []") fastforce+
    show "?n \<le> unat (st_height (sl_state m))" using add_blocks_height [OF assms(3,4)] by simp
  qed
  then have "state_find (sc_block_height sc) (state_insert (sl_state m) (sl_state_history m)) = None"
    using assms(7) set_state_insert [of "sl_state m" "sl_state_history m"]
    by (intro find_None_below) (fastforce simp: word_less_nat_alt)
  then show ?thesis by (simp add: process_state_change_tx_def state_find_def assms(6))
qed

section \<open>Examples\<close>

definition sample_env :: "(u64, unit, unit) sn_env" where
  "sample_env = \<lparr>env_rng = counter_rng, env_sort = sort_key sw_size, env_crypto = plain_crypto, env_stake = plain_stake,
     env_block_hash = (\<lambda>_. replicate 32 9), env_nettype = MAINNET, env_hard_fork_version = (\<lambda>_. 17),
     env_immutable_checkpoint = (\<lambda>_. None)\<rparr>"

definition sample_list :: sn_list where
  "sample_list = \<lparr>sl_rescanning = False, sl_store_quorum_history = 0, sl_proofs = [], sl_old_quorum_states = [],
     sl_state_history = [], sl_state_archive = [], sl_alt_state = [], sl_state_added_to_archive = False, sl_state = sample_state\<rparr>"

definition sample_block :: "u32 \<Rightarrow> block \<times> unit transaction list" where
  "sample_block n = ((next_block sample_state)\<lparr>hdr_nonce := n\<rparr>, [])"

lemma sample_block_height: "get_block_height (fst (sample_block n)) = 101"
proof -
  have "get_block_height (fst (sample_block n)) = get_block_height (next_block sample_state)"
    by (simp add: sample_block_def get_block_height_def)
  then show ?thesis using next_block_winner [OF sample_state_ok(3)] by (simp add: sample_state_def)
qed

lemma sample_block_added:
  assumes "sl_state l = sample_state"
  shows "\<exists>l'. foldE (process_block sample_env) [sample_block n] l = Inr l'"
proof -
  let ?b = "fst (sample_block n)"
  have h: "get_block_height ?b = st_height sample_state + 1" by (simp add: sample_block_height sample_state_def)
  have w: "get_service_node_winner_from_tx_extra (extra (miner_tx ?b)) = bw_key (get_block_winner sample_state)"
    using next_block_winner [OF sample_state_ok(3)] by (simp add: sample_block_def)
  have "\<exists>st'. update_from_block counter_rng (sort_key sw_size) plain_crypto plain_stake (\<lambda>_. replicate 32 9) MAINNET True rescanning hist [] ?b []
      (sample_state, proofs) = Inr (st', proofs)" for rescanning hist proofs
    by (rule empty_block [OF fair_counter_rng sample_state_ok(3) _ h w]) (auto simp: sample_state_def)
  then show ?thesis
    by (simp add: sample_block_def process_block_def sample_env_def Let_def cull_history_fields cull_alt_states_fields assms bindE_eq_Inr) metis
qed

lemma sample_facts:
  "follow sample_env [sample_block n] (st_height (sl_state sample_list))" "consecutive sample_list"
  "st_height (sl_state sample_list) = 100" "\<not> st_only_loaded_quorums (sl_state sample_list)"
  using sample_block_height [of n]
  by (simp_all add: follow_def sample_list_def sample_state_def sample_env_def consecutive_def) (rule exI [of _ 100], simp)

theorem history_is_window_witness:
  "\<exists>l'. foldE (process_block sample_env) [sample_block 0] sample_list = Inr l' \<and>
    map (unat \<circ> st_height) (sl_state_history l') = [100] \<and> unat (st_height (sl_state l')) = 101"
proof -
  obtain l' where l': "foldE (process_block sample_env) [sample_block 0] sample_list = Inr l'"
    using sample_block_added [of sample_list 0] by (auto simp: sample_list_def)
  have "map (unat \<circ> st_height) (sl_state_history sample_list) = [100..<unat (st_height (sl_state sample_list))]"
    by (simp add: sample_facts(3)) (simp add: sample_list_def)
  from history_is_window [OF l' sample_facts(1) this] show ?thesis
    using l' by (simp add: sample_facts(3))
qed

theorem quorum_remembered_witness:
  "\<exists>l'. foldE (process_block sample_env) [sample_block 0] sample_list = Inr l' \<and>
    fst (get_quorum obligations 100 False l') = Some \<lparr>validators = [replicate 32 1, replicate 32 2], workers = []\<rparr>"
proof -
  obtain l' where l': "foldE (process_block sample_env) [sample_block 0] sample_list = Inr l'"
    using sample_block_added [of sample_list 0] by (auto simp: sample_list_def)
  have "offset_testing_quorum_height obligations 100 = st_height (sl_state sample_list)"
    by (simp add: offset_testing_quorum_height_def sample_facts(3))
  from quorum_remembered [OF l' sample_facts(1,2) _ _ this, of False] show ?thesis
    using l' by (simp add: sample_facts(3)) (simp add: sample_list_def sample_state_def qm_get_def)
qed

theorem failed_switch_restores_witness:
  "\<exists>l1 l2 l3 l4 l5 c. foldE (process_block sample_env) [sample_block 0] sample_list = Inr l1 \<and>
    blockchain_detached 101 (l1, new_collector) = Inr ((l2, Detached), c) \<and>
    foldE (process_block sample_env) [sample_block 1] l2 = Inr l3 \<and>
    blockchain_detached 101 (l3, c) = Inr ((l4, Detached), c) \<and>
    foldE (process_block sample_env) [sample_block 0] l4 = Inr l5 \<and> sl_state l5 = sl_state l1"
proof -
  obtain l1 where l1: "foldE (process_block sample_env) [sample_block 0] sample_list = Inr l1"
    using sample_block_added [of sample_list 0] by (auto simp: sample_list_def)
  have h: "st_height (sl_state sample_list) + 1 = 101" by (simp add: sample_facts(3))
  have pre: "60 \<le> unat (st_height (sl_state sample_list))" "length [sample_block 0] \<le> 300" "[sample_block 0] \<noteq> []"
    by (simp_all add: sample_facts(3))
  from failed_switch_restores [OF l1 sample_facts(1,2) pre sample_facts(4), of new_collector]
  obtain l2 where l2: "blockchain_detached 101 (l1, new_collector) = Inr ((l2, Detached), clear new_collector)" "sl_state l2 = sl_state sample_list"
    and again: "\<And>alt l3. alt \<noteq> [] \<and> length alt \<le> 300 \<and> follow sample_env alt (st_height (sl_state sample_list)) \<and>
      foldE (process_block sample_env) alt l2 = Inr l3 \<Longrightarrow>
      \<exists>l4 l5. blockchain_detached 101 (l3, clear new_collector) = Inr ((l4, Detached), clear new_collector) \<and>
        sl_state l4 = sl_state sample_list \<and> foldE (process_block sample_env) [sample_block 0] l4 = Inr l5 \<and> sl_state l5 = sl_state l1"
    unfolding h by blast
  obtain l3 where "foldE (process_block sample_env) [sample_block 1] l2 = Inr l3"
    using sample_block_added [of l2 1] l2(2) by (auto simp: sample_list_def)
  with again [of "[sample_block 1]"] sample_facts(1) [of 1] l1 l2(1) show ?thesis by (auto simp del: foldE.simps)
qed

theorem rescan_ends_at_tip_witness:
  "\<exists>l'. rescan_starting_from_curr_state sample_env 17 (replicate 102 (sample_block 0)) sample_list = Inr l' \<and>
    unat (st_height (sl_state l')) = 101"
proof -
  let ?l = "sample_list\<lparr>sl_rescanning := True\<rparr>"
  obtain l' where l': "foldE (process_block sample_env) [sample_block 0] ?l = Inr l'"
    using sample_block_added [of ?l 0] by (auto simp: sample_list_def)
  have d: "drop (Suc (unat (st_height (sl_state sample_list)))) (replicate 102 (sample_block 0)) = [sample_block 0]"
    by (simp add: sample_facts(3))
  have "follow sample_env [sample_block 0] (st_height (sl_state ?l))" using sample_facts(1) by simp
  from add_blocks_height [OF l' this] have "unat (st_height (sl_state l')) = 101" by (simp add: sample_facts(3))
  then show ?thesis
    using rescan_ends_at_tip [of 17 sample_list "replicate 102 (sample_block 0)" sample_env, unfolded d l'] sample_facts(1) [of 0]
    by (simp add: sample_facts(3))
qed

theorem detach_at_tip_restarts_witness:
  "\<exists>l' c'. blockchain_detached 101 (sample_list\<lparr>sl_state_history := [sample_state\<lparr>st_height := 99\<rparr>]\<rparr>, new_collector) =
      Inr ((l', Then_init), c') \<and> sl_state_history l' = []"
proof -
  let ?l = "sample_list\<lparr>sl_state_history := [sample_state\<lparr>st_height := 99\<rparr>]\<rparr>"
  have "blockchain_detached 101 (?l, new_collector) = Inr ((?l\<lparr>sl_state_history := [], sl_state_archive := []\<rparr>, Then_init), clear new_collector)"
    by (simp add: blockchain_detached_def state_find_def usable_def sample_list_def)
  moreover have "consecutive ?l"
    unfolding consecutive_def by (rule exI [of _ 99]) (simp add: sample_list_def sample_state_def)
  ultimately show ?thesis
    using detach_at_tip_restarts [of ?l new_collector] by (simp add: sample_list_def sample_state_def)
qed

text \<open>
  A list at height 10400 that goes back to 10200, whose archive has the state of height 10000 and the quorum of
  height 9990, which four validators used for the votes of a state change.
\<close>

definition archived_change :: tx_extra_service_node_state_change where
  "archived_change = \<lparr>sc_state = decommission, sc_block_height = 9990, sc_service_node_index = 0,
    sc_votes = map (\<lambda>i. \<lparr>ev_signature = replicate 32 (word_of_nat i) @
        make_state_change_vote_hash plain_crypto 9990 0 decommission, ev_validator_index = word_of_nat i\<rparr>) [2, 3, 5, 7]\<rparr>"

definition archive_list :: sn_list where
  "archive_list = sample_list\<lparr>sl_state := sample_state\<lparr>st_height := 10400\<rparr>,
     sl_state_archive := [sample_state\<lparr>st_height := 9990, st_only_loaded_quorums := True,
       st_quorums := \<lparr>qm_obligations = Some sample_quorum, qm_checkpointing = None\<rparr>\<rparr>, sample_state\<lparr>st_height := 10000\<rparr>]\<rparr>"

theorem replay_from_archive_forgets_witness:
  "\<exists>l' c' it (tx :: transaction_prefix). blockchain_detached 10201 (archive_list, new_collector) = Inr ((l', Then_rescan), c') \<and>
    state_find (sc_block_height archived_change) (sl_state_archive l') = Some it \<and>
    verify_against plain_crypto archived_change 10001 17 (st_quorums it) clean_tvc = Inr (True, clean_tvc) \<and>
    get_service_node_state_change_from_tx_extra (extra tx) = Some archived_change \<and>
    process_state_change_tx plain_crypto (state_insert (sl_state l') (sl_state_history l')) [] MAINNET True False
      (next_block sample_state) tx (sample_state, []) = Inr (False, sample_state, [])"
proof -
  let ?it = "sample_state\<lparr>st_height := 9990, st_only_loaded_quorums := True,
    st_quorums := \<lparr>qm_obligations = Some sample_quorum, qm_checkpointing = None\<rparr>\<rparr>"
  let ?l = "archive_list\<lparr>sl_state_archive := [?it], sl_state := sample_state\<lparr>st_height := 10000\<rparr>\<rparr>"
  let ?tx = "null_transaction_prefix\<lparr>tx_type := state_change_tx, extra := fields_bytes ([] @ [extra_service_node_state_change archived_change])\<rparr>"
  have d: "blockchain_detached 10201 (archive_list, new_collector) = Inr ((?l, Then_rescan), clear new_collector)"
    by (simp add: blockchain_detached_def state_find_def usable_def take_last_def STORE_LONG_TERM_STATE_INTERVAL_def
        archive_list_def sample_list_def) (simp add: sample_state_def)
  have f: "state_find (sc_block_height archived_change) (sl_state_archive ?l) = Some ?it"
    by (simp add: state_find_def archived_change_def)
  have v: "verify_against plain_crypto archived_change 10001 17 (st_quorums ?it) clean_tvc = Inr (True, clean_tvc)"
  proof -
    have "length (validators sample_quorum) \<le> 10" by (simp add: sample_quorum_def)
    from verify_tx_state_change_iff [OF this, of plain_crypto archived_change 10001 clean_tvc 17] show ?thesis
      by (auto simp: verify_against_def archived_change_def sample_quorum_def plain_crypto_def signed_votes_def state_change_height_ok_def vote_limits
        STATE_CHANGE_TX_LIFETIME_IN_BLOCKS_def VOTE_LIFETIME_def BLOCKS_EXPECTED_IN_HOURS_def
        DIFFICULTY_TARGET_V16_def DIFFICULTY_TARGET_V11_def)
  qed
  have "length (make_state_change_vote_hash plain_crypto 9990 0 decommission) = 32"
    by (simp add: plain_crypto_def make_state_change_vote_hash_def null_bytes_def Let_def)
  then have "valid_field (extra_service_node_state_change archived_change)"
    by (simp add: archived_change_def valid_extra_vote_def sized_def)
  then have "well_formed ([] @ [extra_service_node_state_change archived_change])" by (simp add: well_formed_def)
  from field_from_extra_bytes [OF this, of sel_state_change archived_change]
  have t: "get_service_node_state_change_from_tx_extra (extra ?tx) = Some archived_change"
    by (simp add: get_service_node_state_change_from_tx_extra_def)
  have "ascending archive_list" by (simp add: ascending_def archive_list_def sample_list_def)
  from replay_from_archive_forgets [OF this d _ _ _ t, of sample_env "[]" ?l plain_crypto MAINNET True False "next_block sample_state" sample_state "[]"]
  have "process_state_change_tx plain_crypto (state_insert (sl_state ?l) (sl_state_history ?l)) [] MAINNET True False
      (next_block sample_state) ?tx (sample_state, []) = Inr (False, sample_state, [])"
    by (simp add: follow_def archived_change_def)
  with d f v t show ?thesis by blast
qed

end
