(* ===== verification/Checkpoints.thy ===== *)
theory Checkpoints
  imports Address
begin

text \<open>
  The checkpoints of the chain, \<open>checkpoints/checkpoints.{h,cpp}\<close>, with the queries of the database that they
  rest on (\<open>blockchain_db/blockchain_db.cpp\<close>, \<open>blockchain_db/lmdb/db_lmdb.cpp\<close>). The table of checkpoints is a
  map ordered by height, which the cursors of the storage engine walk in order; failures of the engine are
  not modelled. Reading checkpoints from a file is left out.
\<close>

section \<open>The table\<close>

type_synonym checkpoint_table = "(u64 \<times> checkpoint_t) list"

text \<open>What is read back of a stored checkpoint.\<close>

definition convert_mdb_val_to_checkpoint :: "checkpoint_t \<Rightarrow> checkpoint_t" where
  "convert_mdb_val_to_checkpoint c =
    \<lparr>cp_version = 0, cp_type = (if 0 < length (cp_signatures c) then service_node else hardcoded), cp_height = cp_height c,
     cp_block_hash = cp_block_hash c, cp_signatures = cp_signatures c, cp_prev_height = 0\<rparr>"

text \<open>The result of filling the buffer is not looked at: signatures beyond it are read from elsewhere.\<close>

definition update_block_checkpoint :: "checkpoint_t \<Rightarrow> checkpoint_table \<Rightarrow> checkpoint_table outcome" where
  "update_block_checkpoint checkpoint db =
    (if 1000 * CHECKPOINT_QUORUM_SIZE < length (cp_signatures checkpoint) then Inl Undefined
     else Inr (omap_set (cp_height checkpoint) (convert_mdb_val_to_checkpoint checkpoint) db))"

definition remove_block_checkpoint :: "u64 \<Rightarrow> checkpoint_table \<Rightarrow> checkpoint_table" where
  "remove_block_checkpoint height db = map_erase height db"

definition get_block_checkpoint :: "u64 \<Rightarrow> checkpoint_table \<Rightarrow> checkpoint_t option" where
  "get_block_checkpoint height db = map_of db height"

definition get_top_checkpoint :: "checkpoint_table \<Rightarrow> checkpoint_t option" where
  "get_top_checkpoint db = (if db = [] then None else Some (snd (last db)))"

definition clamp_u64 :: "u64 \<Rightarrow> u64 \<Rightarrow> u64 \<Rightarrow> u64" where
  "clamp_u64 val lo hi = (if val < lo then lo else if hi < val then hi else val)"

lemma distance_decreases:
  assumes "(height :: u64) \<noteq> stop"
  shows "unat (stop - (height + 1)) < unat (stop - height)" "unat (height - 1 - stop) < unat (height - stop)"
proof -
  have "unat (x - 1) < unat x" if "x \<noteq> 0" for x :: u64 using that unat_gt_0 [of x] unat_minus_one [of x] by simp
  from this [of "stop - height"] this [of "height - stop"] assms
  show "unat (stop - (height + 1)) < unat (stop - height)" "unat (height - 1 - stop) < unat (height - stop)"
    by (simp_all add: algebra_simps)
qed

text \<open>The loop over the heights from the start on, upwards or downwards, up to the end.\<close>

function first_checkpoint_from :: "bool \<Rightarrow> u64 \<Rightarrow> u64 \<Rightarrow> checkpoint_table \<Rightarrow> checkpoint_t option" where
  "first_checkpoint_from up height stop db =
    (if height = stop then None
     else case get_block_checkpoint height db of
       Some c \<Rightarrow> Some c
     | None \<Rightarrow> first_checkpoint_from up (if up then height + 1 else height - 1) stop db)"
  by auto

termination
  by (relation "measure (\<lambda>(up, height, stop, db). if up then unat (stop - height) else unat (height - stop))")
    (auto intro: distance_decreases)

declare first_checkpoint_from.simps [simp del]

definition get_checkpoints_range :: "u64 \<Rightarrow> u64 \<Rightarrow> nat \<Rightarrow> checkpoint_table \<Rightarrow> checkpoint_t list" where
  "get_checkpoints_range start stop num_desired_checkpoints db =
    (if db = [] then []
     else
       let top_height = cp_height (snd (last db)); bottom_height = cp_height (snd (hd db));
           start = clamp_u64 start bottom_height top_height; stop = clamp_u64 stop bottom_height top_height
       in if (if stop < start then start < bottom_height else top_height < start) then []
          else
            let num = (if num_desired_checkpoints = 0 then 2 ^ 64 - 1 else num_desired_checkpoints);
                found = (case first_checkpoint_from (start \<le> stop) start stop db of
                           Some c \<Rightarrow> Some c
                         | None \<Rightarrow> get_block_checkpoint stop db)
            in case found of
                 None \<Rightarrow> []
               | Some c \<Rightarrow>
                   let following = (if start \<le> stop then dropWhile (\<lambda>(k, _). k \<le> cp_height c) db
                         else rev (takeWhile (\<lambda>(k, _). k < cp_height c) db))
                   in take num (c # filter (\<lambda>d. min start stop \<le> cp_height d \<and> cp_height d \<le> max start stop) (map snd following)))"

definition get_immutable_checkpoint :: "u64 \<Rightarrow> checkpoint_table \<Rightarrow> checkpoint_t option" where
  "get_immutable_checkpoint block_height db =
    (let NUM_CHECKPOINTS = unat CHECKPOINT_NUM_CHECKPOINTS_FOR_CHAIN_FINALITY
     in case get_checkpoints_range block_height 0 NUM_CHECKPOINTS db of
          [] \<Rightarrow> None
        | c # cs \<Rightarrow>
            if cp_type c \<noteq> service_node then Some c
            else if length (c # cs) = NUM_CHECKPOINTS then Some ((c # cs) ! 1)
            else None)"

section \<open>The checkpoints\<close>

record checkpoints =
  ck_nettype :: network_type
  ck_last_cull_height :: u64
  ck_immutable_height :: u64
  ck_db :: "checkpoint_table option"

definition hex_to_pod :: "nat \<Rightarrow> bytes \<Rightarrow> bytes option" where
  "hex_to_pod n hex_str = (if length hex_str div 2 \<noteq> n then None else parse_hexstr_to_binbuff hex_str)"

definition get_checkpoint :: "u64 \<Rightarrow> checkpoints \<Rightarrow> checkpoint_t option" where
  "get_checkpoint height ck = (case ck_db ck of None \<Rightarrow> None | Some db \<Rightarrow> get_block_checkpoint height db)"

definition update_checkpoint :: "checkpoint_t \<Rightarrow> checkpoints \<Rightarrow> (bool \<times> checkpoints) outcome" where
  "update_checkpoint checkpoint ck =
    (case ck_db ck of
       None \<Rightarrow> Inr (False, ck)
     | Some db \<Rightarrow> bindE (update_block_checkpoint checkpoint db) (\<lambda>db. Inr (True, ck\<lparr>ck_db := Some db\<rparr>)))"

definition add_checkpoint :: "u64 \<Rightarrow> bytes \<Rightarrow> checkpoints \<Rightarrow> (bool \<times> checkpoints) outcome" where
  "add_checkpoint height hash_str ck =
    (case hex_to_pod 32 hash_str of
       None \<Rightarrow> Inr (False, ck)
     | Some h \<Rightarrow>
         (case get_checkpoint height ck of
            Some checkpoint \<Rightarrow> Inr (h = cp_block_hash checkpoint, ck)
          | None \<Rightarrow> update_checkpoint \<lparr>cp_version = 0, cp_type = hardcoded, cp_height = height, cp_block_hash = h,
              cp_signatures = [], cp_prev_height = 0\<rparr> ck))"

definition checkpoints_block_added :: "'b block_scheme \<Rightarrow> checkpoint_t option \<Rightarrow> checkpoints \<Rightarrow> (bool \<times> checkpoints) outcome" where
  "checkpoints_block_added blk checkpoint ck =
    (let height = get_block_height blk
     in if height < CHECKPOINT_STORE_PERSISTENTLY_INTERVAL \<or> hdr_major_version blk < 16 then Inr (True, ck)
        else case ck_db ck of
          None \<Rightarrow> Inl Undefined
        | Some db \<Rightarrow>
            let end_cull_height = (case get_immutable_checkpoint (height + 1) db of None \<Rightarrow> 0 | Some c \<Rightarrow> cp_height c);
                start_cull_height = (if end_cull_height < CHECKPOINT_STORE_PERSISTENTLY_INTERVAL then 0
                  else end_cull_height - CHECKPOINT_STORE_PERSISTENTLY_INTERVAL);
                start_cull_height = (if 0 < start_cull_height mod CHECKPOINT_INTERVAL
                  then start_cull_height + (CHECKPOINT_INTERVAL - start_cull_height mod CHECKPOINT_INTERVAL) else start_cull_height)
            in bindE (whileE (\<lambda>(last_cull_height, db). last_cull_height < end_cull_height)
                 (\<lambda>(last_cull_height, db).
                   Inr (last_cull_height + CHECKPOINT_INTERVAL,
                     if last_cull_height mod CHECKPOINT_STORE_PERSISTENTLY_INTERVAL = 0 then db
                     else remove_block_checkpoint last_cull_height db))
                 (max (ck_last_cull_height ck) start_cull_height, db)) (\<lambda>(last_cull_height, db).
               let ck = ck\<lparr>ck_last_cull_height := last_cull_height, ck_db := Some db\<rparr>
               in case checkpoint of
                    None \<Rightarrow> Inr (True, ck)
                  | Some c \<Rightarrow> bindE (update_checkpoint c ck) (\<lambda>(_, ck). Inr (True, ck))))"

definition checkpoints_detached :: "u64 \<Rightarrow> checkpoints \<Rightarrow> checkpoints outcome" where
  "checkpoints_detached height ck =
    (let ck = ck\<lparr>ck_last_cull_height := min (ck_last_cull_height ck) height\<rparr>
     in case ck_db ck of
          None \<Rightarrow> Inl Undefined
        | Some db \<Rightarrow>
            (case get_top_checkpoint db of
               None \<Rightarrow> Inr ck
             | Some top_checkpoint \<Rightarrow>
                 bindE (whileE (\<lambda>(delete_height, db). height \<le> delete_height \<and> CHECKPOINT_INTERVAL \<le> delete_height)
                   (\<lambda>(delete_height, db). Inr (delete_height - CHECKPOINT_INTERVAL, remove_block_checkpoint delete_height db))
                   (cp_height top_checkpoint, db)) (\<lambda>(_, db). Inr (ck\<lparr>ck_db := Some db\<rparr>))))"

definition is_in_checkpoint_zone :: "u64 \<Rightarrow> checkpoints \<Rightarrow> bool outcome" where
  "is_in_checkpoint_zone height ck =
    (case ck_db ck of
       None \<Rightarrow> Inl Undefined
     | Some db \<Rightarrow> Inr (height \<le> (case get_top_checkpoint db of None \<Rightarrow> 0 | Some top_checkpoint \<Rightarrow> cp_height top_checkpoint)))"

text \<open>The result, and what is stored through the two pointers.\<close>

definition check_block :: "u64 \<Rightarrow> hash \<Rightarrow> checkpoints \<Rightarrow> bool \<times> bool \<times> bool" where
  "check_block height h ck =
    (case get_checkpoint height ck of
       None \<Rightarrow> (True, False, False)
     | Some checkpoint \<Rightarrow> (cp_block_hash checkpoint = h, True, cp_type checkpoint = service_node))"

definition is_alternative_block_allowed :: "u64 \<Rightarrow> u64 \<Rightarrow> checkpoints \<Rightarrow> bool \<times> bool \<times> checkpoints" where
  "is_alternative_block_allowed blockchain_height block_height ck =
    (if 0 = block_height then (False, False, ck)
     else case ck_db ck of
       None \<Rightarrow> (True, False, ck)
     | Some db \<Rightarrow>
         let first_checkpoint = get_checkpoints_range 0 blockchain_height 1 db
         in if first_checkpoint = [] \<or> blockchain_height < cp_height (first_checkpoint ! 0) then (True, False, ck)
            else
              let immutable_checkpoint = get_immutable_checkpoint blockchain_height db;
                  immutable_height = (case immutable_checkpoint of None \<Rightarrow> 0 | Some c \<Rightarrow> cp_height c);
                  service_node_checkpoint = (case immutable_checkpoint of None \<Rightarrow> False | Some c \<Rightarrow> cp_type c = service_node);
                  ck = ck\<lparr>ck_immutable_height := max immutable_height (ck_immutable_height ck)\<rparr>
              in (ck_immutable_height ck < block_height, service_node_checkpoint, ck))"

definition get_max_height :: "checkpoints \<Rightarrow> u64" where
  "get_max_height ck =
    (case ck_db ck of
       None \<Rightarrow> 0
     | Some db \<Rightarrow> (case get_top_checkpoint db of None \<Rightarrow> 0 | Some top_checkpoint \<Rightarrow> cp_height top_checkpoint))"

section \<open>The hard-coded checkpoints\<close>

definition HARDCODED_MAINNET_CHECKPOINTS :: "(u64 \<times> string) list" where
  "HARDCODED_MAINNET_CHECKPOINTS =
    [(0, ''60077b4d5cd49a1278d448c58b6854993d127fcaedbdeab82acff7f7fd86e328''),
     (1731481, ''94b47df7c0895399f85dff9f7a1d7c2e67f8809e2a2b5fb14bc9714a2bb1490d''),
     (1731482, ''942d66af0c7fd6f366e35f18dbb1ca668693a4ad37a6058d61bc920550fe10b7''),
     (1773359, ''9c3aedb9eeace5a282d70507ac2ea1d26d61c907b80abd135e462371e3f99d82''),
     (1773360, ''c6e832846ec8cbdf3f8f34695a21b995c74a25e279289746c9c4e3a06b659bbc''),
     (1773364, ''839c5bb521bd9b28f313f8fb4cc84f6064c60db318468c234357a91af04c8774''),
     (1773368, ''51691e50f463b42740a683a84b6c795b548b2aee7d61211577db04d3f3f1998a''),
     (1773372, ''3e8f3cb068db474c2390e6650dfa6d7c60eaf69da9e79080a60cda46ebfb8a3e''),
     (1773376, ''c7fb0080b04ce76097c9b65f73580b60622818aa5ff23115402f500ef933ab3d''),
     (1773380, ''aded871574abcb5aec263582d733db61b5f6ac8fe2219d5238e2f77ee6b732b5''),
     (1773384, ''e590456ea57b1a880365c5a107cbdb2ff70fe740fde00638c920b7eb8fa75927''),
     (1773388, ''b53a8aa326bef07b7afccd31deb534e82e51fba08b0f2e7bd241e23bff644e32''),
     (1773392, ''c859e9132646f5f41f0bf8569c8e42701b93446a06d85c672807735adc684a2c''),
     (1773396, ''1a01e3ad21b6c5c2d20b367f055d73bf39743116241008601549a0bbd0b00d14''),
     (1780836, ''15e361852639e4b53deb5d1d77acf41650cd33d389db853e2b4ebd8f87c2eb9d''),
     (1781040, ''c93dbc218726f9afc4ebc6c67b9bedc80d52aedd9ab8ce7998015fbe34d5b4e1''),
     (1784352, ''59732f183678346c2506a1de4e11dc8eb097a17557a28ab1fbb0fae13fe1cf9a''),
     (1831366, ''d775b62de808b578d907d524dd8d38da641b6fe020d8c23cc6e3ebb828d591a3'')]"

abbreviation string_bytes :: "string \<Rightarrow> bytes" where
  "string_bytes s \<equiv> map (\<lambda>c. of_nat (of_char c)) s"

definition get_newest_hardcoded_checkpoint :: "network_type \<Rightarrow> hash \<times> u64" where
  "get_newest_hardcoded_checkpoint nettype =
    (if nettype \<noteq> MAINNET then (null_hash, 0)
     else
       let last_index = length HARDCODED_MAINNET_CHECKPOINTS - 1;
           (height, str) = HARDCODED_MAINNET_CHECKPOINTS ! last_index
       in case hex_to_pod 32 (string_bytes str) of
            None \<Rightarrow> (null_hash, 0)
          | Some result \<Rightarrow> (result, height))"

definition checkpoints_init :: "network_type \<Rightarrow> bool \<Rightarrow> checkpoint_table \<Rightarrow> (bool \<times> checkpoints) outcome" where
  "checkpoints_init nettype is_read_only db =
    (let ck = \<lparr>ck_nettype = nettype, ck_last_cull_height = 0, ck_immutable_height = 0, ck_db = Some db\<rparr>
     in if is_read_only then Inr (True, ck)
        else if nettype = MAINNET
        then foldE (\<lambda>(height, str) (ok, ck). if \<not> ok then Inr (False, ck) else add_checkpoint height (string_bytes str) ck)
               HARDCODED_MAINNET_CHECKPOINTS (True, ck)
        else Inr (True, ck))"

section \<open>The table is in order\<close>

definition table_ok :: "checkpoint_table \<Rightarrow> bool" where
  "table_ok db \<longleftrightarrow> omap_inv db \<and> (\<forall>(k, c) \<in> set db. cp_height c = k)"

lemma table_ok_update: "table_ok db \<Longrightarrow> update_block_checkpoint c db = Inr db' \<Longrightarrow> table_ok db'"
  by (auto simp: table_ok_def update_block_checkpoint_def omap.entries_upd omap_inv_set convert_mdb_val_to_checkpoint_def
      split: if_splits)

lemma table_ok_filter: "table_ok db \<Longrightarrow> table_ok (filter P db)"
  by (auto simp: table_ok_def sorted_wrt_map intro: sorted_wrt_filter)

lemma table_ok_remove: "table_ok db \<Longrightarrow> table_ok (remove_block_checkpoint h db)"
  by (simp add: remove_block_checkpoint_def map_erase_def table_ok_filter)

lemma map_of_filter_keys: "map_of (filter (\<lambda>(k, _). P k) db) x = (if P x then map_of db x else None)"
  by (induction db) auto

lemma split_at_key:
  assumes "omap_inv db" and "map_of db h = Some c"
  shows "filter (\<lambda>(k, _). k \<le> h) db = takeWhile (\<lambda>(k, _). k < h) db @ [(h, c)]"
  using assms
proof (induction db)
  case (Cons e db)
  obtain k d where e: "e = (k, d)" by force
  show ?case
  proof (cases "k = h")
    case True
    then have "filter (\<lambda>(k, _). k \<le> h) db = []" using Cons.prems(1) by (fastforce simp: e filter_empty_conv)
    then show ?thesis using Cons.prems(2) True by (simp add: e)
  next
    case False
    then have "map_of db h = Some c" using Cons.prems(2) by (simp add: e)
    moreover from this have "k < h" using Cons.prems(1) by (force simp: e dest: map_of_SomeD)
    ultimately show ?thesis using Cons by (simp add: e)
  qed
qed simp

lemma below_pred: "h \<noteq> 0 \<Longrightarrow> k \<le> h - 1 \<longleftrightarrow> k \<le> h \<and> k \<noteq> (h :: u64)"
proof -
  assume h: "h \<noteq> 0"
  then have "unat (h - 1) = unat h - 1" "0 < unat h" by (simp_all add: unat_minus_one unat_gt_0)
  then show ?thesis unfolding word_le_nat_alt word_unat_eq_iff by linarith
qed

lemma first_checkpoint_down:
  assumes "omap_inv db" and "stop \<le> h"
  shows "first_checkpoint_from False h stop db =
    (case rev (filter (\<lambda>(k, _). stop < k \<and> k \<le> h) db) of [] \<Rightarrow> None | (_, c) # _ \<Rightarrow> Some c)"
  using assms(2)
proof (induction "unat (h - stop)" arbitrary: h rule: less_induct)
  case less
  show ?case
  proof (cases "h = stop")
    case True
    then have "filter (\<lambda>(k, _). stop < k \<and> k \<le> h) db = []" by (auto simp: filter_empty_conv)
    then show ?thesis using True by (simp add: first_checkpoint_from.simps)
  next
    case False
    then have h: "stop < h" "h \<noteq> 0" using less.prems by auto
    show ?thesis
    proof (cases "map_of db h")
      case None
      then have "filter (\<lambda>(k, _). stop < k \<and> k \<le> h) db = filter (\<lambda>(k, _). stop < k \<and> k \<le> h - 1) db"
        using below_pred [OF h(2)] by (intro filter_cong) (auto simp: map_of_eq_None_iff image_iff)
      moreover have "stop \<le> h - 1" unfolding below_pred [OF h(2)] using h(1) by auto
      ultimately show ?thesis using less.hyps [of "h - 1"] distance_decreases(2) [OF False] False None
        by (simp add: first_checkpoint_from.simps [of False h] get_block_checkpoint_def)
    next
      case (Some c)
      have "filter (\<lambda>(k, _). stop < k \<and> k \<le> h) db = filter (\<lambda>(k, _). stop < k) (filter (\<lambda>(k, _). k \<le> h) db)"
        unfolding filter_filter by (rule filter_cong) auto
      then show ?thesis using split_at_key [OF assms(1) Some] h(1) False Some
        by (simp add: first_checkpoint_from.simps [of False h] get_block_checkpoint_def)
    qed
  qed
qed

lemma hd_is_least: "table_ok db \<Longrightarrow> (k, c) \<in> set db \<Longrightarrow> fst (hd db) \<le> k"
  by (cases db) (auto simp: table_ok_def)

lemma last_is_greatest: "table_ok db \<Longrightarrow> (k, c) \<in> set db \<Longrightarrow> k \<le> fst (last db)"
proof (induction db)
  case (Cons e db)
  then show ?case using last_in_set [of db] by (auto simp: table_ok_def intro: less_imp_le)
qed simp

lemma keys_after: "omap_inv db \<Longrightarrow> (j, d) \<in> set (dropWhile (\<lambda>(j, _). j \<le> k) db) \<Longrightarrow> k < j"
  by (induction db) (auto split: if_splits)

lemma newest_split:
  assumes "table_ok db" and "filter (\<lambda>(k, _). k \<le> h) db = M @ [(k, c)]"
  shows "(k, c) \<in> set db" "k \<le> h" "map_of db k = Some c" "\<forall>(j, _) \<in> set M. j < k" "M = takeWhile (\<lambda>(j, _). j < k) db"
proof -
  have inv: "omap_inv db" using assms(1) by (simp add: table_ok_def)
  have "(k, c) \<in> set (filter (\<lambda>(k, _). k \<le> h) db)" by (simp add: assms(2))
  then show kc: "(k, c) \<in> set db" "k \<le> h" by auto
  then show m: "map_of db k = Some c" using omap_inv_distinct [OF inv] by simp
  have "omap_inv (M @ [(k, c)])" using table_ok_filter [OF assms(1)] unfolding assms(2) [symmetric] table_ok_def by blast
  then show less: "\<forall>(j, _) \<in> set M. j < k" by (auto simp: sorted_wrt_append)
  have "filter (\<lambda>(j, _). j \<le> k) db = filter (\<lambda>(j, _). j \<le> k) (filter (\<lambda>(j, _). j \<le> h) db)"
    unfolding filter_filter using kc(2) by (intro filter_cong) auto
  also have "\<dots> = M @ [(k, c)]" unfolding assms(2) using less by (auto simp: filter_id_conv)
  finally show "M = takeWhile (\<lambda>(j, _). j < k) db" using split_at_key [OF inv m] by simp
qed

lemma range_found:
  assumes "db \<noteq> []" and "cp_height (snd (hd db)) = lo" and "cp_height (snd (last db)) = hi"
    and "clamp_u64 start lo hi = a" and "clamp_u64 stop lo hi = b" and "lo \<le> a" and "a \<le> hi" and "0 < n"
    and "(case first_checkpoint_from (a \<le> b) a b db of Some c \<Rightarrow> Some c | None \<Rightarrow> get_block_checkpoint b db) = Some c"
  shows "get_checkpoints_range start stop n db =
    take n (c # filter (\<lambda>d. min a b \<le> cp_height d \<and> cp_height d \<le> max a b)
      (map snd (if a \<le> b then dropWhile (\<lambda>(k, _). k \<le> cp_height c) db else rev (takeWhile (\<lambda>(k, _). k < cp_height c) db))))"
proof -
  have "\<not> (if b < a then a < lo else hi < a)" using assms(6,7) by auto
  then show ?thesis
    unfolding get_checkpoints_range_def assms(2,3) Let_def assms(4,5,9) option.case using assms(1,8) by (simp only: if_False) simp
qed

lemma range_down:
  assumes "table_ok db" and "db \<noteq> []" and "fst (hd db) \<le> h" and "0 < n"
  shows "get_checkpoints_range h 0 n db = take n (map snd (rev (filter (\<lambda>(k, _). k \<le> h) db)))"
proof -
  have inv: "omap_inv db" and ht: "\<And>k c. (k, c) \<in> set db \<Longrightarrow> cp_height c = k" using assms(1) by (auto simp: table_ok_def)
  define lo where "lo = fst (hd db)"
  define hi where "hi = fst (last db)"
  have heights: "cp_height (snd (hd db)) = lo" "cp_height (snd (last db)) = hi"
    using ht [of lo "snd (hd db)"] ht [of hi "snd (last db)"] assms(2) by (simp_all add: lo_def hi_def)
  have le: "lo \<le> hi" using last_is_greatest [OF assms(1), of lo "snd (hd db)"] assms(2) by (simp add: lo_def hi_def)
  define start where "start = min h hi"
  have cl: "clamp_u64 h lo hi = start" "clamp_u64 0 lo hi = lo" "lo \<le> start"
    using assms(3) le by (auto simp: clamp_u64_def start_def min_def lo_def word_gt_0)
  have L: "filter (\<lambda>(k, _). k \<le> h) db = filter (\<lambda>(k, _). k \<le> start) db"
    using last_is_greatest [OF assms(1)] by (intro filter_cong) (auto simp: start_def hi_def)
  have "(lo, snd (hd db)) \<in> set (filter (\<lambda>(k, _). k \<le> start) db)" using assms(2) cl(3) by (simp add: lo_def case_prod_beta)
  then obtain M k c where M: "filter (\<lambda>(k, _). k \<le> start) db = M @ [(k, c)]" by (metis empty_iff empty_set rev_exhaust surj_pair)
  note k = newest_split [OF assms(1) M]
  have lo: "lo \<le> k" using hd_is_least [OF assms(1) k(1)] by (simp add: lo_def)
  have f: "filter (\<lambda>(j, _). lo < j \<and> j \<le> start) db = filter (\<lambda>(j, _). lo < j) (M @ [(k, c)])"
    unfolding M [symmetric] filter_filter by (rule filter_cong) auto
  have first: "first_checkpoint_from False start lo db = (if lo < k then Some c else None)"
  proof (cases "lo < k")
    case False
    then have "filter (\<lambda>(j, _). lo < j) (M @ [(k, c)]) = []" using lo k(4) by (fastforce simp: filter_empty_conv)
    then show ?thesis using False f by (simp add: first_checkpoint_down [OF inv cl(3)])
  qed (simp add: first_checkpoint_down [OF inv cl(3)] f)
  have found: "(case first_checkpoint_from (start \<le> lo) start lo db of Some c \<Rightarrow> Some c | None \<Rightarrow> get_block_checkpoint lo db) = Some c"
  proof (cases "start \<le> lo")
    case True
    then have "start = lo" "k = lo" using cl(3) lo k(2) by auto
    then show ?thesis using k(3) by (simp add: first_checkpoint_from.simps get_block_checkpoint_def)
  next
    case False
    then show ?thesis using first lo k(3) by (auto simp: get_block_checkpoint_def)
  qed
  have "filter (\<lambda>d. min start lo \<le> cp_height d \<and> cp_height d \<le> max start lo)
      (map snd (if start \<le> lo then dropWhile (\<lambda>(j, _). j \<le> k) db else rev (takeWhile (\<lambda>(j, _). j < k) db))) = map snd (rev M)"
  proof (cases "start \<le> lo")
    case True
    then have eq: "start = lo" "k = lo" using cl(3) lo k(2) by auto
    have "M = []" unfolding k(5) eq(2) lo_def by (cases db) auto
    moreover have "lo < cp_height d" if "(j, d) \<in> set (dropWhile (\<lambda>(j, _). j \<le> k) db)" for j d
      using keys_after [OF inv that] ht [OF set_dropWhileD [OF that]] by (simp add: eq)
    ultimately show ?thesis using True by (fastforce simp: eq filter_empty_conv)
  next
    case False
    have "\<forall>(j, d) \<in> set M. lo \<le> cp_height d \<and> cp_height d \<le> start"
      using k(4,5,2) ht hd_is_least [OF assms(1)] by (fastforce simp: lo_def dest: set_takeWhileD)
    then have "\<forall>d \<in> set (map snd (rev M)). min start lo \<le> cp_height d \<and> cp_height d \<le> max start lo"
      using False by (auto simp: min_def max_def)
    then show ?thesis using False k(5) by (simp only: if_False filter_True)
  qed
  moreover have "start \<le> hi" "cp_height c = k" using ht k(1) by (simp_all add: start_def)
  ultimately have "get_checkpoints_range h 0 n db = take n (c # map snd (rev M))"
    using range_found [OF assms(2) heights cl(1,2,3) _ assms(4) found] by (simp only:)
  then show ?thesis by (simp add: L M)
qed

lemma range_first:
  assumes "table_ok db" and "db \<noteq> []"
  shows "get_checkpoints_range 0 h 1 db = [snd (hd db)]"
proof -
  obtain lo c rest where db: "db = (lo, c) # rest" using assms(2) by (metis list.exhaust surj_pair)
  define hi where "hi = fst (last db)"
  have ht: "cp_height c = lo" "cp_height (snd (last db)) = hi"
    using assms(1) last_in_set [OF assms(2)] by (auto simp: table_ok_def db hi_def)
  have le: "lo \<le> hi" using last_is_greatest [OF assms(1), of lo c] by (simp add: db hi_def)
  have start: "clamp_u64 0 lo hi = lo" using le by (auto simp: clamp_u64_def word_gt_0)
  define stop where "stop = clamp_u64 h lo hi"
  have stop: "lo \<le> stop" using le by (auto simp: stop_def clamp_u64_def)
  have "(case first_checkpoint_from (lo \<le> stop) lo stop db of Some c \<Rightarrow> Some c | None \<Rightarrow> get_block_checkpoint stop db) = Some c"
    using stop by (cases "lo = stop") (simp_all add: first_checkpoint_from.simps [of True] get_block_checkpoint_def db)
  from range_found [OF assms(2) _ ht(2) start stop_def [symmetric] _ le, of 1 c, OF _ _ _ this] show ?thesis
    by (simp add: ht(1) db)
qed

text \<open>
  (C16) The immutable checkpoint of a height. Of the checkpoints up to that height the latest is immutable when it
  is hard-coded; when it was made by service nodes, the one before it is, so that two of them are needed for
  finality. The search by height and the walk of the cursor return exactly this.
\<close>

theorem immutable_checkpoint_correct:
  assumes "table_ok db" and "db \<noteq> []" and "fst (hd db) \<le> block_height"
  shows "get_immutable_checkpoint block_height db =
    (case rev (filter (\<lambda>(k, _). k \<le> block_height) db) of
       (_, c) # older \<Rightarrow>
         if cp_type c \<noteq> service_node then Some c
         else (case older of (_, d) # _ \<Rightarrow> Some d | [] \<Rightarrow> None)
     | [] \<Rightarrow> None)"
proof -
  have n: "unat CHECKPOINT_NUM_CHECKPOINTS_FOR_CHAIN_FINALITY = 2" by (simp add: CHECKPOINT_NUM_CHECKPOINTS_FOR_CHAIN_FINALITY_def)
  show ?thesis
    using range_down [OF assms, of 2]
    by (auto simp: get_immutable_checkpoint_def n Let_def numeral_2_eq_2 split: list.splits)
qed

section \<open>Detaching and culling\<close>

lemma same_residue_above: "((l :: nat) \<le> k \<and> k mod 4 = l mod 4) \<longleftrightarrow> k = l \<or> (l + 4 \<le> k \<and> k mod 4 = (l + 4) mod 4)"
proof -
  have "l + 4 \<le> k" if le: "l \<le> k" and eq: "k mod 4 = l mod 4" and ne: "k \<noteq> l"
  proof -
    have "4 dvd k - l" using mod_eq_dvd_iff_nat [OF le, of 4] eq by simp
    then have "4 \<le> k - l" using le ne by (intro dvd_imp_le) simp_all
    then show ?thesis using le by linarith
  qed
  then show ?thesis by (cases "k = l") auto
qed

lemma same_residue_below: "4 \<le> t \<Longrightarrow> ((k :: nat) \<le> t \<and> k mod 4 = t mod 4) \<longleftrightarrow> k = t \<or> (k \<le> t - 4 \<and> k mod 4 = (t - 4) mod 4)"
proof -
  assume t: "4 \<le> t"
  have le: "k + 4 \<le> t \<longleftrightarrow> k \<le> t - 4" using t by linarith
  have residue: "(t - 4) mod 4 = t mod 4" "(k + 4) mod 4 = k mod 4" using le_mod_geq [OF t] by (simp_all only: mod_add_self2)
  show ?thesis using same_residue_above [of k t]
    by (simp only: le residue eq_commute [of t k] eq_commute [of "t mod 4" "k mod 4"])
qed

lemma detach_loop:
  "\<exists>t'. whileE (\<lambda>(delete_height, db). height \<le> delete_height \<and> CHECKPOINT_INTERVAL \<le> delete_height)
      (\<lambda>(delete_height, db). Inr (delete_height - CHECKPOINT_INTERVAL, remove_block_checkpoint delete_height db)) (t, db) =
    Inr (t', filter (\<lambda>(k, _). \<not> (height \<le> k \<and> 4 \<le> k \<and> k \<le> t \<and> unat k mod 4 = unat t mod 4)) db)"
proof (induction "unat t" arbitrary: t db rule: less_induct)
  case less
  let ?b = "\<lambda>(delete_height, db :: checkpoint_table). height \<le> delete_height \<and> CHECKPOINT_INTERVAL \<le> delete_height"
  let ?c = "\<lambda>(delete_height, db). Inr (delete_height - CHECKPOINT_INTERVAL, remove_block_checkpoint delete_height db)"
  let ?hit = "\<lambda>t k. height \<le> k \<and> 4 \<le> k \<and> k \<le> t \<and> unat k mod 4 = unat t mod 4"
  show ?case
  proof (cases "height \<le> t \<and> 4 \<le> t")
    case True
    have t: "unat (t - 4) = unat t - 4" "4 \<le> unat t" using True by (simp_all add: unat_sub word_le_nat_alt)
    have "unat (t - 4) < unat t" using t by linarith
    from less [OF this, of "remove_block_checkpoint t db"] obtain t' where IH: "whileE ?b ?c (t - 4, remove_block_checkpoint t db) =
        Inr (t', filter (\<lambda>(k, _). \<not> ?hit (t - 4) k) (remove_block_checkpoint t db))"
      by blast
    have "?hit t k \<longleftrightarrow> k = t \<or> ?hit (t - 4) k" for k
    proof -
      have "(k \<le> t \<and> unat k mod 4 = unat t mod 4) \<longleftrightarrow> k = t \<or> (k \<le> t - 4 \<and> unat k mod 4 = unat (t - 4) mod 4)"
        using same_residue_below [OF t(2), of "unat k"] by (simp only: word_le_nat_alt word_unat_eq_iff t(1))
      then show ?thesis using True by (cases "k = t") (simp_all only: simp_thms)
    qed
    then have "filter (\<lambda>(k, _). \<not> ?hit (t - 4) k) (remove_block_checkpoint t db) = filter (\<lambda>(k, _). \<not> ?hit t k) db"
      unfolding remove_block_checkpoint_def map_erase_def filter_filter case_prod_beta by (simp only: de_Morgan_disj)
    then show ?thesis using IH True by (subst whileE_unfold) (simp add: CHECKPOINT_INTERVAL_def)
  next
    case False
    then have "filter (\<lambda>(k, _). \<not> ?hit t k) db = db" by (auto simp: filter_id_conv)
    then show ?thesis using False by (subst whileE_unfold) (auto simp: CHECKPOINT_INTERVAL_def)
  qed
qed

lemma cull_loop:
  assumes "unat stop + 4 < 2 ^ 64"
  shows "\<exists>l'. whileE (\<lambda>(last_cull_height, db). last_cull_height < stop)
      (\<lambda>(last_cull_height, db). Inr (last_cull_height + CHECKPOINT_INTERVAL,
         if last_cull_height mod CHECKPOINT_STORE_PERSISTENTLY_INTERVAL = 0 then db
         else remove_block_checkpoint last_cull_height db)) (l, db) =
    Inr (l', filter (\<lambda>(k, _). \<not> (l \<le> k \<and> k < stop \<and> unat k mod 4 = unat l mod 4 \<and> k mod 60 \<noteq> 0)) db) \<and>
    l \<le> l' \<and> stop \<le> l'"
proof (induction "unat stop - unat l" arbitrary: l db rule: less_induct)
  case less
  let ?b = "\<lambda>(last_cull_height, db :: checkpoint_table). last_cull_height < stop"
  let ?c = "\<lambda>(last_cull_height, db). Inr (last_cull_height + CHECKPOINT_INTERVAL,
         if last_cull_height mod CHECKPOINT_STORE_PERSISTENTLY_INTERVAL = 0 then db
         else remove_block_checkpoint last_cull_height db)"
  let ?hit = "\<lambda>l k. l \<le> k \<and> k < stop \<and> unat k mod 4 = unat l mod 4 \<and> k mod 60 \<noteq> 0"
  show ?case
  proof (cases "l < stop")
    case True
    then have lt: "unat l < unat stop" by (simp add: word_less_nat_alt)
    have l: "unat (l + 4) = unat l + 4" using lt assms unat_add_less [of l 4] by simp
    define db1 where "db1 = (if l mod 60 = 0 then db else remove_block_checkpoint l db)"
    have "unat stop - unat (l + 4) < unat stop - unat l" using l lt by linarith
    from less [OF this, of db1] obtain l' where IH: "whileE ?b ?c (l + 4, db1) = Inr (l', filter (\<lambda>(k, _). \<not> ?hit (l + 4) k) db1)" "l + 4 \<le> l'" "stop \<le> l'"
      by blast
    have "?hit l k \<longleftrightarrow> (k = l \<and> l mod 60 \<noteq> 0) \<or> ?hit (l + 4) k" for k
    proof -
      have "(l \<le> k \<and> unat k mod 4 = unat l mod 4) \<longleftrightarrow> k = l \<or> (l + 4 \<le> k \<and> unat k mod 4 = unat (l + 4) mod 4)"
        using same_residue_above [of "unat l" "unat k"] by (simp only: word_le_nat_alt word_unat_eq_iff l)
      then show ?thesis using True by (cases "k = l"; fastforce)
    qed
    then have "filter (\<lambda>(k, _). \<not> ?hit (l + 4) k) db1 = filter (\<lambda>(k, _). \<not> ?hit l k) db"
      unfolding db1_def remove_block_checkpoint_def map_erase_def case_prod_beta
      by (cases "l mod 60 = 0") (simp_all only: if_True if_False filter_filter de_Morgan_disj simp_thms)
    moreover have "l \<le> l'" using IH(2) l by (simp add: word_le_nat_alt)
    ultimately show ?thesis using IH True
      by (subst whileE_unfold) (simp add: CHECKPOINT_INTERVAL_def CHECKPOINT_STORE_PERSISTENTLY_INTERVAL_def db1_def)
  next
    case False
    then have "filter (\<lambda>(k, _). \<not> ?hit l k) db = db" by (auto simp: filter_id_conv)
    then show ?thesis using False by (subst whileE_unfold) auto
  qed
qed

lemma checkpoints_detached_eq:
  assumes "ck_db ck = Some db" and "db \<noteq> []"
  shows "checkpoints_detached height ck = Inr (ck\<lparr>ck_last_cull_height := min (ck_last_cull_height ck) height,
    ck_db := Some (filter (\<lambda>(k, _). \<not> (height \<le> k \<and> 4 \<le> k \<and> k \<le> get_max_height ck \<and>
      unat k mod 4 = unat (get_max_height ck) mod 4)) db)\<rparr>)"
  using assms detach_loop [of height "get_max_height ck" db]
  by (auto simp: checkpoints_detached_def get_top_checkpoint_def get_max_height_def)

text \<open>
  (C19) What a detach removes. From the highest checkpoint on, every fourth height down to the detached one loses its
  checkpoint, and no other height does, hard-coded or not. When the highest checkpoint is a hard-coded one above the chain,
  as on a node that is still synchronising, it is removed although no block of it was detached, and the
  checkpoints that service nodes made for detached blocks stay unless their heights leave the same remainder.
\<close>

theorem detach_exact:
  assumes "table_ok db" and "ck_db ck = Some db"
  shows "\<exists>ck'. checkpoints_detached height ck = Inr ck' \<and>
    ck_last_cull_height ck' = min (ck_last_cull_height ck) height \<and> ck_immutable_height ck' = ck_immutable_height ck \<and>
    (\<forall>x. get_checkpoint x ck' =
      (if height \<le> x \<and> 4 \<le> x \<and> x \<le> get_max_height ck \<and> unat x mod 4 = unat (get_max_height ck) mod 4 then None
       else get_checkpoint x ck))"
proof (cases "db = []")
  case True
  then show ?thesis using assms(2) by (simp add: checkpoints_detached_def get_top_checkpoint_def get_checkpoint_def get_block_checkpoint_def)
next
  case False
  then show ?thesis using assms(2)
    by (simp add: checkpoints_detached_eq get_checkpoint_def get_block_checkpoint_def map_of_filter_keys)
qed

text \<open>The first height to cull: an interval below the immutable checkpoint, rounded up to a checkpoint height.\<close>

definition cull_start :: "u64 \<Rightarrow> u64" where
  "cull_start stop =
    (let start = (if stop < 60 then 0 else stop - 60) in if 0 < start mod 4 then start + (4 - start mod 4) else start)"

definition immutable_height_at :: "u64 \<Rightarrow> checkpoint_table \<Rightarrow> u64" where
  "immutable_height_at height db = (case get_immutable_checkpoint height db of None \<Rightarrow> 0 | Some c \<Rightarrow> cp_height c)"

lemma block_added_unfold:
  "checkpoints_block_added blk checkpoint ck =
    (if get_block_height blk < 60 \<or> hdr_major_version blk < 16 then Inr (True, ck)
     else case ck_db ck of
       None \<Rightarrow> Inl Undefined
     | Some db \<Rightarrow>
         bindE (whileE (\<lambda>(last_cull_height, db). last_cull_height < immutable_height_at (get_block_height blk + 1) db0)
           (\<lambda>(last_cull_height, db).
             Inr (last_cull_height + CHECKPOINT_INTERVAL,
               if last_cull_height mod CHECKPOINT_STORE_PERSISTENTLY_INTERVAL = 0 then db
               else remove_block_checkpoint last_cull_height db))
           (max (ck_last_cull_height ck) (cull_start (immutable_height_at (get_block_height blk + 1) db0)), db)) (\<lambda>(last_cull_height, db).
         let ck = ck\<lparr>ck_last_cull_height := last_cull_height, ck_db := Some db\<rparr>
         in case checkpoint of
              None \<Rightarrow> Inr (True, ck)
            | Some c \<Rightarrow> bindE (update_checkpoint c ck) (\<lambda>(_, ck). Inr (True, ck))))"
  if "ck_db ck = Some db0"
  using that
  by (simp add: checkpoints_block_added_def immutable_height_at_def cull_start_def CHECKPOINT_INTERVAL_def
      CHECKPOINT_STORE_PERSISTENTLY_INTERVAL_def Let_def)

text \<open>
  (C22) What a new block removes. The loop ends, and the only checkpoints that disappear lie below the immutable
  checkpoint of the new height, at every fourth height from the position of the last culling on, and not at a
  multiple of sixty; the checkpoint that comes with the block is stored. So no checkpoint from the immutable one on
  is lost.
\<close>

theorem block_added_culls:
  assumes "table_ok db" and "ck_db ck = Some db" and "60 \<le> get_block_height blk" and "16 \<le> hdr_major_version blk"
    and "unat (immutable_height_at (get_block_height blk + 1) db) + 4 < 2 ^ 64" and "length (cp_signatures c) \<le> 20000"
  defines "stop \<equiv> immutable_height_at (get_block_height blk + 1) db"
  defines "start \<equiv> max (ck_last_cull_height ck) (cull_start stop)"
  shows "\<exists>ck'. checkpoints_block_added blk (Some c) ck = Inr (True, ck') \<and> stop \<le> ck_last_cull_height ck' \<and>
    (\<forall>x. get_checkpoint x ck' =
      (if x = cp_height c then Some (convert_mdb_val_to_checkpoint c)
       else if start \<le> x \<and> x < stop \<and> unat x mod 4 = unat start mod 4 \<and> x mod 60 \<noteq> 0 then None
       else get_checkpoint x ck))"
proof -
  let ?keep = "\<lambda>k. \<not> (start \<le> k \<and> k < stop \<and> unat k mod 4 = unat start mod 4 \<and> k mod 60 \<noteq> 0)"
  define db1 where "db1 = filter (\<lambda>(k, _). ?keep k) db"
  obtain l' where loop: "whileE (\<lambda>(last_cull_height, db). last_cull_height < stop)
      (\<lambda>(last_cull_height, db). Inr (last_cull_height + CHECKPOINT_INTERVAL,
         if last_cull_height mod CHECKPOINT_STORE_PERSISTENTLY_INTERVAL = 0 then db
         else remove_block_checkpoint last_cull_height db)) (start, db) = Inr (l', db1)" "stop \<le> l'"
    using cull_loop [OF assms(5), of start db] unfolding stop_def db1_def by blast
  have len: "\<not> 1000 * CHECKPOINT_QUORUM_SIZE < length (cp_signatures c)" using assms(6) by (simp add: vote_limits)
  have inv: "omap_inv db1" using table_ok_filter [OF assms(1)] unfolding table_ok_def db1_def by blast
  have look: "map_of db1 x = (if ?keep x then map_of db x else None)" for x unfolding db1_def by (rule map_of_filter_keys)
  have "\<not> get_block_height blk < 60" "\<not> hdr_major_version blk < 16" using assms(3,4) by auto
  then show ?thesis
    unfolding block_added_unfold [OF assms(2)] stop_def [symmetric] start_def [symmetric] using loop(2) len
    by (simp add: assms(2) loop(1) update_checkpoint_def update_block_checkpoint_def get_checkpoint_def get_block_checkpoint_def
        map_of_omap_set [OF inv] look)
qed

section \<open>The checkpoint of the first block\<close>

text \<open>A store that is open and in order, and has the checkpoint of the first block.\<close>

definition ck_ok :: "checkpoints \<Rightarrow> bool" where
  "ck_ok ck \<longleftrightarrow> (\<exists>db. ck_db ck = Some db \<and> table_ok db \<and> map_of db 0 \<noteq> None)"

text \<open>What can happen to the checkpoints, in any order.\<close>

inductive ck_step :: "checkpoints \<Rightarrow> checkpoints \<Rightarrow> bool" where
  block_added: "checkpoints_block_added (blk :: block) checkpoint ck = Inr (ok, ck') \<Longrightarrow> ck_step ck ck'"
| detached: "checkpoints_detached height ck = Inr ck' \<Longrightarrow> ck_step ck ck'"
| updated: "update_checkpoint checkpoint ck = Inr (ok, ck') \<Longrightarrow> ck_step ck ck'"
| added: "add_checkpoint height hash_str ck = Inr (ok, ck') \<Longrightarrow> ck_step ck ck'"
| asked: "is_alternative_block_allowed blockchain_height block_height ck = (allowed, sn, ck') \<Longrightarrow> ck_step ck ck'"

lemma genesis_kept_update:
  assumes "ck_ok ck" and "update_checkpoint c ck = Inr (ok, ck')"
  shows "ck_ok ck' \<and> ck_immutable_height ck' = ck_immutable_height ck"
proof -
  from assms(1) obtain db where db: "ck_db ck = Some db" "table_ok db" "map_of db 0 \<noteq> None" by (auto simp: ck_ok_def)
  from assms(2) db(1) obtain db' where u: "update_block_checkpoint c db = Inr db'" "ck' = ck\<lparr>ck_db := Some db'\<rparr>"
    by (auto simp: update_checkpoint_def bindE_eq_Inr)
  have "omap_inv db" using db(2) by (simp add: table_ok_def)
  then have "map_of db' 0 \<noteq> None" using u(1) db(3) by (auto simp: update_block_checkpoint_def map_of_omap_set split: if_splits)
  then show ?thesis using table_ok_update [OF db(2) u(1)] by (simp add: ck_ok_def u(2))
qed

lemma genesis_kept_add:
  assumes "ck_ok ck" and "add_checkpoint h str ck = Inr (ok, ck')"
  shows "ck_ok ck' \<and> ck_immutable_height ck' = ck_immutable_height ck"
  using assms genesis_kept_update [OF assms(1)] by (auto simp: add_checkpoint_def split: option.splits)

lemma genesis_kept_remove:
  assumes "table_ok db \<and> map_of db 0 \<noteq> None" and "h \<noteq> 0"
  shows "table_ok (remove_block_checkpoint h db) \<and> map_of (remove_block_checkpoint h db) 0 \<noteq> None"
  using assms table_ok_remove by (simp add: remove_block_checkpoint_def map_of_erase)

lemma genesis_kept_detach:
  assumes "ck_ok ck" and "checkpoints_detached height ck = Inr ck'"
  shows "ck_ok ck' \<and> ck_immutable_height ck' = ck_immutable_height ck"
proof -
  from assms(1) obtain db where db: "ck_db ck = Some db" "table_ok db" "map_of db 0 \<noteq> None" by (auto simp: ck_ok_def)
  let ?keep = "\<lambda>k. \<not> (height \<le> k \<and> 4 \<le> k \<and> k \<le> get_max_height ck \<and> unat k mod 4 = unat (get_max_height ck) mod 4)"
  have "db \<noteq> []" using db(3) by auto
  note ck' = checkpoints_detached_eq [OF db(1) this, of height]
  have "map_of (filter (\<lambda>(k, _). ?keep k) db) 0 = map_of db 0" by (simp only: map_of_filter_keys) simp
  then show ?thesis using db(3) table_ok_filter [OF db(2)] assms(2) by (auto simp: ck' ck_ok_def)
qed

lemma genesis_kept_block:
  assumes "ck_ok ck" and "checkpoints_block_added blk checkpoint ck = Inr (ok, ck')"
  shows "ck_ok ck' \<and> ck_immutable_height ck' = ck_immutable_height ck"
proof -
  let ?P = "\<lambda>(l :: u64, db). table_ok db \<and> map_of db 0 \<noteq> None"
  from assms(1) obtain db where db: "ck_db ck = Some db" "?P (l, db)" for l by (auto simp: ck_ok_def)
  show ?thesis
  proof (cases "get_block_height blk < 60 \<or> hdr_major_version blk < 16")
    case True
    then show ?thesis using assms by (auto simp: block_added_unfold [OF db(1)])
  next
    case False
    define stop where "stop = immutable_height_at (get_block_height blk + 1) db"
    let ?c = "\<lambda>(l, db). Inr (l + CHECKPOINT_INTERVAL,
       if l mod CHECKPOINT_STORE_PERSISTENTLY_INTERVAL = 0 then db else remove_block_checkpoint l db)"
    obtain l1 db1 where loop: "whileE (\<lambda>(l, db). l < stop) ?c (max (ck_last_cull_height ck) (cull_start stop), db) = Inr (l1, db1)"
      and rest: "(case checkpoint of
          None \<Rightarrow> Inr (True, ck\<lparr>ck_last_cull_height := l1, ck_db := Some db1\<rparr>)
        | Some c \<Rightarrow> bindE (update_checkpoint c (ck\<lparr>ck_last_cull_height := l1, ck_db := Some db1\<rparr>)) (\<lambda>(_, ck). Inr (True, ck))) = Inr (ok, ck')"
      using assms(2) False unfolding block_added_unfold [OF db(1)] stop_def [symmetric]
      by (auto simp: db(1) bindE_eq_Inr [of "whileE _ _ _"] Let_def)
    have "?P (l1, db1) \<and> \<not> (\<lambda>(l, db). l < stop) (l1, db1)"
    proof (rule whileE_invariant [OF loop])
      show "?P (max (ck_last_cull_height ck) (cull_start stop), db)" by (rule db(2))
      show "?P s'" if "?P s" "?c s = Inr s'" for s s'
      proof -
        obtain l d where s: "s = (l, d)" by force
        show ?thesis using that genesis_kept_remove [of d l] by (cases "l = 0") (auto simp: s split: if_splits)
      qed
    qed
    then have ok1: "ck_ok (ck\<lparr>ck_last_cull_height := l1, ck_db := Some db1\<rparr>)" by (simp add: ck_ok_def)
    then show ?thesis using rest genesis_kept_update [OF ok1]
      by (cases checkpoint) (auto simp: bindE_eq_Inr)
  qed
qed

lemma alternative_refused_iff:
  assumes "ck_ok ck" and "is_alternative_block_allowed blockchain_height block_height ck = (allowed, sn, ck')" and "block_height \<noteq> 0"
  shows "ck_ok ck' \<and> (\<exists>db. ck_db ck = Some db \<and>
    ck_immutable_height ck' = max (immutable_height_at blockchain_height db) (ck_immutable_height ck)) \<and>
    (allowed \<longleftrightarrow> ck_immutable_height ck' < block_height)"
proof -
  from assms(1) obtain db where db: "ck_db ck = Some db" "table_ok db" "map_of db 0 \<noteq> None" by (auto simp: ck_ok_def)
  then obtain g where g: "(0, g) \<in> set db" by (auto dest: map_of_SomeD)
  then have "db \<noteq> []" by auto
  moreover have "fst (hd db) = 0" using hd_is_least [OF db(2) g] by simp
  moreover have "(fst (hd db), snd (hd db)) \<in> set db" using \<open>db \<noteq> []\<close> by simp
  ultimately have "get_checkpoints_range 0 blockchain_height 1 db = [snd (hd db)]" "cp_height (snd (hd db)) = 0"
    using range_first [OF db(2)] db(2) by (auto simp: table_ok_def)
  then show ?thesis using assms(2,3) db
    by (auto simp: is_alternative_block_allowed_def immutable_height_at_def ck_ok_def Let_def)
qed

lemma ck_step_keeps:
  assumes "ck_step ck ck'" and "ck_ok ck"
  shows "ck_ok ck' \<and> ck_immutable_height ck \<le> ck_immutable_height ck'"
  using assms
proof cases
  case (block_added blk checkpoint ok)
  then show ?thesis using genesis_kept_block [OF assms(2)] by auto
next
  case (detached height)
  then show ?thesis using genesis_kept_detach [OF assms(2)] by auto
next
  case (updated checkpoint ok)
  then show ?thesis using genesis_kept_update [OF assms(2)] by auto
next
  case (added height hash_str ok)
  then show ?thesis using genesis_kept_add [OF assms(2)] by auto
next
  case (asked blockchain_height block_height allowed sn)
  then show ?thesis
    using alternative_refused_iff [OF assms(2) asked] assms(2) by (cases "block_height = 0") (auto simp: is_alternative_block_allowed_def)
qed

lemma ck_steps_keep:
  assumes "ck_step\<^sup>*\<^sup>* ck ck'" and "ck_ok ck"
  shows "ck_ok ck' \<and> ck_immutable_height ck \<le> ck_immutable_height ck'"
  using assms by (induction rule: rtranclp_induct) (auto dest: ck_step_keeps)

section \<open>The hard-coded checkpoints are stored\<close>

definition hardcoded_checkpoint :: "u64 \<Rightarrow> string \<Rightarrow> checkpoint_t" where
  "hardcoded_checkpoint height str =
    \<lparr>cp_version = 0, cp_type = hardcoded, cp_height = height, cp_block_hash = the (hex_to_pod 32 (string_bytes str)),
     cp_signatures = [], cp_prev_height = 0\<rparr>"

lemma add_hardcoded:
  assumes "ck_db ck = Some db" and "map_of db height = None" and "hex_to_pod 32 (string_bytes str) \<noteq> None"
  shows "add_checkpoint height (string_bytes str) ck = Inr (True, ck\<lparr>ck_db := Some (omap_set height (hardcoded_checkpoint height str) db)\<rparr>)"
  using assms
  by (auto simp: add_checkpoint_def get_checkpoint_def get_block_checkpoint_def update_checkpoint_def update_block_checkpoint_def
      convert_mdb_val_to_checkpoint_def hardcoded_checkpoint_def)

lemma add_hardcoded_rows:
  assumes "table_ok db" and "distinct (map fst rows)" and "\<forall>(h, _) \<in> set rows. map_of db h = None"
    and "\<forall>(_, str) \<in> set rows. hex_to_pod 32 (string_bytes str) \<noteq> None" and "ck_db ck = Some db"
  shows "\<exists>db'. foldE (\<lambda>(height, str) (ok, ck). if \<not> ok then Inr (False, ck) else add_checkpoint height (string_bytes str) ck) rows (True, ck) =
      Inr (True, ck\<lparr>ck_db := Some db'\<rparr>) \<and> table_ok db' \<and>
    (\<forall>x. map_of db' x = (case map_of rows x of Some str \<Rightarrow> Some (hardcoded_checkpoint x str) | None \<Rightarrow> map_of db x))"
  using assms
proof (induction rows arbitrary: db ck)
  case Nil
  then show ?case by (intro exI [of _ db]) simp
next
  case (Cons row rows)
  obtain h str where row: "row = (h, str)" by force
  define db1 where "db1 = omap_set h (hardcoded_checkpoint h str) db"
  have inv: "omap_inv db" using Cons.prems(1) by (simp add: table_ok_def)
  have look: "map_of db1 = (map_of db)(h \<mapsto> hardcoded_checkpoint h str)" unfolding db1_def by (rule map_of_omap_set [OF inv])
  have "table_ok db1"
    using Cons.prems(1) by (auto simp: db1_def table_ok_def omap.entries_upd omap_inv_set hardcoded_checkpoint_def)
  moreover have "distinct (map fst rows)" "\<forall>(_, str) \<in> set rows. hex_to_pod 32 (string_bytes str) \<noteq> None" using Cons.prems by auto
  moreover have "\<forall>(k, _) \<in> set rows. map_of db1 k = None"
    unfolding look using Cons.prems(2,3) by (force simp: row)
  ultimately obtain db' where db': "foldE (\<lambda>(height, str) (ok, ck). if \<not> ok then Inr (False, ck) else add_checkpoint height (string_bytes str) ck) rows
      (True, ck\<lparr>ck_db := Some db1\<rparr>) = Inr (True, ck\<lparr>ck_db := Some db'\<rparr>)" "table_ok db'"
    "\<And>x. map_of db' x = (case map_of rows x of Some str \<Rightarrow> Some (hardcoded_checkpoint x str) | None \<Rightarrow> map_of db1 x)"
    using Cons.IH [of db1 "ck\<lparr>ck_db := Some db1\<rparr>"] by auto
  have "add_checkpoint h (string_bytes str) ck = Inr (True, ck\<lparr>ck_db := Some db1\<rparr>)"
    unfolding db1_def using Cons.prems(3,4,5) by (intro add_hardcoded) (auto simp: row)
  moreover have "map_of rows h = None" using Cons.prems(2) by (simp add: row map_of_eq_None_iff)
  ultimately show ?case using db' by (intro exI [of _ db']) (auto simp: row look split: option.splits)
qed

lemma hex_pairs_total: "\<forall>b \<in> set bs. isx ! unat b \<noteq> 0xff \<Longrightarrow> hex_pairs bs \<noteq> None"
  by (induction bs rule: hex_pairs.induct) (auto simp: Let_def)

lemma hex_string_parses:
  assumes "length str = 64" and "set str \<subseteq> set ''0123456789abcdef''"
  shows "hex_to_pod 32 (string_bytes str) \<noteq> None"
proof -
  have "list_all (\<lambda>c. isx ! of_char c \<noteq> 0xff) ''0123456789abcdef''" by code_simp
  then have "isx ! of_char c \<noteq> 0xff" if "c \<in> set str" for c using assms(2) that unfolding list_all_iff by blast
  moreover have "unat (of_nat (of_char c) :: u8) = of_char c" for c :: char
    using nat_of_char_less_256 [of c] by (simp add: unat_of_nat)
  ultimately have "hex_pairs (string_bytes str) \<noteq> None" by (intro hex_pairs_total) auto
  then show ?thesis using assms(1) by (simp add: hex_to_pod_def parse_hexstr_to_binbuff_def)
qed

lemma hardcoded_rows_parse:
  "\<forall>(_, str) \<in> set HARDCODED_MAINNET_CHECKPOINTS. hex_to_pod 32 (string_bytes str) \<noteq> None"
proof -
  have "list_all (\<lambda>(_, str). length str = 64 \<and> set str \<subseteq> set ''0123456789abcdef'') HARDCODED_MAINNET_CHECKPOINTS"
    by (simp add: HARDCODED_MAINNET_CHECKPOINTS_def)
  then show ?thesis using hex_string_parses unfolding list_all_iff by fast
qed

lemma init_empty_store:
  "\<exists>ck db. checkpoints_init MAINNET False [] = Inr (True, ck) \<and> ck_db ck = Some db \<and> table_ok db \<and>
    (\<forall>x. map_of db x = (case map_of HARDCODED_MAINNET_CHECKPOINTS x of Some str \<Rightarrow> Some (hardcoded_checkpoint x str) | None \<Rightarrow> None))"
proof -
  let ?ck = "\<lparr>ck_nettype = MAINNET, ck_last_cull_height = 0, ck_immutable_height = 0, ck_db = Some []\<rparr>"
  have "distinct (map fst HARDCODED_MAINNET_CHECKPOINTS)" by (simp add: HARDCODED_MAINNET_CHECKPOINTS_def)
  from add_hardcoded_rows [OF _ this _ hardcoded_rows_parse, of "[]" ?ck]
  obtain db where rows: "foldE (\<lambda>(height, str) (ok, ck). if \<not> ok then Inr (False, ck) else add_checkpoint height (string_bytes str) ck)
      HARDCODED_MAINNET_CHECKPOINTS (True, ?ck) = Inr (True, ?ck\<lparr>ck_db := Some db\<rparr>)" "table_ok db"
    "\<And>x. map_of db x = (case map_of HARDCODED_MAINNET_CHECKPOINTS x of Some str \<Rightarrow> Some (hardcoded_checkpoint x str) | None \<Rightarrow> map_of [] x)"
    by (simp add: table_ok_def [of "[]"]) blast
  then show ?thesis
    by (intro exI [of _ "?ck\<lparr>ck_db := Some db\<rparr>"] exI [of _ db]) (simp add: checkpoints_init_def split: option.splits)
qed

text \<open>
  A new node on the main network. Every hard-coded hash parses and no height is listed twice, so that \<open>init\<close> on an
  empty store succeeds; afterwards the table is in order, and a block at a listed height passes exactly with the
  listed hash, while any other height is unrestricted.
\<close>

theorem init_stores_hardcoded:
  "\<exists>ck. checkpoints_init MAINNET False [] = Inr (True, ck) \<and> ck_ok ck \<and>
    (\<forall>x h. check_block x h ck =
      (case map_of HARDCODED_MAINNET_CHECKPOINTS x of
         None \<Rightarrow> (True, False, False)
       | Some str \<Rightarrow> (hex_to_pod 32 (string_bytes str) = Some h, True, False)))"
proof -
  obtain db ck where db: "checkpoints_init MAINNET False [] = Inr (True, ck)" "ck_db ck = Some db" "table_ok db"
    "\<And>x. map_of db x = (case map_of HARDCODED_MAINNET_CHECKPOINTS x of Some str \<Rightarrow> Some (hardcoded_checkpoint x str) | None \<Rightarrow> None)"
    using init_empty_store by blast
  have "map_of HARDCODED_MAINNET_CHECKPOINTS 0 \<noteq> None" by (simp add: HARDCODED_MAINNET_CHECKPOINTS_def)
  then have "ck_ok ck" using db(2-4) by (auto simp: ck_ok_def)
  moreover have "hex_to_pod 32 (string_bytes str) \<noteq> None" if "map_of HARDCODED_MAINNET_CHECKPOINTS x = Some str" for x str
    using hardcoded_rows_parse map_of_SomeD [OF that] by fastforce
  ultimately show ?thesis using db(1)
    by (intro exI [of _ ck])
      (auto simp: check_block_def get_checkpoint_def get_block_checkpoint_def db(2,4) hardcoded_checkpoint_def split: option.splits)
qed

lemma init_ok:
  assumes "table_ok db" and "checkpoints_init MAINNET False db = Inr (True, ck')"
  shows "ck_ok ck'"
proof -
  let ?f = "\<lambda>(height, str) (ok, ck). if \<not> ok then Inr (False, ck) else add_checkpoint height (string_bytes str) ck"
  let ?ck = "\<lparr>ck_nettype = MAINNET, ck_last_cull_height = 0, ck_immutable_height = 0, ck_db = Some db\<rparr>"
  obtain str rows where rows: "HARDCODED_MAINNET_CHECKPOINTS = (0, str) # rows" by (simp add: HARDCODED_MAINNET_CHECKPOINTS_def)
  obtain ok ck1 where first: "add_checkpoint 0 (string_bytes str) ?ck = Inr (ok, ck1)"
    and rest: "foldE ?f rows (ok, ck1) = Inr (True, ck')"
    using assms(2) by (auto simp: checkpoints_init_def rows bindE_eq_Inr)
  have "ck_ok ck1"
  proof (cases "map_of db 0")
    case None
    then have "ck1 = ?ck\<lparr>ck_db := Some (omap_set 0 (hardcoded_checkpoint 0 str) db)\<rparr>"
      using add_hardcoded [of ?ck db 0 str] hardcoded_rows_parse first by (simp add: rows)
    moreover have "omap_inv db" using assms(1) by (simp add: table_ok_def)
    moreover have "table_ok (omap_set 0 (hardcoded_checkpoint 0 str) db)"
      using assms(1) by (auto simp: table_ok_def omap.entries_upd omap_inv_set hardcoded_checkpoint_def)
    ultimately show ?thesis by (simp add: ck_ok_def map_of_omap_set)
  next
    case (Some c)
    then have "ck1 = ?ck" using first
      by (auto simp: add_checkpoint_def get_checkpoint_def get_block_checkpoint_def split: option.splits)
    then show ?thesis using assms(1) Some by (simp add: ck_ok_def)
  qed
  have "case (True, ck') of (_, ck) \<Rightarrow> ck_ok ck"
  proof (rule foldE_invariant [OF rest])
    show "case s' of (_, ck) \<Rightarrow> ck_ok ck" if "case s of (_, ck) \<Rightarrow> ck_ok ck" "?f x s = Inr s'" for x s s'
      using that genesis_kept_add by (cases s; cases s'; cases x) (fastforce split: if_splits)
  qed (simp add: \<open>ck_ok ck1\<close>)
  then show ?thesis by simp
qed

section \<open>Finality\<close>

text \<open>
  (C5) Finality is not undone on the main network. Take any store in order, opened for writing by \<open>init\<close>, and
  let anything happen to the checkpoints (blocks added or detached, checkpoints stored, questions about
  alternative blocks). Once the node has asked about an alternative block while the chain had the immutable
  checkpoint \<open>c\<close>, then whatever happens to the checkpoints afterwards, no alternative block at or below the
  height of \<open>c\<close> is allowed any more. (The other networks have no checkpoint of the first block; there it can be
  undone, see \<open>finality_lost_off_mainnet\<close>.)
\<close>

theorem finality_kept:
  assumes "table_ok db0" and "checkpoints_init MAINNET False db0 = Inr (True, ck0)" and "ck_step\<^sup>*\<^sup>* ck0 ck"
    and "ck_db ck = Some db" and "get_immutable_checkpoint blockchain_height db = Some c"
    and "is_alternative_block_allowed blockchain_height asked_height ck = (allowed, sn, ck1)" and "asked_height \<noteq> 0"
    and "ck_step\<^sup>*\<^sup>* ck1 ck2" and "block_height \<le> cp_height c"
  shows "\<not> fst (is_alternative_block_allowed later_height block_height ck2)"
proof (cases "block_height = 0")
  case False
  have "ck_ok ck" using ck_steps_keep [OF assms(3) init_ok [OF assms(1,2)]] by blast
  note a = alternative_refused_iff [OF this assms(6,7)]
  then have "cp_height c \<le> ck_immutable_height ck1" using assms(4,5) by (auto simp: immutable_height_at_def)
  moreover have k: "ck_ok ck2" "ck_immutable_height ck1 \<le> ck_immutable_height ck2"
    using ck_steps_keep [OF assms(8)] a by auto
  moreover obtain allowed' sn' ck3 where q: "is_alternative_block_allowed later_height block_height ck2 = (allowed', sn', ck3)"
    using prod_cases3 by blast
  moreover have "ck_immutable_height ck2 \<le> ck_immutable_height ck3" "allowed' \<longleftrightarrow> ck_immutable_height ck3 < block_height"
    using alternative_refused_iff [OF k(1) q False] by auto
  ultimately show ?thesis using assms(9) by auto
qed (simp add: is_alternative_block_allowed_def)

text \<open>
  On the other networks the checkpoints are those of service nodes, at multiples of four. When a detach goes
  below all of them, as an administrator popping blocks can make it, the store is empty, and a question about an
  alternative block is answered before the immutable height is looked at: every height above 0 is allowed, however
  high the immutable height has been.
\<close>

theorem finality_lost_off_mainnet:
  assumes "table_ok db" and "ck_db ck = Some db" and "\<forall>(k, _) \<in> set db. height \<le> k \<and> 4 \<le> k \<and> unat k mod 4 = 0" and "block_height \<noteq> 0"
  shows "\<exists>ck'. checkpoints_detached height ck = Inr ck' \<and> ck_immutable_height ck' = ck_immutable_height ck \<and>
    is_alternative_block_allowed later_height block_height ck' = (True, False, ck')"
proof (cases "db = []")
  case True
  then show ?thesis using assms(2,4)
    by (simp add: checkpoints_detached_def get_top_checkpoint_def is_alternative_block_allowed_def get_checkpoints_range_def Let_def)
next
  case False
  then have last: "last db \<in> set db" by simp
  have top: "get_max_height ck = fst (last db)"
    using assms(1,2) False last by (cases "last db") (auto simp: get_max_height_def get_top_checkpoint_def table_ok_def)
  have "unat (get_max_height ck) mod 4 = 0" using assms(3) last by (auto simp: top case_prod_beta)
  moreover have "k \<le> get_max_height ck" if "(k, c) \<in> set db" for k c using last_is_greatest [OF assms(1) that] by (simp add: top)
  ultimately have "filter (\<lambda>(k, _). \<not> (height \<le> k \<and> 4 \<le> k \<and> k \<le> get_max_height ck \<and> unat k mod 4 = unat (get_max_height ck) mod 4)) db = []"
    using assms(3) by (fastforce simp: filter_empty_conv)
  then show ?thesis using assms(4) checkpoints_detached_eq [OF assms(2) False, of height]
    by (simp add: is_alternative_block_allowed_def get_checkpoints_range_def Let_def)
qed

section \<open>Examples\<close>

definition sample_checkpoint :: "u64 \<Rightarrow> voter_to_signature list \<Rightarrow> checkpoint_t" where
  "sample_checkpoint height sigs =
    \<lparr>cp_version = 0, cp_type = (if sigs = [] then hardcoded else service_node), cp_height = height,
     cp_block_hash = replicate 32 7, cp_signatures = sigs, cp_prev_height = 0\<rparr>"

definition sample_sigs :: "voter_to_signature list" where
  "sample_sigs = [\<lparr>vs_voter_index = 1, vs_signature = replicate 64 5\<rparr>]"

text \<open>Checkpoints of service nodes at 4 and 8 between hard-coded ones at 0 and 10.\<close>

definition sample_table :: checkpoint_table where
  "sample_table = [(0, sample_checkpoint 0 []), (4, sample_checkpoint 4 sample_sigs), (8, sample_checkpoint 8 sample_sigs),
     (10, sample_checkpoint 10 [])]"

definition sample_checkpoints :: checkpoints where
  "sample_checkpoints = \<lparr>ck_nettype = TESTNET, ck_last_cull_height = 0, ck_immutable_height = 0, ck_db = Some sample_table\<rparr>"

lemma sample_table_ok: "table_ok sample_table" "ck_db sample_checkpoints = Some sample_table" "ck_ok sample_checkpoints"
  "get_max_height sample_checkpoints = 10"
  by (simp_all add: table_ok_def sample_table_def sample_checkpoint_def sample_checkpoints_def ck_ok_def get_max_height_def
      get_top_checkpoint_def)

theorem immutable_checkpoint_correct_witness:
  "get_immutable_checkpoint 9 sample_table = Some (sample_checkpoint 4 sample_sigs)"
  using immutable_checkpoint_correct [OF sample_table_ok(1), of 9]
  by (simp add: sample_table_def sample_checkpoint_def sample_sigs_def)

theorem detach_exact_witness:
  "\<exists>ck'. checkpoints_detached 5 sample_checkpoints = Inr ck' \<and> get_checkpoint 10 ck' = None \<and>
    get_checkpoint 8 ck' = Some (sample_checkpoint 8 sample_sigs)"
proof -
  from detach_exact [OF sample_table_ok(1,2), of 5] obtain ck' where d: "checkpoints_detached 5 sample_checkpoints = Inr ck'"
    "\<And>x. get_checkpoint x ck' = (if 5 \<le> x \<and> 4 \<le> x \<and> x \<le> 10 \<and> unat x mod 4 = unat (10 :: u64) mod 4 then None
       else get_checkpoint x sample_checkpoints)" unfolding sample_table_ok(4) by blast
  have "get_checkpoint 10 ck' = None" "get_checkpoint 8 ck' = Some (sample_checkpoint 8 sample_sigs)"
    by (simp_all add: d(2)) (simp add: get_checkpoint_def get_block_checkpoint_def sample_table_ok(2) sample_table_def)
  with d(1) show ?thesis by blast
qed

definition sample_block_at :: "u64 \<Rightarrow> block" where
  "sample_block_at height = \<lparr>hdr_major_version = 17, hdr_minor_version = 17, hdr_timestamp = 0, hdr_prev_id = null_hash, hdr_nonce = 0,
     miner_tx = null_transaction_prefix\<lparr>vin := [txin_gen height]\<rparr>, tx_hashes = []\<rparr>"

theorem block_added_culls_witness:
  "\<exists>ck'. checkpoints_block_added (sample_block_at 100) (Some (sample_checkpoint 100 sample_sigs)) sample_checkpoints = Inr (True, ck') \<and>
    get_checkpoint 4 ck' = None \<and> get_checkpoint 10 ck' = Some (sample_checkpoint 10 []) \<and>
    get_checkpoint 100 ck' = Some (sample_checkpoint 100 sample_sigs)"
proof -
  have h: "get_block_height (sample_block_at 100) = 100" by (simp add: sample_block_at_def get_block_height_def)
  have "get_checkpoints_range 101 0 2 sample_table = take 2 (map snd (rev (filter (\<lambda>(k, _). k \<le> 101) sample_table)))"
    by (rule range_down [OF sample_table_ok(1)]) (simp_all add: sample_table_def)
  then have i: "immutable_height_at 101 sample_table = 10"
    by (simp add: immutable_height_at_def get_immutable_checkpoint_def CHECKPOINT_NUM_CHECKPOINTS_FOR_CHAIN_FINALITY_def)
      (simp add: sample_table_def sample_checkpoint_def)
  have c: "convert_mdb_val_to_checkpoint (sample_checkpoint 100 sample_sigs) = sample_checkpoint 100 sample_sigs"
    and ch: "cp_height (sample_checkpoint 100 sample_sigs) = 100" "length (cp_signatures (sample_checkpoint 100 sample_sigs)) \<le> 20000"
    by (simp_all add: convert_mdb_val_to_checkpoint_def sample_checkpoint_def sample_sigs_def)
  have pre: "60 \<le> get_block_height (sample_block_at 100)" "16 \<le> hdr_major_version (sample_block_at 100)"
    "unat (immutable_height_at (get_block_height (sample_block_at 100) + 1) sample_table) + 4 < 2 ^ 64"
    by (simp_all add: h i) (simp add: sample_block_at_def)
  have s: "max (ck_last_cull_height sample_checkpoints) (cull_start 10) = 0"
    by (simp add: sample_checkpoints_def cull_start_def)
  have g: "immutable_height_at (get_block_height (sample_block_at 100) + 1) sample_table = 10" by (simp add: h i)
  from block_added_culls [OF sample_table_ok(1,2) pre ch(2)]
  obtain ck' where r: "checkpoints_block_added (sample_block_at 100) (Some (sample_checkpoint 100 sample_sigs)) sample_checkpoints = Inr (True, ck')"
    "\<And>x. get_checkpoint x ck' = (if x = 100 then Some (sample_checkpoint 100 sample_sigs)
      else if 0 \<le> x \<and> x < 10 \<and> unat x mod 4 = unat (0 :: u64) mod 4 \<and> x mod 60 \<noteq> 0 then None
      else get_checkpoint x sample_checkpoints)" unfolding c ch(1) g s by blast
  have "get_checkpoint 4 ck' = None" "get_checkpoint 10 ck' = Some (sample_checkpoint 10 [])"
    "get_checkpoint 100 ck' = Some (sample_checkpoint 100 sample_sigs)"
    by (simp_all add: r(2)) (simp add: get_checkpoint_def get_block_checkpoint_def sample_table_ok(2) sample_table_def)
  with r(1) show ?thesis by blast
qed

lemma omap_unique:
  assumes "omap_inv m" and "omap_inv m'" and "map_of m = map_of m'"
  shows "m = m'"
proof -
  note d = assms(1,2) [THEN omap_inv_distinct]
  have eq: "set m = set m'" using map_of_inject_set [OF d] assms(3) by blast
  have "sorted (map fst m)" "sorted (map fst m')" using assms(1,2) by (simp_all add: strict_sorted_imp_sorted)
  then show ?thesis using d eq by (intro map_sorted_distinct_set_unique [of fst m m']) (simp_all add: distinct_map)
qed

lemma hardcoded_table:
  assumes "table_ok db" and "\<And>x. map_of db x = (case map_of HARDCODED_MAINNET_CHECKPOINTS x of
    Some str \<Rightarrow> Some (hardcoded_checkpoint x str) | None \<Rightarrow> None)"
  shows "db = map (\<lambda>(h, str). (h, hardcoded_checkpoint h str)) HARDCODED_MAINNET_CHECKPOINTS" (is "db = ?db")
proof -
  have inv: "omap_inv db" "omap_inv ?db" using assms(1) by (simp_all add: table_ok_def HARDCODED_MAINNET_CHECKPOINTS_def)
  have "map_of (map (\<lambda>(h, str). (h, hardcoded_checkpoint h str)) rows) x =
      (case map_of rows x of Some str \<Rightarrow> Some (hardcoded_checkpoint x str) | None \<Rightarrow> None)" for rows x
    by (induction rows) auto
  then have "map_of db = map_of ?db" using assms(2) by (intro ext) simp
  then show ?thesis by (rule omap_unique [OF inv])
qed

theorem finality_kept_witness:
  "\<exists>ck0 allowed sn ck1 ck2. checkpoints_init MAINNET False [] = Inr (True, ck0) \<and>
    is_alternative_block_allowed 1800000 1800001 ck0 = (allowed, sn, ck1) \<and> checkpoints_detached 1700000 ck1 = Inr ck2 \<and>
    \<not> fst (is_alternative_block_allowed 1900000 1784352 ck2)"
proof -
  obtain db ck0 where init: "checkpoints_init MAINNET False [] = Inr (True, ck0)" "ck_db ck0 = Some db" "table_ok db"
    "db = map (\<lambda>(h, str). (h, hardcoded_checkpoint h str)) HARDCODED_MAINNET_CHECKPOINTS"
    using init_empty_store hardcoded_table by blast
  have "get_checkpoints_range 1800000 0 2 db = take 2 (map snd (rev (filter (\<lambda>(k, _). k \<le> 1800000) db)))"
    by (rule range_down [OF init(3)]) (simp_all add: init(4) HARDCODED_MAINNET_CHECKPOINTS_def)
  then obtain c where c: "get_immutable_checkpoint 1800000 db = Some c" "cp_height c = 1784352"
    by (simp add: get_immutable_checkpoint_def CHECKPOINT_NUM_CHECKPOINTS_FOR_CHAIN_FINALITY_def init(4)
        HARDCODED_MAINNET_CHECKPOINTS_def hardcoded_checkpoint_def)
  obtain allowed sn ck1 where q: "is_alternative_block_allowed 1800000 1800001 ck0 = (allowed, sn, ck1)" by (metis prod_cases3)
  have empty: "table_ok []" by (simp add: table_ok_def)
  have "ck_ok ck1" using alternative_refused_iff [OF init_ok [OF empty init(1)] q] by simp
  then obtain db1 where db1: "ck_db ck1 = Some db1" "map_of db1 0 \<noteq> None" by (auto simp: ck_ok_def)
  have "db1 \<noteq> []" using db1(2) by auto
  from checkpoints_detached_eq [OF db1(1) this] obtain ck2 where d: "checkpoints_detached 1700000 ck1 = Inr ck2" by blast
  have "ck_step\<^sup>*\<^sup>* ck1 ck2" using detached [OF d] by blast
  then have "\<not> fst (is_alternative_block_allowed 1900000 1784352 ck2)"
    by (rule finality_kept [OF empty init(1) rtranclp.rtrancl_refl init(2) c(1) q, rotated]) (simp_all add: c(2))
  with init(1) q d show ?thesis by blast
qed

end
