(* ===== verification/Spec2Isabelle.thy ===== *)
theory Spec2Isabelle
  imports Swarm Reward Address Pruning Sn_History Checkpoints
begin

text \<open>
  A verification library for the Arqma node: the consensus code under \<open>src/src\<close> that decides which
  blocks are accepted, which service nodes exist, who votes and who is paid.

  \<^bold>\<open>The program.\<close> A block carries a header, a coinbase transaction and transactions whose \<open>extra\<close>
  bytes hold tagged fields. The proof of work of a block is compared with a difficulty computed from
  the recent timestamps; the rules in force depend on the hard-fork state. From fork 16 on, service
  nodes register and contribute by transactions, are drawn into quorums and swarms by a seeded
  generator, vote on each other and on checkpoints, and take turns in receiving a share of the
  coinbase. The components below are listed bottom up; each calls only the ones before it.

  \<^bold>\<open>Theories.\<close>
  \<^item> \<open>Prelude\<close>: words, bytes, and the outcome type. \<open>Out_of_range\<close> and \<open>Exception\<close> are C++ exceptions,
    \<open>Undefined\<close> an undefined access or division, \<open>Diverges\<close> a loop that does not end; \<open>bindE\<close>,
    \<open>foldE\<close> and \<open>whileE\<close> sequence fallible code.
  \<^item> \<open>Int_Util\<close> (\<open>contrib/epee/include/int-util.h\<close>): the 128-bit multiplication and the long
    divisions compute the product, quotient and remainder of the numbers their words stand for.
  \<^item> \<open>Difficulty\<close> (\<open>cryptonote_basic/difficulty.cpp\<close>): \<open>check_hash\<close> accepts exactly the hashes whose
    product with the difficulty fits 256 bits; the retargeting routines against their formula, their
    clamps, and what \<open>next_difficulty_v16\<close> returns where its 64-bit product wraps around.
  \<^item> \<open>Hardfork\<close> (\<open>cryptonote_basic/hardfork.cpp\<close>): the class as a record with every operation, an
    inductive reachability relation and its invariant, activation of a fork, and the fork tables.
  \<^item> \<open>Containers\<close>: \<open>std::map\<close> and \<open>std::unordered_map\<close> as instances of one interface.
  \<^item> \<open>Mt_Random\<close> (\<open>common/random.{h,cpp}\<close>): the Mersenne twister, rejection sampling and the shuffle,
    both shown unbiased by counting the outputs of the generator that lead to a result.
  \<^item> \<open>Swarm\<close> (\<open>service_node_swarm.cpp\<close>): a round of the assignment keeps every node exactly once;
    two kinds of input outside its bounds, on which nodes are lost or the round throws.
  \<^item> \<open>Sn_Rules\<close> (\<open>service_node_rules.{h,cpp}\<close>): quorum constants, staking requirement, portions.
  \<^item> \<open>Serialization\<close>, \<open>Tx_Types\<close>, \<open>Tx_Extra\<close> (\<open>common/varint.h\<close>, \<open>serialization/\<close>,
    \<open>cryptonote_basic.h\<close>, \<open>tx_extra.h\<close>, \<open>cryptonote_format_utils.cpp\<close>): the binary form of integers,
    transactions, block headers and extra fields, with round trips through the interface \<open>codec\<close>.
  \<^item> \<open>Voting\<close> (\<open>service_node_voting.cpp\<close>): verification of votes, and the voting pool, which refines
    a set of votes per subject.
  \<^item> \<open>Pulse\<close> (\<open>pulse.cpp\<close>): rounds, leaders, certificates and the collector of votes; two
    certificates of one quorum share a signer.
  \<^item> \<open>Sn_List\<close>, \<open>Sn_Update\<close> (\<open>service_node_list.cpp\<close>): the nodes and the transactions that change
    them; a block updates the state without fault, keeps the accounts (\<open>nodes_ok\<close>) and every active node in
    a swarm (\<open>all_in_swarms\<close>) and draws quorums that the vote verification can use; the reward queue serves every node in turn.
  \<^item> \<open>Sn_History\<close> (\<open>service_node_list.cpp\<close>): the states kept of recent blocks. The history is a gapless
    window of 359 heights, so that a quorum stays at hand; detaching blocks restores the state of the
    fork, and after a failed switch the original blocks lead to the same state again; the replay of the
    stored chain ends at its tip. Two cases in which detaching falls short are proved as they are.
  \<^item> \<open>Reward\<close> (\<open>cryptonote_tx_utils.cpp\<close>, \<open>cryptonote_basic_impl.cpp\<close>, \<open>blockchain.cpp\<close>): the coinbase
    that a miner constructs is accepted, and an accepted one pays no more than it may, to the keys it has to.
  \<^item> \<open>Base58\<close>, \<open>Address\<close> (\<open>common/base58.cpp\<close>, \<open>cryptonote_basic_impl.cpp\<close>, \<open>contrib/epee/src/hex.cpp\<close>):
    encoding and decoding are total and exact inverses; a printed address is read back on its network
    and rejected on the others.
  \<^item> \<open>Checkpoints\<close> (\<open>checkpoints/checkpoints.cpp\<close>, the table of checkpoints in \<open>blockchain_db/\<close>): the queries
    find the immutable checkpoint, what adding and detaching blocks removes, and finality on the main network: an
    alternative block below a checkpoint that was immutable once is never allowed again. On the other
    networks, which lack the checkpoint of the first block, it can be.
  \<^item> \<open>Pruning\<close> (\<open>common/pruning.{h,cpp}\<close>): the next kept and the next pruned height are what they claim.

  \<^bold>\<open>Correspondence.\<close> A C++ class or struct is a record, an enumeration or variant a datatype, an
  integer of fixed width a word, a plain-data key or hash a list of bytes, a method a function that
  returns the updated object. Names are those of the source, with a prefix where a field name would
  clash. Locks, logging and asserts compiled out of release builds are left out.

  \<^bold>\<open>Parameters and hypotheses.\<close> Hashing, signatures, key derivation and ring signatures are records
  of functions (\<open>crypto_ops\<close>, \<open>stake_ops\<close>, \<open>coinbase_ops\<close>), with a concrete sample of each for the
  witnesses. The record \<open>sn_env\<close> adds what the history of the service node list asks of the chain: the
  version of a height and the immutable checkpoint. Where a loop waits for the generator, \<open>fair\<close> asks that it again and again yields a small
  value, which a counter does. The hypotheses on states (\<open>nodes_ok\<close>, \<open>all_in_swarms\<close>, \<open>history_ok\<close>, \<open>round_ok\<close>) are
  invariants that the empty state satisfies and the operations keep, or bounds on heights and sizes
  that keep 64-bit sums from wrapping.

  \<^bold>\<open>Not modelled.\<close> Floating-point code (\<open>next_difficulty_lwma\<close>, the percentage conversions); the
  elliptic-curve, hash and proof-of-work primitives and ring confidential transactions; the LMDB
  storage engine beyond the table of checkpoints, and with it loading and storing the service node list; addresses looked up in DNS;
  the network, RPC, daemon and wallet layers, which are I/O around the components.
\<close>

end
